(* ===== verification/Bolt_Prelude.thy ===== *)
theory Bolt_Prelude
  imports Main "HOL-Library.Multiset"
begin

text \<open>
  Shared material: the error values of the engine (\<^verbatim>\<open>BOLT_CHECK\<close>, \<^verbatim>\<open>BOLT_UNSUPPORTED\<close>,
  \<^verbatim>\<open>BOLT_UNREACHABLE\<close> and undefined behaviour of C++), results as a sum type with their
  sequencing, 64-bit signed arithmetic with overflow written out, and generic lemmas on
  sorted lists that model the standard algorithms the sources call
  (\<^verbatim>\<open>std::lower_bound\<close>, \<^verbatim>\<open>std::min_element\<close>, sorting).
\<close>

named_theorems int64_defs \<open>limits of the fixed-width integer types\<close>
named_theorems result_simps \<open>rewriting of results of fallible code\<close>

section \<open>Results of fallible code\<close>

datatype bolt_error =
    CheckFailed          \<comment> \<open>a failing BOLT_CHECK: a BoltRuntimeError is thrown\<close>
  | Unsupported          \<comment> \<open>BOLT_UNSUPPORTED\<close>
  | UnreachableCode      \<comment> \<open>BOLT_UNREACHABLE\<close>
  | UndefinedBehaviour   \<comment> \<open>signed overflow, dereferencing an end iterator\<close>
  | UserError            \<comment> \<open>BOLT_USER_FAIL: a BoltUserError is thrown\<close>
  | BadOptionalAccess    \<comment> \<open>\<open>value()\<close> of an empty optional\<close>
  | Base64Exception      \<comment> \<open>bolt::encoding::Base64Exception\<close>
  | LengthError          \<comment> \<open>std::length_error: a string would become too long\<close>
  | OutOfFuel            \<comment> \<open>the bound on the call depth of a model was too small\<close>

type_synonym 'a result = "bolt_error + 'a"

definition bindR :: "'a result \<Rightarrow> ('a \<Rightarrow> 'b result) \<Rightarrow> 'b result" where
  "bindR x f = (case x of Inl e \<Rightarrow> Inl e | Inr y \<Rightarrow> f y)"

definition checkR :: "bool \<Rightarrow> 'a result \<Rightarrow> 'a result" where
  "checkR b x = (if b then x else Inl CheckFailed)"

fun mapR :: "('a \<Rightarrow> 'b result) \<Rightarrow> 'a list \<Rightarrow> 'b list result" where
  "mapR f [] = Inr []"
| "mapR f (x # xs) = bindR (f x) (\<lambda>y. bindR (mapR f xs) (\<lambda>ys. Inr (y # ys)))"

lemma bindR_simps [simp]:
  "bindR (Inr y) f = f y"
  "bindR (Inl e) f = Inl e"
  by (simp_all add: bindR_def)

lemma bindR_Inr_iff [result_simps]:
  "bindR x f = Inr z \<longleftrightarrow> (\<exists>y. x = Inr y \<and> f y = Inr z)"
  by (cases x) auto

lemma checkR_simps [simp]:
  "checkR True x = x"
  "checkR False x = Inl CheckFailed"
  by (simp_all add: checkR_def)

lemma checkR_Inr_iff [result_simps]:
  "checkR b x = Inr z \<longleftrightarrow> b \<and> x = Inr z"
  by (simp add: checkR_def)

lemma mapR_Inr_iff:
  "mapR f xs = Inr ys \<longleftrightarrow> list_all2 (\<lambda>x y. f x = Inr y) xs ys"
  by (induction xs arbitrary: ys) (auto simp: bindR_Inr_iff list_all2_Cons1)

lemma mapR_total:
  assumes "\<And>x. x \<in> set xs \<Longrightarrow> \<exists>y. f x = Inr y"
  shows "\<exists>ys. mapR f xs = Inr ys"
  using assms
proof (induction xs)
  case Nil
  then show ?case by simp
next
  case (Cons x xs)
  then obtain y ys where "f x = Inr y" and "mapR f xs = Inr ys"
    by fastforce
  then show ?case by simp
qed

text \<open>
  \<open>anyR\<close> is the loop \<^verbatim>\<open>for (x : xs) if (f(x)) return true; return false\<close> of a test that may throw.
\<close>

fun anyR :: "('a \<Rightarrow> bool result) \<Rightarrow> 'a list \<Rightarrow> bool result" where
  "anyR f [] = Inr False"
| "anyR f (x # xs) = bindR (f x) (\<lambda>b. if b then Inr True else anyR f xs)"

fun filterR :: "('a \<Rightarrow> bool result) \<Rightarrow> 'a list \<Rightarrow> 'a list result" where
  "filterR p [] = Inr []"
| "filterR p (x # xs) =
     bindR (p x) (\<lambda>b. bindR (filterR p xs) (\<lambda>ys. Inr (if b then x # ys else ys)))"

lemma filterR_Inr:
  "(\<And>x. x \<in> set xs \<Longrightarrow> p x = Inr (q x)) \<Longrightarrow> filterR p xs = Inr (filter q xs)"
  by (induction xs) auto

lemma mapR_cong [fundef_cong]:
  "xs = ys \<Longrightarrow> (\<And>x. x \<in> set ys \<Longrightarrow> f x = g x) \<Longrightarrow> mapR f xs = mapR g ys"
  by (induction ys arbitrary: xs) auto

lemma anyR_cong [fundef_cong]:
  "xs = ys \<Longrightarrow> (\<And>x. x \<in> set ys \<Longrightarrow> f x = g x) \<Longrightarrow> anyR f xs = anyR g ys"
  by (induction ys arbitrary: xs) (auto cong: if_cong)

lemma anyR_Inr:
  assumes "\<And>x. x \<in> set xs \<Longrightarrow> f x = Inr (p x)"
  shows "anyR f xs = Inr (\<exists>x \<in> set xs. p x)"
  using assms by (induction xs) auto

section \<open>Fixed-width signed integers\<close>

text \<open>
  A signed integer of the source is an \<open>int\<close>; its width shows where a value is
  narrowed (\<open>to_int32\<close>, \<open>to_int16\<close>: two's complement, as C++20 defines the conversion)
  and where arithmetic can overflow (\<open>add64\<close>, \<open>sub64\<close>: undefined behaviour).
\<close>

definition int64_min :: int where [int64_defs]: "int64_min = - 9223372036854775808"
definition int64_max :: int where [int64_defs]: "int64_max = 9223372036854775807"
definition int32_min :: int where [int64_defs]: "int32_min = - 2147483648"
definition int32_max :: int where [int64_defs]: "int32_max = 2147483647"
definition int16_min :: int where [int64_defs]: "int16_min = - 32768"
definition int16_max :: int where [int64_defs]: "int16_max = 32767"

definition int128_min :: int where [int64_defs]: "int128_min = - 170141183460469231731687303715884105728"
definition int128_max :: int where [int64_defs]: "int128_max = 170141183460469231731687303715884105727"

definition in_int64 :: "int \<Rightarrow> bool" where
  "in_int64 v \<longleftrightarrow> int64_min \<le> v \<and> v \<le> int64_max"

definition to_int32 :: "int \<Rightarrow> int" where
  "to_int32 v = (v + 2147483648) mod 4294967296 - 2147483648"

definition to_int16 :: "int \<Rightarrow> int" where
  "to_int16 v = (v + 32768) mod 65536 - 32768"

definition add64 :: "int \<Rightarrow> int \<Rightarrow> int result" where
  "add64 a b = (if in_int64 (a + b) then Inr (a + b) else Inl UndefinedBehaviour)"

definition sub64 :: "int \<Rightarrow> int \<Rightarrow> int result" where
  "sub64 a b = (if in_int64 (a - b) then Inr (a - b) else Inl UndefinedBehaviour)"

definition in_int128 :: "int \<Rightarrow> bool" where
  "in_int128 v \<longleftrightarrow> int128_min \<le> v \<and> v \<le> int128_max"

definition add128 :: "int \<Rightarrow> int \<Rightarrow> int result" where
  "add128 a b = (if in_int128 (a + b) then Inr (a + b) else Inl UndefinedBehaviour)"

definition sub128 :: "int \<Rightarrow> int \<Rightarrow> int result" where
  "sub128 a b = (if in_int128 (a - b) then Inr (a - b) else Inl UndefinedBehaviour)"

lemma add128_Inr_iff [result_simps]: "add128 a b = Inr c \<longleftrightarrow> c = a + b \<and> in_int128 (a + b)"
  by (auto simp: add128_def)

lemma sub128_Inr_iff [result_simps]: "sub128 a b = Inr c \<longleftrightarrow> c = a - b \<and> in_int128 (a - b)"
  by (auto simp: sub128_def)

lemma add64_Inr_iff [result_simps]: "add64 a b = Inr c \<longleftrightarrow> c = a + b \<and> in_int64 (a + b)"
  by (auto simp: add64_def)

lemma sub64_Inr_iff [result_simps]: "sub64 a b = Inr c \<longleftrightarrow> c = a - b \<and> in_int64 (a - b)"
  by (auto simp: sub64_def)

text \<open>
  The loop \<^verbatim>\<open>for (i = lo; i <= hi; ++i)\<close> over 64-bit integers, as the list of the values of
  \<open>i\<close>: its last increment overflows when \<open>hi\<close> is the largest one.
\<close>

definition loop64 :: "int \<Rightarrow> int \<Rightarrow> int list result" where
  "loop64 lo hi = (if lo \<le> hi \<and> hi \<ge> int64_max then Inl UndefinedBehaviour else Inr [lo..hi])"

lemma loop64_Inr_iff [result_simps]:
  "loop64 lo hi = Inr xs \<longleftrightarrow> xs = [lo..hi] \<and> (hi < lo \<or> hi < int64_max)"
  by (auto simp: loop64_def)

lemma to_int32_id: "int32_min \<le> v \<Longrightarrow> v \<le> int32_max \<Longrightarrow> to_int32 v = v"
  by (simp add: to_int32_def int64_defs)

lemma to_int16_id: "int16_min \<le> v \<Longrightarrow> v \<le> int16_max \<Longrightarrow> to_int16 v = v"
  by (simp add: to_int16_def int64_defs)

section \<open>Sorted vectors\<close>

text \<open>
  \<open>lower_bound xs v\<close> is the part of the vector from the iterator that
  \<^verbatim>\<open>std::lower_bound\<close> returns: the suffix that starts at the first element not less
  than \<open>v\<close>.
\<close>

definition lower_bound :: "'a::linorder list \<Rightarrow> 'a \<Rightarrow> 'a list" where
  "lower_bound xs v = dropWhile (\<lambda>x. x < v) xs"

lemma lower_bound_set:
  "sorted xs \<Longrightarrow> set (lower_bound xs v) = {x \<in> set xs. v \<le> x}"
  unfolding lower_bound_def by (induction xs) (auto simp: not_less)

lemma sorted_lower_bound [simp]: "sorted xs \<Longrightarrow> sorted (lower_bound xs v)"
  unfolding lower_bound_def by (rule sorted_dropWhile)

lemma distinct_lower_bound [simp]: "distinct xs \<Longrightarrow> distinct (lower_bound xs v)"
  unfolding lower_bound_def by (rule distinct_dropWhile)

lemma lower_bound_Cons_iff:
  assumes "sorted xs"
  shows "lower_bound xs v = y # ys \<Longrightarrow> y \<in> set xs \<and> v \<le> y \<and> (\<forall>x \<in> set xs. v \<le> x \<longrightarrow> y \<le> x)"
proof -
  assume eq: "lower_bound xs v = y # ys"
  then have s: "sorted (y # ys)" using assms sorted_lower_bound by metis
  have "{x \<in> set xs. v \<le> x} = set (y # ys)" using lower_bound_set [OF assms, of v] eq by simp
  then show ?thesis using s by auto
qed

lemma lower_bound_Nil_iff:
  "sorted xs \<Longrightarrow> lower_bound xs v = [] \<longleftrightarrow> (\<forall>x \<in> set xs. x < v)"
  by (simp add: lower_bound_def)

end
