(* ===== verification/Filter_Base.thy ===== *)
theory Filter_Base
  imports Bolt_Prelude "HOL-Library.List_Lexorder" "HOL-Library.Char_ord"
begin

text \<open>
  The filter classes of \<^verbatim>\<open>bolt/type/filter/FilterBase.h\<close> and their tests in \<^verbatim>\<open>Filter.cpp\<close>.
  A class is a record of its members; its constructor is a function \<open><Class>_new\<close> that
  returns an error where the C++ constructor throws. The virtual methods of a filter are a
  record \<open>filter_methods\<close>; \<open>Filter_methods\<close> holds the defaults of the base class and
  \<open><Class>_methods\<close> updates what the class overrides, so that a call on a filter whose class
  does not override a method is \<open>Unsupported\<close>, as it is in the code.
\<close>

section \<open>Timestamps\<close>

datatype timestamp = Timestamp (ts_seconds: int) (ts_nanos: int)

definition Timestamp_less :: "timestamp \<Rightarrow> timestamp \<Rightarrow> bool" where
  "Timestamp_less a b \<longleftrightarrow>
     ts_seconds a < ts_seconds b \<or> (ts_seconds a = ts_seconds b \<and> ts_nanos a < ts_nanos b)"

definition Timestamp_less_eq :: "timestamp \<Rightarrow> timestamp \<Rightarrow> bool" where
  "Timestamp_less_eq a b \<longleftrightarrow>
     ts_seconds a < ts_seconds b \<or> (ts_seconds a = ts_seconds b \<and> ts_nanos a \<le> ts_nanos b)"

instantiation timestamp :: linorder
begin

definition less_timestamp :: "timestamp \<Rightarrow> timestamp \<Rightarrow> bool" where
  "less_timestamp = Timestamp_less"

definition less_eq_timestamp :: "timestamp \<Rightarrow> timestamp \<Rightarrow> bool" where
  "less_eq_timestamp = Timestamp_less_eq"

instance
  by standard (auto simp: less_timestamp_def less_eq_timestamp_def Timestamp_less_def Timestamp_less_eq_def
      timestamp.expand)

end

definition Timestamp_min :: timestamp where
  "Timestamp_min = Timestamp (- 9223372036854776) 0"

definition Timestamp_max :: timestamp where
  "Timestamp_max = Timestamp 9223372036854775 999999999"

section \<open>Byte strings\<close>

text \<open>
  \<open>memcmp\<close> compares the first \<open>n\<close> bytes; the standard fixes only the sign of its result,
  and so do the callers. The two overloads of \<^verbatim>\<open>compareRanges\<close> differ in how they compare
  lengths: the second one narrows the difference of the sizes to \<^verbatim>\<open>int\<close>.
\<close>

fun memcmp :: "string \<Rightarrow> string \<Rightarrow> nat \<Rightarrow> int" where
  "memcmp (a # as) (b # bs) (Suc n) =
     (if (of_char a :: nat) < of_char b then - 1
      else if (of_char b :: nat) < of_char a then 1
      else memcmp as bs n)"
| "memcmp _ _ _ = 0"

definition compareViews :: "string \<Rightarrow> string \<Rightarrow> int" where
  "compareViews lhs rhs =
     (let size = min (length lhs) (length rhs);
          compare = memcmp lhs rhs size
      in if compare \<noteq> 0 then compare
         else if length lhs < length rhs then - 1
         else if length lhs > length rhs then 1
         else 0)"

definition compareRanges :: "string \<Rightarrow> string \<Rightarrow> int" where
  "compareRanges lhs rhs =
     (let size = min (length lhs) (length rhs);
          compare = memcmp lhs rhs size
      in if compare \<noteq> 0 then compare
         else to_int32 (int (length lhs) - int (length rhs)))"

section \<open>The members of the filter classes\<close>

record bigint_range =
  br_lower :: int
  br_upper :: int
  br_lower32 :: int
  br_upper32 :: int
  br_lower16 :: int
  br_upper16 :: int
  br_isSingleValue :: bool
  br_inInt32Range :: bool
  br_inInt16Range :: bool
  br_nullAllowed :: bool

record bigint_hash =
  bh_min :: int
  bh_max :: int
  bh_hashTable :: "int list"   \<comment> \<open>an F14FastSet, in its iteration order\<close>
  bh_values :: "int list"
  bh_nullAllowed :: bool

record bigint_bitmask =
  bb_bitmask :: "bool list"
  bb_values :: "int list"
  bb_min :: int
  bb_max :: int
  bb_nullAllowed :: bool

record bigint_multi =
  bm_ranges :: "bigint_range list"
  bm_lowerBounds :: "int list"
  bm_nullAllowed :: bool

record hugeint_range =
  hr_lower :: int
  hr_upper :: int
  hr_nullAllowed :: bool

record hugeint_values =
  hv_min :: int
  hv_max :: int
  hv_set :: "int list"
  hv_values :: "int list"
  hv_nullAllowed :: bool

record timestamp_range =
  tr_lower :: timestamp
  tr_upper :: timestamp
  tr_singleValue :: bool
  tr_nullAllowed :: bool

record bytes_range =
  by_lower :: string
  by_upper :: string
  by_lowerUnbounded :: bool
  by_lowerExclusive :: bool
  by_upperUnbounded :: bool
  by_upperExclusive :: bool
  by_singleValue :: bool
  by_nullAllowed :: bool

record bytes_values =
  bv_lower :: string
  bv_upper :: string
  bv_set :: "string list"      \<comment> \<open>an F14FastSet, in its iteration order; value_ lists it\<close>
  bv_lengths :: "nat list"
  bv_isSingleValue :: bool
  bv_nullAllowed :: bool

datatype filter =
    AlwaysFalse
  | AlwaysTrue
  | IsTrue
  | IsNull
  | IsNotNull
  | BoolValue bool bool
  | BigintRange bigint_range
  | NegatedBigintRange bigint_range bool
  | BigintValuesUsingHashTable bigint_hash
  | BigintValuesUsingBitmask bigint_bitmask
  | NegatedBigintValuesUsingHashTable bigint_hash bool
  | NegatedBigintValuesUsingBitmask int int bigint_bitmask bool
  | BigintMultiRange bigint_multi
  | HugeintRange hugeint_range
  | NegatedHugeintRange hugeint_range bool
  | HugeintValuesUsingHashTable hugeint_values
  | TimestampRange timestamp_range
  | NegatedTimestampRange timestamp_range bool
  | BytesRange bytes_range
  | NegatedBytesRange bytes_range bool
  | BytesValues bytes_values
  | NegatedBytesValues bytes_values bool
  | MultiRange "filter list" bool

section \<open>Constructors\<close>

definition BigintRange_new :: "int \<Rightarrow> int \<Rightarrow> bool \<Rightarrow> bigint_range" where
  "BigintRange_new lower upper nullAllowed =
     \<lparr>br_lower = lower,
      br_upper = upper,
      br_lower32 = to_int32 (max lower int32_min),
      br_upper32 = to_int32 (min upper int32_max),
      br_lower16 = to_int16 (max lower int16_min),
      br_upper16 = to_int16 (min upper int16_max),
      br_isSingleValue = (upper = lower),
      br_inInt32Range = (lower \<le> int32_max \<and> upper \<ge> int32_min),
      br_inInt16Range = (lower \<le> int16_max \<and> upper \<ge> int16_min),
      br_nullAllowed = nullAllowed\<rparr>"

definition NegatedBigintRange_new :: "int \<Rightarrow> int \<Rightarrow> bool \<Rightarrow> filter" where
  "NegatedBigintRange_new lower upper nullAllowed =
     NegatedBigintRange (BigintRange_new lower upper (\<not> nullAllowed)) nullAllowed"

definition BigintValuesUsingHashTable_new ::
    "int \<Rightarrow> int \<Rightarrow> int list \<Rightarrow> bool \<Rightarrow> bigint_hash result" where
  "BigintValuesUsingHashTable_new mn mx values nullAllowed =
     checkR (mn < mx)
    (checkR (length values > 1)
    (Inr \<lparr>bh_min = mn, bh_max = mx, bh_hashTable = remdups values,
          bh_values = sort values, bh_nullAllowed = nullAllowed\<rparr>))"

fun bitmask_set :: "int \<Rightarrow> int \<Rightarrow> int list \<Rightarrow> bool list \<Rightarrow> bool list result" where
  "bitmask_set mn mx [] bits = Inr bits"
| "bitmask_set mn mx (v # vs) bits =
     checkR (v \<ge> mn)
    (checkR (v \<le> mx)
    (bitmask_set mn mx vs (bits[nat (v - mn) := True])))"

fun bitmask_values :: "int \<Rightarrow> bool list \<Rightarrow> int list" where
  "bitmask_values v [] = []"
| "bitmask_values v (b # bs) = (if b then v # bitmask_values (v + 1) bs else bitmask_values (v + 1) bs)"

text \<open>
  The constructor fills the bitmask and lists its set bits with an \<^verbatim>\<open>int\<close> index, which overflows
  when the bitmask has \<open>2 ^ 31\<close> bits or more.
\<close>

definition BigintValuesUsingBitmask_new ::
    "int \<Rightarrow> int \<Rightarrow> int list \<Rightarrow> bool \<Rightarrow> bigint_bitmask result" where
  "BigintValuesUsingBitmask_new mn mx values nullAllowed =
     checkR (mn < mx)
    (checkR (length values > 1)
    (bindR (sub64 mx mn) (\<lambda>d. bindR (add64 d 1) (\<lambda>range.
     bindR (bitmask_set mn mx values (replicate (nat range) False)) (\<lambda>bits.
     if range > int32_max then Inl UndefinedBehaviour
     else Inr \<lparr>bb_bitmask = bits, bb_values = bitmask_values mn bits,
               bb_min = mn, bb_max = mx, bb_nullAllowed = nullAllowed\<rparr>)))))"

definition NegatedBigintValuesUsingHashTable_new ::
    "int \<Rightarrow> int \<Rightarrow> int list \<Rightarrow> bool \<Rightarrow> filter result" where
  "NegatedBigintValuesUsingHashTable_new mn mx values nullAllowed =
     bindR (BigintValuesUsingHashTable_new mn mx values (\<not> nullAllowed)) (\<lambda>h.
     Inr (NegatedBigintValuesUsingHashTable h nullAllowed))"

text \<open>The members \<^verbatim>\<open>min_\<close> and \<^verbatim>\<open>max_\<close> of this class are declared \<^verbatim>\<open>int\<close>.\<close>

definition NegatedBigintValuesUsingBitmask_new ::
    "int \<Rightarrow> int \<Rightarrow> int list \<Rightarrow> bool \<Rightarrow> filter result" where
  "NegatedBigintValuesUsingBitmask_new mn mx values nullAllowed =
     checkR (mn \<le> mx)
    (bindR (BigintValuesUsingBitmask_new mn mx values (\<not> nullAllowed)) (\<lambda>b.
     Inr (NegatedBigintValuesUsingBitmask (to_int32 mn) (to_int32 mx) b nullAllowed)))"

fun multi_range_ordered :: "bigint_range list \<Rightarrow> bool" where
  "multi_range_ordered (r # s # rs) \<longleftrightarrow> br_lower s \<ge> br_upper r \<and> multi_range_ordered (s # rs)"
| "multi_range_ordered _ \<longleftrightarrow> True"

definition BigintMultiRange_new :: "bigint_range list \<Rightarrow> bool \<Rightarrow> filter result" where
  "BigintMultiRange_new ranges nullAllowed =
     checkR (ranges \<noteq> [])
    (checkR (length ranges > 1)
    (checkR (multi_range_ordered ranges)
    (Inr (BigintMultiRange
       \<lparr>bm_ranges = ranges, bm_lowerBounds = map br_lower ranges, bm_nullAllowed = nullAllowed\<rparr>))))"

definition HugeintRange_new :: "int \<Rightarrow> int \<Rightarrow> bool \<Rightarrow> hugeint_range" where
  "HugeintRange_new lower upper nullAllowed =
     \<lparr>hr_lower = lower, hr_upper = upper, hr_nullAllowed = nullAllowed\<rparr>"

definition NegatedHugeintRange_new :: "int \<Rightarrow> int \<Rightarrow> bool \<Rightarrow> filter" where
  "NegatedHugeintRange_new lower upper nullAllowed =
     NegatedHugeintRange (HugeintRange_new lower upper (\<not> nullAllowed)) nullAllowed"

definition HugeintValuesUsingHashTable_new ::
    "int \<Rightarrow> int \<Rightarrow> int list \<Rightarrow> bool \<Rightarrow> filter result" where
  "HugeintValuesUsingHashTable_new mn mx values nullAllowed =
     checkR (values \<noteq> [])
    (checkR (mn \<le> mx)
    (Inr (HugeintValuesUsingHashTable
       \<lparr>hv_min = mn, hv_max = mx, hv_set = remdups values, hv_values = values,
        hv_nullAllowed = nullAllowed\<rparr>)))"

text \<open>
  The copy constructor takes the bounds and the list of values over, and leaves the hash set
  that the test looks into default-initialised.
\<close>

definition HugeintValuesUsingHashTable_copy :: "hugeint_values \<Rightarrow> bool \<Rightarrow> hugeint_values" where
  "HugeintValuesUsingHashTable_copy other nullAllowed =
     \<lparr>hv_min = hv_min other, hv_max = hv_max other, hv_set = [], hv_values = hv_values other,
      hv_nullAllowed = nullAllowed\<rparr>"

definition TimestampRange_new :: "timestamp \<Rightarrow> timestamp \<Rightarrow> bool \<Rightarrow> timestamp_range" where
  "TimestampRange_new lower upper nullAllowed =
     \<lparr>tr_lower = lower, tr_upper = upper, tr_singleValue = (lower = upper),
      tr_nullAllowed = nullAllowed\<rparr>"

definition NegatedTimestampRange_new :: "timestamp \<Rightarrow> timestamp \<Rightarrow> bool \<Rightarrow> filter" where
  "NegatedTimestampRange_new lower upper nullAllowed =
     NegatedTimestampRange (TimestampRange_new lower upper (\<not> nullAllowed)) nullAllowed"

definition BytesRange_new ::
    "string \<Rightarrow> bool \<Rightarrow> bool \<Rightarrow> string \<Rightarrow> bool \<Rightarrow> bool \<Rightarrow> bool \<Rightarrow> bytes_range result" where
  "BytesRange_new lower lowerUnbounded lowerExclusive upper upperUnbounded upperExclusive nullAllowed =
     checkR (\<not> lowerUnbounded \<or> \<not> upperUnbounded)
    (Inr \<lparr>by_lower = lower, by_upper = upper,
          by_lowerUnbounded = lowerUnbounded, by_lowerExclusive = lowerExclusive,
          by_upperUnbounded = upperUnbounded, by_upperExclusive = upperExclusive,
          by_singleValue = (\<not> lowerExclusive \<and> \<not> upperExclusive \<and> \<not> lowerUnbounded
                            \<and> \<not> upperUnbounded \<and> lower = upper),
          by_nullAllowed = nullAllowed\<rparr>)"

definition NegatedBytesRange_new ::
    "string \<Rightarrow> bool \<Rightarrow> bool \<Rightarrow> string \<Rightarrow> bool \<Rightarrow> bool \<Rightarrow> bool \<Rightarrow> filter result" where
  "NegatedBytesRange_new lower lowerUnbounded lowerExclusive upper upperUnbounded upperExclusive nullAllowed =
     bindR (BytesRange_new lower lowerUnbounded lowerExclusive upper upperUnbounded upperExclusive nullAllowed)
       (\<lambda>r. Inr (NegatedBytesRange r nullAllowed))"

fun min_element :: "'a::linorder \<Rightarrow> 'a list \<Rightarrow> 'a" where
  "min_element m [] = m"
| "min_element m (x # xs) = min_element (if x < m then x else m) xs"

fun max_element :: "'a::linorder \<Rightarrow> 'a list \<Rightarrow> 'a" where
  "max_element m [] = m"
| "max_element m (x # xs) = max_element (if m < x then x else m) xs"

definition BytesValues_new :: "string list \<Rightarrow> bool \<Rightarrow> bytes_values result" where
  "BytesValues_new values nullAllowed =
     (case remdups values of
        [] \<Rightarrow> Inl CheckFailed
      | v # vs \<Rightarrow>
          Inr \<lparr>bv_lower = min_element v vs, bv_upper = max_element v vs,
               bv_set = v # vs, bv_lengths = remdups (map length values),
               bv_isSingleValue = (length values = 1), bv_nullAllowed = nullAllowed\<rparr>)"

definition NegatedBytesValues_new :: "string list \<Rightarrow> bool \<Rightarrow> filter result" where
  "NegatedBytesValues_new values nullAllowed =
     bindR (BytesValues_new values (\<not> nullAllowed)) (\<lambda>v. Inr (NegatedBytesValues v nullAllowed))"

end
