(* ===== verification/Filter_Tests.thy ===== *)
theory Filter_Tests
  imports Filter_Base
begin

text \<open>
  The virtual methods of the filter classes: testing one value, testing whether some value
  of a range can pass, and copying a filter.
\<close>

record filter_methods =
  m_testNull :: bool
  m_testNonNull :: "bool result"
  m_testBool :: "bool \<Rightarrow> bool result"
  m_testInt64 :: "int \<Rightarrow> bool result"
  m_testInt128 :: "int \<Rightarrow> bool result"
  m_testTimestamp :: "timestamp \<Rightarrow> bool result"
  m_testBytes :: "string \<Rightarrow> bool result"
  m_hasTestLength :: bool
  m_testLength :: "int \<Rightarrow> bool result"
  m_testInt64Range :: "int \<Rightarrow> int \<Rightarrow> bool \<Rightarrow> bool result"
  m_testInt128Range :: "int \<Rightarrow> int \<Rightarrow> bool \<Rightarrow> bool result"
  m_testTimestampRange :: "timestamp \<Rightarrow> timestamp \<Rightarrow> bool \<Rightarrow> bool result"
  m_testBytesRange :: "string option \<Rightarrow> string option \<Rightarrow> bool \<Rightarrow> bool result"

section \<open>The base class and the value-independent filters\<close>

definition Filter_methods :: "bool \<Rightarrow> filter_methods" where
  "Filter_methods nullAllowed =
     \<lparr>m_testNull = nullAllowed,
      m_testNonNull = Inl Unsupported,
      m_testBool = (\<lambda>_. Inl Unsupported),
      m_testInt64 = (\<lambda>_. Inl Unsupported),
      m_testInt128 = (\<lambda>_. Inl Unsupported),
      m_testTimestamp = (\<lambda>_. Inl Unsupported),
      m_testBytes = (\<lambda>_. Inl Unsupported),
      m_hasTestLength = False,
      m_testLength = (\<lambda>_. Inl Unsupported),
      m_testInt64Range = (\<lambda>_ _ _. Inl Unsupported),
      m_testInt128Range = (\<lambda>_ _ _. Inl Unsupported),
      m_testTimestampRange = (\<lambda>_ _ _. Inl Unsupported),
      m_testBytesRange = (\<lambda>_ _ _. Inl Unsupported)\<rparr>"

definition AlwaysFalse_methods :: filter_methods where
  "AlwaysFalse_methods = (Filter_methods False)
     \<lparr>m_testNonNull := Inr False,
      m_testNull := False,
      m_testInt64 := (\<lambda>_. Inr False),
      m_testInt64Range := (\<lambda>_ _ _. Inr False),
      m_testInt128Range := (\<lambda>_ _ _. Inr False),
      m_testInt128 := (\<lambda>_. Inr False),
      m_testBool := (\<lambda>_. Inr False),
      m_testBytes := (\<lambda>_. Inr False),
      m_testBytesRange := (\<lambda>_ _ _. Inr False),
      m_testTimestampRange := (\<lambda>_ _ _. Inr False),
      m_hasTestLength := True,
      m_testLength := (\<lambda>_. Inr False)\<rparr>"

definition AlwaysTrue_methods :: filter_methods where
  "AlwaysTrue_methods = (Filter_methods True)
     \<lparr>m_testNull := True,
      m_testNonNull := Inr True,
      m_testInt64 := (\<lambda>_. Inr True),
      m_testInt128 := (\<lambda>_. Inr True),
      m_testInt64Range := (\<lambda>_ _ _. Inr True),
      m_testInt128Range := (\<lambda>_ _ _. Inr True),
      m_testBool := (\<lambda>_. Inr True),
      m_testBytes := (\<lambda>_. Inr True),
      m_testBytesRange := (\<lambda>_ _ _. Inr True),
      m_testTimestampRange := (\<lambda>_ _ _. Inr True),
      m_hasTestLength := True,
      m_testLength := (\<lambda>_. Inr True)\<rparr>"

definition IsTrue_methods :: filter_methods where
  "IsTrue_methods = (Filter_methods True)\<lparr>m_testBool := Inr\<rparr>"

definition IsNull_methods :: filter_methods where
  "IsNull_methods = (Filter_methods True)
     \<lparr>m_testNonNull := Inr False,
      m_testInt64 := (\<lambda>_. Inr False),
      m_testInt128 := (\<lambda>_. Inr False),
      m_testInt64Range := (\<lambda>_ _ hasNull. Inr hasNull),
      m_testInt128Range := (\<lambda>_ _ hasNull. Inr hasNull),
      m_testBool := (\<lambda>_. Inr False),
      m_testBytes := (\<lambda>_. Inr False),
      m_testTimestamp := (\<lambda>_. Inr False),
      m_testBytesRange := (\<lambda>_ _ hasNull. Inr hasNull),
      m_testTimestampRange := (\<lambda>_ _ hasNull. Inr hasNull),
      m_hasTestLength := True,
      m_testLength := (\<lambda>_. Inr False)\<rparr>"

definition IsNotNull_methods :: filter_methods where
  "IsNotNull_methods = (Filter_methods False)
     \<lparr>m_testNonNull := Inr True,
      m_testInt64 := (\<lambda>_. Inr True),
      m_testInt128 := (\<lambda>_. Inr True),
      m_testInt64Range := (\<lambda>_ _ _. Inr True),
      m_testInt128Range := (\<lambda>_ _ _. Inr True),
      m_testBool := (\<lambda>_. Inr True),
      m_testBytes := (\<lambda>_. Inr True),
      m_testTimestamp := (\<lambda>_. Inr True),
      m_testBytesRange := (\<lambda>_ _ _. Inr True),
      m_testTimestampRange := (\<lambda>_ _ _. Inr True),
      m_hasTestLength := True,
      m_testLength := (\<lambda>_. Inr True)\<rparr>"

definition BoolValue_testInt64Range :: "bool \<Rightarrow> bool \<Rightarrow> int \<Rightarrow> int \<Rightarrow> bool \<Rightarrow> bool" where
  "BoolValue_testInt64Range value nullAllowed mn mx hasNull =
     (if hasNull \<and> nullAllowed then True
      else if value then mn \<noteq> 0 \<or> mx \<noteq> 0
      else mn \<le> 0 \<and> mx \<ge> 0)"

definition BoolValue_methods :: "bool \<Rightarrow> bool \<Rightarrow> filter_methods" where
  "BoolValue_methods value nullAllowed = (Filter_methods nullAllowed)
     \<lparr>m_testBool := (\<lambda>v. Inr (value = v)),
      m_testInt64 := (\<lambda>v. Inr (value = (v \<noteq> 0))),
      m_testInt64Range := (\<lambda>mn mx hasNull. Inr (BoolValue_testInt64Range value nullAllowed mn mx hasNull))\<rparr>"

section \<open>Ranges of 64-bit integers\<close>

definition BigintRange_testInt64 :: "bigint_range \<Rightarrow> int \<Rightarrow> bool" where
  "BigintRange_testInt64 r v \<longleftrightarrow> v \<ge> br_lower r \<and> v \<le> br_upper r"

text \<open>The SIMD tests, on one lane of the batch.\<close>

definition BigintRange_testValues64 :: "bigint_range \<Rightarrow> int \<Rightarrow> bool" where
  "BigintRange_testValues64 r v =
     (if br_isSingleValue r then v = br_lower r
      else br_lower r \<le> v \<and> v \<le> br_upper r)"

definition BigintRange_testValues32 :: "bigint_range \<Rightarrow> int \<Rightarrow> bool" where
  "BigintRange_testValues32 r v =
     (if \<not> br_inInt32Range r then False
      else if br_isSingleValue r then
        (if br_lower32 r \<noteq> br_lower r then False else v = to_int32 (br_lower r))
      else br_lower32 r \<le> v \<and> v \<le> br_upper32 r)"

definition BigintRange_testValues16 :: "bigint_range \<Rightarrow> int \<Rightarrow> bool" where
  "BigintRange_testValues16 r v =
     (if \<not> br_inInt16Range r then False
      else if br_isSingleValue r then
        (if br_lower16 r \<noteq> br_lower r then False else v = to_int16 (br_lower r))
      else br_lower16 r \<le> v \<and> v \<le> br_upper16 r)"

definition BigintRange_testInt64Range :: "bigint_range \<Rightarrow> int \<Rightarrow> int \<Rightarrow> bool \<Rightarrow> bool" where
  "BigintRange_testInt64Range r mn mx hasNull =
     (if hasNull \<and> br_nullAllowed r then True
      else \<not> (mn > br_upper r \<or> mx < br_lower r))"

definition BigintRange_methods :: "bigint_range \<Rightarrow> filter_methods" where
  "BigintRange_methods r = (Filter_methods (br_nullAllowed r))
     \<lparr>m_testInt64 := (\<lambda>v. Inr (BigintRange_testInt64 r v)),
      m_testInt64Range := (\<lambda>mn mx hasNull. Inr (BigintRange_testInt64Range r mn mx hasNull)),
      m_testBytesRange := (\<lambda>_ _ _. Inl Unsupported)\<rparr>"

definition NegatedBigintRange_testInt64Range ::
    "bigint_range \<Rightarrow> bool \<Rightarrow> int \<Rightarrow> int \<Rightarrow> bool \<Rightarrow> bool" where
  "NegatedBigintRange_testInt64Range nonNegated nullAllowed mn mx hasNull =
     (if hasNull \<and> nullAllowed then True
      else \<not> (br_lower nonNegated \<le> mn \<and> mx \<le> br_upper nonNegated))"

definition NegatedBigintRange_methods :: "bigint_range \<Rightarrow> bool \<Rightarrow> filter_methods" where
  "NegatedBigintRange_methods nonNegated nullAllowed = (Filter_methods nullAllowed)
     \<lparr>m_testInt64 := (\<lambda>v. Inr (\<not> BigintRange_testInt64 nonNegated v)),
      m_testInt64Range := (\<lambda>mn mx hasNull.
        Inr (NegatedBigintRange_testInt64Range nonNegated nullAllowed mn mx hasNull))\<rparr>"

section \<open>Lists of 64-bit integers\<close>

definition BigintValuesUsingHashTable_testInt64 :: "bigint_hash \<Rightarrow> int \<Rightarrow> bool" where
  "BigintValuesUsingHashTable_testInt64 h v =
     (if v < bh_min h \<or> v > bh_max h then False else v \<in> set (bh_hashTable h))"

text \<open>Dereferencing the iterator at the end of the vector is undefined behaviour.\<close>

definition BigintValuesUsingHashTable_testInt64Range ::
    "bigint_hash \<Rightarrow> int \<Rightarrow> int \<Rightarrow> bool \<Rightarrow> bool result" where
  "BigintValuesUsingHashTable_testInt64Range h mn mx hasNull =
     (if hasNull \<and> bh_nullAllowed h then Inr True
      else if mn = mx then Inr (BigintValuesUsingHashTable_testInt64 h mn)
      else if mn > bh_max h \<or> mx < bh_min h then Inr False
      else case lower_bound (bh_values h) mn of
             [] \<Rightarrow> Inl UndefinedBehaviour
           | it # _ \<Rightarrow> if mn = it then Inr True else Inr (mx \<ge> it))"

text \<open>
  The SIMD test on a batch of four values: an early exit when no lane is in range, and
  otherwise the scalar test on every lane.
\<close>

definition BigintValuesUsingHashTable_testValues64 :: "bigint_hash \<Rightarrow> int list \<Rightarrow> bool list" where
  "BigintValuesUsingHashTable_testValues64 h xs =
     (if list_all (\<lambda>x. x < bh_min h \<or> x > bh_max h) xs then replicate (length xs) False
      else map (\<lambda>x. x \<ge> bh_min h \<and> x \<le> bh_max h \<and> x \<in> set (bh_hashTable h)) xs)"

definition BigintValuesUsingHashTable_methods :: "bigint_hash \<Rightarrow> filter_methods" where
  "BigintValuesUsingHashTable_methods h = (Filter_methods (bh_nullAllowed h))
     \<lparr>m_testInt64 := (\<lambda>v. Inr (BigintValuesUsingHashTable_testInt64 h v)),
      m_testInt64Range := BigintValuesUsingHashTable_testInt64Range h\<rparr>"

definition BigintValuesUsingBitmask_testInt64 :: "bigint_bitmask \<Rightarrow> int \<Rightarrow> bool" where
  "BigintValuesUsingBitmask_testInt64 b v =
     (if v < bb_min b \<or> v > bb_max b then False else bb_bitmask b ! nat (v - bb_min b))"

definition BigintValuesUsingBitmask_testInt64Range ::
    "bigint_bitmask \<Rightarrow> int \<Rightarrow> int \<Rightarrow> bool \<Rightarrow> bool" where
  "BigintValuesUsingBitmask_testInt64Range b mn mx hasNull =
     (if hasNull \<and> bb_nullAllowed b then True
      else if mn = mx then BigintValuesUsingBitmask_testInt64 b mn
      else \<not> (mn > bb_max b \<or> mx < bb_min b))"

definition BigintValuesUsingBitmask_methods :: "bigint_bitmask \<Rightarrow> filter_methods" where
  "BigintValuesUsingBitmask_methods b = (Filter_methods (bb_nullAllowed b))
     \<lparr>m_testInt64 := (\<lambda>v. Inr (BigintValuesUsingBitmask_testInt64 b v)),
      m_testInt64Range := (\<lambda>mn mx hasNull.
        Inr (BigintValuesUsingBitmask_testInt64Range b mn mx hasNull))\<rparr>"

definition NegatedBigintValuesUsingHashTable_testInt64Range ::
    "bigint_hash \<Rightarrow> bool \<Rightarrow> int \<Rightarrow> int \<Rightarrow> bool \<Rightarrow> bool result" where
  "NegatedBigintValuesUsingHashTable_testInt64Range nonNegated nullAllowed mn mx hasNull =
     (if hasNull \<and> nullAllowed then Inr True
      else if mn = mx then Inr (\<not> BigintValuesUsingHashTable_testInt64 nonNegated mn)
      else if mx > bh_max nonNegated \<or> mn < bh_min nonNegated then Inr True
      else case (lower_bound (bh_values nonNegated) mn, lower_bound (bh_values nonNegated) mx) of
             (lo # los, hi # his) \<Rightarrow>
               if mn \<noteq> lo \<or> mx \<noteq> hi then Inr True
               else bindR (sub64 mx mn) (\<lambda>d.
                    Inr (int (length (lo # los)) - int (length (hi # his)) \<noteq> d))
           | _ \<Rightarrow> Inl UndefinedBehaviour)"

definition NegatedBigintValuesUsingHashTable_methods :: "bigint_hash \<Rightarrow> bool \<Rightarrow> filter_methods" where
  "NegatedBigintValuesUsingHashTable_methods nonNegated nullAllowed = (Filter_methods nullAllowed)
     \<lparr>m_testInt64 := (\<lambda>v. Inr (\<not> BigintValuesUsingHashTable_testInt64 nonNegated v)),
      m_testInt64Range := NegatedBigintValuesUsingHashTable_testInt64Range nonNegated nullAllowed\<rparr>"

definition NegatedBigintValuesUsingBitmask_testInt64Range ::
    "bigint_bitmask \<Rightarrow> bool \<Rightarrow> int \<Rightarrow> int \<Rightarrow> bool \<Rightarrow> bool" where
  "NegatedBigintValuesUsingBitmask_testInt64Range nonNegated nullAllowed mn mx hasNull =
     (if hasNull \<and> nullAllowed then True
      else if mn = mx then \<not> BigintValuesUsingBitmask_testInt64 nonNegated mn
      else True)"

definition NegatedBigintValuesUsingBitmask_methods :: "bigint_bitmask \<Rightarrow> bool \<Rightarrow> filter_methods" where
  "NegatedBigintValuesUsingBitmask_methods nonNegated nullAllowed = (Filter_methods nullAllowed)
     \<lparr>m_testInt64 := (\<lambda>v. Inr (\<not> BigintValuesUsingBitmask_testInt64 nonNegated v)),
      m_testInt64Range := (\<lambda>mn mx hasNull.
        Inr (NegatedBigintValuesUsingBitmask_testInt64Range nonNegated nullAllowed mn mx hasNull))\<rparr>"

text \<open>
  The source returns the place as an \<^verbatim>\<open>int32_t\<close>, which holds it for fewer than \<open>2 ^ 31\<close> values (\<open>binarySearch_narrow\<close>); a
  multi-range with more ranges cannot be built, since its constructor counts them with an \<^verbatim>\<open>int\<close>.
\<close>

definition binarySearch :: "int list \<Rightarrow> int \<Rightarrow> int" where
  "binarySearch values v =
     (let it = lower_bound values v;
          dist = int (length values) - int (length it)
      in case it of
           [] \<Rightarrow> - dist - 1
         | x # _ \<Rightarrow> if x \<noteq> v then - dist - 1 else dist)"

definition BigintMultiRange_testInt64 :: "bigint_multi \<Rightarrow> int \<Rightarrow> bool" where
  "BigintMultiRange_testInt64 m v =
     (let i = binarySearch (bm_lowerBounds m) v
      in if i \<ge> 0 then True
         else let place = (- i) - 1
              in if place = 0 then False
                 else BigintRange_testInt64 (bm_ranges m ! nat (place - 1)) v)"

definition BigintMultiRange_testInt64Range :: "bigint_multi \<Rightarrow> int \<Rightarrow> int \<Rightarrow> bool \<Rightarrow> bool" where
  "BigintMultiRange_testInt64Range m mn mx hasNull =
     (if hasNull \<and> bm_nullAllowed m then True
      else list_ex (\<lambda>r. BigintRange_testInt64Range r mn mx hasNull) (bm_ranges m))"

definition BigintMultiRange_methods :: "bigint_multi \<Rightarrow> filter_methods" where
  "BigintMultiRange_methods m = (Filter_methods (bm_nullAllowed m))
     \<lparr>m_testInt64 := (\<lambda>v. Inr (BigintMultiRange_testInt64 m v)),
      m_testInt64Range := (\<lambda>mn mx hasNull. Inr (BigintMultiRange_testInt64Range m mn mx hasNull))\<rparr>"

section \<open>128-bit integers and timestamps\<close>

definition HugeintRange_methods :: "hugeint_range \<Rightarrow> filter_methods" where
  "HugeintRange_methods r = (Filter_methods (hr_nullAllowed r))
     \<lparr>m_testInt128 := (\<lambda>v. Inr (v \<ge> hr_lower r \<and> v \<le> hr_upper r)),
      m_testInt128Range := (\<lambda>mn mx hasNull.
        Inr (if hasNull \<and> hr_nullAllowed r then True
             else \<not> (mn > hr_upper r \<or> mx < hr_lower r)))\<rparr>"

definition NegatedHugeintRange_methods :: "hugeint_range \<Rightarrow> bool \<Rightarrow> filter_methods" where
  "NegatedHugeintRange_methods nonNegated nullAllowed = (Filter_methods nullAllowed)
     \<lparr>m_testInt128 := (\<lambda>v. Inr (\<not> (v \<ge> hr_lower nonNegated \<and> v \<le> hr_upper nonNegated))),
      m_testInt128Range := (\<lambda>mn mx hasNull.
        Inr (if hasNull \<and> nullAllowed then True
             else \<not> (hr_lower nonNegated \<le> mn \<and> mx \<le> hr_upper nonNegated)))\<rparr>"

definition HugeintValuesUsingHashTable_methods :: "hugeint_values \<Rightarrow> filter_methods" where
  "HugeintValuesUsingHashTable_methods h = (Filter_methods (hv_nullAllowed h))
     \<lparr>m_testInt128 := (\<lambda>v. Inr (v \<in> set (hv_set h)))\<rparr>"

definition TimestampRange_methods :: "timestamp_range \<Rightarrow> filter_methods" where
  "TimestampRange_methods r = (Filter_methods (tr_nullAllowed r))
     \<lparr>m_testTimestamp := (\<lambda>v. Inr (v \<ge> tr_lower r \<and> v \<le> tr_upper r)),
      m_testTimestampRange := (\<lambda>mn mx hasNull.
        Inr (if hasNull \<and> tr_nullAllowed r then True
             else \<not> (mn > tr_upper r \<or> mx < tr_lower r)))\<rparr>"

definition NegatedTimestampRange_methods :: "timestamp_range \<Rightarrow> bool \<Rightarrow> filter_methods" where
  "NegatedTimestampRange_methods nonNegated nullAllowed = (Filter_methods nullAllowed)
     \<lparr>m_testInt128 := (\<lambda>v. bindR (m_testInt128 (TimestampRange_methods nonNegated) v) (\<lambda>b. Inr (\<not> b))),
      m_testTimestamp := (\<lambda>v. bindR (m_testTimestamp (TimestampRange_methods nonNegated) v) (\<lambda>b. Inr (\<not> b))),
      m_testTimestampRange := (\<lambda>mn mx hasNull.
        Inr (if hasNull \<and> nullAllowed then True
             else \<not> (tr_lower nonNegated \<le> mn \<and> mx \<le> tr_upper nonNegated)))\<rparr>"

section \<open>Strings\<close>

definition BytesRange_testBytes :: "bytes_range \<Rightarrow> string \<Rightarrow> bool" where
  "BytesRange_testBytes r v =
     (if length v = 0 then
        (if by_lowerUnbounded r then by_upper r \<noteq> [] \<or> \<not> by_upperExclusive r
         else by_lower r = [] \<and> \<not> by_lowerExclusive r)
      else if by_singleValue r then
        (if length v \<noteq> length (by_lower r) then False
         else memcmp v (by_lower r) (length v) = 0)
      else if \<not> by_lowerUnbounded r \<and>
              (let compare = compareRanges v (by_lower r)
               in compare < 0 \<or> (by_lowerExclusive r \<and> compare = 0)) then False
      else if \<not> by_upperUnbounded r then
        (let compare = compareRanges v (by_upper r)
         in compare < 0 \<or> (\<not> by_upperExclusive r \<and> compare = 0))
      else True)"

definition BytesRange_testBytesRange ::
    "bytes_range \<Rightarrow> string option \<Rightarrow> string option \<Rightarrow> bool \<Rightarrow> bool" where
  "BytesRange_testBytesRange r mn mx hasNull =
     (if hasNull \<and> by_nullAllowed r then True
      else
        (by_lowerUnbounded r \<or>
         (case mx of None \<Rightarrow> True
          | Some s \<Rightarrow> compareRanges s (by_lower r) \<ge> (if by_lowerExclusive r then 1 else 0))) \<and>
        (by_upperUnbounded r \<or>
         (case mn of None \<Rightarrow> True
          | Some s \<Rightarrow> compareRanges s (by_upper r) \<le> - (if by_upperExclusive r then 1 else 0))))"

definition BytesRange_testLength :: "bytes_range \<Rightarrow> int \<Rightarrow> bool" where
  "BytesRange_testLength r len \<longleftrightarrow> \<not> by_singleValue r \<or> int (length (by_lower r)) = len"

definition BytesRange_methods :: "bytes_range \<Rightarrow> filter_methods" where
  "BytesRange_methods r = (Filter_methods (by_nullAllowed r))
     \<lparr>m_testBytes := (\<lambda>v. Inr (BytesRange_testBytes r v)),
      m_testBytesRange := (\<lambda>mn mx hasNull. Inr (BytesRange_testBytesRange r mn mx hasNull)),
      m_hasTestLength := True,
      m_testLength := (\<lambda>len. Inr (BytesRange_testLength r len))\<rparr>"

text \<open>Reading an empty optional (\<^verbatim>\<open>min->data()\<close>) is undefined behaviour.\<close>

definition NegatedBytesRange_testBytesRange ::
    "bytes_range \<Rightarrow> bool \<Rightarrow> string option \<Rightarrow> string option \<Rightarrow> bool \<Rightarrow> bool result" where
  "NegatedBytesRange_testBytesRange nonNegated nullAllowed mn mx hasNull =
     (if hasNull \<and> nullAllowed then Inr True
      else if (mn = None \<and> \<not> by_lowerUnbounded nonNegated) \<or>
              (mx = None \<and> \<not> by_upperUnbounded nonNegated) then Inr True
      else case (mn, mx) of
             (Some a, Some b) \<Rightarrow>
               if a = b then Inr (\<not> BytesRange_testBytes nonNegated a)
               else if BytesRange_testBytes nonNegated a \<and> BytesRange_testBytes nonNegated b
               then Inr False
               else Inr True
           | (None, _) \<Rightarrow> Inl UndefinedBehaviour
           | (Some a, None) \<Rightarrow>
               if BytesRange_testBytes nonNegated a then Inl UndefinedBehaviour else Inr True)"

definition NegatedBytesRange_methods :: "bytes_range \<Rightarrow> bool \<Rightarrow> filter_methods" where
  "NegatedBytesRange_methods nonNegated nullAllowed = (Filter_methods nullAllowed)
     \<lparr>m_testBytes := (\<lambda>v. Inr (\<not> BytesRange_testBytes nonNegated v)),
      m_testBytesRange := NegatedBytesRange_testBytesRange nonNegated nullAllowed,
      m_hasTestLength := True,
      m_testLength := (\<lambda>len. Inr (BytesRange_testLength nonNegated len))\<rparr>"

definition BytesValues_testBytes :: "bytes_values \<Rightarrow> string \<Rightarrow> bool" where
  "BytesValues_testBytes s v \<longleftrightarrow> length v \<in> set (bv_lengths s) \<and> v \<in> set (bv_set s)"

definition BytesValues_testBytesRange ::
    "bytes_values \<Rightarrow> string option \<Rightarrow> string option \<Rightarrow> bool \<Rightarrow> bool" where
  "BytesValues_testBytesRange s mn mx hasNull =
     (if hasNull \<and> bv_nullAllowed s then True
      else if mn \<noteq> None \<and> mx \<noteq> None \<and> mn = mx then BytesValues_testBytes s (the mn)
      else if mn \<noteq> None \<and> compareViews (the mn) (bv_upper s) > 0 then False
      else if mx \<noteq> None \<and> compareViews (the mx) (bv_lower s) < 0 then False
      else True)"

definition BytesValues_testLength :: "bytes_values \<Rightarrow> int \<Rightarrow> bool" where
  "BytesValues_testLength s len \<longleftrightarrow> (\<exists>n \<in> set (bv_lengths s). int n = len)"

definition BytesValues_methods :: "bytes_values \<Rightarrow> filter_methods" where
  "BytesValues_methods s = (Filter_methods (bv_nullAllowed s))
     \<lparr>m_testBytes := (\<lambda>v. Inr (BytesValues_testBytes s v)),
      m_testBytesRange := (\<lambda>mn mx hasNull. Inr (BytesValues_testBytesRange s mn mx hasNull)),
      m_hasTestLength := True,
      m_testLength := (\<lambda>len. Inr (BytesValues_testLength s len))\<rparr>"

definition NegatedBytesValues_testBytesRange ::
    "bytes_values \<Rightarrow> bool \<Rightarrow> string option \<Rightarrow> string option \<Rightarrow> bool \<Rightarrow> bool" where
  "NegatedBytesValues_testBytesRange nonNegated nullAllowed mn mx hasNull =
     (if hasNull \<and> nullAllowed then True
      else if mn \<noteq> None \<and> mx \<noteq> None \<and> mn = mx then \<not> BytesValues_testBytes nonNegated (the mn)
      else True)"

definition NegatedBytesValues_methods :: "bytes_values \<Rightarrow> bool \<Rightarrow> filter_methods" where
  "NegatedBytesValues_methods nonNegated nullAllowed = (Filter_methods nullAllowed)
     \<lparr>m_testBytes := (\<lambda>v. Inr (\<not> BytesValues_testBytes nonNegated v)),
      m_testBytesRange := (\<lambda>mn mx hasNull.
        Inr (NegatedBytesValues_testBytesRange nonNegated nullAllowed mn mx hasNull)),
      m_hasTestLength := True,
      m_testLength := (\<lambda>_. Inr True)\<rparr>"

section \<open>Disjunctions and dispatch\<close>

definition MultiRange_methods :: "filter_methods list \<Rightarrow> bool \<Rightarrow> filter_methods" where
  "MultiRange_methods ms nullAllowed = (Filter_methods nullAllowed)
     \<lparr>m_testInt128 := (\<lambda>v. anyR (\<lambda>m. m_testInt128 m v) ms),
      m_testBytes := (\<lambda>v. anyR (\<lambda>m. m_testBytes m v) ms),
      m_testTimestamp := (\<lambda>v. anyR (\<lambda>m. m_testTimestamp m v) ms),
      m_hasTestLength := True,
      m_testLength := (\<lambda>len. anyR (\<lambda>m. m_testLength m len) ms),
      m_testBytesRange := (\<lambda>mn mx hasNull.
        if hasNull \<and> nullAllowed then Inr True
        else anyR (\<lambda>m. m_testBytesRange m mn mx hasNull) ms)\<rparr>"

primrec methods :: "filter \<Rightarrow> filter_methods" where
  "methods AlwaysFalse = AlwaysFalse_methods"
| "methods AlwaysTrue = AlwaysTrue_methods"
| "methods IsTrue = IsTrue_methods"
| "methods IsNull = IsNull_methods"
| "methods IsNotNull = IsNotNull_methods"
| "methods (BoolValue v n) = BoolValue_methods v n"
| "methods (BigintRange r) = BigintRange_methods r"
| "methods (NegatedBigintRange r n) = NegatedBigintRange_methods r n"
| "methods (BigintValuesUsingHashTable h) = BigintValuesUsingHashTable_methods h"
| "methods (BigintValuesUsingBitmask b) = BigintValuesUsingBitmask_methods b"
| "methods (NegatedBigintValuesUsingHashTable h n) = NegatedBigintValuesUsingHashTable_methods h n"
| "methods (NegatedBigintValuesUsingBitmask mn mx b n) = NegatedBigintValuesUsingBitmask_methods b n"
| "methods (BigintMultiRange m) = BigintMultiRange_methods m"
| "methods (HugeintRange r) = HugeintRange_methods r"
| "methods (NegatedHugeintRange r n) = NegatedHugeintRange_methods r n"
| "methods (HugeintValuesUsingHashTable h) = HugeintValuesUsingHashTable_methods h"
| "methods (TimestampRange r) = TimestampRange_methods r"
| "methods (NegatedTimestampRange r n) = NegatedTimestampRange_methods r n"
| "methods (BytesRange r) = BytesRange_methods r"
| "methods (NegatedBytesRange r n) = NegatedBytesRange_methods r n"
| "methods (BytesValues s) = BytesValues_methods s"
| "methods (NegatedBytesValues s n) = NegatedBytesValues_methods s n"
| "methods (MultiRange fs n) = MultiRange_methods (map methods fs) n"

abbreviation "testNull f \<equiv> m_testNull (methods f)"
abbreviation "testBool f \<equiv> m_testBool (methods f)"
abbreviation "testInt64 f \<equiv> m_testInt64 (methods f)"
abbreviation "testInt128 f \<equiv> m_testInt128 (methods f)"
abbreviation "testTimestamp f \<equiv> m_testTimestamp (methods f)"
abbreviation "testBytes f \<equiv> m_testBytes (methods f)"
abbreviation "testLength f \<equiv> m_testLength (methods f)"
abbreviation "testInt64Range f \<equiv> m_testInt64Range (methods f)"
abbreviation "testInt128Range f \<equiv> m_testInt128Range (methods f)"
abbreviation "testTimestampRange f \<equiv> m_testTimestampRange (methods f)"
abbreviation "testBytesRange f \<equiv> m_testBytesRange (methods f)"

lemmas methods_defs =
  methods.simps Filter_methods_def AlwaysFalse_methods_def AlwaysTrue_methods_def IsTrue_methods_def
  IsNull_methods_def IsNotNull_methods_def BoolValue_methods_def BigintRange_methods_def
  NegatedBigintRange_methods_def BigintValuesUsingHashTable_methods_def
  BigintValuesUsingBitmask_methods_def NegatedBigintValuesUsingHashTable_methods_def
  NegatedBigintValuesUsingBitmask_methods_def BigintMultiRange_methods_def
  HugeintRange_methods_def NegatedHugeintRange_methods_def
  HugeintValuesUsingHashTable_methods_def TimestampRange_methods_def
  NegatedTimestampRange_methods_def BytesRange_methods_def NegatedBytesRange_methods_def
  BytesValues_methods_def NegatedBytesValues_methods_def MultiRange_methods_def

declare methods.simps [simp del]

end
