(* ===== verification/Filter_Merge_Int.thy ===== *)
theory Filter_Merge_Int
  imports Filter_Tests
begin

text \<open>
  Combining filters with AND: \<^verbatim>\<open>mergeWith\<close> of the classes on 64-bit integers, with the
  helpers of \<^verbatim>\<open>Filter.cpp\<close> and \<^verbatim>\<open>FilterUtil.cpp\<close>. The code dispatches on the class of both
  operands by calling \<^verbatim>\<open>other->mergeWith(this)\<close>; here \<open><Class>_mergeWith\<close> takes the virtual
  function as its first argument, and theory \<open>Filter_Merge\<close> ties the knot.
\<close>

section \<open>Creating filters\<close>

definition nullOrFalse :: "bool \<Rightarrow> filter" where
  "nullOrFalse nullAllowed = (if nullAllowed then IsNull else AlwaysFalse)"

definition notNullOrTrue :: "bool \<Rightarrow> filter" where
  "notNullOrTrue nullAllowed = (if nullAllowed then AlwaysTrue else IsNotNull)"

fun minMaxLoop :: "int \<Rightarrow> int \<Rightarrow> int list \<Rightarrow> int \<times> int" where
  "minMaxLoop mn mx [] = (mn, mx)"
| "minMaxLoop mn mx (v # vs) =
     (if v > mx then minMaxLoop mn v vs
      else if v < mn then minMaxLoop v mx vs
      else minMaxLoop mn mx vs)"

definition createBigintValuesFilter :: "int list \<Rightarrow> bool \<Rightarrow> bool \<Rightarrow> filter result" where
  "createBigintValuesFilter values nullAllowed negated =
     (case values of
        [] \<Rightarrow> Inr (if \<not> negated then nullOrFalse nullAllowed else notNullOrTrue nullAllowed)
      | [v] \<Rightarrow>
          Inr (if negated then NegatedBigintRange_new v v nullAllowed
               else BigintRange (BigintRange_new v v nullAllowed))
      | v # vs \<Rightarrow>
          (let (mn, mx) = minMaxLoop v v vs;
               range = mx - mn;
               overflow = \<not> in_int64 range;
               size = int (length values)
           in if \<not> overflow \<and> range + 1 = size then
                Inr (if negated then NegatedBigintRange_new mn mx nullAllowed
                     else BigintRange (BigintRange_new mn mx nullAllowed))
              else if \<not> overflow \<and> (range < 32 * 64 \<or> range < size * 4 * 64) then
                (if negated then NegatedBigintValuesUsingBitmask_new mn mx values nullAllowed
                 else bindR (BigintValuesUsingBitmask_new mn mx values nullAllowed)
                        (\<lambda>b. Inr (BigintValuesUsingBitmask b)))
              else if negated then NegatedBigintValuesUsingHashTable_new mn mx values nullAllowed
              else bindR (BigintValuesUsingHashTable_new mn mx values nullAllowed)
                     (\<lambda>h. Inr (BigintValuesUsingHashTable h))))"

definition createBigintValues :: "int list \<Rightarrow> bool \<Rightarrow> filter result" where
  "createBigintValues values nullAllowed = createBigintValuesFilter values nullAllowed False"

definition createNegatedBigintValues :: "int list \<Rightarrow> bool \<Rightarrow> filter result" where
  "createNegatedBigintValues values nullAllowed = createBigintValuesFilter values nullAllowed True"

section \<open>Copying\<close>

fun clone :: "filter \<Rightarrow> bool option \<Rightarrow> filter result" where
  "clone (BoolValue v n) na = Inr (BoolValue v (case na of None \<Rightarrow> n | Some b \<Rightarrow> b))"
| "clone (BigintRange r) na =
     Inr (BigintRange (case na of None \<Rightarrow> r | Some b \<Rightarrow> BigintRange_new (br_lower r) (br_upper r) b))"
| "clone (NegatedBigintRange r n) na =
     Inr (NegatedBigintRange_new (br_lower r) (br_upper r) (case na of None \<Rightarrow> n | Some b \<Rightarrow> b))"
| "clone (BigintValuesUsingHashTable h) na =
     Inr (BigintValuesUsingHashTable
            (h\<lparr>bh_nullAllowed := (case na of None \<Rightarrow> bh_nullAllowed h | Some b \<Rightarrow> b)\<rparr>))"
| "clone (BigintValuesUsingBitmask m) na =
     Inr (BigintValuesUsingBitmask
            (m\<lparr>bb_nullAllowed := (case na of None \<Rightarrow> bb_nullAllowed m | Some b \<Rightarrow> b)\<rparr>))"
| "clone (NegatedBigintValuesUsingHashTable h n) na =
     Inr (NegatedBigintValuesUsingHashTable h (case na of None \<Rightarrow> n | Some b \<Rightarrow> b))"
| "clone (NegatedBigintValuesUsingBitmask mn mx m n) na =
     Inr (NegatedBigintValuesUsingBitmask mn mx m (case na of None \<Rightarrow> n | Some b \<Rightarrow> b))"
| "clone (BigintMultiRange m) na =
     BigintMultiRange_new (bm_ranges m) (case na of None \<Rightarrow> bm_nullAllowed m | Some b \<Rightarrow> b)"
| "clone (HugeintRange r) na =
     Inr (HugeintRange (case na of None \<Rightarrow> r | Some b \<Rightarrow> HugeintRange_new (hr_lower r) (hr_upper r) b))"
| "clone (NegatedHugeintRange r n) na =
     Inr (NegatedHugeintRange_new (hr_lower r) (hr_upper r) (case na of None \<Rightarrow> n | Some b \<Rightarrow> b))"
| "clone (HugeintValuesUsingHashTable h) na =
     Inr (HugeintValuesUsingHashTable
            (HugeintValuesUsingHashTable_copy h (case na of None \<Rightarrow> hv_nullAllowed h | Some b \<Rightarrow> b)))"
| "clone (TimestampRange r) na =
     Inr (TimestampRange (case na of None \<Rightarrow> r | Some b \<Rightarrow> TimestampRange_new (tr_lower r) (tr_upper r) b))"
| "clone (NegatedTimestampRange r n) na =
     Inr (NegatedTimestampRange_new (tr_lower r) (tr_upper r) (case na of None \<Rightarrow> n | Some b \<Rightarrow> b))"
| "clone (BytesRange r) na =
     Inr (BytesRange (r\<lparr>by_nullAllowed := (case na of None \<Rightarrow> by_nullAllowed r | Some b \<Rightarrow> b)\<rparr>))"
| "clone (NegatedBytesRange r n) na = Inr (NegatedBytesRange r (case na of None \<Rightarrow> n | Some b \<Rightarrow> b))"
| "clone (BytesValues s) na =
     Inr (BytesValues (s\<lparr>bv_nullAllowed := (case na of None \<Rightarrow> bv_nullAllowed s | Some b \<Rightarrow> b)\<rparr>))"
| "clone (NegatedBytesValues s n) na =
     bindR (BytesValues_new (bv_set s) (bv_nullAllowed s)) (\<lambda>s'.
     Inr (NegatedBytesValues s' (case na of None \<Rightarrow> n | Some b \<Rightarrow> b)))"
| "clone (MultiRange fs n) na =
     bindR (mapR (\<lambda>f. clone f None) fs) (\<lambda>gs.
     Inr (MultiRange gs (case na of None \<Rightarrow> n | Some b \<Rightarrow> b)))"
| "clone f na = Inr f"

section \<open>Helpers on ranges and lists of 64-bit integers\<close>

definition combineBigintRanges :: "bigint_range list \<Rightarrow> bool \<Rightarrow> filter result" where
  "combineBigintRanges ranges nullAllowed =
     (case ranges of
        [] \<Rightarrow> Inr (nullOrFalse nullAllowed)
      | [r] \<Rightarrow> Inr (BigintRange (BigintRange_new (br_lower r) (br_upper r) nullAllowed))
      | _ \<Rightarrow> BigintMultiRange_new ranges nullAllowed)"

fun splitRange :: "int \<Rightarrow> int \<Rightarrow> int \<Rightarrow> int list \<Rightarrow> (bigint_range list \<times> int) result" where
  "splitRange lower upper start [] = Inr ([], start)"
| "splitRange lower upper start (v # it) =
     bindR (sub64 v 1) (\<lambda>end.
     if start \<ge> lower \<and> end < upper then
       bindR (add64 v 1) (\<lambda>start'.
       bindR (splitRange lower upper start' it) (\<lambda>(out, s).
       Inr (if start \<le> end then BigintRange_new start end False # out else out, s)))
     else Inr ([], start))"

definition rangeWithoutRejects :: "int list \<Rightarrow> bigint_range \<Rightarrow> bigint_range list result" where
  "rangeWithoutRejects rejects r =
     bindR (splitRange (br_lower r) (br_upper r) (br_lower r) (lower_bound rejects (br_lower r)))
       (\<lambda>(out, start).
     let end = br_upper r
     in Inr (if start \<le> end \<and> start \<ge> br_lower r \<and> end \<le> br_upper r
             then out @ [BigintRange_new start end False] else out))"

definition combineRangesAndNegatedValues ::
    "bigint_range list \<Rightarrow> int list \<Rightarrow> bool \<Rightarrow> filter result" where
  "combineRangesAndNegatedValues ranges rejects nullAllowed =
     bindR (mapR (rangeWithoutRejects rejects) ranges) (\<lambda>outs.
     combineBigintRanges (concat outs) nullAllowed)"

function (sequential) mergeRejected :: "int list \<Rightarrow> int list \<Rightarrow> int list" where
  "mergeRejected (x # xs) (y # ys) =
     (let lo = min x y
      in lo # mergeRejected (if lo = x then xs else x # xs) (if lo = y then ys else y # ys))"
| "mergeRejected xs [] = xs"
| "mergeRejected [] ys = ys"
  by pat_completeness auto
termination
  by (relation "measure (\<lambda>(xs, ys). length xs + length ys)") (auto simp: min_def)

definition combineNegatedBigintLists :: "int list \<Rightarrow> int list \<Rightarrow> bool \<Rightarrow> filter result" where
  "combineNegatedBigintLists first second nullAllowed =
     createNegatedBigintValues (mergeRejected first second) nullAllowed"

definition subtractRange :: "int \<Rightarrow> int \<Rightarrow> bigint_range \<Rightarrow> bigint_range list result" where
  "subtractRange negatedLower negatedUpper r =
     (if negatedUpper < br_lower r \<or> br_upper r < negatedLower then
        Inr [BigintRange_new (br_lower r) (br_upper r) False]
      else
        bindR (if br_lower r < negatedLower then
                 bindR (sub64 negatedLower 1) (\<lambda>u. Inr [BigintRange_new (br_lower r) u False])
               else Inr []) (\<lambda>below.
        bindR (if negatedUpper < br_upper r then
                 bindR (add64 negatedUpper 1) (\<lambda>l. Inr [BigintRange_new l (br_upper r) False])
               else Inr []) (\<lambda>above.
        Inr (below @ above))))"

definition combineNegatedRangeOnIntRanges ::
    "int \<Rightarrow> int \<Rightarrow> bigint_range list \<Rightarrow> bool \<Rightarrow> filter result" where
  "combineNegatedRangeOnIntRanges negatedLower negatedUpper ranges nullAllowed =
     bindR (mapR (subtractRange negatedLower negatedUpper) ranges) (\<lambda>outs.
     combineBigintRanges (concat outs) nullAllowed)"

text \<open>\<open>gapRanges\<close> is the loop of \<^verbatim>\<open>negatedValuesToRanges\<close> from \<^verbatim>\<open>*back\<close> on.\<close>

fun gapRanges :: "int \<Rightarrow> int list \<Rightarrow> bigint_range list result" where
  "gapRanges back [] =
     (if back < int64_max then
        bindR (add64 back 1) (\<lambda>l. Inr [BigintRange_new l int64_max False])
      else Inr [])"
| "gapRanges back (front # vs) =
     bindR (add64 back 1) (\<lambda>l. bindR (sub64 front 1) (\<lambda>u.
     bindR (gapRanges front vs) (\<lambda>rs.
     Inr (if l \<le> u then BigintRange_new l u False # rs else rs))))"

definition negatedValuesToRanges :: "int list \<Rightarrow> bigint_range list result" where
  "negatedValuesToRanges values =
     (case values of
        [] \<Rightarrow> Inl UndefinedBehaviour
      | back # vs \<Rightarrow>
          bindR (if back > int64_min then
                   bindR (sub64 back 1) (\<lambda>u. Inr [BigintRange_new int64_min u False])
                 else Inr []) (\<lambda>below.
          bindR (gapRanges back vs) (\<lambda>rs. Inr (below @ rs))))"

section \<open>mergeWith of the filters on 64-bit integers\<close>

type_synonym merge_fun = "filter \<Rightarrow> filter \<Rightarrow> filter result"

definition IsNull_mergeWith :: "filter \<Rightarrow> filter result" where
  "IsNull_mergeWith other = (if testNull other then Inr IsNull else Inr AlwaysFalse)"

definition IsNotNull_mergeWith :: "merge_fun \<Rightarrow> filter \<Rightarrow> filter result" where
  "IsNotNull_mergeWith mw other =
     (case other of
        AlwaysTrue \<Rightarrow> Inr IsNotNull
      | IsNotNull \<Rightarrow> Inr IsNotNull
      | AlwaysFalse \<Rightarrow> Inr AlwaysFalse
      | IsNull \<Rightarrow> Inr AlwaysFalse
      | _ \<Rightarrow> mw other IsNotNull)"

definition BoolValue_mergeWith :: "merge_fun \<Rightarrow> bool \<Rightarrow> bool \<Rightarrow> filter \<Rightarrow> filter result" where
  "BoolValue_mergeWith mw value nullAllowed other =
     (case other of
        AlwaysTrue \<Rightarrow> mw other (BoolValue value nullAllowed)
      | AlwaysFalse \<Rightarrow> mw other (BoolValue value nullAllowed)
      | IsNull \<Rightarrow> mw other (BoolValue value nullAllowed)
      | IsNotNull \<Rightarrow> Inr (BoolValue value False)
      | BoolValue _ _ \<Rightarrow>
          (let bothNullAllowed = (nullAllowed \<and> testNull other)
           in bindR (testBool other value) (\<lambda>b.
              if b then Inr (BoolValue value bothNullAllowed)
              else Inr (nullOrFalse bothNullAllowed)))
      | _ \<Rightarrow> Inl UnreachableCode)"

text \<open>The loop over the ranges of a multi-range: what is merged to a range is kept.\<close>

fun collectRanges :: "('a \<Rightarrow> filter result) \<Rightarrow> 'a list \<Rightarrow> bigint_range list result" where
  "collectRanges f [] = Inr []"
| "collectRanges f (x # xs) =
     bindR (f x) (\<lambda>merged.
     case merged of
       BigintRange r \<Rightarrow> bindR (collectRanges f xs) (\<lambda>rs. Inr (r # rs))
     | AlwaysFalse \<Rightarrow> collectRanges f xs
     | _ \<Rightarrow> Inl CheckFailed)"

fun collectMultiRanges :: "('a \<Rightarrow> filter result) \<Rightarrow> 'a list \<Rightarrow> bigint_range list result" where
  "collectMultiRanges f [] = Inr []"
| "collectMultiRanges f (x # xs) =
     bindR (f x) (\<lambda>merged.
     case merged of
       BigintRange r \<Rightarrow> bindR (collectMultiRanges f xs) (\<lambda>rs. Inr (r # rs))
     | BigintMultiRange m \<Rightarrow> bindR (collectMultiRanges f xs) (\<lambda>rs. Inr (bm_ranges m @ rs))
     | AlwaysFalse \<Rightarrow> collectMultiRanges f xs
     | _ \<Rightarrow> Inl CheckFailed)"

definition BigintRange_mergeWithRejects ::
    "bigint_range \<Rightarrow> filter \<Rightarrow> int list \<Rightarrow> filter result" where
  "BigintRange_mergeWithRejects r other vals =
     (let bothNullAllowed = (br_nullAllowed r \<and> testNull other)
      in bindR (testInt64Range other (br_lower r) (br_upper r) False) (\<lambda>b.
         if \<not> b then Inr (nullOrFalse bothNullAllowed)
         else combineRangesAndNegatedValues
                [BigintRange_new (br_lower r) (br_upper r) False] vals bothNullAllowed))"

definition BigintRange_mergeWith :: "merge_fun \<Rightarrow> bigint_range \<Rightarrow> filter \<Rightarrow> filter result" where
  "BigintRange_mergeWith mw r other =
     (case other of
        AlwaysTrue \<Rightarrow> mw other (BigintRange r)
      | AlwaysFalse \<Rightarrow> mw other (BigintRange r)
      | IsNull \<Rightarrow> mw other (BigintRange r)
      | IsNotNull \<Rightarrow> Inr (BigintRange (BigintRange_new (br_lower r) (br_upper r) False))
      | BigintRange o' \<Rightarrow>
          (let bothNullAllowed = (br_nullAllowed r \<and> testNull other);
               lower = max (br_lower r) (br_lower o');
               upper = min (br_upper r) (br_upper o')
           in if lower \<le> upper then Inr (BigintRange (BigintRange_new lower upper bothNullAllowed))
              else Inr (nullOrFalse bothNullAllowed))
      | NegatedBigintRange _ _ \<Rightarrow> mw other (BigintRange r)
      | BigintValuesUsingBitmask _ \<Rightarrow> mw other (BigintRange r)
      | BigintValuesUsingHashTable _ \<Rightarrow> mw other (BigintRange r)
      | BigintMultiRange m \<Rightarrow>
          bindR (collectRanges (\<lambda>s. mw (BigintRange r) (BigintRange s)) (bm_ranges m)) (\<lambda>newRanges.
          combineBigintRanges newRanges (br_nullAllowed r \<and> testNull other))
      | NegatedBigintValuesUsingBitmask _ _ b _ \<Rightarrow>
          BigintRange_mergeWithRejects r other (bb_values b)
      | NegatedBigintValuesUsingHashTable h _ \<Rightarrow>
          BigintRange_mergeWithRejects r other (bh_values h)
      | _ \<Rightarrow> Inl UnreachableCode)"

definition mergeNegatedRanges ::
    "bigint_range \<Rightarrow> bigint_range \<Rightarrow> bool \<Rightarrow> filter result" where
  "mergeNegatedRanges r o' bothNullAllowed =
     bindR (add64 (br_upper r) 1) (\<lambda>u1.
     if u1 < br_lower o' then
       (let smallLower = br_lower r; smallUpper = br_upper r;
            bigLower = br_lower o'; bigUpper = br_upper o'
        in bindR (if smallLower > int64_min then
                    bindR (sub64 smallLower 1) (\<lambda>u. Inr [BigintRange_new int64_min u False])
                  else Inr []) (\<lambda>below.
           bindR (if smallUpper < int64_max \<and> bigLower > int64_min then
                    bindR (add64 smallUpper 1) (\<lambda>l. bindR (sub64 bigLower 1) (\<lambda>u.
                    Inr [BigintRange_new l u False]))
                  else Inr []) (\<lambda>between.
           bindR (if bigUpper < int64_max then
                    bindR (add64 bigUpper 1) (\<lambda>l. Inr [BigintRange_new l int64_max False])
                  else Inr []) (\<lambda>above.
           combineBigintRanges (below @ between @ above) bothNullAllowed))))
     else
       Inr (NegatedBigintRange_new (br_lower r) (max (br_upper r) (br_upper o')) bothNullAllowed))"

definition NegatedBigintRange_mergeWithRejects ::
    "bigint_range \<Rightarrow> bool \<Rightarrow> filter \<Rightarrow> int list \<Rightarrow> filter result" where
  "NegatedBigintRange_mergeWithRejects r nullAllowed other rejectedValues =
     (let bothNullAllowed = (nullAllowed \<and> testNull other)
      in if br_isSingleValue r then
           bindR (testInt64 other (br_lower r)) (\<lambda>b.
           createNegatedBigintValues
             (if b then rejectedValues @ [br_lower r] else rejectedValues) bothNullAllowed)
         else
           bindR (negatedValuesToRanges rejectedValues) (\<lambda>rs.
           combineNegatedRangeOnIntRanges (br_lower r) (br_upper r) rs bothNullAllowed))"

definition NegatedBigintRange_mergeWith ::
    "merge_fun \<Rightarrow> bigint_range \<Rightarrow> bool \<Rightarrow> filter \<Rightarrow> filter result" where
  "NegatedBigintRange_mergeWith mw r nullAllowed other =
     (let this = NegatedBigintRange r nullAllowed;
          bothNullAllowed = (nullAllowed \<and> testNull other)
      in case other of
        AlwaysTrue \<Rightarrow> mw other this
      | AlwaysFalse \<Rightarrow> mw other this
      | IsNull \<Rightarrow> mw other this
      | IsNotNull \<Rightarrow> clone this (Some False)
      | BigintRange o' \<Rightarrow>
          combineNegatedRangeOnIntRanges (br_lower r) (br_upper r)
            [BigintRange_new (br_lower o') (br_upper o') False] bothNullAllowed
      | NegatedBigintRange o' _ \<Rightarrow>
          if br_lower r > br_lower o' then mw other this
          else mergeNegatedRanges r o' bothNullAllowed
      | BigintMultiRange m \<Rightarrow>
          combineNegatedRangeOnIntRanges (br_lower r) (br_upper r) (bm_ranges m) bothNullAllowed
      | BigintValuesUsingHashTable _ \<Rightarrow> mw other this
      | BigintValuesUsingBitmask _ \<Rightarrow> mw other this
      | NegatedBigintValuesUsingHashTable h _ \<Rightarrow>
          NegatedBigintRange_mergeWithRejects r nullAllowed other (bh_values h)
      | NegatedBigintValuesUsingBitmask _ _ b _ \<Rightarrow>
          NegatedBigintRange_mergeWithRejects r nullAllowed other (bb_values b)
      | _ \<Rightarrow> Inl UnreachableCode)"

definition BigintValuesUsingHashTable_mergeWithRange ::
    "bigint_hash \<Rightarrow> int \<Rightarrow> int \<Rightarrow> filter \<Rightarrow> filter result" where
  "BigintValuesUsingHashTable_mergeWithRange h mn mx other =
     (let bothNullAllowed = (bh_nullAllowed h \<and> testNull other)
      in if mx < mn then Inr (nullOrFalse bothNullAllowed)
         else if mx = mn then
           (if BigintValuesUsingHashTable_testInt64 h mn then
              bindR (testInt64 other mn) (\<lambda>b.
              Inr (if b then BigintRange (BigintRange_new mn mn bothNullAllowed)
                   else nullOrFalse bothNullAllowed))
            else Inr (nullOrFalse bothNullAllowed))
         else
           bindR (filterR (testInt64 other) (bh_hashTable h)) (\<lambda>valuesToKeep.
           createBigintValues valuesToKeep bothNullAllowed))"

definition BigintValuesUsingHashTable_mergeWith ::
    "merge_fun \<Rightarrow> bigint_hash \<Rightarrow> filter \<Rightarrow> filter result" where
  "BigintValuesUsingHashTable_mergeWith mw h other =
     (let this = BigintValuesUsingHashTable h
      in case other of
        AlwaysTrue \<Rightarrow> mw other this
      | AlwaysFalse \<Rightarrow> mw other this
      | IsNull \<Rightarrow> mw other this
      | IsNotNull \<Rightarrow> Inr (BigintValuesUsingHashTable (h\<lparr>bh_nullAllowed := False\<rparr>))
      | BigintRange r \<Rightarrow>
          BigintValuesUsingHashTable_mergeWithRange h
            (max (bh_min h) (br_lower r)) (min (bh_max h) (br_upper r)) other
      | BigintValuesUsingHashTable h' \<Rightarrow>
          BigintValuesUsingHashTable_mergeWithRange h
            (max (bh_min h) (bh_min h')) (min (bh_max h) (bh_max h')) other
      | BigintValuesUsingBitmask _ \<Rightarrow> mw other this
      | BigintMultiRange m \<Rightarrow>
          createBigintValues
            (concat (map (\<lambda>r.
               let mn = max (bh_min h) (br_lower r); mx = min (bh_max h) (br_upper r)
               in if mn \<le> mx then filter (BigintRange_testInt64 r) (bh_values h) else [])
             (bm_ranges m)))
            (bh_nullAllowed h \<and> testNull other)
      | NegatedBigintRange _ _ \<Rightarrow>
          BigintValuesUsingHashTable_mergeWithRange h (bh_min h) (bh_max h) other
      | NegatedBigintValuesUsingBitmask _ _ _ _ \<Rightarrow>
          BigintValuesUsingHashTable_mergeWithRange h (bh_min h) (bh_max h) other
      | NegatedBigintValuesUsingHashTable _ _ \<Rightarrow>
          BigintValuesUsingHashTable_mergeWithRange h (bh_min h) (bh_max h) other
      | _ \<Rightarrow> Inl UnreachableCode)"

text \<open>The bits of the loop's values; the caller keeps \<open>mn\<close> and \<open>mx\<close> within the bitmask.\<close>

definition bitmaskScan ::
    "bigint_bitmask \<Rightarrow> int \<Rightarrow> int \<Rightarrow> (int \<Rightarrow> bool result) \<Rightarrow> int list result" where
  "bitmaskScan b mn mx test =
     bindR (loop64 mn mx) (\<lambda>is.
     filterR (\<lambda>i. if bb_bitmask b ! nat (i - bb_min b) then test i else Inr False) is)"

definition BigintValuesUsingBitmask_mergeWithRange ::
    "bigint_bitmask \<Rightarrow> int \<Rightarrow> int \<Rightarrow> filter \<Rightarrow> filter result" where
  "BigintValuesUsingBitmask_mergeWithRange b mn mx other =
     bindR (bitmaskScan b mn mx (testInt64 other)) (\<lambda>valuesToKeep.
     createBigintValues valuesToKeep (bb_nullAllowed b \<and> testNull other))"

definition BigintValuesUsingBitmask_mergeWith ::
    "merge_fun \<Rightarrow> bigint_bitmask \<Rightarrow> filter \<Rightarrow> filter result" where
  "BigintValuesUsingBitmask_mergeWith mw b other =
     (let this = BigintValuesUsingBitmask b
      in case other of
        AlwaysTrue \<Rightarrow> mw other this
      | AlwaysFalse \<Rightarrow> mw other this
      | IsNull \<Rightarrow> mw other this
      | IsNotNull \<Rightarrow> Inr (BigintValuesUsingBitmask (b\<lparr>bb_nullAllowed := False\<rparr>))
      | BigintRange r \<Rightarrow>
          BigintValuesUsingBitmask_mergeWithRange b
            (max (bb_min b) (br_lower r)) (min (bb_max b) (br_upper r)) other
      | BigintValuesUsingHashTable h \<Rightarrow>
          BigintValuesUsingBitmask_mergeWithRange b
            (max (bb_min b) (bh_min h)) (min (bb_max b) (bh_max h)) other
      | BigintValuesUsingBitmask b' \<Rightarrow>
          BigintValuesUsingBitmask_mergeWithRange b
            (max (bb_min b) (bb_min b')) (min (bb_max b) (bb_max b')) other
      | BigintMultiRange m \<Rightarrow>
          bindR (mapR (\<lambda>r. bitmaskScan b (max (bb_min b) (br_lower r)) (min (bb_max b) (br_upper r))
                             (\<lambda>i. Inr (BigintRange_testInt64 r i))) (bm_ranges m)) (\<lambda>kept.
          createBigintValues (concat kept) (bb_nullAllowed b \<and> testNull other))
      | NegatedBigintRange _ _ \<Rightarrow>
          BigintValuesUsingBitmask_mergeWithRange b (bb_min b) (bb_max b) other
      | NegatedBigintValuesUsingBitmask _ _ _ _ \<Rightarrow>
          BigintValuesUsingBitmask_mergeWithRange b (bb_min b) (bb_max b) other
      | NegatedBigintValuesUsingHashTable _ _ \<Rightarrow>
          BigintValuesUsingBitmask_mergeWithRange b (bb_min b) (bb_max b) other
      | _ \<Rightarrow> Inl UnreachableCode)"

definition NegatedBigintValuesUsingHashTable_mergeWith ::
    "merge_fun \<Rightarrow> bigint_hash \<Rightarrow> bool \<Rightarrow> filter \<Rightarrow> filter result" where
  "NegatedBigintValuesUsingHashTable_mergeWith mw h nullAllowed other =
     (let this = NegatedBigintValuesUsingHashTable h nullAllowed
      in case other of
        AlwaysTrue \<Rightarrow> mw other this
      | AlwaysFalse \<Rightarrow> mw other this
      | IsNull \<Rightarrow> mw other this
      | IsNotNull \<Rightarrow> Inr (NegatedBigintValuesUsingHashTable h False)
      | BigintValuesUsingHashTable _ \<Rightarrow> mw other this
      | BigintValuesUsingBitmask _ \<Rightarrow> mw other this
      | BigintRange _ \<Rightarrow> mw other this
      | BigintMultiRange _ \<Rightarrow> mw other this
      | NegatedBigintValuesUsingHashTable h' _ \<Rightarrow>
          combineNegatedBigintLists (bh_values h) (bh_values h') (nullAllowed \<and> testNull other)
      | NegatedBigintRange _ _ \<Rightarrow> mw other this
      | NegatedBigintValuesUsingBitmask _ _ _ _ \<Rightarrow> mw other this
      | _ \<Rightarrow> Inl UnreachableCode)"

definition NegatedBigintValuesUsingBitmask_mergeWith ::
    "merge_fun \<Rightarrow> int \<Rightarrow> int \<Rightarrow> bigint_bitmask \<Rightarrow> bool \<Rightarrow> filter \<Rightarrow> filter result" where
  "NegatedBigintValuesUsingBitmask_mergeWith mw mn mx b nullAllowed other =
     (let this = NegatedBigintValuesUsingBitmask mn mx b nullAllowed
      in case other of
        AlwaysTrue \<Rightarrow> mw other this
      | AlwaysFalse \<Rightarrow> mw other this
      | IsNull \<Rightarrow> mw other this
      | IsNotNull \<Rightarrow> Inr (NegatedBigintValuesUsingBitmask mn mx b False)
      | BigintValuesUsingHashTable _ \<Rightarrow> mw other this
      | BigintValuesUsingBitmask _ \<Rightarrow> mw other this
      | BigintRange _ \<Rightarrow> mw other this
      | NegatedBigintRange _ _ \<Rightarrow> mw other this
      | BigintMultiRange _ \<Rightarrow> mw other this
      | NegatedBigintValuesUsingHashTable h _ \<Rightarrow>
          combineNegatedBigintLists (bb_values b) (bh_values h) (nullAllowed \<and> testNull other)
      | NegatedBigintValuesUsingBitmask _ _ b' _ \<Rightarrow>
          combineNegatedBigintLists (bb_values b) (bb_values b') (nullAllowed \<and> testNull other)
      | _ \<Rightarrow> Inl UnreachableCode)"

definition BigintMultiRange_mergeWith :: "merge_fun \<Rightarrow> bigint_multi \<Rightarrow> filter \<Rightarrow> filter result" where
  "BigintMultiRange_mergeWith mw m other =
     (let this = BigintMultiRange m;
          bothNullAllowed = (bm_nullAllowed m \<and> testNull other)
      in case other of
        AlwaysTrue \<Rightarrow> mw other this
      | AlwaysFalse \<Rightarrow> mw other this
      | IsNull \<Rightarrow> mw other this
      | IsNotNull \<Rightarrow> BigintMultiRange_new (bm_ranges m) False
      | BigintRange _ \<Rightarrow> mw other this
      | NegatedBigintRange _ _ \<Rightarrow> mw other this
      | BigintValuesUsingBitmask _ \<Rightarrow> mw other this
      | BigintValuesUsingHashTable _ \<Rightarrow> mw other this
      | BigintMultiRange _ \<Rightarrow>
          bindR (collectMultiRanges (\<lambda>r. mw (BigintRange r) other) (bm_ranges m)) (\<lambda>newRanges.
          case newRanges of
            [] \<Rightarrow> Inr (nullOrFalse bothNullAllowed)
          | [r] \<Rightarrow> Inr (BigintRange (BigintRange_new (br_lower r) (br_upper r) bothNullAllowed))
          | _ \<Rightarrow> BigintMultiRange_new newRanges bothNullAllowed)
      | NegatedBigintValuesUsingHashTable h _ \<Rightarrow>
          combineRangesAndNegatedValues (bm_ranges m) (bh_values h) bothNullAllowed
      | NegatedBigintValuesUsingBitmask _ _ b _ \<Rightarrow>
          combineRangesAndNegatedValues (bm_ranges m) (bb_values b) bothNullAllowed
      | _ \<Rightarrow> Inl UnreachableCode)"

end
