(* ===== verification/Filter_Merge.thy ===== *)
theory Filter_Merge
  imports Filter_Merge_Int
begin

text \<open>
  \<^verbatim>\<open>mergeWith\<close> of the classes on 128-bit integers, timestamps and strings, and the virtual
  dispatch. The code dispatches on the class of both operands by calling
  \<^verbatim>\<open>other->mergeWith(this)\<close>; \<open>mergeWith_fuel\<close> bounds the number of nested calls, and
  \<open>mergeWith\<close> starts with a bound that grows with the nesting of the operands.
\<close>

section \<open>128-bit integers\<close>

fun mergeHugeintRanges :: "hugeint_range \<Rightarrow> hugeint_range list \<Rightarrow> hugeint_range list result" where
  "mergeHugeintRanges current [] = Inr [current]"
| "mergeHugeintRanges current (r # rs) =
     bindR (add128 (hr_upper current) 1) (\<lambda>u1.
     if hr_lower r \<le> u1 then
       mergeHugeintRanges
         (HugeintRange_new (hr_lower current) (max (hr_upper current) (hr_upper r)) False) rs
     else bindR (mergeHugeintRanges r rs) (\<lambda>ms. Inr (current # ms)))"

definition combineHugeintRanges :: "hugeint_range list \<Rightarrow> bool \<Rightarrow> filter result" where
  "combineHugeintRanges ranges nullAllowed =
     (case sort_key hr_lower ranges of
        [] \<Rightarrow> Inr (nullOrFalse nullAllowed)
      | current # rs \<Rightarrow>
          bindR (mergeHugeintRanges current rs) (\<lambda>mergedRanges.
          if length mergedRanges = 1 then
            Inr (HugeintRange (HugeintRange_new (hr_lower (hd mergedRanges)) (hr_upper (hd mergedRanges)) nullAllowed))
          else
            Inr (HugeintRange (HugeintRange_new (hr_lower (hd mergedRanges)) (hr_upper (last mergedRanges)) nullAllowed))))"

definition subtractHugeintRange :: "int \<Rightarrow> int \<Rightarrow> hugeint_range \<Rightarrow> hugeint_range list result" where
  "subtractHugeintRange lower upper r =
     (if hr_upper r < lower \<or> hr_lower r > upper then
        Inr [HugeintRange_new (hr_lower r) (hr_upper r) False]
      else
        bindR (if hr_lower r < lower then
                 bindR (sub128 lower 1) (\<lambda>u. Inr [HugeintRange_new (hr_lower r) u False])
               else Inr []) (\<lambda>below.
        bindR (if hr_upper r > upper then
                 bindR (add128 upper 1) (\<lambda>l. Inr [HugeintRange_new l (hr_upper r) False])
               else Inr []) (\<lambda>above.
        Inr (below @ above))))"

definition combineNegatedRangeOnHugeintRanges ::
    "int \<Rightarrow> int \<Rightarrow> hugeint_range list \<Rightarrow> bool \<Rightarrow> filter result" where
  "combineNegatedRangeOnHugeintRanges lower upper ranges nullAllowed =
     bindR (mapR (subtractHugeintRange lower upper) ranges) (\<lambda>outs.
     combineHugeintRanges (concat outs) nullAllowed)"

definition mergeNegatedHugeintRanges ::
    "hugeint_range \<Rightarrow> hugeint_range \<Rightarrow> bool \<Rightarrow> filter result" where
  "mergeNegatedHugeintRanges r o' bothNullAllowed =
     (if hr_upper r < hr_lower o' then
        (let smallLower = hr_lower r; smallUpper = hr_upper r;
             bigLower = hr_lower o'; bigUpper = hr_upper o'
         in bindR (if smallLower > int128_min then
                     bindR (sub128 smallLower 1) (\<lambda>u. Inr [HugeintRange_new int128_min u False])
                   else Inr []) (\<lambda>below.
            bindR (if smallUpper < int128_max \<and> bigLower > int128_min then
                     bindR (add128 smallUpper 1) (\<lambda>l. bindR (sub128 bigLower 1) (\<lambda>u.
                     Inr [HugeintRange_new l u False]))
                   else Inr []) (\<lambda>between.
            bindR (if bigUpper < int128_max then
                     bindR (add128 bigUpper 1) (\<lambda>l. Inr [HugeintRange_new l int128_max False])
                   else Inr []) (\<lambda>above.
            combineHugeintRanges (below @ between @ above) bothNullAllowed))))
      else
        Inr (NegatedHugeintRange_new (hr_lower r) (max (hr_upper r) (hr_upper o')) bothNullAllowed))"

definition NegatedHugeintRange_mergeWith ::
    "merge_fun \<Rightarrow> hugeint_range \<Rightarrow> bool \<Rightarrow> filter \<Rightarrow> filter result" where
  "NegatedHugeintRange_mergeWith mw r nullAllowed other =
     (let this = NegatedHugeintRange r nullAllowed;
          bothNullAllowed = (nullAllowed \<and> testNull other)
      in case other of
        AlwaysTrue \<Rightarrow> mw other this
      | AlwaysFalse \<Rightarrow> mw other this
      | IsNull \<Rightarrow> mw other this
      | IsNotNull \<Rightarrow> clone this (Some False)
      | HugeintRange o' \<Rightarrow>
          combineNegatedRangeOnHugeintRanges (hr_lower r) (hr_upper r)
            [HugeintRange_new (hr_lower o') (hr_upper o') False] bothNullAllowed
      | NegatedHugeintRange o' _ \<Rightarrow>
          if hr_lower r > hr_lower o' then mw other this
          else mergeNegatedHugeintRanges r o' bothNullAllowed
      | _ \<Rightarrow> Inl UnreachableCode)"

section \<open>Timestamps\<close>

fun mergeTimestampRanges :: "timestamp_range \<Rightarrow> timestamp_range list \<Rightarrow> timestamp_range list" where
  "mergeTimestampRanges current [] = [current]"
| "mergeTimestampRanges current (r # rs) =
     (if tr_lower r \<le> tr_upper current then
        mergeTimestampRanges
          (TimestampRange_new (tr_lower current) (max (tr_upper current) (tr_upper r)) False) rs
      else current # mergeTimestampRanges r rs)"

definition combineTimestampRanges :: "timestamp_range list \<Rightarrow> bool \<Rightarrow> filter" where
  "combineTimestampRanges ranges nullAllowed =
     (case sort_key tr_lower ranges of
        [] \<Rightarrow> nullOrFalse nullAllowed
      | current # rs \<Rightarrow>
          (let mergedRanges = mergeTimestampRanges current rs
           in if length mergedRanges = 1 then
                TimestampRange (TimestampRange_new (tr_lower (hd mergedRanges)) (tr_upper (hd mergedRanges)) nullAllowed)
              else
                TimestampRange (TimestampRange_new (tr_lower (hd mergedRanges)) (tr_upper (last mergedRanges)) nullAllowed)))"

definition TimestampRange_mergeWith :: "merge_fun \<Rightarrow> timestamp_range \<Rightarrow> filter \<Rightarrow> filter result" where
  "TimestampRange_mergeWith mw r other =
     (case other of
        AlwaysTrue \<Rightarrow> mw other (TimestampRange r)
      | AlwaysFalse \<Rightarrow> mw other (TimestampRange r)
      | IsNull \<Rightarrow> mw other (TimestampRange r)
      | IsNotNull \<Rightarrow> clone (TimestampRange r) (Some False)
      | TimestampRange o' \<Rightarrow>
          (let bothNullAllowed = (tr_nullAllowed r \<and> testNull other);
               lower = max (tr_lower r) (tr_lower o');
               upper = min (tr_upper r) (tr_upper o')
           in if lower \<le> upper then Inr (TimestampRange (TimestampRange_new lower upper bothNullAllowed))
              else Inr (nullOrFalse bothNullAllowed))
      | _ \<Rightarrow> Inl UnreachableCode)"

definition NegatedTimestampRange_mergeWith ::
    "merge_fun \<Rightarrow> timestamp_range \<Rightarrow> bool \<Rightarrow> filter \<Rightarrow> filter result" where
  "NegatedTimestampRange_mergeWith mw r nullAllowed other =
     (let this = NegatedTimestampRange r nullAllowed;
          bothNullAllowed = (nullAllowed \<and> testNull other);
          lower = tr_lower r; upper = tr_upper r
      in case other of
        AlwaysTrue \<Rightarrow> mw other this
      | AlwaysFalse \<Rightarrow> mw other this
      | IsNull \<Rightarrow> mw other this
      | IsNotNull \<Rightarrow> clone this (Some False)
      | TimestampRange o' \<Rightarrow>
          if tr_upper o' < lower \<or> tr_lower o' > upper then
            Inr (TimestampRange (TimestampRange_new
              (min lower (tr_lower o')) (max upper (tr_upper o')) bothNullAllowed))
          else if tr_lower o' \<ge> lower \<and> tr_upper o' \<le> upper then
            clone this (Some bothNullAllowed)
          else
            Inr (combineTimestampRanges
              ((if tr_lower o' < lower then [TimestampRange_new (tr_lower o') lower False] else []) @
               (if tr_upper o' > upper then [TimestampRange_new upper (tr_upper o') False] else []))
              bothNullAllowed)
      | NegatedTimestampRange o' _ \<Rightarrow>
          if lower > tr_lower o' then mw other this
          else if upper < tr_lower o' then
            Inr (combineTimestampRanges
              ((if lower > Timestamp_min then [TimestampRange_new Timestamp_min lower False] else []) @
               [TimestampRange_new upper (tr_lower o') False] @
               (if tr_upper o' < Timestamp_max then [TimestampRange_new (tr_upper o') Timestamp_max False] else []))
              bothNullAllowed)
          else
            Inr (NegatedTimestampRange_new lower (max upper (tr_upper o')) bothNullAllowed)
      | _ \<Rightarrow> Inl UnreachableCode)"

section \<open>Strings\<close>

text \<open>The sign of \<^verbatim>\<open>std::string::compare\<close>.\<close>

definition string_compare :: "string \<Rightarrow> string \<Rightarrow> int" where
  "string_compare a b = (if a < b then - 1 else if a = b then 0 else 1)"

definition mergeExclusive :: "int \<Rightarrow> bool \<Rightarrow> bool \<Rightarrow> bool" where
  "mergeExclusive compareResult left right =
     (if compareResult = 0 then left \<or> right else if compareResult < 0 then left else right)"

definition mergeLower :: "bytes_range \<Rightarrow> bytes_range \<Rightarrow> bool \<times> bool \<times> string" where
  "mergeLower r o' =
     (if by_lowerUnbounded r then (by_lowerUnbounded o', by_lowerExclusive o', by_lower o')
      else if by_lowerUnbounded o' then (by_lowerUnbounded r, by_lowerExclusive r, by_lower r)
      else
        (let compare = string_compare (by_lower r) (by_lower o')
         in (False,
             mergeExclusive (- compare) (by_lowerExclusive r) (by_lowerExclusive o'),
             if compare < 0 then by_lower o' else by_lower r)))"

definition mergeUpper :: "bytes_range \<Rightarrow> bytes_range \<Rightarrow> bool \<times> bool \<times> string" where
  "mergeUpper r o' =
     (if by_upperUnbounded r then (by_upperUnbounded o', by_upperExclusive o', by_upper o')
      else if by_upperUnbounded o' then (by_upperUnbounded r, by_upperExclusive r, by_upper r)
      else
        (let compare = string_compare (by_upper r) (by_upper o')
         in (False,
             mergeExclusive compare (by_upperExclusive r) (by_upperExclusive o'),
             if compare < 0 then by_upper r else by_upper o')))"

definition mergeBytesRanges :: "bytes_range \<Rightarrow> bytes_range \<Rightarrow> bool \<Rightarrow> filter result" where
  "mergeBytesRanges r o' bothNullAllowed =
     (let (lowerUnbounded, lowerExclusive, lower) = mergeLower r o';
          (upperUnbounded, upperExclusive, upper) = mergeUpper r o'
      in if \<not> lowerUnbounded \<and> \<not> upperUnbounded \<and>
            (lower > upper \<or> (lower = upper \<and> (lowerExclusive \<or> upperExclusive)))
         then Inr (nullOrFalse bothNullAllowed)
         else bindR (BytesRange_new lower lowerUnbounded lowerExclusive
                       upper upperUnbounded upperExclusive bothNullAllowed)
                (\<lambda>b. Inr (BytesRange b)))"

definition BytesRange_mergeWith :: "merge_fun \<Rightarrow> bytes_range \<Rightarrow> filter \<Rightarrow> filter result" where
  "BytesRange_mergeWith mw r other =
     (case other of
        AlwaysTrue \<Rightarrow> mw other (BytesRange r)
      | AlwaysFalse \<Rightarrow> mw other (BytesRange r)
      | IsNull \<Rightarrow> mw other (BytesRange r)
      | IsNotNull \<Rightarrow> clone (BytesRange r) (Some False)
      | BytesValues _ \<Rightarrow> mw other (BytesRange r)
      | NegatedBytesValues _ _ \<Rightarrow> mw other (BytesRange r)
      | NegatedBytesRange _ _ \<Rightarrow> mw other (BytesRange r)
      | MultiRange _ _ \<Rightarrow> mw other (BytesRange r)
      | BytesRange o' \<Rightarrow> mergeBytesRanges r o' (by_nullAllowed r \<and> testNull other)
      | _ \<Rightarrow> Inl UnreachableCode)"

definition toMultiRange :: "bytes_range \<Rightarrow> bool \<Rightarrow> filter result" where
  "toMultiRange r nullAllowed =
     bindR (if \<not> by_lowerUnbounded r then
              bindR (BytesRange_new [] True False (by_lower r) False
                       (BytesRange_testBytes r (by_lower r)) False) (\<lambda>b. Inr [BytesRange b])
            else Inr []) (\<lambda>below.
     bindR (if \<not> by_upperUnbounded r then
              bindR (BytesRange_new (by_upper r) False (BytesRange_testBytes r (by_upper r))
                       [] True False False) (\<lambda>b. Inr [BytesRange b])
            else Inr []) (\<lambda>above.
     case below @ above of
       [] \<Rightarrow> Inr (nullOrFalse nullAllowed)
     | [f] \<Rightarrow> clone f (Some nullAllowed)
     | accepted \<Rightarrow> Inr (MultiRange accepted nullAllowed)))"

definition NegatedBytesRange_mergeWith ::
    "merge_fun \<Rightarrow> bytes_range \<Rightarrow> bool \<Rightarrow> filter \<Rightarrow> filter result" where
  "NegatedBytesRange_mergeWith mw r nullAllowed other =
     (let this = NegatedBytesRange r nullAllowed
      in case other of
        AlwaysTrue \<Rightarrow> mw other this
      | AlwaysFalse \<Rightarrow> mw other this
      | IsNull \<Rightarrow> mw other this
      | IsNotNull \<Rightarrow> clone this (Some False)
      | BytesValues _ \<Rightarrow> mw other this
      | NegatedBytesValues _ _ \<Rightarrow> bindR (toMultiRange r nullAllowed) (mw other)
      | BytesRange _ \<Rightarrow> bindR (toMultiRange r nullAllowed) (mw other)
      | NegatedBytesRange _ _ \<Rightarrow> bindR (toMultiRange r nullAllowed) (mw other)
      | MultiRange _ _ \<Rightarrow> bindR (toMultiRange r nullAllowed) (mw other)
      | _ \<Rightarrow> Inl UnreachableCode)"

text \<open>The four cases of \<^verbatim>\<open>BytesValues::mergeWith\<close> end alike: keep the values that pass.\<close>

definition keepBytesValues :: "string list \<Rightarrow> bool \<Rightarrow> filter result" where
  "keepBytesValues newValues bothNullAllowed =
     (if newValues = [] then Inr (nullOrFalse bothNullAllowed)
      else bindR (BytesValues_new newValues bothNullAllowed) (\<lambda>s. Inr (BytesValues s)))"

definition BytesValues_mergeWith :: "merge_fun \<Rightarrow> bytes_values \<Rightarrow> filter \<Rightarrow> filter result" where
  "BytesValues_mergeWith mw s other =
     (let this = BytesValues s;
          bothNullAllowed = (bv_nullAllowed s \<and> testNull other)
      in case other of
        AlwaysTrue \<Rightarrow> mw other this
      | AlwaysFalse \<Rightarrow> mw other this
      | IsNull \<Rightarrow> mw other this
      | MultiRange _ _ \<Rightarrow> mw other this
      | IsNotNull \<Rightarrow> clone this (Some False)
      | BytesValues o' \<Rightarrow>
          if string_compare (bv_upper s) (bv_lower o') < 0 \<or>
             string_compare (bv_upper o') (bv_lower s) < 0
          then Inr (nullOrFalse bothNullAllowed)
          else
            (let (smaller, larger) =
               (if length (bv_set s) > length (bv_set o') then (o', s) else (s, o'))
             in keepBytesValues (filter (\<lambda>v. v \<in> set (bv_set larger)) (bv_set smaller)) bothNullAllowed)
      | NegatedBytesValues _ _ \<Rightarrow>
          bindR (filterR (testBytes other) (bv_set s)) (\<lambda>newValues.
          keepBytesValues newValues bothNullAllowed)
      | BytesRange o' \<Rightarrow>
          if \<not> BytesValues_testBytesRange s
                 (if by_lowerUnbounded o' then None else Some (by_lower o'))
                 (if by_upperUnbounded o' then None else Some (by_upper o')) bothNullAllowed
          then Inr (nullOrFalse bothNullAllowed)
          else keepBytesValues (filter (BytesRange_testBytes o') (bv_set s)) bothNullAllowed
      | NegatedBytesRange _ _ \<Rightarrow>
          bindR (filterR (testBytes other) (bv_set s)) (\<lambda>newValues.
          keepBytesValues newValues bothNullAllowed)
      | _ \<Rightarrow> Inl UnreachableCode)"

text \<open>The ranges between consecutive rejected values, then the one above the last.\<close>

fun gapBytesRanges :: "string \<Rightarrow> string list \<Rightarrow> bytes_range \<Rightarrow> bool \<Rightarrow> filter list result" where
  "gapBytesRanges back [] r hiExclusive =
     bindR (BytesRange_new back False True (by_upper r) (by_upperUnbounded r) hiExclusive False)
       (\<lambda>b. Inr [BytesRange b])"
| "gapBytesRanges back (front # vs) r hiExclusive =
     bindR (BytesRange_new back False True front False True False) (\<lambda>b.
     bindR (gapBytesRanges front vs r hiExclusive) (\<lambda>bs.
     Inr (BytesRange b # bs)))"

definition rejectFromBytesRange ::
    "string list \<Rightarrow> bytes_range \<Rightarrow> bool \<Rightarrow> filter result" where
  "rejectFromBytesRange values r bothNullAllowed =
     (let rejected = sort (remdups (filter (BytesRange_testBytes r) values));
          loExclusive = (\<not> by_lowerUnbounded r \<and>
                         (by_lowerExclusive r \<or> by_lower r \<in> set rejected));
          rejected1 = (if \<not> by_lowerUnbounded r then removeAll (by_lower r) rejected else rejected);
          hiExclusive = (\<not> by_upperUnbounded r \<and>
                         (by_upperExclusive r \<or> by_upper r \<in> set rejected1));
          rejected2 = (if \<not> by_upperUnbounded r then removeAll (by_upper r) rejected1 else rejected1)
      in case rejected2 of
           [] \<Rightarrow>
             bindR (BytesRange_new (by_lower r) (by_lowerUnbounded r) loExclusive
                      (by_upper r) (by_upperUnbounded r) hiExclusive bothNullAllowed)
               (\<lambda>b. Inr (BytesRange b))
         | back # vs \<Rightarrow>
             bindR (BytesRange_new (by_lower r) (by_lowerUnbounded r) loExclusive back False True False) (\<lambda>b.
             bindR (gapBytesRanges back vs r hiExclusive) (\<lambda>bs.
             Inr (MultiRange (BytesRange b # bs) bothNullAllowed))))"

definition NegatedBytesValues_mergeWith ::
    "merge_fun \<Rightarrow> bytes_values \<Rightarrow> bool \<Rightarrow> filter \<Rightarrow> filter result" where
  "NegatedBytesValues_mergeWith mw s nullAllowed other =
     (let this = NegatedBytesValues s nullAllowed;
          bothNullAllowed = (nullAllowed \<and> testNull other)
      in case other of
        AlwaysTrue \<Rightarrow> mw other this
      | AlwaysFalse \<Rightarrow> mw other this
      | IsNull \<Rightarrow> mw other this
      | BytesValues _ \<Rightarrow> mw other this
      | NegatedBytesRange _ _ \<Rightarrow> mw other this
      | MultiRange _ _ \<Rightarrow> mw other this
      | IsNotNull \<Rightarrow> clone this (Some False)
      | NegatedBytesValues o' _ \<Rightarrow>
          if length (bv_set s) < length (bv_set o') then mw other this
          else NegatedBytesValues_new
                 (bv_set s @ filter (\<lambda>v. \<not> BytesValues_testBytes s v) (bv_set o')) bothNullAllowed
      | BytesRange r \<Rightarrow> rejectFromBytesRange (bv_set s) r bothNullAllowed
      | _ \<Rightarrow> Inl UnreachableCode)"

section \<open>Disjunctions\<close>

text \<open>
  The nested loops over the operands' filters; the accumulator holds the byte values and the
  merged filters collected so far.
\<close>

definition collectMerged ::
    "string list \<times> filter list \<Rightarrow> filter \<Rightarrow> (string list \<times> filter list) result" where
  "collectMerged acc innerMerged =
     (case innerMerged of
        AlwaysFalse \<Rightarrow> Inr acc
      | IsNull \<Rightarrow> Inr acc
      | BytesValues s \<Rightarrow> Inr (fst acc @ bv_set s, snd acc)
      | MultiRange fs _ \<Rightarrow>
          bindR (mapR (\<lambda>f. clone f None) fs) (\<lambda>gs. Inr (fst acc, snd acc @ gs))
      | _ \<Rightarrow> Inr (fst acc, snd acc @ [innerMerged]))"

fun mergePairs ::
    "merge_fun \<Rightarrow> (filter \<times> filter) list \<Rightarrow> string list \<times> filter list \<Rightarrow> (string list \<times> filter list) result" where
  "mergePairs mw [] acc = Inr acc"
| "mergePairs mw ((f, g) # ps) acc =
     bindR (mw f g) (\<lambda>innerMerged. bindR (collectMerged acc innerMerged) (mergePairs mw ps))"

definition MultiRange_mergeAll ::
    "merge_fun \<Rightarrow> filter list \<Rightarrow> filter list \<Rightarrow> bool \<Rightarrow> filter result" where
  "MultiRange_mergeAll mw fs others bothNullAllowed =
     bindR (mergePairs mw (List.product fs others) ([], [])) (\<lambda>(byteValues, merged0).
     bindR (if byteValues \<noteq> [] then
              bindR (BytesValues_new byteValues bothNullAllowed) (\<lambda>s. Inr (merged0 @ [BytesValues s]))
            else Inr merged0) (\<lambda>merged.
     case merged of
       [] \<Rightarrow> Inr (nullOrFalse bothNullAllowed)
     | [f] \<Rightarrow> clone f (Some bothNullAllowed)
     | _ \<Rightarrow> Inr (MultiRange merged bothNullAllowed)))"

definition MultiRange_mergeWith ::
    "merge_fun \<Rightarrow> filter list \<Rightarrow> bool \<Rightarrow> filter \<Rightarrow> filter result" where
  "MultiRange_mergeWith mw fs nullAllowed other =
     (let this = MultiRange fs nullAllowed;
          bothNullAllowed = (nullAllowed \<and> testNull other)
      in case other of
        AlwaysTrue \<Rightarrow> mw other this
      | AlwaysFalse \<Rightarrow> mw other this
      | IsNull \<Rightarrow> mw other this
      | NegatedBytesRange _ _ \<Rightarrow> mw other this
      | IsNotNull \<Rightarrow> clone this (Some False)
      | BytesValues _ \<Rightarrow> MultiRange_mergeAll mw fs [other] bothNullAllowed
      | NegatedBytesValues _ _ \<Rightarrow> MultiRange_mergeAll mw fs [other] bothNullAllowed
      | BytesRange _ \<Rightarrow> MultiRange_mergeAll mw fs [other] bothNullAllowed
      | MultiRange gs _ \<Rightarrow> MultiRange_mergeAll mw fs gs bothNullAllowed
      | _ \<Rightarrow> Inl UnreachableCode)"

section \<open>Dispatch\<close>

definition mergeWith_dispatch :: "merge_fun \<Rightarrow> filter \<Rightarrow> filter \<Rightarrow> filter result" where
  "mergeWith_dispatch mw this other =
     (case this of
        AlwaysFalse \<Rightarrow> Inr AlwaysFalse
      | AlwaysTrue \<Rightarrow> clone other None
      | IsTrue \<Rightarrow> Inl Unsupported
      | IsNull \<Rightarrow> IsNull_mergeWith other
      | IsNotNull \<Rightarrow> IsNotNull_mergeWith mw other
      | BoolValue v n \<Rightarrow> BoolValue_mergeWith mw v n other
      | BigintRange r \<Rightarrow> BigintRange_mergeWith mw r other
      | NegatedBigintRange r n \<Rightarrow> NegatedBigintRange_mergeWith mw r n other
      | BigintValuesUsingHashTable h \<Rightarrow> BigintValuesUsingHashTable_mergeWith mw h other
      | BigintValuesUsingBitmask b \<Rightarrow> BigintValuesUsingBitmask_mergeWith mw b other
      | NegatedBigintValuesUsingHashTable h n \<Rightarrow> NegatedBigintValuesUsingHashTable_mergeWith mw h n other
      | NegatedBigintValuesUsingBitmask mn mx b n \<Rightarrow>
          NegatedBigintValuesUsingBitmask_mergeWith mw mn mx b n other
      | BigintMultiRange m \<Rightarrow> BigintMultiRange_mergeWith mw m other
      | HugeintRange _ \<Rightarrow> Inl Unsupported
      | NegatedHugeintRange r n \<Rightarrow> NegatedHugeintRange_mergeWith mw r n other
      | HugeintValuesUsingHashTable _ \<Rightarrow> Inl Unsupported
      | TimestampRange r \<Rightarrow> TimestampRange_mergeWith mw r other
      | NegatedTimestampRange r n \<Rightarrow> NegatedTimestampRange_mergeWith mw r n other
      | BytesRange r \<Rightarrow> BytesRange_mergeWith mw r other
      | NegatedBytesRange r n \<Rightarrow> NegatedBytesRange_mergeWith mw r n other
      | BytesValues s \<Rightarrow> BytesValues_mergeWith mw s other
      | NegatedBytesValues s n \<Rightarrow> NegatedBytesValues_mergeWith mw s n other
      | MultiRange fs n \<Rightarrow> MultiRange_mergeWith mw fs n other)"

primrec mergeWith_fuel :: "nat \<Rightarrow> filter \<Rightarrow> filter \<Rightarrow> filter result" where
  "mergeWith_fuel 0 this other = Inl OutOfFuel"
| "mergeWith_fuel (Suc n) this other = mergeWith_dispatch (mergeWith_fuel n) this other"

primrec multi_depth :: "filter \<Rightarrow> nat" where
  "multi_depth AlwaysFalse = 0"
| "multi_depth AlwaysTrue = 0"
| "multi_depth IsTrue = 0"
| "multi_depth IsNull = 0"
| "multi_depth IsNotNull = 0"
| "multi_depth (BoolValue v n) = 0"
| "multi_depth (BigintRange r) = 0"
| "multi_depth (NegatedBigintRange r n) = 0"
| "multi_depth (BigintValuesUsingHashTable h) = 0"
| "multi_depth (BigintValuesUsingBitmask b) = 0"
| "multi_depth (NegatedBigintValuesUsingHashTable h n) = 0"
| "multi_depth (NegatedBigintValuesUsingBitmask mn mx b n) = 0"
| "multi_depth (BigintMultiRange m) = 0"
| "multi_depth (HugeintRange r) = 0"
| "multi_depth (NegatedHugeintRange r n) = 0"
| "multi_depth (HugeintValuesUsingHashTable h) = 0"
| "multi_depth (TimestampRange r) = 0"
| "multi_depth (NegatedTimestampRange r n) = 0"
| "multi_depth (BytesRange r) = 0"
| "multi_depth (NegatedBytesRange r n) = 0"
| "multi_depth (BytesValues s) = 0"
| "multi_depth (NegatedBytesValues s n) = 0"
| "multi_depth (MultiRange fs n) = Suc (foldr max (map multi_depth fs) 0)"

definition mergeWith :: "filter \<Rightarrow> filter \<Rightarrow> filter result" where
  "mergeWith this other = mergeWith_fuel (8 + 4 * (multi_depth this + multi_depth other)) this other"

end
