(* ===== verification/Filter_Int.thy ===== *)
theory Filter_Int
  imports Filter_Merge
begin

text \<open>
  Correctness of the filters on 64-bit integers. \<open>wf_int\<close> is the class invariant of a filter
  built as the constructors' documentation asks; \<open>accepts f v\<close> is that \<^verbatim>\<open>testInt64\<close> returns
  true.
\<close>

section \<open>Invariants\<close>

definition wf_range :: "bigint_range \<Rightarrow> bool" where
  "wf_range r \<longleftrightarrow>
     r = BigintRange_new (br_lower r) (br_upper r) (br_nullAllowed r) \<and>
     in_int64 (br_lower r) \<and> in_int64 (br_upper r) \<and> br_lower r \<le> br_upper r"

definition wf_hash :: "bigint_hash \<Rightarrow> bool" where
  "wf_hash h \<longleftrightarrow>
     in_int64 (bh_min h) \<and> in_int64 (bh_max h) \<and> bh_min h < bh_max h \<and>
     set (bh_hashTable h) = set (bh_values h) \<and> distinct (bh_hashTable h) \<and>
     sorted (bh_values h) \<and> distinct (bh_values h) \<and>
     bh_min h \<in> set (bh_values h) \<and> bh_max h \<in> set (bh_values h) \<and>
     (\<forall>v \<in> set (bh_values h). bh_min h \<le> v \<and> v \<le> bh_max h)"

definition wf_bitmask :: "bigint_bitmask \<Rightarrow> bool" where
  "wf_bitmask b \<longleftrightarrow>
     in_int64 (bb_min b) \<and> in_int64 (bb_max b) \<and> bb_min b < bb_max b \<and>
     length (bb_bitmask b) = nat (bb_max b - bb_min b + 1) \<and>
     bb_values b = bitmask_values (bb_min b) (bb_bitmask b) \<and>
     bb_values b \<noteq> []"

definition ranges_ok :: "bigint_range list \<Rightarrow> bool" where
  "ranges_ok rs \<longleftrightarrow>
     (\<forall>r \<in> set rs. wf_range r \<and> \<not> br_nullAllowed r) \<and>
     sorted_wrt (\<lambda>r s. br_upper r < br_lower s) rs"

definition wf_multi :: "bigint_multi \<Rightarrow> bool" where
  "wf_multi m \<longleftrightarrow>
     length (bm_ranges m) > 1 \<and> bm_lowerBounds m = map br_lower (bm_ranges m) \<and>
     ranges_ok (bm_ranges m)"

fun wf_int :: "filter \<Rightarrow> bool" where
  "wf_int AlwaysFalse = True"
| "wf_int AlwaysTrue = True"
| "wf_int IsNull = True"
| "wf_int IsNotNull = True"
| "wf_int (BoolValue v n) = True"
| "wf_int (BigintRange r) = wf_range r"
| "wf_int (NegatedBigintRange r n) = wf_range r"
| "wf_int (BigintValuesUsingHashTable h) = wf_hash h"
| "wf_int (BigintValuesUsingBitmask b) = wf_bitmask b"
| "wf_int (NegatedBigintValuesUsingHashTable h n) = wf_hash h"
| "wf_int (NegatedBigintValuesUsingBitmask mn mx b n) = wf_bitmask b"
| "wf_int (BigintMultiRange m) = wf_multi m"
| "wf_int f = False"

definition accepts :: "filter \<Rightarrow> int \<Rightarrow> bool" where
  "accepts f v \<longleftrightarrow> testInt64 f v = Inr True"

definition cover :: "bigint_range list \<Rightarrow> int set" where
  "cover rs = {v. \<exists>r \<in> set rs. br_lower r \<le> v \<and> v \<le> br_upper r}"

section \<open>Basic facts\<close>

lemma BigintRange_new_sel [simp]:
  "br_lower (BigintRange_new l u n) = l"
  "br_upper (BigintRange_new l u n) = u"
  "br_nullAllowed (BigintRange_new l u n) = n"
  "br_isSingleValue (BigintRange_new l u n) = (u = l)"
  by (simp_all add: BigintRange_new_def)

lemma wf_range_new [simp]:
  "wf_range (BigintRange_new l u n) \<longleftrightarrow> in_int64 l \<and> in_int64 u \<and> l \<le> u"
  by (simp add: wf_range_def)

lemma wf_range_isSingleValue:
  "wf_range r \<Longrightarrow> br_isSingleValue r \<longleftrightarrow> br_upper r = br_lower r"
  by (metis wf_range_def BigintRange_new_sel(4))

lemma wf_rangeD:
  assumes "wf_range r"
  shows "in_int64 (br_lower r)" "in_int64 (br_upper r)" "br_lower r \<le> br_upper r"
  using assms by (simp_all add: wf_range_def)

lemma bitmask_values_set:
  "set (bitmask_values m bs) = {v. m \<le> v \<and> v < m + int (length bs) \<and> bs ! nat (v - m)}"
proof (induction bs arbitrary: m)
  case Nil
  then show ?case by auto
next
  case (Cons b bs)
  have shift: "nat (v - m) = Suc (nat (v - (m + 1)))" if "m + 1 \<le> v" for v
    using that by simp
  have "{v. m \<le> v \<and> v < m + int (length (b # bs)) \<and> (b # bs) ! nat (v - m)} =
        (if b then {m} else {}) \<union>
        {v. m + 1 \<le> v \<and> v < m + 1 + int (length bs) \<and> bs ! nat (v - (m + 1))}" (is "?L = ?R")
  proof (rule set_eqI)
    fix v
    show "v \<in> ?L \<longleftrightarrow> v \<in> ?R"
      using shift [of v] by (cases "v = m") auto
  qed
  then show ?case by (simp add: Cons.IH)
qed

lemma bitmask_values_sorted: "sorted (bitmask_values m bs) \<and> distinct (bitmask_values m bs)"
proof (induction bs arbitrary: m)
  case Nil
  then show ?case by simp
next
  case (Cons b bs)
  have "\<forall>v \<in> set (bitmask_values (m + 1) bs). m + 1 \<le> v" by (simp add: bitmask_values_set)
  with Cons.IH [of "m + 1"] show ?case by auto
qed

section \<open>What each filter accepts\<close>

lemma hash_test: "wf_hash h \<Longrightarrow> BigintValuesUsingHashTable_testInt64 h v \<longleftrightarrow> v \<in> set (bh_values h)"
  by (auto simp: BigintValuesUsingHashTable_testInt64_def wf_hash_def)

lemma bitmask_test: "wf_bitmask b \<Longrightarrow> BigintValuesUsingBitmask_testInt64 b v \<longleftrightarrow> v \<in> set (bb_values b)"
  by (auto simp: BigintValuesUsingBitmask_testInt64_def wf_bitmask_def bitmask_values_set)

lemma bitmask_values_bounds:
  assumes "wf_bitmask b" and "v \<in> set (bb_values b)"
  shows "bb_min b \<le> v" "v \<le> bb_max b" "bb_bitmask b ! nat (v - bb_min b)"
  using assms by (auto simp: wf_bitmask_def bitmask_values_set)

lemma bitmask_bit:
  assumes "wf_bitmask b" and "bb_min b \<le> v" "v \<le> bb_max b"
  shows "bb_bitmask b ! nat (v - bb_min b) \<longleftrightarrow> v \<in> set (bb_values b)"
  using assms by (auto simp: wf_bitmask_def bitmask_values_set)

lemma bitmask_list_ok: "wf_bitmask b \<Longrightarrow> sorted (bb_values b) \<and> distinct (bb_values b)"
  by (simp add: wf_bitmask_def bitmask_values_sorted)

lemma binarySearch_narrow:
  assumes "length values < 2 ^ 31"
  shows "to_int32 (binarySearch values v) = binarySearch values v"
proof -
  have "length (lower_bound values v) \<le> length values" by (simp add: lower_bound_def length_dropWhile_le)
  with assms show ?thesis
    by (intro to_int32_id) (auto simp: binarySearch_def Let_def int64_defs split: list.split)
qed

lemma binarySearch_hit: "sorted xs \<Longrightarrow> binarySearch xs v \<ge> 0 \<longleftrightarrow> v \<in> set xs"
proof -
  assume s: "sorted xs"
  have len: "length (lower_bound xs v) \<le> length xs" by (simp add: lower_bound_def length_dropWhile_le)
  show ?thesis
  proof (cases "lower_bound xs v")
    case Nil
    then have "\<forall>x \<in> set xs. x < v" using s by (simp add: lower_bound_Nil_iff)
    with Nil show ?thesis by (auto simp: binarySearch_def)
  next
    case (Cons y ys)
    from lower_bound_Cons_iff [OF s this] Cons len show ?thesis
      by (auto simp: binarySearch_def Let_def split: if_splits)
  qed
qed

lemma binarySearch_miss:
  assumes "sorted xs" and "v \<notin> set xs"
  shows "- binarySearch xs v - 1 = int (length (takeWhile (\<lambda>x. x < v) xs))"
proof -
  have "length xs = length (takeWhile (\<lambda>x. x < v) xs) + length (lower_bound xs v)"
    unfolding lower_bound_def by (metis length_append takeWhile_dropWhile_id)
  then show ?thesis
    using assms lower_bound_Cons_iff [OF assms(1), of v]
    by (cases "lower_bound xs v") (auto simp: binarySearch_def Let_def)
qed

lemma ranges_ok_Cons:
  "ranges_ok (r # rs) \<longleftrightarrow>
     wf_range r \<and> \<not> br_nullAllowed r \<and> ranges_ok rs \<and> (\<forall>s \<in> set rs. br_upper r < br_lower s)"
  by (auto simp: ranges_ok_def)

lemma ranges_ok_sorted: "ranges_ok rs \<Longrightarrow> sorted (map br_lower rs)"
  by (induction rs) (fastforce simp: ranges_ok_Cons dest: wf_rangeD(3))+

lemma ranges_ok_ordered: "ranges_ok rs \<Longrightarrow> multi_range_ordered rs"
  by (induction rs rule: multi_range_ordered.induct) (auto simp: ranges_ok_Cons)

text \<open>
  With separated ranges, the value can only be in the last range that starts at or before it.
\<close>

lemma ranges_ok_place:
  assumes "ranges_ok rs" and "v \<notin> br_lower ` set rs"
  defines "k \<equiv> length (takeWhile (\<lambda>x. x < v) (map br_lower rs))"
  shows "v \<in> cover rs \<longleftrightarrow> k \<noteq> 0 \<and> BigintRange_testInt64 (rs ! (k - 1)) v"
  using assms(1,2) unfolding k_def
proof (induction rs)
  case Nil
  then show ?case by (simp add: cover_def)
next
  case (Cons r rs)
  have r: "wf_range r" and rs: "ranges_ok rs" and sep: "\<forall>s \<in> set rs. br_upper r < br_lower s"
    using Cons.prems by (auto simp: ranges_ok_Cons)
  show ?case
  proof (cases "br_lower r < v")
    case False
    with Cons.prems sep wf_rangeD(3) [OF r] have "v \<notin> cover (r # rs)"
      by (fastforce simp: cover_def)
    with False show ?thesis by simp
  next
    case True
    let ?k = "length (takeWhile (\<lambda>x. x < v) (map br_lower rs))"
    have IH: "v \<in> cover rs \<longleftrightarrow> ?k \<noteq> 0 \<and> BigintRange_testInt64 (rs ! (?k - 1)) v"
      using Cons.IH rs Cons.prems by auto
    show ?thesis
    proof (cases "?k = 0")
      case k0: True
      with IH have "v \<notin> cover rs" by simp
      with True k0 show ?thesis by (auto simp: cover_def BigintRange_testInt64_def)
    next
      case k1: False
      then obtain s ss where ss: "rs = s # ss" and "br_lower s < v"
        by (cases rs) (auto split: if_splits)
      with sep have "v > br_upper r" by auto
      then have "v \<in> cover (r # rs) \<longleftrightarrow> v \<in> cover rs" by (auto simp: cover_def)
      moreover have "(r # rs) ! (Suc ?k - 1) = rs ! (?k - 1)" using k1 by (cases ?k) auto
      ultimately show ?thesis using IH True k1 by simp
    qed
  qed
qed

lemma multi_test:
  assumes "wf_multi m"
  shows "BigintMultiRange_testInt64 m v \<longleftrightarrow> v \<in> cover (bm_ranges m)"
proof -
  from assms have ok: "ranges_ok (bm_ranges m)"
    and lb: "bm_lowerBounds m = map br_lower (bm_ranges m)" by (auto simp: wf_multi_def)
  have s: "sorted (bm_lowerBounds m)" using ranges_ok_sorted [OF ok] lb by simp
  show ?thesis
  proof (cases "v \<in> br_lower ` set (bm_ranges m)")
    case True
    then have "binarySearch (bm_lowerBounds m) v \<ge> 0" using s lb by (simp add: binarySearch_hit)
    moreover from True ok have "v \<in> cover (bm_ranges m)"
      by (auto simp: cover_def ranges_ok_def dest: wf_rangeD(3))
    ultimately show ?thesis by (simp add: BigintMultiRange_testInt64_def)
  next
    case False
    let ?k = "length (takeWhile (\<lambda>x. x < v) (map br_lower (bm_ranges m)))"
    have miss: "\<not> binarySearch (bm_lowerBounds m) v \<ge> 0"
      and place: "- binarySearch (bm_lowerBounds m) v - 1 = int ?k"
      using False s lb binarySearch_miss [OF s, of v] by (auto simp: binarySearch_hit)
    have "nat (int ?k - 1) = ?k - 1" by simp
    then show ?thesis
      using ranges_ok_place [OF ok False] miss place
      by (simp add: BigintMultiRange_testInt64_def Let_def)
  qed
qed

lemma accepts_simps [simp]:
  "accepts AlwaysFalse v = False"
  "accepts AlwaysTrue v = True"
  "accepts IsNull v = False"
  "accepts IsNotNull v = True"
  "accepts (BoolValue x n) v \<longleftrightarrow> x = (v \<noteq> 0)"
  "accepts (BigintRange r) v \<longleftrightarrow> br_lower r \<le> v \<and> v \<le> br_upper r"
  "accepts (NegatedBigintRange r n) v \<longleftrightarrow> \<not> (br_lower r \<le> v \<and> v \<le> br_upper r)"
  by (auto simp: accepts_def methods_defs BigintRange_testInt64_def)

lemma accepts_wf:
  "wf_hash h \<Longrightarrow> accepts (BigintValuesUsingHashTable h) v \<longleftrightarrow> v \<in> set (bh_values h)"
  "wf_hash h \<Longrightarrow> accepts (NegatedBigintValuesUsingHashTable h n) v \<longleftrightarrow> v \<notin> set (bh_values h)"
  "wf_bitmask b \<Longrightarrow> accepts (BigintValuesUsingBitmask b) v \<longleftrightarrow> v \<in> set (bb_values b)"
  "wf_bitmask b \<Longrightarrow> accepts (NegatedBigintValuesUsingBitmask mn mx b n) v \<longleftrightarrow> v \<notin> set (bb_values b)"
  "wf_multi m \<Longrightarrow> accepts (BigintMultiRange m) v \<longleftrightarrow> v \<in> cover (bm_ranges m)"
  by (simp_all add: accepts_def methods_defs hash_test bitmask_test multi_test)

lemma testNull_simps [simp]:
  "testNull AlwaysFalse = False"
  "testNull AlwaysTrue = True"
  "testNull IsNull = True"
  "testNull IsNotNull = False"
  "testNull (BoolValue x n) = n"
  "testNull (BigintRange r) = br_nullAllowed r"
  "testNull (NegatedBigintRange r n) = n"
  "testNull (BigintValuesUsingHashTable h) = bh_nullAllowed h"
  "testNull (BigintValuesUsingBitmask b) = bb_nullAllowed b"
  "testNull (NegatedBigintValuesUsingHashTable h n) = n"
  "testNull (NegatedBigintValuesUsingBitmask mn mx b n) = n"
  "testNull (BigintMultiRange m) = bm_nullAllowed m"
  by (simp_all add: methods_defs)

text \<open>On a well-formed filter the test never throws.\<close>

lemma wf_testInt64: "wf_int f \<Longrightarrow> testInt64 f v = Inr (accepts f v)"
  by (cases f) (auto simp: accepts_def methods_defs)

end
