(* ===== verification/Filter_Int_Lists.thy ===== *)
theory Filter_Int_Lists
  imports Filter_Int
begin

text \<open>
  The helpers that build an integer filter from a list of values or of ranges: the filter is
  well-formed and passes exactly the listed values (the values outside the list, negated), and
  null as asked.
\<close>

section \<open>Creating filters from lists\<close>

lemma minMaxLoop:
  assumes "minMaxLoop mn mx vs = (lo, hi)" and "mn \<le> mx"
  shows "lo \<in> insert mn (set vs)" "hi \<in> insert mx (set vs)" "lo \<le> mn" "mx \<le> hi"
    "\<forall>v \<in> set vs. lo \<le> v \<and> v \<le> hi"
  using assms
proof (induction vs arbitrary: mn mx)
  case (Cons v vs)
  { case 1 show ?case using Cons.IH(1) [of mn v] Cons.IH(1) [of v mx] Cons.IH(1) [of mn mx] 1
      by (auto split: if_splits)
  next
    case 2 show ?case using Cons.IH(2) [of mn v] Cons.IH(2) [of v mx] Cons.IH(2) [of mn mx] 2
      by (auto split: if_splits)
  next
    case 3 show ?case using Cons.IH(3) [of mn v] Cons.IH(3) [of v mx] Cons.IH(3) [of mn mx] 3
      by (auto split: if_splits)
  next
    case 4 show ?case using Cons.IH(4) [of mn v] Cons.IH(4) [of v mx] Cons.IH(4) [of mn mx] 4
      by (auto split: if_splits)
  next
    case 5 show ?case
      using Cons.IH(3,4,5) [of mn v] Cons.IH(3,4,5) [of v mx] Cons.IH(3,4,5) [of mn mx] 5
      by (auto split: if_splits) }
qed auto

text \<open>As many distinct values as the interval has elements are all of them.\<close>

lemma distinct_fills_interval:
  fixes xs :: "int list"
  assumes "distinct xs" "\<forall>v \<in> set xs. lo \<le> v \<and> v \<le> hi" "hi - lo + 1 = int (length xs)"
  shows "set xs = {lo..hi}"
proof (rule card_subset_eq)
  show "finite {lo..hi}" by simp
  show "set xs \<subseteq> {lo..hi}" using assms(2) by auto
  show "card (set xs) = card {lo..hi}" using assms(1,3) by (simp add: distinct_card)
qed

lemma bitmask_set_length: "bitmask_set mn mx vs bits = Inr bits' \<Longrightarrow> length bits' = length bits"
  by (induction mn mx vs bits rule: bitmask_set.induct) (auto simp: checkR_Inr_iff)

lemma bitmask_set_nth:
  assumes "bitmask_set mn mx vs bits = Inr bits'" "length bits = nat (mx - mn + 1)" "i < length bits"
  shows "bits' ! i \<longleftrightarrow> bits ! i \<or> mn + int i \<in> set vs"
  using assms
proof (induction mn mx vs bits rule: bitmask_set.induct)
  case (1 mn mx bits)
  then show ?case by simp
next
  case (2 mn mx v vs bits)
  have v: "v \<ge> mn" "v \<le> mx"
    and rec: "bitmask_set mn mx vs (bits[nat (v - mn) := True]) = Inr bits'"
    using "2.prems"(1) by (auto simp: checkR_Inr_iff)
  have "bits' ! i \<longleftrightarrow> bits[nat (v - mn) := True] ! i \<or> mn + int i \<in> set vs"
    using "2.IH" [OF rec] "2.prems" by simp
  moreover have "nat (v - mn) = i \<longleftrightarrow> v = mn + int i" using v by auto
  ultimately show ?case using "2.prems"(3) by (auto simp: nth_list_update)
qed

lemma bitmask_set_bounds:
  "bitmask_set mn mx vs bits = Inr bits' \<Longrightarrow> v \<in> set vs \<Longrightarrow> mn \<le> v \<and> v \<le> mx"
  by (induction mn mx vs bits rule: bitmask_set.induct) (auto simp: checkR_Inr_iff)

lemma bitmask_new_wf:
  assumes "BigintValuesUsingBitmask_new mn mx vs n = Inr b" "in_int64 mn" "in_int64 mx"
  shows "wf_bitmask b \<and> set (bb_values b) = set vs \<and> bb_nullAllowed b = n"
proof -
  let ?z = "replicate (nat (mx - mn + 1)) False"
  from assms(1) obtain bits where lt: "mn < mx" and len: "length vs > 1"
    and set: "bitmask_set mn mx vs ?z = Inr bits"
    and b: "b = \<lparr>bb_bitmask = bits, bb_values = bitmask_values mn bits, bb_min = mn, bb_max = mx,
                 bb_nullAllowed = n\<rparr>"
    by (auto simp: BigintValuesUsingBitmask_new_def result_simps split: if_splits)
  have l: "length bits = nat (mx - mn + 1)" using bitmask_set_length [OF set] by simp
  have "set (bitmask_values mn bits) = set vs"
  proof (rule set_eqI)
    fix v
    show "v \<in> set (bitmask_values mn bits) \<longleftrightarrow> v \<in> set vs"
      using bitmask_set_nth [OF set, of "nat (v - mn)"] bitmask_set_bounds [OF set, of v] l lt
      by (auto simp: bitmask_values_set)
  qed
  moreover from this len have "bitmask_values mn bits \<noteq> []" by (cases vs) auto
  ultimately show ?thesis using assms(2,3) b l lt by (simp add: wf_bitmask_def)
qed

lemma hash_new_wf:
  assumes "BigintValuesUsingHashTable_new mn mx vs n = Inr h" "distinct vs"
    "in_int64 mn" "in_int64 mx" "mn \<in> set vs" "mx \<in> set vs" "\<forall>v \<in> set vs. mn \<le> v \<and> v \<le> mx"
  shows "wf_hash h \<and> set (bh_values h) = set vs \<and> bh_nullAllowed h = n"
  using assms by (auto simp: BigintValuesUsingHashTable_new_def wf_hash_def checkR_Inr_iff)

definition list_filter_good :: "filter \<Rightarrow> int list \<Rightarrow> bool \<Rightarrow> bool \<Rightarrow> bool" where
  "list_filter_good h vs n neg \<longleftrightarrow>
     wf_int h \<and> testNull h = n \<and> (\<forall>v. accepts h v \<longleftrightarrow> (v \<in> set vs) \<noteq> neg)"

lemma create_cases:
  assumes "createBigintValuesFilter (x # y # ys) n neg = Inr h" "minMaxLoop x x (y # ys) = (lo, hi)"
  obtains (range) "hi - lo + 1 = int (length (x # y # ys))"
      "h = (if neg then NegatedBigintRange_new lo hi n else BigintRange (BigintRange_new lo hi n))"
    | (bitmask) b where "\<not> (in_int64 (hi - lo) \<and> hi - lo + 1 = int (length (x # y # ys)))"
        "BigintValuesUsingBitmask_new lo hi (x # y # ys) (n \<noteq> neg) = Inr b"
        "h = (if neg then NegatedBigintValuesUsingBitmask (to_int32 lo) (to_int32 hi) b n else BigintValuesUsingBitmask b)"
    | (hash) t where "\<not> (in_int64 (hi - lo) \<and> hi - lo + 1 = int (length (x # y # ys)))"
        "BigintValuesUsingHashTable_new lo hi (x # y # ys) (n \<noteq> neg) = Inr t"
        "h = (if neg then NegatedBigintValuesUsingHashTable t n else BigintValuesUsingHashTable t)"
  using assms
  by (cases neg) (auto simp: createBigintValuesFilter_def Let_def result_simps
      NegatedBigintValuesUsingBitmask_new_def NegatedBigintValuesUsingHashTable_new_def
      split: if_splits)

lemma create_many:
  assumes "createBigintValuesFilter (x # y # ys) n neg = Inr h"
    and d: "distinct (x # y # ys)" and i: "\<forall>v \<in> set (x # y # ys). in_int64 v"
  shows "list_filter_good h (x # y # ys) n neg"
proof -
  let ?vs = "x # y # ys"
  obtain lo hi where mm: "minMaxLoop x x (y # ys) = (lo, hi)" by (cases "minMaxLoop x x (y # ys)")
  note lh = minMaxLoop [OF mm order.refl]
  have lo: "lo \<in> set ?vs" and hi: "hi \<in> set ?vs" and bnd: "\<forall>v \<in> set ?vs. lo \<le> v \<and> v \<le> hi"
    using lh by auto
  have le: "lo \<le> hi" using lh(3,4) by linarith
  have i': "in_int64 lo" "in_int64 hi" using i lo hi by blast+
  from assms(1) mm show ?thesis
  proof (cases rule: create_cases)
    case range
    have "set ?vs = {lo..hi}" by (rule distinct_fills_interval [OF d bnd range(1)])
    then show ?thesis using range(2) i' le
      by (auto simp: list_filter_good_def NegatedBigintRange_new_def)
  next
    case (bitmask b)
    with bitmask_new_wf [OF bitmask(2) i'] show ?thesis by (auto simp: list_filter_good_def accepts_wf)
  next
    case (hash t)
    with hash_new_wf [OF hash(2) d i' lo hi bnd] show ?thesis
      by (auto simp: list_filter_good_def accepts_wf)
  qed
qed

lemma create_good:
  assumes "createBigintValuesFilter vs n neg = Inr h" "distinct vs" "\<forall>v \<in> set vs. in_int64 v"
  shows "list_filter_good h vs n neg"
proof -
  consider "vs = []" | x where "vs = [x]" | x y ys where "vs = x # y # ys"
    by (cases vs; cases "tl vs") auto
  then show ?thesis
  proof cases
    case 1
    with assms show ?thesis
      by (auto simp: createBigintValuesFilter_def list_filter_good_def nullOrFalse_def notNullOrTrue_def
          split: if_splits)
  next
    case 2
    with assms show ?thesis
      by (auto simp: createBigintValuesFilter_def list_filter_good_def NegatedBigintRange_new_def
          split: if_splits)
  next
    case 3
    with assms show ?thesis using create_many by simp
  qed
qed

text \<open>
  The values that a list with duplicates stands for: a list with as many entries as the interval
  that it spans has elements is taken for that interval.
\<close>

definition listed :: "int list \<Rightarrow> int set" where
  "listed vs =
     (if 2 \<le> length vs \<and> int (length vs) = Max (set vs) - Min (set vs) + 1
      then {Min (set vs)..Max (set vs)} else set vs)"

lemma minMaxLoop_Min_Max:
  assumes "minMaxLoop x x xs = (lo, hi)"
  shows "lo = Min (set (x # xs))" "hi = Max (set (x # xs))"
proof -
  note lh = minMaxLoop [OF assms order.refl]
  show "lo = Min (set (x # xs))" by (rule Min_eqI [symmetric]) (use lh in auto)
  show "hi = Max (set (x # xs))" by (rule Max_eqI [symmetric]) (use lh in auto)
qed

lemma listed_distinct:
  assumes "distinct vs"
  shows "listed vs = set vs"
proof (cases "2 \<le> length vs \<and> int (length vs) = Max (set vs) - Min (set vs) + 1")
  case True
  then have "\<forall>v \<in> set vs. Min (set vs) \<le> v \<and> v \<le> Max (set vs)" by simp
  then have "set vs = {Min (set vs)..Max (set vs)}" by (rule distinct_fills_interval [OF assms]) (use True in simp)
  then show ?thesis using True by (simp add: listed_def)
qed (auto simp: listed_def)

lemma hash_new_test:
  assumes "BigintValuesUsingHashTable_new mn mx vs n = Inr h" "\<forall>v \<in> set vs. mn \<le> v \<and> v \<le> mx"
  shows "BigintValuesUsingHashTable_testInt64 h v \<longleftrightarrow> v \<in> set vs" "bh_nullAllowed h = n"
  using assms by (auto simp: BigintValuesUsingHashTable_new_def BigintValuesUsingHashTable_testInt64_def checkR_Inr_iff)

lemma create_lists:
  assumes "createBigintValuesFilter vs n neg = Inr h" "\<forall>v \<in> set vs. in_int64 v" "length vs \<le> 4194304"
  shows "testNull h = n \<and> (\<forall>v. testInt64 h v = Inr ((v \<in> listed vs) \<noteq> neg))"
proof -
  consider (few) "length vs < 2" | (many) x y ys where "vs = x # y # ys" by (cases vs; cases "tl vs") auto
  then show ?thesis
  proof cases
    case few
    then have d: "distinct vs" by (cases vs; cases "tl vs") auto
    from create_good [OF assms(1) d assms(2)] wf_testInt64 [of h] listed_distinct [OF d] show ?thesis
      by (auto simp: list_filter_good_def)
  next
    case (many x y ys)
    obtain lo hi where mm: "minMaxLoop x x (y # ys) = (lo, hi)" by (cases "minMaxLoop x x (y # ys)")
    note lh = minMaxLoop [OF mm order.refl]
    have bnd: "\<forall>v \<in> set vs. lo \<le> v \<and> v \<le> hi" and i: "in_int64 lo" "in_int64 hi"
      using lh assms(2) many by auto
    have l: "listed vs = (if hi - lo + 1 = int (length vs) then {lo..hi} else set vs)"
      using many minMaxLoop_Min_Max [OF mm] by (auto simp: listed_def)
    have len: "hi - lo + 1 = int (length vs) \<Longrightarrow> in_int64 (hi - lo)" using assms(3) by (simp add: in_int64_def int64_defs)
    have "createBigintValuesFilter (x # y # ys) n neg = Inr h" using assms(1) many by simp
    from this mm show ?thesis
    proof (cases rule: create_cases)
      case range
      then show ?thesis using l many by (auto simp: NegatedBigintRange_new_def methods_defs BigintRange_testInt64_def)
    next
      case (bitmask b)
      with bitmask_new_wf [OF bitmask(2) i] len l many show ?thesis
        by (auto simp: methods_defs bitmask_test)
    next
      case (hash t)
      with hash_new_test [OF hash(2)] bnd len l many show ?thesis by (auto simp: methods_defs)
    qed
  qed
qed

text \<open>A list that repeats one value only.\<close>

lemma create_repeated:
  assumes "2 \<le> length vs" "set vs = {x}"
  shows "createBigintValuesFilter vs n neg = Inl CheckFailed"
proof -
  have "minMaxLoop x x xs = (x, x)" if "set xs \<subseteq> {x}" for xs using that by (induction xs) auto
  moreover obtain y z zs where vs: "vs = y # z # zs" using assms(1) by (cases vs; cases "tl vs") auto
  moreover from this assms(2) have "y = x" "z = x" "set zs \<subseteq> {x}" by auto
  ultimately show ?thesis
    by (simp add: createBigintValuesFilter_def BigintValuesUsingBitmask_new_def NegatedBigintValuesUsingBitmask_new_def
        in_int64_def int64_defs del: minMaxLoop.simps)
qed

section \<open>Combining ranges\<close>

lemma cover_simps [simp]:
  "cover [] = {}"
  "cover (r # rs) = {br_lower r..br_upper r} \<union> cover rs"
  "cover (rs @ ss) = cover rs \<union> cover ss"
  by (auto simp: cover_def)

lemma ranges_ok_Nil [simp]: "ranges_ok []"
  by (simp add: ranges_ok_def)

lemma ranges_ok_append:
  "ranges_ok (rs @ ss) \<longleftrightarrow>
     ranges_ok rs \<and> ranges_ok ss \<and> (\<forall>r \<in> set rs. \<forall>s \<in> set ss. br_upper r < br_lower s)"
  by (auto simp: ranges_ok_def sorted_wrt_append)

lemma cover_bounds:
  "ranges_ok rs \<Longrightarrow> r \<in> set rs \<Longrightarrow> br_lower r \<in> cover rs \<and> br_upper r \<in> cover rs"
  by (auto simp: cover_def ranges_ok_def dest: wf_rangeD(3))

lemma cover_in_int64: "ranges_ok rs \<Longrightarrow> v \<in> cover rs \<Longrightarrow> in_int64 v"
  by (force simp: cover_def ranges_ok_def in_int64_def dest: wf_rangeD)

definition cover_filter_good :: "filter \<Rightarrow> int set \<Rightarrow> bool \<Rightarrow> bool" where
  "cover_filter_good h V n \<longleftrightarrow>
     wf_int h \<and> testNull h = n \<and> (\<forall>v. in_int64 v \<longrightarrow> (accepts h v \<longleftrightarrow> v \<in> V))"

lemma multi_new_good:
  assumes "ranges_ok rs" "BigintMultiRange_new rs n = Inr h"
  shows "cover_filter_good h (cover rs) n"
proof -
  let ?m = "\<lparr>bm_ranges = rs, bm_lowerBounds = map br_lower rs, bm_nullAllowed = n\<rparr>"
  from assms have h: "h = BigintMultiRange ?m" and wf: "wf_multi ?m"
    by (auto simp: BigintMultiRange_new_def checkR_Inr_iff wf_multi_def)
  show ?thesis using accepts_wf(5) [OF wf] wf by (simp add: h cover_filter_good_def)
qed

lemma combine_good:
  assumes "ranges_ok rs" "combineBigintRanges rs n = Inr h"
  shows "cover_filter_good h (cover rs) n"
proof -
  consider "rs = []" | r where "rs = [r]" | r s ss where "rs = r # s # ss"
    by (cases rs; cases "tl rs") auto
  then show ?thesis
  proof cases
    case 1
    with assms(2) show ?thesis
      by (cases n) (auto simp: combineBigintRanges_def cover_filter_good_def nullOrFalse_def)
  next
    case 2
    with assms show ?thesis
      by (auto simp: combineBigintRanges_def cover_filter_good_def ranges_ok_Cons dest: wf_rangeD)
  next
    case 3
    with assms(2) have "BigintMultiRange_new rs n = Inr h" by (simp add: combineBigintRanges_def)
    with assms(1) show ?thesis by (rule multi_new_good)
  qed
qed

lemma mapR_ranges:
  assumes "mapR f rs = Inr outs" and "ranges_ok rs"
    and "\<And>r out. r \<in> set rs \<Longrightarrow> f r = Inr out \<Longrightarrow>
           ranges_ok out \<and> cover out = {br_lower r..br_upper r} - R"
  shows "ranges_ok (concat outs) \<and> cover (concat outs) = cover rs - R"
  using assms
proof (induction rs arbitrary: outs)
  case Nil
  then show ?case by simp
next
  case (Cons r rs)
  obtain out outs' where o: "f r = Inr out" "mapR f rs = Inr outs'" "outs = out # outs'"
    using Cons.prems(1) by (auto simp: bindR_Inr_iff)
  have ok: "ranges_ok rs" and sep: "\<forall>s \<in> set rs. br_upper r < br_lower s"
    using Cons.prems(2) by (auto simp: ranges_ok_Cons)
  have out: "ranges_ok out" "cover out = {br_lower r..br_upper r} - R"
    using Cons.prems(3) [of r out] o(1) by auto
  have IH: "ranges_ok (concat outs')" "cover (concat outs') = cover rs - R"
    using Cons.IH [OF o(2) ok] Cons.prems(3) by auto
  have "br_upper a < br_lower b" if "a \<in> set out" "b \<in> set (concat outs')" for a b
  proof -
    have "br_upper a \<le> br_upper r" using cover_bounds [OF out(1) that(1)] out(2) by auto
    moreover have "br_lower b \<in> cover rs" using cover_bounds [OF IH(1) that(2)] IH(2) by auto
    then obtain s where "s \<in> set rs" "br_lower s \<le> br_lower b" by (auto simp: cover_def)
    ultimately show ?thesis using sep by force
  qed
  then show ?case using out IH o(3) by (auto simp: ranges_ok_append)
qed

end
