(* ===== verification/Filter_Int_Ranges.thy ===== *)
theory Filter_Int_Ranges
  imports Filter_Int_Lists
begin

text \<open>
  The helpers of \<^verbatim>\<open>mergeWith\<close> that cut values or a range out of a list of ranges, merge lists
  of rejected values and scan a bitmask.
\<close>

section \<open>Cutting values out of ranges\<close>

lemma splitRange_good:
  assumes "splitRange lower upper start it = Inr (out, s)"
    and "lower \<le> start" "in_int64 start" "in_int64 upper"
    and "sorted it" "distinct it" "\<forall>v \<in> set it. start \<le> v"
  shows "ranges_ok out \<and> start \<le> s \<and> in_int64 s \<and> (\<forall>r \<in> set out. br_upper r < s) \<and>
         cover out \<union> {s..upper} = {start..upper} - set it"
  using assms
proof (induction it arbitrary: start out s)
  case Nil
  then show ?case by simp
next
  case (Cons v it)
  show ?case
  proof (cases "v - 1 < upper")
    case False
    with Cons.prems have "out = []" "s = start" by (auto simp: result_simps split: if_splits)
    with False Cons.prems show ?thesis by auto
  next
    case True
    with Cons.prems(1,2) obtain out' where v: "in_int64 (v - 1)" "in_int64 (v + 1)"
      and rec: "splitRange lower upper (v + 1) it = Inr (out', s)"
      and out: "out = (if start \<le> v - 1 then BigintRange_new start (v - 1) False # out' else out')"
      by (auto simp: result_simps split: if_splits)
    have "v + 1 \<le> w" if "w \<in> set it" for w
      using Cons.prems(5,6) that by (cases "w = v") auto
    then have it: "\<forall>w \<in> set it. v + 1 \<le> w" by blast
    have IH: "ranges_ok out'" "v + 1 \<le> s" "in_int64 s" "\<forall>r \<in> set out'. br_upper r < s"
        "cover out' \<union> {s..upper} = {v + 1..upper} - set it"
      using Cons.IH [OF rec] True v it Cons.prems by (auto simp: result_simps)
    have "br_lower r \<in> {v + 1..upper} - set it" if "r \<in> set out'" for r
      using cover_bounds [OF IH(1) that] IH(5) by blast
    then have "\<forall>r \<in> set out'. v < br_lower r" by fastforce
    moreover have "{start..upper} - set (v # it) = {start..v - 1} \<union> ({v + 1..upper} - set it)"
      using True Cons.prems(7) it by auto
    ultimately show ?thesis
      using IH v Cons.prems(3,7) by (auto simp: out ranges_ok_Cons)
  qed
qed

lemma rangeWithoutRejects_good:
  assumes "rangeWithoutRejects rejects r = Inr out" "wf_range r" "sorted rejects" "distinct rejects"
  shows "ranges_ok out \<and> cover out = {br_lower r..br_upper r} - set rejects"
proof -
  let ?it = "lower_bound rejects (br_lower r)"
  obtain out' s where
      sp: "splitRange (br_lower r) (br_upper r) (br_lower r) ?it = Inr (out', s)"
    and out: "out = (if s \<le> br_upper r \<and> s \<ge> br_lower r
                     then out' @ [BigintRange_new s (br_upper r) False] else out')"
    using assms(1) by (auto simp: rangeWithoutRejects_def result_simps Let_def)
  note wf = wf_rangeD [OF assms(2)]
  have it: "set ?it = {x \<in> set rejects. br_lower r \<le> x}" using assms(3) by (rule lower_bound_set)
  have "ranges_ok out' \<and> br_lower r \<le> s \<and> in_int64 s \<and> (\<forall>r \<in> set out'. br_upper r < s) \<and>
         cover out' \<union> {s..br_upper r} = {br_lower r..br_upper r} - set ?it"
    by (rule splitRange_good [OF sp]) (simp_all add: wf assms(3,4) it)
  moreover have "{br_lower r..br_upper r} - set ?it = {br_lower r..br_upper r} - set rejects"
    unfolding it by auto
  ultimately show ?thesis using wf by (auto simp: out ranges_ok_append ranges_ok_Cons)
qed

lemma combineRangesAndNegatedValues_good:
  assumes "combineRangesAndNegatedValues rs rejects n = Inr h"
    and "ranges_ok rs" "sorted rejects" "distinct rejects"
  shows "cover_filter_good h (cover rs - set rejects) n"
proof -
  obtain outs where m: "mapR (rangeWithoutRejects rejects) rs = Inr outs"
    and c: "combineBigintRanges (concat outs) n = Inr h"
    using assms(1) by (auto simp: combineRangesAndNegatedValues_def result_simps)
  have "ranges_ok (concat outs) \<and> cover (concat outs) = cover rs - set rejects"
    by (rule mapR_ranges [OF m assms(2)])
      (use assms rangeWithoutRejects_good in \<open>auto simp: ranges_ok_def\<close>)
  with combine_good [OF _ c] show ?thesis by metis
qed

section \<open>Cutting a range out of ranges\<close>

lemma subtractRange_good:
  assumes "subtractRange nl nu r = Inr out" "wf_range r" "nl \<le> nu"
  shows "ranges_ok out \<and> cover out = {br_lower r..br_upper r} - {nl..nu}"
  using assms wf_rangeD [OF assms(2)]
  by (auto simp: subtractRange_def result_simps ranges_ok_Cons ranges_ok_append split: if_splits)

lemma combineNegatedRange_good:
  assumes "combineNegatedRangeOnIntRanges nl nu rs n = Inr h" "ranges_ok rs" "nl \<le> nu"
  shows "cover_filter_good h (cover rs - {nl..nu}) n"
proof -
  obtain outs where m: "mapR (subtractRange nl nu) rs = Inr outs"
    and c: "combineBigintRanges (concat outs) n = Inr h"
    using assms(1) by (auto simp: combineNegatedRangeOnIntRanges_def result_simps)
  have "ranges_ok (concat outs) \<and> cover (concat outs) = cover rs - {nl..nu}"
    by (rule mapR_ranges [OF m assms(2)])
      (use assms subtractRange_good in \<open>auto simp: ranges_ok_def\<close>)
  with combine_good [OF _ c] show ?thesis by metis
qed

section \<open>Lists of rejected values\<close>

lemma mergeRejected_set [simp]: "set (mergeRejected xs ys) = set xs \<union> set ys"
  by (induction xs ys rule: mergeRejected.induct) (auto simp: Let_def min_def split: if_splits)

lemma mergeRejected_sorted:
  assumes "sorted_wrt (<) xs" "sorted_wrt (<) ys"
  shows "sorted_wrt (<) (mergeRejected xs ys)"
  using assms
proof (induction xs ys rule: mergeRejected.induct)
  case (1 x xs y ys)
  have "sorted_wrt (<) (mergeRejected (if min x y = x then xs else x # xs)
                                      (if min x y = y then ys else y # ys))"
    using "1.IH" [OF refl] "1.prems" by (simp split: if_splits)
  then show ?case using "1.prems" by (fastforce simp: Let_def min_def)
qed auto

lemma strictly_sorted: "sorted_wrt (<) (xs :: 'a::linorder list) \<longleftrightarrow> sorted xs \<and> distinct xs"
  by (simp add: strict_sorted_iff)

lemma combineNegatedBigintLists_good:
  assumes "combineNegatedBigintLists xs ys n = Inr h"
    and "sorted xs" "distinct xs" "sorted ys" "distinct ys"
    and "\<forall>v \<in> set xs \<union> set ys. in_int64 v"
  shows "list_filter_good h (mergeRejected xs ys) n True"
proof -
  have "distinct (mergeRejected xs ys)"
    using mergeRejected_sorted [of xs ys] assms by (simp add: strictly_sorted)
  with assms show ?thesis
    by (simp add: combineNegatedBigintLists_def createNegatedBigintValues_def create_good)
qed

section \<open>Ranges between rejected values\<close>

lemma gapRanges_good:
  assumes "gapRanges bk vs = Inr out" "sorted_wrt (<) (bk # vs)" "\<forall>v \<in> set (bk # vs). in_int64 v"
  shows "ranges_ok out \<and> cover out = {bk + 1..int64_max} - set vs"
  using assms
proof (induction vs arbitrary: bk out)
  case Nil
  then show ?case
    by (auto simp: result_simps ranges_ok_Cons in_int64_def int64_min_def int64_max_def split: if_splits)
next
  case (Cons front vs)
  from Cons.prems(1) obtain out' where v: "in_int64 (bk + 1)" "in_int64 (front - 1)"
      and rec: "gapRanges front vs = Inr out'"
      and out: "out = (if bk + 1 \<le> front - 1 then BigintRange_new (bk + 1) (front - 1) False # out' else out')"
    by (auto simp: result_simps)
  have IH: "ranges_ok out'" "cover out' = {front + 1..int64_max} - set vs"
    using Cons.IH [OF rec] v Cons.prems(2,3) by (auto simp: result_simps)
  have "\<forall>r \<in> set out'. front < br_lower r"
    using cover_bounds [OF IH(1)] IH(2) by fastforce
  moreover have "{bk + 1..int64_max} - set (front # vs) =
      {bk + 1..front - 1} \<union> ({front + 1..int64_max} - set vs)"
    using Cons.prems(2,3) by (fastforce simp: in_int64_def)
  ultimately show ?case using IH v by (auto simp: out ranges_ok_Cons)
qed

lemma negatedValuesToRanges_good:
  assumes "negatedValuesToRanges vs = Inr out" "sorted vs" "distinct vs" "\<forall>v \<in> set vs. in_int64 v"
  shows "ranges_ok out \<and> cover out = {v. in_int64 v} - set vs"
proof -
  obtain bk ws where vs: "vs = bk # ws"
    using assms(1) by (cases vs) (auto simp: negatedValuesToRanges_def)
  with assms(1) obtain rs where g: "gapRanges bk ws = Inr rs"
    and out: "out = (if bk > int64_min then [BigintRange_new int64_min (bk - 1) False] else []) @ rs"
    by (auto simp: negatedValuesToRanges_def result_simps split: if_splits)
  have s: "sorted_wrt (<) (bk # ws)" using assms(2,3) unfolding vs strictly_sorted by simp
  from gapRanges_good [OF g s] assms(4) vs
  have rs: "ranges_ok rs" "cover rs = {bk + 1..int64_max} - set ws" by auto
  have "\<forall>r \<in> set rs. bk < br_lower r" using cover_bounds [OF rs(1)] rs(2) by fastforce
  moreover have "in_int64 bk" "\<forall>w \<in> set ws. bk < w" using assms(4) vs s by auto
  ultimately show ?thesis using rs vs
    by (auto simp: out ranges_ok_append ranges_ok_Cons in_int64_def int64_min_def int64_max_def)
qed

section \<open>Scanning a bitmask\<close>

lemma bitmaskScan_good:
  assumes "bitmaskScan b mn mx test = Inr out" "wf_bitmask b" "bb_min b \<le> mn" "mx \<le> bb_max b"
    and "\<And>i. mn \<le> i \<Longrightarrow> i \<le> mx \<Longrightarrow> test i = Inr (q i)"
  shows "distinct out \<and> set out = {v \<in> set (bb_values b). mn \<le> v \<and> v \<le> mx \<and> q v}"
proof -
  let ?bit = "\<lambda>i. if bb_bitmask b ! nat (i - bb_min b) then test i else Inr False"
  have "filterR ?bit [mn..mx] = Inr out" using assms(1) by (auto simp: bitmaskScan_def result_simps)
  moreover have "filterR ?bit [mn..mx] = Inr (filter (\<lambda>i. i \<in> set (bb_values b) \<and> q i) [mn..mx])"
    by (rule filterR_Inr) (use assms bitmask_bit in auto)
  ultimately show ?thesis by auto
qed

end
