(* ===== verification/Filter_Int_Stats.thy ===== *)
theory Filter_Int_Stats
  imports Filter_Int_Ranges
begin

text \<open>
  Testing a range of 64-bit integers, as the readers do with the statistics of a stripe or a row
  group: a negative answer is only given when no value of the range passes.
\<close>

lemma length_lower_bound:
  assumes "sorted xs" "distinct xs"
  shows "length (lower_bound xs a) = card {x \<in> set xs. a \<le> x}"
  using assms distinct_card [of "lower_bound xs a"] by (simp add: lower_bound_set)

lemma lower_bound_difference:
  fixes xs :: "int list"
  assumes "sorted xs" "distinct xs" "a \<le> b"
  shows "int (length (lower_bound xs a)) - int (length (lower_bound xs b)) =
         int (card {x \<in> set xs. a \<le> x \<and> x < b})"
proof -
  have "{x \<in> set xs. a \<le> x} = {x \<in> set xs. a \<le> x \<and> x < b} \<union> {x \<in> set xs. b \<le> x}"
    using assms(3) by auto
  moreover have "{x \<in> set xs. a \<le> x \<and> x < b} \<inter> {x \<in> set xs. b \<le> x} = {}" by auto
  ultimately have "card {x \<in> set xs. a \<le> x} =
      card {x \<in> set xs. a \<le> x \<and> x < b} + card {x \<in> set xs. b \<le> x}"
    by (simp add: card_Un_disjoint)
  then show ?thesis by (simp add: length_lower_bound assms)
qed

text \<open>\<open>range_answer f mn mx hasNull r\<close>: the answer is defined, and a negative one loses nothing.\<close>

definition range_answer :: "filter \<Rightarrow> int \<Rightarrow> int \<Rightarrow> bool \<Rightarrow> bool result \<Rightarrow> bool" where
  "range_answer f mn mx hasNull r \<longleftrightarrow>
     (\<exists>b. r = Inr b \<and>
          (\<not> b \<longrightarrow> \<not> (hasNull \<and> testNull f) \<and> (\<forall>v. mn \<le> v \<and> v \<le> mx \<longrightarrow> \<not> accepts f v)))"

lemma range_answerI:
  "r = Inr b \<Longrightarrow> (\<not> b \<Longrightarrow> \<not> (hasNull \<and> testNull f)) \<Longrightarrow>
   (\<And>v. \<not> b \<Longrightarrow> mn \<le> v \<Longrightarrow> v \<le> mx \<Longrightarrow> \<not> accepts f v) \<Longrightarrow> range_answer f mn mx hasNull r"
  by (simp add: range_answer_def)

lemma hash_lower_bound:
  assumes "wf_hash h" "x \<le> bh_max h"
  obtains it its where "lower_bound (bh_values h) x = it # its"
proof -
  have "sorted (bh_values h)" "bh_max h \<in> set (bh_values h)" using assms(1) by (auto simp: wf_hash_def)
  then have "lower_bound (bh_values h) x \<noteq> []" using assms(2) by (force simp: lower_bound_Nil_iff)
  then show ?thesis using that by (cases "lower_bound (bh_values h) x") auto
qed

lemma hash_range_answer:
  assumes wf: "wf_hash h" and "mn \<le> mx"
  shows "range_answer (BigintValuesUsingHashTable h) mn mx hasNull
           (BigintValuesUsingHashTable_testInt64Range h mn mx hasNull)"
proof (cases "(hasNull \<and> bh_nullAllowed h) \<or> mn = mx \<or> mn > bh_max h \<or> mx < bh_min h")
  case True
  have "v \<notin> set (bh_values h)" if "v > bh_max h \<or> v < bh_min h" for v
    using wf that by (auto simp: wf_hash_def)
  with True show ?thesis
    by (auto simp: BigintValuesUsingHashTable_testInt64Range_def range_answer_def accepts_wf(1) [OF wf]
        hash_test [OF wf])
next
  case False
  have s: "sorted (bh_values h)" using wf by (simp add: wf_hash_def)
  obtain it its where it: "lower_bound (bh_values h) mn = it # its"
    using hash_lower_bound [OF wf, of mn] False by auto
  with lower_bound_Cons_iff [OF s it] False wf show ?thesis
    by (auto simp: BigintValuesUsingHashTable_testInt64Range_def range_answer_def accepts_wf)
qed

text \<open>
  The difference of the bounds, which a negated list of values in a hash table computes when it lists
  both, is not a 64-bit number.
\<close>

definition range_overflows :: "filter \<Rightarrow> int \<Rightarrow> int \<Rightarrow> bool \<Rightarrow> bool" where
  "range_overflows f mn mx hasNull \<longleftrightarrow>
     (case f of
        NegatedBigintValuesUsingHashTable h n \<Rightarrow>
          \<not> (hasNull \<and> n) \<and> mn \<in> set (bh_values h) \<and> mx \<in> set (bh_values h) \<and> mx - mn > int64_max
      | _ \<Rightarrow> False)"

lemma negated_hash_range_answer:
  assumes wf: "wf_hash h" and "mn \<le> mx"
    and d: "\<not> range_overflows (NegatedBigintValuesUsingHashTable h n) mn mx hasNull"
  shows "range_answer (NegatedBigintValuesUsingHashTable h n) mn mx hasNull
           (NegatedBigintValuesUsingHashTable_testInt64Range h n mn mx hasNull)"
proof (cases "(hasNull \<and> n) \<or> mn = mx \<or> mx > bh_max h \<or> mn < bh_min h")
  case True
  with wf show ?thesis
    by (auto simp: NegatedBigintValuesUsingHashTable_testInt64Range_def range_answer_def accepts_wf
        hash_test)
next
  case False
  have s: "sorted (bh_values h)" and dis: "distinct (bh_values h)" using wf by (simp_all add: wf_hash_def)
  obtain lo los where lo: "lower_bound (bh_values h) mn = lo # los"
    using hash_lower_bound [OF wf, of mn] False \<open>mn \<le> mx\<close> by auto
  obtain hi his where hi: "lower_bound (bh_values h) mx = hi # his"
    using hash_lower_bound [OF wf, of mx] False by auto
  let ?diff = "int (length (lo # los)) - int (length (hi # his))"
  have cnt: "?diff = int (card {x \<in> set (bh_values h). mn \<le> x \<and> x < mx})"
    using lower_bound_difference [OF s dis \<open>mn \<le> mx\<close>] lo hi by simp
  have all: "\<forall>v. mn \<le> v \<and> v \<le> mx \<longrightarrow> v \<in> set (bh_values h)" if "?diff = mx - mn" "mx = hi"
  proof -
    have eq: "{x \<in> set (bh_values h). mn \<le> x \<and> x < mx} = {mn..<mx}"
      by (rule card_subset_eq) (use that cnt in auto)
    have mx: "mx \<in> set (bh_values h)" using lower_bound_Cons_iff [OF s hi] that by simp
    have "v \<in> set (bh_values h)" if "mn \<le> v" "v \<le> mx" for v
    proof (cases "v = mx")
      case False
      with that have "v \<in> {mn..<mx}" by simp
      then show ?thesis unfolding eq [symmetric] by simp
    qed (simp add: mx)
    then show ?thesis by blast
  qed
  have "sub64 mx mn = Inr (mx - mn)" if "mn = lo" "mx = hi"
  proof -
    have "mx - mn \<le> int64_max"
      using d that False lower_bound_Cons_iff [OF s lo] lower_bound_Cons_iff [OF s hi]
      by (auto simp: range_overflows_def)
    then show ?thesis using \<open>mn \<le> mx\<close> by (simp add: sub64_def in_int64_def int64_min_def)
  qed
  with False lo hi all wf show ?thesis
    by (auto simp: NegatedBigintValuesUsingHashTable_testInt64Range_def range_answer_def accepts_wf)
qed

lemma lower_bound_member:
  assumes "sorted xs" "x \<in> set xs"
  obtains rest where "lower_bound xs x = x # rest"
proof -
  have "lower_bound xs x \<noteq> []" using assms by (force simp: lower_bound_Nil_iff)
  then obtain y ys where "lower_bound xs x = y # ys" by (cases "lower_bound xs x") auto
  with lower_bound_Cons_iff [OF assms(1) this] assms(2) that show ?thesis by fastforce
qed

lemma negated_hash_range_overflow:
  assumes "wf_hash h" "range_overflows (NegatedBigintValuesUsingHashTable h n) mn mx hasNull"
  shows "NegatedBigintValuesUsingHashTable_testInt64Range h n mn mx hasNull = Inl UndefinedBehaviour"
proof -
  have s: "sorted (bh_values h)" using assms(1) by (simp add: wf_hash_def)
  have r: "\<not> (hasNull \<and> n)" "mn \<in> set (bh_values h)" "mx \<in> set (bh_values h)" "mx - mn > int64_max"
    using assms(2) by (auto simp: range_overflows_def)
  have b: "bh_min h \<le> mn" "mx \<le> bh_max h" using r assms(1) by (auto simp: wf_hash_def)
  obtain los where lo: "lower_bound (bh_values h) mn = mn # los" using lower_bound_member [OF s r(2)] .
  obtain his where hi: "lower_bound (bh_values h) mx = mx # his" using lower_bound_member [OF s r(3)] .
  have "mn \<noteq> mx" using r(4) by (auto simp: int64_max_def)
  moreover have "sub64 mx mn = Inl UndefinedBehaviour" using r(4) by (simp add: sub64_def in_int64_def)
  ultimately show ?thesis using r(1) b lo hi
    by (auto simp: NegatedBigintValuesUsingHashTable_testInt64Range_def)
qed

lemma testInt64Range_answer:
  assumes "wf_int f" "mn \<le> mx" "\<not> range_overflows f mn mx hasNull"
  shows "range_answer f mn mx hasNull (testInt64Range f mn mx hasNull)"
proof (cases f)
  case (BigintValuesUsingHashTable h)
  with assms hash_range_answer show ?thesis by (simp add: methods_defs)
next
  case (NegatedBigintValuesUsingHashTable h n)
  with assms negated_hash_range_answer show ?thesis by (simp add: methods_defs)
next
  case (BigintMultiRange m)
  with assms show ?thesis
    by (fastforce simp: methods_defs range_answer_def accepts_wf BigintMultiRange_testInt64Range_def
        list_ex_iff BigintRange_testInt64Range_def cover_def)
next
  case (BigintValuesUsingBitmask b)
  with assms bitmask_values_bounds [of b] show ?thesis
    by (fastforce simp: methods_defs range_answer_def accepts_wf bitmask_test
        BigintValuesUsingBitmask_testInt64Range_def)
next
  case (NegatedBigintValuesUsingBitmask mn' mx' b n)
  with assms show ?thesis
    by (auto simp: methods_defs range_answer_def accepts_wf bitmask_test
        NegatedBigintValuesUsingBitmask_testInt64Range_def)
qed (use assms in \<open>auto simp: methods_defs range_answer_def BoolValue_testInt64Range_def
       BigintRange_testInt64Range_def NegatedBigintRange_testInt64Range_def\<close>)

lemma testInt64Range_overflow:
  assumes "wf_int f" "range_overflows f mn mx hasNull"
  shows "testInt64Range f mn mx hasNull = Inl UndefinedBehaviour"
proof -
  obtain h n where f: "f = NegatedBigintValuesUsingHashTable h n"
    using assms(2) by (auto simp: range_overflows_def split: filter.splits)
  with assms negated_hash_range_overflow show ?thesis by (simp add: methods_defs)
qed

text \<open>A negative answer is given only where nothing overflows.\<close>

lemma testInt64Range_no:
  assumes "wf_int f" "mn \<le> mx" "testInt64Range f mn mx False = Inr False"
  shows "\<forall>v. mn \<le> v \<and> v \<le> mx \<longrightarrow> \<not> accepts f v"
proof -
  have "\<not> range_overflows f mn mx False" using testInt64Range_overflow [OF assms(1)] assms(3) by fastforce
  with testInt64Range_answer [OF assms(1,2), of False] assms(3) show ?thesis
    by (auto simp: range_answer_def)
qed

end
