(* ===== verification/Filter_Int_Merge.thy ===== *)
theory Filter_Int_Merge
  imports Filter_Int_Stats
begin

text \<open>
  Merging filters on 64-bit integers is conjunction: the merged filter is well-formed, passes
  a value exactly when both operands do, and passes null exactly when both do. The classes call
  each other through the virtual \<^verbatim>\<open>mergeWith\<close>; the locale \<open>int_merge_sound\<close> states what they may
  rely on, and the knot is tied by induction on the depth of the calls.
\<close>

section \<open>Conjunction\<close>

definition merge_good :: "filter \<Rightarrow> filter \<Rightarrow> filter \<Rightarrow> bool" where
  "merge_good f g h \<longleftrightarrow>
     wf_int h \<and> testNull h = (testNull f \<and> testNull g) \<and>
     (\<forall>v. in_int64 v \<longrightarrow> (accepts h v \<longleftrightarrow> accepts f v \<and> accepts g v))"

lemma merge_good_sym: "merge_good g f h \<Longrightarrow> merge_good f g h"
  by (auto simp: merge_good_def)

lemma merge_good_cover:
  "cover_filter_good h V n \<Longrightarrow> n = (testNull f \<and> testNull g) \<Longrightarrow>
   (\<And>v. in_int64 v \<Longrightarrow> v \<in> V \<longleftrightarrow> accepts f v \<and> accepts g v) \<Longrightarrow> merge_good f g h"
  by (simp add: cover_filter_good_def merge_good_def)

lemma merge_good_list:
  "list_filter_good h vs n neg \<Longrightarrow> n = (testNull f \<and> testNull g) \<Longrightarrow>
   (\<And>v. in_int64 v \<Longrightarrow> (v \<in> set vs) \<noteq> neg \<longleftrightarrow> accepts f v \<and> accepts g v) \<Longrightarrow> merge_good f g h"
  by (simp add: list_filter_good_def merge_good_def)

lemma merge_good_nullOrFalse:
  "n = (testNull f \<and> testNull g) \<Longrightarrow> (\<And>v. in_int64 v \<Longrightarrow> \<not> (accepts f v \<and> accepts g v)) \<Longrightarrow>
   merge_good f g (nullOrFalse n)"
  by (auto simp: nullOrFalse_def merge_good_def)

lemma clone_good:
  assumes "clone f na = Inr h" "wf_int f"
  shows "wf_int h" "na = None \<Longrightarrow> testNull h = testNull f" "accepts h v = accepts f v"
  using assms
  by (cases f; cases na;
      auto simp: NegatedBigintRange_new_def accepts_wf BigintMultiRange_new_def checkR_Inr_iff
        wf_multi_def wf_hash_def wf_bitmask_def dest: wf_rangeD)+

section \<open>Each class, given the virtual function\<close>

text \<open>Facts that need no virtual call.\<close>

lemma hash_list_ok:
  "wf_hash h \<Longrightarrow> sorted (bh_values h) \<and> distinct (bh_values h) \<and> (\<forall>v \<in> set (bh_values h). in_int64 v)"
  by (auto simp: wf_hash_def in_int64_def)

lemma bitmask_in_int64: "wf_bitmask b \<Longrightarrow> v \<in> set (bb_values b) \<Longrightarrow> in_int64 v"
  using bitmask_values_bounds [of b v] by (auto simp: wf_bitmask_def in_int64_def)

lemma bitmask_ok:
  "wf_bitmask b \<Longrightarrow> sorted (bb_values b) \<and> distinct (bb_values b) \<and> (\<forall>v \<in> set (bb_values b). in_int64 v)"
  using bitmask_list_ok bitmask_in_int64 by blast

lemma range_rejects_good:
  assumes "BigintRange_mergeWithRejects r g vals = Inr h" "wf_range r" "wf_int g"
    and vals: "sorted vals \<and> distinct vals" "\<And>v. accepts g v \<longleftrightarrow> v \<notin> set vals"
    and rng: "testInt64Range g (br_lower r) (br_upper r) False = Inr False \<Longrightarrow>
              \<forall>v. br_lower r \<le> v \<and> v \<le> br_upper r \<longrightarrow> \<not> accepts g v"
  shows "merge_good (BigintRange r) g h"
proof -
  let ?n = "br_nullAllowed r \<and> testNull g"
  let ?rs = "[BigintRange_new (br_lower r) (br_upper r) False]"
  consider (none) "testInt64Range g (br_lower r) (br_upper r) False = Inr False" "h = nullOrFalse ?n"
    | (some) "combineRangesAndNegatedValues ?rs vals ?n = Inr h"
    using assms(1) by (auto simp: BigintRange_mergeWithRejects_def Let_def result_simps split: if_splits)
  then show ?thesis
  proof cases
    case none
    then show ?thesis using rng by (auto intro!: merge_good_nullOrFalse)
  next
    case some
    have "ranges_ok ?rs" using wf_rangeD [OF assms(2)] by (simp add: ranges_ok_Cons)
    note C = combineRangesAndNegatedValues_good [OF some this vals(1) [THEN conjunct1] vals(1) [THEN conjunct2]]
    show ?thesis by (rule merge_good_cover [OF C]) (auto simp: vals(2))
  qed
qed

lemma negated_range_rejects_good:
  assumes "NegatedBigintRange_mergeWithRejects r n g vals = Inr h" "wf_range r" "wf_int g"
    and vals: "sorted vals \<and> distinct vals \<and> (\<forall>v \<in> set vals. in_int64 v)"
      "\<And>v. accepts g v \<longleftrightarrow> v \<notin> set vals"
  shows "merge_good (NegatedBigintRange r n) g h"
proof (cases "br_isSingleValue r")
  case True
  then have u: "br_upper r = br_lower r" using wf_range_isSingleValue [OF assms(2)] by simp
  have t: "testInt64 g (br_lower r) = Inr (br_lower r \<notin> set vals)"
    using wf_testInt64 [OF assms(3)] vals(2) by simp
  let ?vs = "if br_lower r \<notin> set vals then vals @ [br_lower r] else vals"
  have "createBigintValuesFilter ?vs (n \<and> testNull g) True = Inr h"
    using assms(1) True t
    by (simp add: NegatedBigintRange_mergeWithRejects_def createNegatedBigintValues_def)
  then have L: "list_filter_good h ?vs (n \<and> testNull g) True"
    by (rule create_good) (use vals wf_rangeD [OF assms(2)] in auto)
  show ?thesis by (rule merge_good_list [OF L]) (use vals(2) u in \<open>auto split: if_splits\<close>)
next
  case False
  with assms(1) obtain rs where rs: "negatedValuesToRanges vals = Inr rs"
    and c: "combineNegatedRangeOnIntRanges (br_lower r) (br_upper r) rs (n \<and> testNull g) = Inr h"
    by (auto simp: NegatedBigintRange_mergeWithRejects_def result_simps)
  have ok: "ranges_ok rs" "cover rs = {v. in_int64 v} - set vals"
    using negatedValuesToRanges_good [OF rs] vals(1) by auto
  note C = combineNegatedRange_good [OF c ok(1) wf_rangeD(3) [OF assms(2)]]
  show ?thesis by (rule merge_good_cover [OF C]) (auto simp: ok(2) vals(2))
qed

lemma mergeNegatedRanges_good:
  assumes "mergeNegatedRanges r s (n \<and> n') = Inr h" "wf_range r" "wf_range s" "br_lower r \<le> br_lower s"
  shows "merge_good (NegatedBigintRange r n) (NegatedBigintRange s n') h"
proof (cases "br_upper r + 1 < br_lower s")
  case False
  with assms wf_rangeD [OF assms(2)] wf_rangeD [OF assms(3)] show ?thesis
    by (auto simp: mergeNegatedRanges_def result_simps merge_good_def NegatedBigintRange_new_def
        max_def split: if_splits)
next
  case True
  note r = wf_rangeD [OF assms(2)] and s = wf_rangeD [OF assms(3)]
  let ?rs = "(if br_lower r > int64_min then [BigintRange_new int64_min (br_lower r - 1) False] else []) @
      [BigintRange_new (br_upper r + 1) (br_lower s - 1) False] @
      (if br_upper s < int64_max then [BigintRange_new (br_upper s + 1) int64_max False] else [])"
  have c: "combineBigintRanges ?rs (n \<and> n') = Inr h"
    using assms(1) True r s
    by (auto simp: mergeNegatedRanges_def result_simps in_int64_def split: if_splits)
  have "ranges_ok ?rs"
    using r s True by (auto simp: ranges_ok_Cons in_int64_def int64_min_def int64_max_def)
  note C = combine_good [OF this c]
  show ?thesis
    by (rule merge_good_cover [OF C]) (use r s True in \<open>auto simp: in_int64_def split: if_splits\<close>)
qed

lemma hash_range_good:
  assumes "BigintValuesUsingHashTable_mergeWithRange k mn mx g = Inr h" "wf_hash k" "wf_int g"
    and inside: "\<And>v. v \<in> set (bh_values k) \<Longrightarrow> accepts g v \<Longrightarrow> mn \<le> v \<and> v \<le> mx"
  shows "merge_good (BigintValuesUsingHashTable k) g h"
proof -
  let ?n = "bh_nullAllowed k \<and> testNull g"
  let ?keep = "filter (accepts g) (bh_hashTable k)"
  have t: "testInt64 g v = Inr (accepts g v)" for v by (rule wf_testInt64 [OF assms(3)])
  have keep: "filterR (testInt64 g) (bh_hashTable k) = Inr ?keep" by (rule filterR_Inr) (simp add: t)
  have ht: "set (bh_hashTable k) = set (bh_values k)" "distinct (bh_hashTable k)"
    using assms(2) by (simp_all add: wf_hash_def)
  have i: "\<forall>v \<in> set (bh_values k). in_int64 v" using hash_list_ok [OF assms(2)] by blast
  note m = assms(1) [unfolded BigintValuesUsingHashTable_mergeWithRange_def Let_def t keep
      hash_test [OF assms(2)] bindR_simps createBigintValues_def]
  consider "mx < mn" | "mx = mn" | "mn < mx" by linarith
  then show ?thesis
  proof cases
    case 1
    with m have "h = nullOrFalse ?n" by simp
    with 1 inside show ?thesis by (fastforce simp: accepts_wf assms(2) intro!: merge_good_nullOrFalse)
  next
    case 2
    have one: "v = mn" if "v \<in> set (bh_values k)" "accepts g v" for v using inside [OF that] 2 by simp
    show ?thesis
    proof (cases "mn \<in> set (bh_values k) \<and> accepts g mn")
      case True
      with m 2 have "h = BigintRange (BigintRange_new mn mn ?n)" by simp
      moreover have "v \<in> set (bh_values k) \<and> accepts g v \<longleftrightarrow> v = mn" for v using True one by blast
      ultimately show ?thesis using True i by (auto simp: merge_good_def accepts_wf assms(2))
    next
      case False
      with m 2 have "h = nullOrFalse ?n" by (auto split: if_splits)
      then show ?thesis using False one
        by (auto simp: accepts_wf assms(2) intro!: merge_good_nullOrFalse)
    qed
  next
    case 3
    with m have "createBigintValuesFilter ?keep ?n False = Inr h" by simp
    then have L: "list_filter_good h ?keep ?n False" by (rule create_good) (use ht i in auto)
    show ?thesis by (rule merge_good_list [OF L]) (auto simp: ht(1) accepts_wf assms(2))
  qed
qed

lemma bitmask_range_good:
  assumes "BigintValuesUsingBitmask_mergeWithRange k mn mx g = Inr h" "wf_bitmask k" "wf_int g"
    and "bb_min k \<le> mn" "mx \<le> bb_max k"
    and inside: "\<And>v. v \<in> set (bb_values k) \<Longrightarrow> accepts g v \<Longrightarrow> mn \<le> v \<and> v \<le> mx"
  shows "merge_good (BigintValuesUsingBitmask k) g h"
proof -
  let ?n = "bb_nullAllowed k \<and> testNull g"
  obtain vs where vs: "bitmaskScan k mn mx (testInt64 g) = Inr vs"
    and c: "createBigintValuesFilter vs ?n False = Inr h"
    using assms(1) by (auto simp: BigintValuesUsingBitmask_mergeWithRange_def createBigintValues_def result_simps)
  have "distinct vs \<and> set vs = {v \<in> set (bb_values k). mn \<le> v \<and> v \<le> mx \<and> accepts g v}"
    by (rule bitmaskScan_good [OF vs assms(2,4,5)]) (rule wf_testInt64 [OF assms(3)])
  then have vs': "distinct vs" "set vs = {v \<in> set (bb_values k). accepts g v}" using inside by auto
  have L: "list_filter_good h vs ?n False"
    by (rule create_good [OF c vs'(1)]) (use vs'(2) bitmask_ok [OF assms(2)] in auto)
  show ?thesis by (rule merge_good_list [OF L]) (auto simp: vs'(2) accepts_wf assms(2))
qed

text \<open>A list of values over a multi-range: each value is found in one range only.\<close>

lemma multi_values_good:
  assumes "mapR f rs = Inr outs" "ranges_ok rs"
    and "\<And>r out. r \<in> set rs \<Longrightarrow> f r = Inr out \<Longrightarrow>
           distinct out \<and> set out = {v \<in> V. br_lower r \<le> v \<and> v \<le> br_upper r}"
  shows "distinct (concat outs) \<and> set (concat outs) = V \<inter> cover rs"
  using assms
proof (induction rs arbitrary: outs)
  case Nil
  then show ?case by simp
next
  case (Cons r rs)
  obtain out outs' where o: "f r = Inr out" "mapR f rs = Inr outs'" "outs = out # outs'"
    using Cons.prems(1) by (auto simp: bindR_Inr_iff)
  have ok: "ranges_ok rs" and sep: "\<forall>s \<in> set rs. br_upper r < br_lower s"
    using Cons.prems(2) by (auto simp: ranges_ok_Cons)
  have out: "distinct out" "set out = {v \<in> V. br_lower r \<le> v \<and> v \<le> br_upper r}"
    using Cons.prems(3) [of r out] o(1) by auto
  have IH: "distinct (concat outs')" "set (concat outs') = V \<inter> cover rs"
    using Cons.IH [OF o(2) ok] Cons.prems(3) by auto
  have "br_upper r < v" if "v \<in> cover rs" for v using that sep by (force simp: cover_def)
  then have "set out \<inter> set (concat outs') = {}" using out(2) IH(2) by fastforce
  then show ?case using out IH o(3) by auto
qed

lemma mapR_pure [simp]: "mapR (\<lambda>x. Inr (f x)) xs = Inr (map f xs)"
  by (induction xs) simp_all

lemma hash_multi_good:
  assumes "BigintValuesUsingHashTable_mergeWith mw k (BigintMultiRange m) = Inr h" "wf_hash k" "wf_multi m"
  shows "merge_good (BigintValuesUsingHashTable k) (BigintMultiRange m) h"
proof -
  let ?f = "\<lambda>r. if max (bh_min k) (br_lower r) \<le> min (bh_max k) (br_upper r)
                then filter (BigintRange_testInt64 r) (bh_values k) else []"
  let ?n = "bh_nullAllowed k \<and> bm_nullAllowed m"
  have c: "createBigintValuesFilter (concat (map ?f (bm_ranges m))) ?n False = Inr h"
    using assms(1) by (simp add: BigintValuesUsingHashTable_mergeWith_def createBigintValues_def Let_def)
  have one: "distinct (?f r) \<and> set (?f r) = {v \<in> set (bh_values k). br_lower r \<le> v \<and> v \<le> br_upper r}" for r
    using assms(2) by (fastforce simp: wf_hash_def BigintRange_testInt64_def)
  have d: "distinct (concat (map ?f (bm_ranges m)))"
      "set (concat (map ?f (bm_ranges m))) = set (bh_values k) \<inter> cover (bm_ranges m)"
    using multi_values_good [OF mapR_pure, of "bm_ranges m" ?f "set (bh_values k)"] one assms(3)
    unfolding wf_multi_def by blast+
  have L: "list_filter_good h (concat (map ?f (bm_ranges m))) ?n False"
    by (rule create_good [OF c d(1)]) (use d(2) hash_list_ok [OF assms(2)] in blast)
  show ?thesis
    by (rule merge_good_list [OF L]) (use d(2) in \<open>simp_all only: accepts_wf assms(2,3) testNull_simps, auto\<close>)
qed

lemma bitmaskScan_range_good:
  assumes "wf_bitmask k"
    and "bitmaskScan k (max (bb_min k) (br_lower r)) (min (bb_max k) (br_upper r))
           (\<lambda>i. Inr (BigintRange_testInt64 r i)) = Inr out"
  shows "distinct out \<and> set out = {v \<in> set (bb_values k). br_lower r \<le> v \<and> v \<le> br_upper r}"
proof -
  from bitmaskScan_good [OF assms(2,1), of "BigintRange_testInt64 r"]
  have "distinct out" "set out = {v \<in> set (bb_values k). max (bb_min k) (br_lower r) \<le> v \<and>
      v \<le> min (bb_max k) (br_upper r) \<and> BigintRange_testInt64 r v}" by auto
  then show ?thesis
    using bitmask_values_bounds(1,2) [OF assms(1)] by (auto simp: BigintRange_testInt64_def)
qed

lemma bitmask_multi_good:
  assumes "BigintValuesUsingBitmask_mergeWith mw k (BigintMultiRange m) = Inr h" "wf_bitmask k" "wf_multi m"
  shows "merge_good (BigintValuesUsingBitmask k) (BigintMultiRange m) h"
proof -
  let ?n = "bb_nullAllowed k \<and> bm_nullAllowed m"
  let ?f = "\<lambda>r. bitmaskScan k (max (bb_min k) (br_lower r)) (min (bb_max k) (br_upper r))
                  (\<lambda>i. Inr (BigintRange_testInt64 r i))"
  obtain kept where kept: "mapR ?f (bm_ranges m) = Inr kept"
    and c: "createBigintValuesFilter (concat kept) ?n False = Inr h"
    using assms(1) by (auto simp: BigintValuesUsingBitmask_mergeWith_def createBigintValues_def Let_def result_simps)
  have ok: "ranges_ok (bm_ranges m)" using assms(3) by (simp add: wf_multi_def)
  have "distinct (concat kept) \<and> set (concat kept) = set (bb_values k) \<inter> cover (bm_ranges m)"
    by (rule multi_values_good [OF kept ok], rule bitmaskScan_range_good [OF assms(2)])
  then have d: "distinct (concat kept)" "set (concat kept) = set (bb_values k) \<inter> cover (bm_ranges m)" by auto
  have L: "list_filter_good h (concat kept) ?n False"
    by (rule create_good [OF c d(1)]) (use d(2) bitmask_ok [OF assms(2)] in blast)
  show ?thesis
    by (rule merge_good_list [OF L]) (simp_all add: d(2) accepts_wf assms(2,3) del: set_concat)
qed

text \<open>The ranges of a merged filter, as the loops over multi-ranges collect them.\<close>

fun filter_ranges :: "filter \<Rightarrow> bigint_range list result" where
  "filter_ranges (BigintRange r) = Inr [r]"
| "filter_ranges (BigintMultiRange m) = Inr (bm_ranges m)"
| "filter_ranges AlwaysFalse = Inr []"
| "filter_ranges _ = Inl CheckFailed"

lemma filter_ranges_good:
  assumes "filter_ranges m = Inr out" "cover_filter_good m V False" "\<And>v. v \<in> V \<Longrightarrow> in_int64 v"
  shows "ranges_ok out \<and> cover out = V"
proof -
  have ok: "ranges_ok out" and acc: "\<And>v. accepts m v \<longleftrightarrow> v \<in> cover out"
    using assms(1,2)
    by (cases m; auto simp: cover_filter_good_def ranges_ok_Cons accepts_wf wf_multi_def)+
  have "v \<in> cover out \<longleftrightarrow> v \<in> V" for v
    using assms(2,3) acc cover_in_int64 [OF ok] by (auto simp: cover_filter_good_def)
  with ok show ?thesis by blast
qed

lemma collectMultiRanges_eq:
  "collectMultiRanges f ss =
     bindR (mapR (\<lambda>s. bindR (f s) filter_ranges) ss) (\<lambda>outs. Inr (concat outs))"
proof (induction ss)
  case (Cons s ss)
  show ?case
  proof (cases "f s")
    case (Inr m)
    with Cons.IH show ?thesis
      by (cases "mapR (\<lambda>s. bindR (f s) filter_ranges) ss"; cases m) simp_all
  qed simp
qed simp

lemma collectRanges_Multi:
  "collectRanges f ss = Inr out \<Longrightarrow> collectMultiRanges f ss = Inr out"
proof (induction ss arbitrary: out)
  case (Cons s ss)
  then obtain m where m: "f s = Inr m" by (auto simp: result_simps)
  with Cons show ?case by (cases m) (auto simp: result_simps)
qed simp

lemma collectMultiRanges_good:
  assumes "collectMultiRanges f ss = Inr out" "ranges_ok ss"
    and "\<And>s m. s \<in> set ss \<Longrightarrow> f s = Inr m \<Longrightarrow> cover_filter_good m ({br_lower s..br_upper s} - R) False"
  shows "ranges_ok out \<and> cover out = cover ss - R"
proof -
  obtain outs where outs: "mapR (\<lambda>s. bindR (f s) filter_ranges) ss = Inr outs" "out = concat outs"
    using assms(1) by (auto simp: collectMultiRanges_eq result_simps)
  have "ranges_ok (concat outs) \<and> cover (concat outs) = cover ss - R"
  proof (rule mapR_ranges [OF outs(1) assms(2)])
    fix s o' assume s: "s \<in> set ss" and o': "bindR (f s) filter_ranges = Inr o'"
    then obtain m where m: "f s = Inr m" "filter_ranges m = Inr o'" by (auto simp: result_simps)
    have "{br_lower s..br_upper s} \<subseteq> cover ss" using s by (auto simp: cover_def)
    with cover_in_int64 [OF assms(2)] assms(3) [OF s m(1)] m(2)
    show "ranges_ok o' \<and> cover o' = {br_lower s..br_upper s} - R"
      by (intro filter_ranges_good [of m]) auto
  qed
  with outs(2) show ?thesis by simp
qed

locale int_merge_sound =
  fixes mw :: merge_fun
  assumes sound: "wf_int f \<Longrightarrow> wf_int g \<Longrightarrow> mw f g = Inr h \<Longrightarrow> merge_good f g h"
begin

lemma swapped: "wf_int f \<Longrightarrow> wf_int g \<Longrightarrow> mw g f = Inr h \<Longrightarrow> merge_good f g h"
  using sound merge_good_sym by blast

lemma IsNull_sound: "IsNull_mergeWith g = Inr h \<Longrightarrow> merge_good IsNull g h"
  by (auto simp: IsNull_mergeWith_def merge_good_def split: if_splits)

lemma IsNotNull_sound:
  assumes "wf_int g" "IsNotNull_mergeWith mw g = Inr h"
  shows "merge_good IsNotNull g h"
  using assms swapped [of IsNotNull g h]
  by (cases g) (auto simp: IsNotNull_mergeWith_def merge_good_def)

lemma BoolValue_sound:
  assumes "wf_int g" "BoolValue_mergeWith mw x n g = Inr h"
  shows "merge_good (BoolValue x n) g h"
  using assms swapped [of "BoolValue x n" g h]
  by (cases g) (auto simp: BoolValue_mergeWith_def merge_good_def Let_def result_simps nullOrFalse_def
      methods_defs split: if_splits)

lemma BigintRange_sound:
  assumes r: "wf_range r" and g: "wf_int g" and m: "BigintRange_mergeWith mw r g = Inr h"
  shows "merge_good (BigintRange r) g h"
proof (cases g)
  case (BigintRange s)
  with m r g wf_rangeD [OF r] show ?thesis
    by (auto simp: BigintRange_mergeWith_def merge_good_def Let_def nullOrFalse_def max_def min_def
        split: if_splits dest: wf_rangeD)
next
  case (BigintMultiRange k)
  then obtain rs where c: "collectMultiRanges (\<lambda>s. mw (BigintRange r) (BigintRange s)) (bm_ranges k) = Inr rs"
    and h: "combineBigintRanges rs (br_nullAllowed r \<and> testNull g) = Inr h"
    using m by (auto simp: BigintRange_mergeWith_def result_simps dest: collectRanges_Multi)
  have ok: "ranges_ok (bm_ranges k)" using g BigintMultiRange by (simp add: wf_multi_def)
  have "ranges_ok rs \<and> cover rs = cover (bm_ranges k) - (- {br_lower r..br_upper r})"
  proof (rule collectMultiRanges_good [OF c ok])
    fix s n assume s: "s \<in> set (bm_ranges k)" and n: "mw (BigintRange r) (BigintRange s) = Inr n"
    have "wf_range s \<and> \<not> br_nullAllowed s" using ok s by (simp add: ranges_ok_def)
    with sound [OF _ _ n] r show "cover_filter_good n ({br_lower s..br_upper s} - - {br_lower r..br_upper r}) False"
      by (auto simp: merge_good_def cover_filter_good_def)
  qed
  then have C: "cover_filter_good h (cover (bm_ranges k) - (- {br_lower r..br_upper r})) (br_nullAllowed r \<and> testNull g)"
    using combine_good [OF _ h] by metis
  show ?thesis
    by (rule merge_good_cover [OF C]) (use BigintMultiRange g in \<open>auto simp: accepts_wf\<close>)
next
  case (NegatedBigintValuesUsingHashTable k n)
  with m g r wf_rangeD [OF r] hash_list_ok [of k] show ?thesis
    by (intro range_rejects_good [of r g "bh_values k"] testInt64Range_no [of g])
      (auto simp: BigintRange_mergeWith_def accepts_wf)
next
  case (NegatedBigintValuesUsingBitmask a b k n)
  with m g r wf_rangeD [OF r] bitmask_ok [of k] show ?thesis
    by (intro range_rejects_good [of r g "bb_values k"] testInt64Range_no [of g])
      (auto simp: BigintRange_mergeWith_def accepts_wf)
qed (use m r g swapped [of "BigintRange r" g h] in
    \<open>auto simp: BigintRange_mergeWith_def merge_good_def dest: wf_rangeD\<close>)

lemma NegatedBigintRange_sound:
  assumes r: "wf_range r" and g: "wf_int g" and m: "NegatedBigintRange_mergeWith mw r n g = Inr h"
  shows "merge_good (NegatedBigintRange r n) g h"
proof (cases g)
  case IsNotNull
  with m r show ?thesis
    by (auto simp: NegatedBigintRange_mergeWith_def merge_good_def NegatedBigintRange_new_def dest: wf_rangeD)
next
  case (BigintRange s)
  let ?ss = "[BigintRange_new (br_lower s) (br_upper s) False]"
  have c: "combineNegatedRangeOnIntRanges (br_lower r) (br_upper r) ?ss (n \<and> testNull g) = Inr h"
    using m BigintRange by (simp add: NegatedBigintRange_mergeWith_def Let_def)
  have "ranges_ok ?ss" using g BigintRange by (auto simp: ranges_ok_Cons dest: wf_rangeD)
  note C = combineNegatedRange_good [OF c this wf_rangeD(3) [OF r]]
  show ?thesis by (rule merge_good_cover [OF C]) (auto simp: BigintRange)
next
  case (NegatedBigintRange s n')
  with m r g swapped [of "NegatedBigintRange r n" g h] mergeNegatedRanges_good [of r s n n' h]
  show ?thesis by (auto simp: NegatedBigintRange_mergeWith_def split: if_splits)
next
  case (BigintMultiRange k)
  then have c: "combineNegatedRangeOnIntRanges (br_lower r) (br_upper r) (bm_ranges k) (n \<and> testNull g) = Inr h"
    using m by (simp add: NegatedBigintRange_mergeWith_def Let_def)
  have "ranges_ok (bm_ranges k)" using g BigintMultiRange by (simp add: wf_multi_def)
  note C = combineNegatedRange_good [OF c this wf_rangeD(3) [OF r]]
  show ?thesis by (rule merge_good_cover [OF C]) (use g BigintMultiRange in \<open>auto simp: accepts_wf\<close>)
next
  case (NegatedBigintValuesUsingHashTable k n')
  with m g r hash_list_ok [of k] show ?thesis
    by (intro negated_range_rejects_good [of r n g "bh_values k"])
      (auto simp: NegatedBigintRange_mergeWith_def accepts_wf)
next
  case (NegatedBigintValuesUsingBitmask a b k n')
  with m g r bitmask_ok [of k] show ?thesis
    by (intro negated_range_rejects_good [of r n g "bb_values k"])
      (auto simp: NegatedBigintRange_mergeWith_def accepts_wf)
qed (use m r g swapped [of "NegatedBigintRange r n" g h] in
    \<open>auto simp: NegatedBigintRange_mergeWith_def\<close>)

lemma hash_sound:
  assumes k: "wf_hash k" and g: "wf_int g" and m: "BigintValuesUsingHashTable_mergeWith mw k g = Inr h"
  shows "merge_good (BigintValuesUsingHashTable k) g h"
proof (cases g)
  case (BigintMultiRange r)
  with m k g hash_multi_good show ?thesis by simp
next
  case (BigintRange r)
  have "BigintValuesUsingHashTable_mergeWithRange k (max (bh_min k) (br_lower r))
          (min (bh_max k) (br_upper r)) g = Inr h"
    using m BigintRange by (simp add: BigintValuesUsingHashTable_mergeWith_def Let_def)
  from hash_range_good [OF this k g] k show ?thesis by (auto simp: BigintRange wf_hash_def)
next
  case (BigintValuesUsingHashTable k')
  have "BigintValuesUsingHashTable_mergeWithRange k (max (bh_min k) (bh_min k'))
          (min (bh_max k) (bh_max k')) g = Inr h"
    using m BigintValuesUsingHashTable by (simp add: BigintValuesUsingHashTable_mergeWith_def Let_def)
  moreover have "bh_min k \<le> v \<and> v \<le> bh_max k \<and> bh_min k' \<le> v \<and> v \<le> bh_max k'"
    if "v \<in> set (bh_values k)" "accepts g v" for v
    using that k g by (auto simp: BigintValuesUsingHashTable accepts_wf) (auto simp: wf_hash_def)
  ultimately show ?thesis by (intro hash_range_good [OF _ k g]) auto
next
  case (NegatedBigintRange r n)
  with m hash_range_good [OF _ k g, of "bh_min k" "bh_max k"] k show ?thesis
    by (auto simp: BigintValuesUsingHashTable_mergeWith_def wf_hash_def)
next
  case (NegatedBigintValuesUsingHashTable k' n)
  with m hash_range_good [OF _ k g, of "bh_min k" "bh_max k"] k show ?thesis
    by (auto simp: BigintValuesUsingHashTable_mergeWith_def wf_hash_def)
next
  case (NegatedBigintValuesUsingBitmask a b k' n)
  with m hash_range_good [OF _ k g, of "bh_min k" "bh_max k"] k show ?thesis
    by (auto simp: BigintValuesUsingHashTable_mergeWith_def wf_hash_def)
next
  case IsNotNull
  have "wf_hash (k\<lparr>bh_nullAllowed := False\<rparr>)" using k by (simp add: wf_hash_def)
  with m k IsNotNull show ?thesis
    by (auto simp: BigintValuesUsingHashTable_mergeWith_def merge_good_def accepts_wf)
qed (use m k g swapped [of "BigintValuesUsingHashTable k" g h] in
    \<open>auto simp: BigintValuesUsingHashTable_mergeWith_def\<close>)

lemma bitmask_sound:
  assumes k: "wf_bitmask k" and g: "wf_int g" and m: "BigintValuesUsingBitmask_mergeWith mw k g = Inr h"
  shows "merge_good (BigintValuesUsingBitmask k) g h"
proof (cases g)
  case (BigintMultiRange r)
  with m k g bitmask_multi_good show ?thesis by simp
next
  case (BigintRange r)
  have "BigintValuesUsingBitmask_mergeWithRange k (max (bb_min k) (br_lower r))
          (min (bb_max k) (br_upper r)) g = Inr h"
    using m BigintRange by (simp add: BigintValuesUsingBitmask_mergeWith_def Let_def)
  from bitmask_range_good [OF this k g] bitmask_values_bounds(1,2) [OF k] show ?thesis
    by (auto simp: BigintRange)
next
  case (BigintValuesUsingHashTable k')
  have "BigintValuesUsingBitmask_mergeWithRange k (max (bb_min k) (bh_min k'))
          (min (bb_max k) (bh_max k')) g = Inr h"
    using m BigintValuesUsingHashTable by (simp add: BigintValuesUsingBitmask_mergeWith_def Let_def)
  moreover have "bh_min k' \<le> v \<and> v \<le> bh_max k'" if "accepts g v" for v
    using that g by (auto simp: BigintValuesUsingHashTable accepts_wf) (auto simp: wf_hash_def)
  ultimately show ?thesis
    using bitmask_values_bounds(1,2) [OF k] by (intro bitmask_range_good [OF _ k g]) auto
next
  case (BigintValuesUsingBitmask k')
  have "BigintValuesUsingBitmask_mergeWithRange k (max (bb_min k) (bb_min k'))
          (min (bb_max k) (bb_max k')) g = Inr h"
    using m BigintValuesUsingBitmask by (simp add: BigintValuesUsingBitmask_mergeWith_def Let_def)
  moreover have "bb_min k' \<le> v \<and> v \<le> bb_max k'" if "accepts g v" for v
    using that g bitmask_values_bounds(1,2) [of k' v] by (simp add: BigintValuesUsingBitmask accepts_wf)
  ultimately show ?thesis
    using bitmask_values_bounds(1,2) [OF k] by (intro bitmask_range_good [OF _ k g]) auto
next
  case (NegatedBigintRange r n)
  with m bitmask_range_good [OF _ k g, of "bb_min k" "bb_max k"] bitmask_values_bounds(1,2) [OF k]
  show ?thesis by (auto simp: BigintValuesUsingBitmask_mergeWith_def)
next
  case (NegatedBigintValuesUsingHashTable k' n)
  with m bitmask_range_good [OF _ k g, of "bb_min k" "bb_max k"] bitmask_values_bounds(1,2) [OF k]
  show ?thesis by (auto simp: BigintValuesUsingBitmask_mergeWith_def)
next
  case (NegatedBigintValuesUsingBitmask a b k' n)
  with m bitmask_range_good [OF _ k g, of "bb_min k" "bb_max k"] bitmask_values_bounds(1,2) [OF k]
  show ?thesis by (auto simp: BigintValuesUsingBitmask_mergeWith_def)
next
  case IsNotNull
  have "wf_bitmask (k\<lparr>bb_nullAllowed := False\<rparr>)" using k by (auto simp: wf_bitmask_def)
  with m k IsNotNull show ?thesis
    by (auto simp: BigintValuesUsingBitmask_mergeWith_def merge_good_def accepts_wf)
qed (use m k g swapped [of "BigintValuesUsingBitmask k" g h] in
    \<open>auto simp: BigintValuesUsingBitmask_mergeWith_def\<close>)

lemma negated_hash_sound:
  assumes k: "wf_hash k" and g: "wf_int g"
    and m: "NegatedBigintValuesUsingHashTable_mergeWith mw k n g = Inr h"
  shows "merge_good (NegatedBigintValuesUsingHashTable k n) g h"
proof (cases g)
  case (NegatedBigintValuesUsingHashTable k' n')
  then have c: "combineNegatedBigintLists (bh_values k) (bh_values k') (n \<and> n') = Inr h"
    using m by (simp add: NegatedBigintValuesUsingHashTable_mergeWith_def Let_def)
  have L: "list_filter_good h (mergeRejected (bh_values k) (bh_values k')) (n \<and> n') True"
    by (rule combineNegatedBigintLists_good [OF c])
      (use k g NegatedBigintValuesUsingHashTable hash_list_ok [of k] hash_list_ok [of k'] in auto)
  show ?thesis
    by (rule merge_good_list [OF L]) (use k g NegatedBigintValuesUsingHashTable in \<open>auto simp: accepts_wf\<close>)
qed (use m k g swapped [of "NegatedBigintValuesUsingHashTable k n" g h] in
    \<open>auto simp: NegatedBigintValuesUsingHashTable_mergeWith_def merge_good_def accepts_wf\<close>)

lemma negated_bitmask_sound:
  assumes k: "wf_bitmask k" and g: "wf_int g"
    and m: "NegatedBigintValuesUsingBitmask_mergeWith mw a b k n g = Inr h"
  shows "merge_good (NegatedBigintValuesUsingBitmask a b k n) g h"
proof (cases g)
  case (NegatedBigintValuesUsingHashTable k' n')
  then have c: "combineNegatedBigintLists (bb_values k) (bh_values k') (n \<and> n') = Inr h"
    using m by (simp add: NegatedBigintValuesUsingBitmask_mergeWith_def Let_def)
  have L: "list_filter_good h (mergeRejected (bb_values k) (bh_values k')) (n \<and> n') True"
    by (rule combineNegatedBigintLists_good [OF c])
      (use k g NegatedBigintValuesUsingHashTable bitmask_ok [of k] hash_list_ok [of k'] in auto)
  show ?thesis
    by (rule merge_good_list [OF L]) (use k g NegatedBigintValuesUsingHashTable in \<open>auto simp: accepts_wf\<close>)
next
  case (NegatedBigintValuesUsingBitmask a' b' k' n')
  then have c: "combineNegatedBigintLists (bb_values k) (bb_values k') (n \<and> n') = Inr h"
    using m by (simp add: NegatedBigintValuesUsingBitmask_mergeWith_def Let_def)
  have L: "list_filter_good h (mergeRejected (bb_values k) (bb_values k')) (n \<and> n') True"
    by (rule combineNegatedBigintLists_good [OF c])
      (use k g NegatedBigintValuesUsingBitmask bitmask_ok [of k] bitmask_ok [of k'] in auto)
  show ?thesis
    by (rule merge_good_list [OF L]) (use k g NegatedBigintValuesUsingBitmask in \<open>auto simp: accepts_wf\<close>)
qed (use m k g swapped [of "NegatedBigintValuesUsingBitmask a b k n" g h] in
    \<open>auto simp: NegatedBigintValuesUsingBitmask_mergeWith_def merge_good_def accepts_wf\<close>)

lemma multi_rejects_good:
  assumes k: "wf_multi k" and c: "combineRangesAndNegatedValues (bm_ranges k) vals (bm_nullAllowed k \<and> testNull g) = Inr h"
    and v: "sorted vals \<and> distinct vals" "\<And>v. accepts g v \<longleftrightarrow> v \<notin> set vals"
  shows "merge_good (BigintMultiRange k) g h"
proof -
  have ok: "ranges_ok (bm_ranges k)" using k by (simp add: wf_multi_def)
  note C = combineRangesAndNegatedValues_good [OF c ok v(1) [THEN conjunct1] v(1) [THEN conjunct2]]
  show ?thesis by (rule merge_good_cover [OF C]) (auto simp: v(2) accepts_wf k)
qed

lemma multi_multi_good:
  assumes k: "wf_multi k" "wf_multi k'" and m: "BigintMultiRange_mergeWith mw k (BigintMultiRange k') = Inr h"
  shows "merge_good (BigintMultiRange k) (BigintMultiRange k') h"
proof -
  let ?n = "bm_nullAllowed k \<and> bm_nullAllowed k'"
  obtain rs where c: "collectMultiRanges (\<lambda>r. mw (BigintRange r) (BigintMultiRange k')) (bm_ranges k) = Inr rs"
    and h: "combineBigintRanges rs ?n = Inr h"
    using m by (auto simp: BigintMultiRange_mergeWith_def Let_def result_simps combineBigintRanges_def)
  have ok: "ranges_ok (bm_ranges k)" using k by (simp add: wf_multi_def)
  have "ranges_ok rs \<and> cover rs = cover (bm_ranges k) - (- cover (bm_ranges k'))"
  proof (rule collectMultiRanges_good [OF c ok])
    fix s x assume s: "s \<in> set (bm_ranges k)" and x: "mw (BigintRange s) (BigintMultiRange k') = Inr x"
    have "wf_range s \<and> \<not> br_nullAllowed s" using ok s by (simp add: ranges_ok_def)
    with sound [OF _ _ x] k(2) show "cover_filter_good x ({br_lower s..br_upper s} - - cover (bm_ranges k')) False"
      by (auto simp: merge_good_def cover_filter_good_def accepts_wf)
  qed
  then have C: "cover_filter_good h (cover (bm_ranges k) - (- cover (bm_ranges k'))) ?n"
    using combine_good [OF _ h] by metis
  show ?thesis by (rule merge_good_cover [OF C]) (auto simp: accepts_wf k)
qed

lemma multi_sound:
  assumes k: "wf_multi k" and g: "wf_int g" and m: "BigintMultiRange_mergeWith mw k g = Inr h"
  shows "merge_good (BigintMultiRange k) g h"
proof (cases g)
  case (BigintMultiRange k')
  with m k g multi_multi_good show ?thesis by simp
next
  case (NegatedBigintValuesUsingHashTable k' n')
  with m g hash_list_ok [of k'] show ?thesis
    by (intro multi_rejects_good [OF k, of "bh_values k'"])
      (auto simp: BigintMultiRange_mergeWith_def accepts_wf)
next
  case (NegatedBigintValuesUsingBitmask a' b' k' n')
  with m g bitmask_ok [of k'] show ?thesis
    by (intro multi_rejects_good [OF k, of "bb_values k'"])
      (auto simp: BigintMultiRange_mergeWith_def accepts_wf)
next
  case IsNotNull
  have "ranges_ok (bm_ranges k)" using k by (simp add: wf_multi_def)
  with m k IsNotNull show ?thesis
    by (intro merge_good_cover [OF multi_new_good])
      (auto simp: BigintMultiRange_mergeWith_def accepts_wf)
qed (use m k g swapped [of "BigintMultiRange k" g h] in \<open>auto simp: BigintMultiRange_mergeWith_def\<close>)

lemma dispatch_sound:
  assumes f: "wf_int f" and g: "wf_int g" and m: "mergeWith_dispatch mw f g = Inr h"
  shows "merge_good f g h"
proof (cases f)
  case AlwaysTrue
  with m clone_good [OF _ g] show ?thesis by (auto simp: mergeWith_dispatch_def merge_good_def)
next
  case AlwaysFalse
  with m show ?thesis by (auto simp: mergeWith_dispatch_def merge_good_def)
qed (use f g m IsNull_sound IsNotNull_sound BoolValue_sound BigintRange_sound NegatedBigintRange_sound
       hash_sound bitmask_sound negated_hash_sound negated_bitmask_sound multi_sound
     in \<open>simp_all add: mergeWith_dispatch_def\<close>)

end

section \<open>The recursion\<close>

lemma fuel_sound: "int_merge_sound (mergeWith_fuel k)"
proof (induction k)
  case 0
  show ?case by unfold_locales simp
next
  case (Suc k)
  then show ?case by (auto simp: int_merge_sound_def intro: int_merge_sound.dispatch_sound [OF Suc])
qed

interpretation int_merge: int_merge_sound mergeWith
  unfolding mergeWith_def
  using fuel_sound by (auto simp: int_merge_sound_def)

end
