(* ===== verification/Filter_Int_Total.thy ===== *)
theory Filter_Int_Total
  imports Filter_Int_Merge
begin

text \<open>
  Merging returns: away from the limits of the integer type no addition of the helpers overflows
  and no check of a constructor fails, and the classes' delegation to each other ends after a
  few calls.
\<close>

section \<open>The helpers\<close>

lemma bitmask_new_total:
  assumes "mn < mx" "length vs > 1" "\<forall>v \<in> set vs. mn \<le> v \<and> v \<le> mx" "mx - mn < 2147483647"
  shows "\<exists>b. BigintValuesUsingBitmask_new mn mx vs n = Inr b"
proof -
  have "\<exists>bits. bitmask_set mn mx vs z = Inr bits" for z
    using assms(3) by (induction vs arbitrary: z) auto
  then obtain bits where "bitmask_set mn mx vs (replicate (nat (mx - mn + 1)) False) = Inr bits" by blast
  with assms show ?thesis
    by (simp add: BigintValuesUsingBitmask_new_def sub64_def add64_def in_int64_def int64_defs)
qed

lemma create_differing:
  assumes "2 \<le> length vs \<longrightarrow> (\<forall>x. set vs \<noteq> {x})" "\<forall>v \<in> set vs. in_int64 v" "length vs \<le> 4194304"
  shows "\<exists>h. createBigintValuesFilter vs n neg = Inr h"
proof -
  consider "vs = []" | x where "vs = [x]" | x y ys where "vs = x # y # ys"
    by (cases vs; cases "tl vs") auto
  then show ?thesis
  proof cases
    case (3 x y ys)
    obtain lo hi where mm: "minMaxLoop x x (y # ys) = (lo, hi)" by (cases "minMaxLoop x x (y # ys)")
    note lh = minMaxLoop [OF mm order.refl]
    have bnd: "\<forall>v \<in> set vs. lo \<le> v \<and> v \<le> hi" using lh 3 by auto
    have "set vs \<noteq> {lo}" "x \<in> set vs" using assms(1) 3 by auto
    then obtain v where "v \<in> set vs" "v \<noteq> lo" by blast
    then have lt: "lo < hi" using bnd by force
    have len: "length vs > 1" using 3 by simp
    define rng where "rng = hi - lo"
    have bm: "\<exists>b. BigintValuesUsingBitmask_new lo hi vs n' = Inr b"
      if "rng < 32 * 64 \<or> rng < int (length vs) * 4 * 64" for n'
      by (rule bitmask_new_total [OF lt len bnd]) (use that assms(3) rng_def in linarith)
    have "createBigintValuesFilter vs n neg =
      (if in_int64 rng \<and> rng + 1 = int (length vs)
       then Inr (if neg then NegatedBigintRange_new lo hi n else BigintRange (BigintRange_new lo hi n))
       else if in_int64 rng \<and> (rng < 32 * 64 \<or> rng < int (length vs) * 4 * 64)
       then (if neg then NegatedBigintValuesUsingBitmask_new lo hi vs n
             else bindR (BigintValuesUsingBitmask_new lo hi vs n) (\<lambda>b. Inr (BigintValuesUsingBitmask b)))
       else if neg then NegatedBigintValuesUsingHashTable_new lo hi vs n
       else bindR (BigintValuesUsingHashTable_new lo hi vs n) (\<lambda>h. Inr (BigintValuesUsingHashTable h)))"
      using mm by (simp only: 3 createBigintValuesFilter_def list.case Let_def case_prod_conv mm rng_def not_not)
    then show ?thesis
      using bm [of n] bm [of "\<not> n"] lt len
      by (auto simp: NegatedBigintValuesUsingBitmask_new_def NegatedBigintValuesUsingHashTable_new_def
          BigintValuesUsingHashTable_new_def)
  qed (auto simp: createBigintValuesFilter_def)
qed

lemma distinct_not_repeated: "distinct vs \<Longrightarrow> 2 \<le> length vs \<longrightarrow> (\<forall>x. set vs \<noteq> {x})"
  using distinct_card by fastforce

lemma create_total:
  assumes "distinct vs" "\<forall>v \<in> set vs. in_int64 v" "length vs \<le> 4194304"
  shows "\<exists>h. createBigintValuesFilter vs n neg = Inr h"
  using create_differing [OF distinct_not_repeated [OF assms(1)] assms(2,3)] .

lemma combine_total:
  assumes "ranges_ok rs"
  shows "\<exists>h. combineBigintRanges rs n = Inr h"
  using ranges_ok_ordered [OF assms]
  by (cases rs; cases "tl rs") (auto simp: combineBigintRanges_def BigintMultiRange_new_def)

text \<open>Values that can be decremented and incremented.\<close>

definition inner64 :: "int \<Rightarrow> bool" where
  "inner64 v \<longleftrightarrow> int64_min < v \<and> v < int64_max"

lemma inner64_steps: "inner64 v \<Longrightarrow> sub64 v 1 = Inr (v - 1) \<and> add64 v 1 = Inr (v + 1)"
  by (auto simp: inner64_def sub64_def add64_def in_int64_def)

lemma splitRange_total: "\<forall>v \<in> set it. inner64 v \<Longrightarrow> \<exists>r. splitRange lower upper start it = Inr r"
proof (induction it arbitrary: start)
  case (Cons v it)
  then obtain out s where "splitRange lower upper (v + 1) it = Inr (out, s)" by force
  with Cons.prems inner64_steps [of v] show ?case by simp
qed simp

lemma combineRangesAndNegatedValues_total:
  assumes "ranges_ok rs" "sorted rejects" "distinct rejects" "\<forall>v \<in> set rejects. inner64 v"
  shows "\<exists>h. combineRangesAndNegatedValues rs rejects n = Inr h"
proof -
  have "\<exists>out. rangeWithoutRejects rejects r = Inr out" for r
  proof -
    have "\<forall>v \<in> set (lower_bound rejects (br_lower r)). inner64 v"
      using assms(2,4) by (simp add: lower_bound_set)
    then obtain out s where "splitRange (br_lower r) (br_upper r) (br_lower r)
        (lower_bound rejects (br_lower r)) = Inr (out, s)"
      using splitRange_total by (metis surj_pair)
    then show ?thesis by (simp add: rangeWithoutRejects_def Let_def)
  qed
  then obtain outs where outs: "mapR (rangeWithoutRejects rejects) rs = Inr outs"
    using mapR_total by metis
  have "ranges_ok (concat outs) \<and> cover (concat outs) = cover rs - set rejects"
    by (rule mapR_ranges [OF outs assms(1)])
      (use assms rangeWithoutRejects_good in \<open>auto simp: ranges_ok_def\<close>)
  with combine_total outs show ?thesis by (simp add: combineRangesAndNegatedValues_def)
qed

lemma combineNegatedRange_total:
  assumes "ranges_ok rs" "nl \<le> nu" "in_int64 nl" "in_int64 nu"
  shows "\<exists>h. combineNegatedRangeOnIntRanges nl nu rs n = Inr h"
proof -
  have "\<exists>out. subtractRange nl nu r = Inr out" if "r \<in> set rs" for r
  proof -
    have "in_int64 (br_lower r)" "in_int64 (br_upper r)"
      using that assms(1) by (auto simp: ranges_ok_def dest: wf_rangeD)
    then show ?thesis using assms(3,4)
      by (auto simp: subtractRange_def sub64_def add64_def in_int64_def bindR_def)
  qed
  then obtain outs where outs: "mapR (subtractRange nl nu) rs = Inr outs"
    using mapR_total by metis
  have "ranges_ok (concat outs) \<and> cover (concat outs) = cover rs - {nl..nu}"
    by (rule mapR_ranges [OF outs assms(1)])
      (use assms subtractRange_good in \<open>auto simp: ranges_ok_def\<close>)
  with combine_total outs show ?thesis by (simp add: combineNegatedRangeOnIntRanges_def)
qed

lemma gapRanges_total:
  assumes "sorted_wrt (<) (bk # vs)" "\<forall>v \<in> set (bk # vs). in_int64 v"
  shows "\<exists>rs. gapRanges bk vs = Inr rs"
  using assms
proof (induction vs arbitrary: bk)
  case Nil
  then show ?case by (auto simp: add64_def in_int64_def)
next
  case (Cons front vs)
  then obtain rs where "gapRanges front vs = Inr rs" by fastforce
  moreover have "in_int64 (bk + 1)" "in_int64 (front - 1)" using Cons.prems by (auto simp: in_int64_def)
  ultimately show ?case by (simp add: add64_def sub64_def)
qed

lemma negatedValuesToRanges_total:
  assumes "vs \<noteq> []" "sorted vs" "distinct vs" "\<forall>v \<in> set vs. in_int64 v"
  shows "\<exists>rs. negatedValuesToRanges vs = Inr rs"
proof -
  obtain bk ws where vs: "vs = bk # ws" using assms(1) by (cases vs) auto
  have "sorted_wrt (<) (bk # ws)" using assms(2,3) unfolding vs strictly_sorted by simp
  with assms(4) gapRanges_total obtain rs where "gapRanges bk ws = Inr rs" unfolding vs by blast
  with assms(4) vs show ?thesis
    by (auto simp: negatedValuesToRanges_def sub64_def in_int64_def bindR_def)
qed

lemma bitmaskScan_total:
  assumes "mx < int64_max" "\<And>i. test i = Inr (q i)"
  shows "\<exists>out. bitmaskScan b mn mx test = Inr out"
proof -
  have "(\<lambda>i. if bb_bitmask b ! nat (i - bb_min b) then test i else Inr False) =
        (\<lambda>i. Inr (bb_bitmask b ! nat (i - bb_min b) \<and> q i))" using assms(2) by auto
  then show ?thesis using assms(1)
    by (simp add: bitmaskScan_def loop64_def filterR_Inr [of _ _ "\<lambda>i. bb_bitmask b ! nat (i - bb_min b) \<and> q i"])
qed

section \<open>The classes\<close>

fun inner_int :: "filter \<Rightarrow> bool" where
  "inner_int (NegatedBigintRange r n) \<longleftrightarrow> br_upper r < int64_max"
| "inner_int (BigintValuesUsingHashTable h) \<longleftrightarrow> int (length (bh_values h)) \<le> 2097152"
| "inner_int (BigintValuesUsingBitmask b) \<longleftrightarrow> bb_max b < int64_max \<and> int (length (bb_values b)) \<le> 2097152"
| "inner_int (NegatedBigintValuesUsingHashTable h n) \<longleftrightarrow>
     list_all inner64 (bh_values h) \<and> bh_max h - bh_min h \<le> int64_max \<and> int (length (bh_values h)) \<le> 2097152"
| "inner_int (NegatedBigintValuesUsingBitmask a b m n) \<longleftrightarrow>
     list_all inner64 (bb_values m) \<and> int (length (bb_values m)) \<le> 2097152"
| "inner_int f \<longleftrightarrow> True"

fun bool_kind :: "filter \<Rightarrow> bool" where
  "bool_kind (BoolValue v n) = True"
| "bool_kind f = False"

fun generic_kind :: "filter \<Rightarrow> bool" where
  "generic_kind AlwaysFalse = True"
| "generic_kind AlwaysTrue = True"
| "generic_kind IsNull = True"
| "generic_kind IsNotNull = True"
| "generic_kind f = False"

definition mergeable :: "filter \<Rightarrow> filter \<Rightarrow> bool" where
  "mergeable f g \<longleftrightarrow> wf_int f \<and> wf_int g \<and> inner_int f \<and> inner_int g \<and>
     (generic_kind f \<or> generic_kind g \<or> bool_kind f = bool_kind g)"

definition defined :: "'a result \<Rightarrow> bool" where
  "defined r \<longleftrightarrow> (\<exists>x. r = Inr x)"

lemma defined_simps [simp]: "defined (Inr x)" "\<not> defined (Inl e)"
  by (simp_all add: defined_def)

lemma defined_if [simp]: "defined (if b then x else y) \<longleftrightarrow> (if b then defined x else defined y)"
  by simp

lemma clone_total: "wf_int f \<Longrightarrow> defined (clone f na)"
  by (cases f) (auto simp: BigintMultiRange_new_def wf_multi_def ranges_ok_ordered checkR_def)

lemma negated_hash_range_total:
  assumes "wf_hash h" "bh_max h - bh_min h \<le> int64_max" "mn \<le> mx"
  shows "defined (NegatedBigintValuesUsingHashTable_testInt64Range h n mn mx hasNull)"
proof -
  have "\<not> range_overflows (NegatedBigintValuesUsingHashTable h n) mn mx hasNull"
  proof
    assume "range_overflows (NegatedBigintValuesUsingHashTable h n) mn mx hasNull"
    then have "mn \<in> set (bh_values h)" "mx \<in> set (bh_values h)" "mx - mn > int64_max" by (simp_all add: range_overflows_def)
    moreover from this have "bh_min h \<le> mn" "mx \<le> bh_max h" using assms(1) by (auto simp: wf_hash_def)
    ultimately show False using assms(2) by linarith
  qed
  from negated_hash_range_answer [OF assms(1,3) this] show ?thesis
    by (auto simp: range_answer_def defined_def)
qed

lemma range_rejects_total:
  assumes "wf_range r" "defined (testInt64Range g (br_lower r) (br_upper r) False)"
    and "sorted vals \<and> distinct vals" "list_all inner64 vals"
  shows "defined (BigintRange_mergeWithRejects r g vals)"
proof -
  let ?rs = "[BigintRange_new (br_lower r) (br_upper r) False]"
  have "ranges_ok ?rs" using wf_rangeD [OF assms(1)] by (simp add: ranges_ok_Cons)
  from combineRangesAndNegatedValues_total [OF this] assms
  show ?thesis by (auto simp: BigintRange_mergeWithRejects_def defined_def list_all_iff Let_def)
qed

lemma negated_range_rejects_total:
  assumes "wf_range r" "wf_int g" "sorted vals \<and> distinct vals" "\<forall>v \<in> set vals. in_int64 v"
    and "vals \<noteq> []" "length vals \<le> 2097152" "\<And>v. accepts g v \<longleftrightarrow> v \<notin> set vals"
  shows "defined (NegatedBigintRange_mergeWithRejects r n g vals)"
proof (cases "br_isSingleValue r")
  case True
  let ?vs = "if br_lower r \<notin> set vals then vals @ [br_lower r] else vals"
  have "\<exists>h. createBigintValuesFilter ?vs (n \<and> testNull g) True = Inr h"
    by (rule create_total) (use assms wf_rangeD [OF assms(1)] in auto)
  with True assms(7) show ?thesis
    by (auto simp: NegatedBigintRange_mergeWithRejects_def Let_def wf_testInt64 [OF assms(2)] defined_def
        createNegatedBigintValues_def split: if_splits)
next
  case False
  obtain rs where rs: "negatedValuesToRanges vals = Inr rs"
    using negatedValuesToRanges_total assms(3-5) by blast
  have "ranges_ok rs" using negatedValuesToRanges_good [OF rs] assms(3,4) by blast
  from combineNegatedRange_total [OF this wf_rangeD(3,1,2) [OF assms(1)]] rs False
  show ?thesis by (auto simp: NegatedBigintRange_mergeWithRejects_def Let_def defined_def)
qed

lemma mergeNegatedRanges_total:
  assumes "wf_range r" "wf_range s" "br_upper r < int64_max" "br_lower r \<le> br_lower s"
  shows "defined (mergeNegatedRanges r s n)"
proof -
  note r = wf_rangeD [OF assms(1)] and s = wf_rangeD [OF assms(2)]
  let ?rs = "(if br_lower r > int64_min then [BigintRange_new int64_min (br_lower r - 1) False] else []) @
      [BigintRange_new (br_upper r + 1) (br_lower s - 1) False] @
      (if br_upper s < int64_max then [BigintRange_new (br_upper s + 1) int64_max False] else [])"
  show ?thesis
  proof (cases "br_upper r + 1 < br_lower s")
    case False
    then show ?thesis using assms(3) r by (auto simp: mergeNegatedRanges_def add64_def in_int64_def)
  next
    case True
    have "ranges_ok ?rs"
      using r s True by (auto simp: ranges_ok_Cons in_int64_def int64_min_def int64_max_def)
    from combine_total [OF this] have "defined (combineBigintRanges ?rs n)" by (simp only: defined_def)
    then show ?thesis using True r s assms(3)
      by (auto simp: mergeNegatedRanges_def add64_def sub64_def in_int64_def split: if_splits)
  qed
qed

lemma distinct_subset_length:
  "distinct xs \<Longrightarrow> set xs \<subseteq> set ys \<Longrightarrow> length xs \<le> length ys"
  by (metis List.finite_set card_length card_mono distinct_card le_trans)

lemma hash_range_total:
  assumes "wf_hash k" "wf_int g" "length (bh_values k) \<le> 2097152"
  shows "defined (BigintValuesUsingHashTable_mergeWithRange k mn mx g)"
proof -
  let ?keep = "filter (accepts g) (bh_hashTable k)"
  have t: "testInt64 g v = Inr (accepts g v)" for v by (rule wf_testInt64 [OF assms(2)])
  have keep: "filterR (testInt64 g) (bh_hashTable k) = Inr ?keep" by (rule filterR_Inr) (simp add: t)
  have ht: "set (bh_hashTable k) = set (bh_values k)" "distinct (bh_hashTable k)" "distinct (bh_values k)"
    using assms(1) by (simp_all add: wf_hash_def)
  have len: "length (bh_hashTable k) = length (bh_values k)" using ht by (metis distinct_card)
  have "\<exists>h. createBigintValuesFilter ?keep (bh_nullAllowed k \<and> testNull g) False = Inr h"
    by (rule create_total)
      (use ht hash_list_ok [OF assms(1)] len assms(3) length_filter_le [of "accepts g" "bh_hashTable k"] in auto)
  then show ?thesis
    by (auto simp: BigintValuesUsingHashTable_mergeWithRange_def Let_def t keep createBigintValues_def defined_def)
qed

lemma bitmask_sub_total:
  assumes "wf_bitmask k" "length (bb_values k) \<le> 2097152" "distinct vs" "set vs \<subseteq> set (bb_values k)"
  shows "defined (createBigintValues vs n)"
proof -
  have "length vs \<le> length (bb_values k)"
    using assms(3,4) by (rule distinct_subset_length)
  then have "\<exists>h. createBigintValuesFilter vs n False = Inr h"
    by (intro create_total) (use assms bitmask_ok [OF assms(1)] in auto)
  then show ?thesis by (simp add: createBigintValues_def defined_def)
qed

lemma bitmask_range_total:
  assumes "wf_bitmask k" "wf_int g" "length (bb_values k) \<le> 2097152" "bb_max k < int64_max"
    "bb_min k \<le> mn" "mx \<le> bb_max k"
  shows "defined (BigintValuesUsingBitmask_mergeWithRange k mn mx g)"
proof -
  have t: "testInt64 g v = Inr (accepts g v)" for v by (rule wf_testInt64 [OF assms(2)])
  obtain vs where vs: "bitmaskScan k mn mx (testInt64 g) = Inr vs"
    using bitmaskScan_total [OF _ t] assms(4,6) by fastforce
  have "distinct vs \<and> set vs \<subseteq> set (bb_values k)"
    using bitmaskScan_good [OF vs assms(1,5,6) t] by auto
  with bitmask_sub_total [OF assms(1,3)] vs show ?thesis
    by (simp add: BigintValuesUsingBitmask_mergeWithRange_def)
qed

lemma hash_multi_total:
  assumes "wf_hash k" "wf_multi m" "length (bh_values k) \<le> 2097152"
  shows "defined (BigintValuesUsingHashTable_mergeWith mw k (BigintMultiRange m))"
proof -
  let ?f = "\<lambda>r. if max (bh_min k) (br_lower r) \<le> min (bh_max k) (br_upper r)
                then filter (BigintRange_testInt64 r) (bh_values k) else []"
  let ?vs = "concat (map ?f (bm_ranges m))"
  have one: "distinct (?f r) \<and> set (?f r) = {v \<in> set (bh_values k). br_lower r \<le> v \<and> v \<le> br_upper r}" for r
    using assms(1) by (fastforce simp: wf_hash_def BigintRange_testInt64_def)
  have d: "distinct ?vs" "set ?vs = set (bh_values k) \<inter> cover (bm_ranges m)"
    using multi_values_good [OF mapR_pure, of "bm_ranges m" ?f "set (bh_values k)"] one assms(2)
    unfolding wf_multi_def by blast+
  have "length ?vs \<le> length (bh_values k)" by (rule distinct_subset_length [OF d(1)]) (use d(2) in blast)
  then have l: "length ?vs \<le> 4194304" using assms(3) by linarith
  have i: "\<forall>v \<in> set ?vs. in_int64 v" using d(2) hash_list_ok [OF assms(1)] by blast
  have "\<exists>h. createBigintValuesFilter ?vs n False = Inr h" for n by (rule create_total [OF d(1) i l])
  then show ?thesis
    by (simp add: BigintValuesUsingHashTable_mergeWith_def createBigintValues_def Let_def defined_def)
qed

lemma bitmask_multi_total:
  assumes "wf_bitmask k" "wf_multi m" "length (bb_values k) \<le> 2097152" "bb_max k < int64_max"
  shows "defined (BigintValuesUsingBitmask_mergeWith mw k (BigintMultiRange m))"
proof -
  let ?f = "\<lambda>r. bitmaskScan k (max (bb_min k) (br_lower r)) (min (bb_max k) (br_upper r))
                  (\<lambda>i. Inr (BigintRange_testInt64 r i))"
  have "\<exists>out. ?f r = Inr out" for r by (rule bitmaskScan_total) (use assms(4) in auto)
  then obtain kept where kept: "mapR ?f (bm_ranges m) = Inr kept"
    using mapR_total [of "bm_ranges m" ?f] by blast
  have ok: "ranges_ok (bm_ranges m)" using assms(2) by (simp add: wf_multi_def)
  have "distinct (concat kept) \<and> set (concat kept) = set (bb_values k) \<inter> cover (bm_ranges m)"
    by (rule multi_values_good [OF kept ok], rule bitmaskScan_range_good [OF assms(1)])
  then have "defined (createBigintValues (concat kept) n)" for n
    by (intro bitmask_sub_total [OF assms(1,3)]) auto
  with kept show ?thesis by (simp add: BigintValuesUsingBitmask_mergeWith_def Let_def)
qed

section \<open>Delegation\<close>

text \<open>\<open>direct f g\<close>: \<^verbatim>\<open>f->mergeWith(g)\<close> makes no further virtual call.\<close>

definition direct :: "filter \<Rightarrow> filter \<Rightarrow> bool" where
  "direct f g \<longleftrightarrow>
     (case f of
        AlwaysFalse \<Rightarrow> True
      | AlwaysTrue \<Rightarrow> True
      | IsNull \<Rightarrow> True
      | IsNotNull \<Rightarrow> generic_kind g
      | BoolValue _ _ \<Rightarrow> g = IsNotNull \<or> bool_kind g
      | BigintRange _ \<Rightarrow>
          (case g of IsNotNull \<Rightarrow> True | BigintRange _ \<Rightarrow> True
           | NegatedBigintValuesUsingHashTable _ _ \<Rightarrow> True
           | NegatedBigintValuesUsingBitmask _ _ _ _ \<Rightarrow> True | _ \<Rightarrow> False)
      | NegatedBigintRange r _ \<Rightarrow>
          (case g of NegatedBigintRange s _ \<Rightarrow> br_lower r \<le> br_lower s
           | BigintValuesUsingHashTable _ \<Rightarrow> False | BigintValuesUsingBitmask _ \<Rightarrow> False
           | _ \<Rightarrow> g = IsNotNull \<or> \<not> generic_kind g)
      | BigintValuesUsingHashTable _ \<Rightarrow>
          (case g of BigintValuesUsingBitmask _ \<Rightarrow> False | _ \<Rightarrow> g = IsNotNull \<or> \<not> generic_kind g)
      | BigintValuesUsingBitmask _ \<Rightarrow> g = IsNotNull \<or> \<not> generic_kind g
      | NegatedBigintValuesUsingHashTable _ _ \<Rightarrow>
          (case g of IsNotNull \<Rightarrow> True | NegatedBigintValuesUsingHashTable _ _ \<Rightarrow> True | _ \<Rightarrow> False)
      | NegatedBigintValuesUsingBitmask _ _ _ _ \<Rightarrow>
          (case g of IsNotNull \<Rightarrow> True | NegatedBigintValuesUsingHashTable _ _ \<Rightarrow> True
           | NegatedBigintValuesUsingBitmask _ _ _ _ \<Rightarrow> True | _ \<Rightarrow> False)
      | BigintMultiRange _ \<Rightarrow>
          (case g of IsNotNull \<Rightarrow> True | NegatedBigintValuesUsingHashTable _ _ \<Rightarrow> True
           | NegatedBigintValuesUsingBitmask _ _ _ _ \<Rightarrow> True | _ \<Rightarrow> False)
      | _ \<Rightarrow> False)"

lemma range_direct:
  assumes "mergeable (BigintRange r) g" "direct (BigintRange r) g"
  shows "defined (BigintRange_mergeWith mw r g)"
proof (cases g)
  case (NegatedBigintValuesUsingHashTable h n)
  with assms have w: "wf_hash h" "bh_max h - bh_min h \<le> int64_max" "wf_range r" "list_all inner64 (bh_values h)"
    by (auto simp: mergeable_def)
  with negated_hash_range_total [OF w(1,2) wf_rangeD(3) [OF w(3)]] hash_list_ok [OF w(1)]
    NegatedBigintValuesUsingHashTable
  show ?thesis by (auto simp: BigintRange_mergeWith_def methods_defs intro!: range_rejects_total)
next
  case (NegatedBigintValuesUsingBitmask a b m n)
  with assms have w: "wf_bitmask m" "wf_range r" "list_all inner64 (bb_values m)"
    by (auto simp: mergeable_def)
  with bitmask_ok [OF w(1)] NegatedBigintValuesUsingBitmask
  show ?thesis by (auto simp: BigintRange_mergeWith_def methods_defs intro!: range_rejects_total)
qed (use assms in \<open>auto simp: BigintRange_mergeWith_def mergeable_def Let_def direct_def\<close>)

lemma negated_range_direct:
  assumes "mergeable (NegatedBigintRange r n) g" "direct (NegatedBigintRange r n) g"
  shows "defined (NegatedBigintRange_mergeWith mw r n g)"
proof -
  have r: "wf_range r" and g: "wf_int g" and u: "br_upper r < int64_max"
    using assms(1) by (auto simp: mergeable_def)
  note cut = combineNegatedRange_total [OF _ wf_rangeD(3,1,2) [OF r], folded defined_def]
  show ?thesis
  proof (cases g)
    case (BigintRange s)
    have "ranges_ok [BigintRange_new (br_lower s) (br_upper s) False]"
      using g BigintRange by (auto simp: ranges_ok_Cons dest: wf_rangeD)
    from cut [OF this] BigintRange show ?thesis by (simp add: NegatedBigintRange_mergeWith_def Let_def)
  next
    case (BigintMultiRange m)
    with cut [of "bm_ranges m"] g show ?thesis
      by (simp add: NegatedBigintRange_mergeWith_def Let_def wf_multi_def)
  next
    case (NegatedBigintRange s n')
    with mergeNegatedRanges_total [OF r _ u] g assms(2) show ?thesis
      by (simp add: NegatedBigintRange_mergeWith_def Let_def direct_def)
  next
    case (NegatedBigintValuesUsingHashTable h n')
    then have h: "wf_hash h" "length (bh_values h) \<le> 2097152" using assms(1) by (auto simp: mergeable_def)
    then have "bh_values h \<noteq> []" by (auto simp: wf_hash_def)
    with h negated_range_rejects_total [OF r g, of "bh_values h"] hash_list_ok [OF h(1)]
      NegatedBigintValuesUsingHashTable
    show ?thesis by (simp add: NegatedBigintRange_mergeWith_def accepts_wf)
  next
    case (NegatedBigintValuesUsingBitmask a b m n')
    then have m: "wf_bitmask m" "length (bb_values m) \<le> 2097152" using assms(1) by (auto simp: mergeable_def)
    then have "bb_values m \<noteq> []" by (auto simp: wf_bitmask_def)
    with m negated_range_rejects_total [OF r g, of "bb_values m"] bitmask_ok [OF m(1)]
      NegatedBigintValuesUsingBitmask
    show ?thesis by (simp add: NegatedBigintRange_mergeWith_def accepts_wf)
  qed (use assms in \<open>auto simp: NegatedBigintRange_mergeWith_def mergeable_def direct_def\<close>)
qed

lemma hash_direct:
  assumes "mergeable (BigintValuesUsingHashTable k) g" "direct (BigintValuesUsingHashTable k) g"
  shows "defined (BigintValuesUsingHashTable_mergeWith mw k g)"
proof -
  have k: "wf_hash k" "length (bh_values k) \<le> 2097152" and g: "wf_int g"
    using assms(1) by (auto simp: mergeable_def)
  note range = hash_range_total [OF k(1) g k(2)]
  show ?thesis
  proof (cases g)
    case (BigintMultiRange m)
    with hash_multi_total [OF k(1) _ k(2)] g show ?thesis by simp
  qed (use assms range in \<open>auto simp: BigintValuesUsingHashTable_mergeWith_def Let_def mergeable_def direct_def\<close>)
qed

lemma bitmask_direct:
  assumes "mergeable (BigintValuesUsingBitmask k) g" "direct (BigintValuesUsingBitmask k) g"
  shows "defined (BigintValuesUsingBitmask_mergeWith mw k g)"
proof -
  have k: "wf_bitmask k" "length (bb_values k) \<le> 2097152" "bb_max k < int64_max" and g: "wf_int g"
    using assms(1) by (auto simp: mergeable_def)
  note range = bitmask_range_total [OF k(1) g k(2,3)]
  show ?thesis
  proof (cases g)
    case (BigintMultiRange m)
    with bitmask_multi_total [OF k(1) _ k(2,3)] g show ?thesis by simp
  qed (use assms range in \<open>auto simp: BigintValuesUsingBitmask_mergeWith_def Let_def mergeable_def direct_def\<close>)
qed

lemma negated_lists_total:
  assumes "sorted xs \<and> distinct xs \<and> (\<forall>v \<in> set xs. in_int64 v)" "length xs \<le> 2097152"
    and "sorted ys \<and> distinct ys \<and> (\<forall>v \<in> set ys. in_int64 v)" "length ys \<le> 2097152"
  shows "defined (combineNegatedBigintLists xs ys n)"
proof -
  have "distinct (mergeRejected xs ys)"
    using mergeRejected_sorted [of xs ys] assms by (simp add: strictly_sorted)
  moreover have "length (mergeRejected xs ys) \<le> length (xs @ ys)"
    by (rule distinct_subset_length) (use calculation in auto)
  ultimately have "\<exists>h. createBigintValuesFilter (mergeRejected xs ys) n True = Inr h"
    by (intro create_total) (use assms in auto)
  then show ?thesis
    by (simp add: combineNegatedBigintLists_def createNegatedBigintValues_def defined_def)
qed

lemma negated_hash_direct:
  assumes "mergeable (NegatedBigintValuesUsingHashTable k n) g"
    "direct (NegatedBigintValuesUsingHashTable k n) g"
  shows "defined (NegatedBigintValuesUsingHashTable_mergeWith mw k n g)"
  using assms hash_list_ok
  by (cases g) (auto simp: NegatedBigintValuesUsingHashTable_mergeWith_def Let_def mergeable_def direct_def
      intro!: negated_lists_total)

lemma negated_bitmask_direct:
  assumes "mergeable (NegatedBigintValuesUsingBitmask a b k n) g"
    "direct (NegatedBigintValuesUsingBitmask a b k n) g"
  shows "defined (NegatedBigintValuesUsingBitmask_mergeWith mw a b k n g)"
  using assms hash_list_ok bitmask_ok
  by (cases g) (auto simp: NegatedBigintValuesUsingBitmask_mergeWith_def Let_def mergeable_def direct_def
      intro!: negated_lists_total)

lemma multi_direct:
  assumes "mergeable (BigintMultiRange k) g" "direct (BigintMultiRange k) g"
  shows "defined (BigintMultiRange_mergeWith mw k g)"
proof -
  have k: "ranges_ok (bm_ranges k)" "length (bm_ranges k) > 1" and g: "wf_int g" "inner_int g"
    using assms(1) by (auto simp: mergeable_def wf_multi_def)
  note cut = combineRangesAndNegatedValues_total [OF k(1), folded defined_def]
  show ?thesis
  proof (cases g)
    case (NegatedBigintValuesUsingHashTable h n)
    with cut [of "bh_values h"] hash_list_ok [of h] g show ?thesis
      by (simp add: BigintMultiRange_mergeWith_def Let_def list_all_iff)
  next
    case (NegatedBigintValuesUsingBitmask a b m n)
    with cut [of "bb_values m"] bitmask_ok [of m] g show ?thesis
      by (simp add: BigintMultiRange_mergeWith_def Let_def list_all_iff)
  next
    case IsNotNull
    with k ranges_ok_ordered [OF k(1)] show ?thesis
      by (auto simp: BigintMultiRange_mergeWith_def BigintMultiRange_new_def checkR_def)
  qed (use assms in \<open>auto simp: direct_def\<close>)
qed

lemma direct_defined:
  assumes "mergeable f g" "direct f g"
  shows "defined (mergeWith_dispatch mw f g)"
proof (cases f)
  case AlwaysTrue
  with assms(1) clone_total show ?thesis by (simp add: mergeWith_dispatch_def mergeable_def)
next
  case IsNotNull
  with assms show ?thesis
    by (cases g) (auto simp: mergeWith_dispatch_def IsNotNull_mergeWith_def direct_def)
next
  case (BoolValue v n)
  with assms show ?thesis
    by (cases g) (auto simp: mergeWith_dispatch_def BoolValue_mergeWith_def direct_def methods_defs Let_def)
qed (use assms range_direct negated_range_direct hash_direct bitmask_direct negated_hash_direct
      negated_bitmask_direct multi_direct
     in \<open>auto simp: mergeWith_dispatch_def IsNull_mergeWith_def mergeable_def\<close>)

text \<open>The pairs whose ranges are merged one by one.\<close>

definition by_ranges :: "filter \<Rightarrow> filter \<Rightarrow> bool" where
  "by_ranges f g \<longleftrightarrow>
     (case g of
        BigintMultiRange _ \<Rightarrow>
          (case f of BigintRange _ \<Rightarrow> True | BigintMultiRange _ \<Rightarrow> True | _ \<Rightarrow> False)
      | _ \<Rightarrow> False)"

lemma mergeable_sym: "mergeable f g \<Longrightarrow> mergeable g f"
  by (auto simp: mergeable_def)

lemma delegates:
  assumes "mergeable f g" "\<not> direct f g" "\<not> by_ranges f g"
  shows "mergeWith_dispatch mw f g = mw g f \<and> (direct g f \<or> by_ranges g f)"
proof (cases f)
  case IsNotNull
  with assms show ?thesis
    by (cases g) (auto simp: mergeWith_dispatch_def IsNotNull_mergeWith_def direct_def mergeable_def)
next
  case (BoolValue v n)
  with assms show ?thesis
    by (cases g) (auto simp: mergeWith_dispatch_def BoolValue_mergeWith_def direct_def mergeable_def)
next
  case (BigintRange r)
  with assms show ?thesis
    by (cases g) (auto simp: mergeWith_dispatch_def BigintRange_mergeWith_def direct_def mergeable_def by_ranges_def)
next
  case (NegatedBigintRange r n)
  with assms show ?thesis
    by (cases g) (auto simp: mergeWith_dispatch_def NegatedBigintRange_mergeWith_def direct_def mergeable_def)
next
  case (BigintValuesUsingHashTable k)
  with assms show ?thesis
    by (cases g) (auto simp: mergeWith_dispatch_def BigintValuesUsingHashTable_mergeWith_def direct_def mergeable_def)
next
  case (BigintValuesUsingBitmask k)
  with assms show ?thesis
    by (cases g) (auto simp: mergeWith_dispatch_def BigintValuesUsingBitmask_mergeWith_def direct_def mergeable_def)
next
  case (NegatedBigintValuesUsingHashTable k n)
  with assms show ?thesis
    by (cases g) (auto simp: mergeWith_dispatch_def NegatedBigintValuesUsingHashTable_mergeWith_def direct_def mergeable_def)
next
  case (NegatedBigintValuesUsingBitmask a b k n)
  with assms show ?thesis
    by (cases g) (auto simp: mergeWith_dispatch_def NegatedBigintValuesUsingBitmask_mergeWith_def direct_def mergeable_def)
next
  case (BigintMultiRange k)
  with assms show ?thesis
    by (cases g) (auto simp: mergeWith_dispatch_def BigintMultiRange_mergeWith_def direct_def mergeable_def by_ranges_def)
qed (use assms in \<open>auto simp: direct_def mergeable_def\<close>)

lemma collectMultiRanges_total:
  assumes "\<And>s. s \<in> set ss \<Longrightarrow> \<exists>m rs. f s = Inr m \<and> filter_ranges m = Inr rs"
  shows "\<exists>out. collectMultiRanges f ss = Inr out"
proof -
  have "\<exists>rs. bindR (f s) filter_ranges = Inr rs" if "s \<in> set ss" for s using assms [OF that] by auto
  then obtain outs where "mapR (\<lambda>s. bindR (f s) filter_ranges) ss = Inr outs" using mapR_total by metis
  then show ?thesis by (simp add: collectMultiRanges_eq)
qed

lemma collectRanges_total:
  assumes "\<And>s. s \<in> set ss \<Longrightarrow> (\<exists>r. f s = Inr (BigintRange r)) \<or> f s = Inr AlwaysFalse"
  shows "\<exists>out. collectRanges f ss = Inr out"
  using assms
proof (induction ss)
  case (Cons s ss)
  then obtain out where "collectRanges f ss = Inr out" by auto
  with Cons.prems [of s] show ?case by auto
qed simp

lemma combined_ranges:
  "ranges_ok rs \<Longrightarrow> combineBigintRanges rs False = Inr m \<Longrightarrow> \<exists>out. filter_ranges m = Inr out"
  by (cases rs; cases "tl rs")
    (auto simp: combineBigintRanges_def BigintMultiRange_new_def nullOrFalse_def checkR_Inr_iff)

lemma range_multi_total:
  assumes "wf_range r" "wf_multi k"
  obtains m rs where "mergeWith_fuel (Suc (Suc n)) (BigintRange r) (BigintMultiRange k) = Inr m"
    and "\<not> br_nullAllowed r \<Longrightarrow> filter_ranges m = Inr rs"
proof -
  let ?f = "\<lambda>s. mergeWith_fuel (Suc n) (BigintRange r) (BigintRange s)"
  let ?n = "br_nullAllowed r \<and> bm_nullAllowed k"
  have ok: "ranges_ok (bm_ranges k)" using assms(2) by (simp add: wf_multi_def)
  have one: "(\<exists>t. ?f s = Inr (BigintRange t)) \<or> ?f s = Inr AlwaysFalse" if "s \<in> set (bm_ranges k)" for s
    using ok that
    by (auto simp: mergeWith_dispatch_def BigintRange_mergeWith_def Let_def nullOrFalse_def ranges_ok_def)
  obtain out where out: "collectRanges ?f (bm_ranges k) = Inr out"
    using collectRanges_total [of "bm_ranges k" ?f, OF one] by blast
  have "cover_filter_good m ({br_lower s..br_upper s} - - {br_lower r..br_upper r}) False"
    if s: "s \<in> set (bm_ranges k)" and m: "?f s = Inr m" for s m
  proof -
    have "wf_range s \<and> \<not> br_nullAllowed s" using ok s by (simp add: ranges_ok_def)
    with int_merge_sound.sound [OF fuel_sound _ _ m] assms(1) show ?thesis
      by (auto simp: merge_good_def cover_filter_good_def)
  qed
  from collectMultiRanges_good [OF collectRanges_Multi [OF out] ok this]
  have okout: "ranges_ok out" by blast
  obtain m where m: "combineBigintRanges out ?n = Inr m" using combine_total [OF okout] by blast
  with out have "mergeWith_fuel (Suc (Suc n)) (BigintRange r) (BigintMultiRange k) = Inr m"
    by (simp add: mergeWith_dispatch_def BigintRange_mergeWith_def)
  moreover have "\<exists>rs. \<not> br_nullAllowed r \<longrightarrow> filter_ranges m = Inr rs"
    using combined_ranges [OF okout, of m] m by (cases "br_nullAllowed r") auto
  ultimately show ?thesis using that by blast
qed

lemma by_ranges_total:
  assumes "mergeable f g" "by_ranges f g"
  shows "defined (mergeWith_fuel (Suc (Suc (Suc n))) f g)"
proof -
  obtain k where g: "g = BigintMultiRange k" and k: "wf_multi k"
    using assms by (cases g) (auto simp: by_ranges_def mergeable_def)
  consider r where "f = BigintRange r" "wf_range r" | k' where "f = BigintMultiRange k'" "wf_multi k'"
    using assms by (cases f) (auto simp: by_ranges_def mergeable_def g)
  then show ?thesis
  proof cases
    case (1 r)
    with range_multi_total [OF 1(2) k, of "Suc n"] show ?thesis by (metis g defined_def)
  next
    case (2 k')
    let ?f = "\<lambda>r. mergeWith_fuel (Suc (Suc n)) (BigintRange r) (BigintMultiRange k)"
    have ok: "ranges_ok (bm_ranges k')" using 2 by (simp add: wf_multi_def)
    have wf: "wf_range s \<and> \<not> br_nullAllowed s" if "s \<in> set (bm_ranges k')" for s
      using ok that by (simp add: ranges_ok_def)
    have "\<exists>m rs. ?f s = Inr m \<and> filter_ranges m = Inr rs" if "s \<in> set (bm_ranges k')" for s
      using range_multi_total [OF _ k, of s n] wf [OF that] by metis
    then obtain out where out: "collectMultiRanges ?f (bm_ranges k') = Inr out"
      using collectMultiRanges_total [of "bm_ranges k'" ?f] by blast
    have "cover_filter_good m ({br_lower s..br_upper s} - - cover (bm_ranges k)) False"
      if s: "s \<in> set (bm_ranges k')" and m: "?f s = Inr m" for s m
      using int_merge_sound.sound [OF fuel_sound _ _ m] wf [OF s] k
      by (auto simp: merge_good_def cover_filter_good_def accepts_wf)
    from collectMultiRanges_good [OF out ok this] have "ranges_ok out" by blast
    from combine_total [OF this] out show ?thesis
      by (auto simp: 2 g mergeWith_dispatch_def BigintMultiRange_mergeWith_def Let_def defined_def
          combineBigintRanges_def)
  qed
qed

lemma mergeWith_total:
  assumes "mergeable f g"
  shows "defined (mergeWith f g)"
proof -
  have fuel: "8 + 4 * (multi_depth f + multi_depth g) = Suc (Suc (Suc (Suc (4 + 4 * (multi_depth f + multi_depth g)))))"
    by simp
  let ?k = "4 + 4 * (multi_depth f + multi_depth g)"
  have base: "defined (mergeWith_fuel (Suc (Suc (Suc n))) f' g')"
    if "mergeable f' g'" "direct f' g' \<or> by_ranges f' g'" for f' g' n
    using that direct_defined by_ranges_total by auto
  have "defined (mergeWith_fuel (Suc (Suc (Suc (Suc ?k)))) f g)"
  proof (cases "direct f g \<or> by_ranges f g")
    case True
    with base [OF assms] show ?thesis by blast
  next
    case False
    with delegates [OF assms] base [OF mergeable_sym [OF assms]] show ?thesis
      by (metis mergeWith_fuel.simps(2))
  qed
  then show ?thesis by (simp only: mergeWith_def fuel)
qed

end
