(* ===== verification/Filter_Int_Props.thy ===== *)
theory Filter_Int_Props
  imports Filter_Int_Total
begin

text \<open>
  The properties of the filters on 64-bit integers.
\<close>

section \<open>Conjunction\<close>

text \<open>
  C1. Merging two well-formed integer filters is their conjunction: the merged filter is
  well-formed, passes null exactly when both operands do, and passes a 64-bit value exactly when
  both operands pass it. This covers every pair of kinds (ranges, negated ranges, lists of values
  in either representation, negated lists, multi-ranges and the value-independent filters).
\<close>

theorem mergeWith_is_conjunction:
  assumes "wf_int f" and "wf_int g" and "mergeWith f g = Inr h"
  shows "wf_int h \<and> testNull h = (testNull f \<and> testNull g) \<and>
         (\<forall>v. in_int64 v \<longrightarrow> (testInt64 h v = Inr True \<longleftrightarrow>
                testInt64 f v = Inr True \<and> testInt64 g v = Inr True))"
  using int_merge.sound [OF assms] by (simp add: merge_good_def accepts_def)

definition example_range :: filter where
  "example_range = BigintRange (BigintRange_new 0 100 True)"

definition example_rejects :: filter where
  "example_rejects = (case createNegatedBigintValues [7, 3, 50] True of Inr f \<Rightarrow> f | _ \<Rightarrow> AlwaysTrue)"

definition example_merged :: filter where
  "example_merged = (case mergeWith example_rejects example_range of Inr f \<Rightarrow> f | _ \<Rightarrow> AlwaysTrue)"

theorem mergeWith_is_conjunction_witness:
  "wf_int example_range \<and> wf_int example_rejects \<and> mergeWith example_rejects example_range = Inr example_merged \<and>
   wf_int example_merged \<and> testNull example_merged = (testNull example_rejects \<and> testNull example_range)"
proof -
  have a: "wf_int example_range" by code_simp
  have b: "wf_int example_rejects" by code_simp
  have c: "mergeWith example_rejects example_range = Inr example_merged" by code_simp
  from mergeWith_is_conjunction [OF b a c] a b c show ?thesis by blast
qed

text \<open>
  C2. Merging returns a filter: for well-formed operands of compatible kinds that stay off the
  limits of the integer type and hold at most two million values each (\<open>mergeable\<close>), no check
  fails, no addition overflows, and the delegation between the classes ends.
\<close>

theorem mergeWith_returns:
  assumes "mergeable f g"
  shows "\<exists>h. mergeWith f g = Inr h"
  using mergeWith_total [OF assms] by (simp add: defined_def)

theorem mergeWith_returns_witness:
  "mergeable example_rejects example_range \<and> (\<exists>h. mergeWith example_rejects example_range = Inr h)"
proof -
  have "mergeable example_rejects example_range" by code_simp
  with mergeWith_returns show ?thesis by blast
qed

section \<open>Statistics\<close>

text \<open>
  C3. Skipping data by its statistics is safe: for a well-formed filter and a minimum that is not
  above the maximum of a column chunk, \<^verbatim>\<open>testInt64Range\<close> answers, and when it answers no then no value
  between them passes the filter, and neither does null if the chunk has nulls. The one exception is
  exact: a negated list of values in a hash table that lists both bounds, when these are further
  apart than the largest 64-bit integer (and null does not decide), subtracts them with a signed
  overflow, which is undefined behaviour.
\<close>

theorem testInt64Range_skips_safely:
  assumes "wf_int f" and "mn \<le> mx"
  shows "if range_overflows f mn mx hasNull then testInt64Range f mn mx hasNull = Inl UndefinedBehaviour
         else \<exists>b. testInt64Range f mn mx hasNull = Inr b \<and>
           (\<not> b \<longrightarrow> \<not> (hasNull \<and> testNull f) \<and>
              (\<forall>v. mn \<le> v \<and> v \<le> mx \<longrightarrow> testInt64 f v = Inr False))"
proof (cases "range_overflows f mn mx hasNull")
  case True
  then show ?thesis using testInt64Range_overflow [OF assms(1)] by simp
next
  case False
  obtain b where "testInt64Range f mn mx hasNull = Inr b"
    and "\<not> b \<longrightarrow> \<not> (hasNull \<and> testNull f) \<and> (\<forall>v. mn \<le> v \<and> v \<le> mx \<longrightarrow> \<not> accepts f v)"
    using testInt64Range_answer [OF assms False] by (auto simp: range_answer_def)
  then show ?thesis using wf_testInt64 [OF assms(1)] False by auto
qed

definition example_far :: filter where
  "example_far = (case createNegatedBigintValues [int64_min, 0, int64_max] False of Inr f \<Rightarrow> f | _ \<Rightarrow> AlwaysTrue)"

theorem testInt64Range_skips_safely_witness:
  "testInt64Range example_merged 200 300 False = Inr False \<and>
   testInt64 example_merged 250 = Inr False \<and>
   testInt64Range example_far int64_min int64_max False = Inl UndefinedBehaviour"
proof -
  have "wf_int example_merged" and no: "testInt64Range example_merged 200 300 False = Inr False"
    and "\<not> range_overflows example_merged 200 300 False" by code_simp+
  with testInt64Range_skips_safely [of example_merged 200 300 False]
  have "testInt64 example_merged 250 = Inr False" by auto
  moreover have "wf_int example_far" "range_overflows example_far int64_min int64_max False" by code_simp+
  with testInt64Range_skips_safely [of example_far int64_min int64_max False]
  have "testInt64Range example_far int64_min int64_max False = Inl UndefinedBehaviour" by (simp add: int64_defs)
  ultimately show ?thesis using no by blast
qed

section \<open>Lists of values\<close>

text \<open>
  C4. \<^verbatim>\<open>createBigintValues\<close> and \<^verbatim>\<open>createNegatedBigintValues\<close> choose between a range, a bitmask and a
  hash table. For up to 4194304 values of 64 bits in any order: a list that repeats one value only
  fails a check of the constructor; any other list gives filters whose test is membership
  (non-membership) in \<open>listed\<close>, which pass null as asked. Without duplicates \<open>listed\<close> is the set of the
  values and the filters are well-formed, so the choice is invisible; with duplicates that make the
  list as long as the interval it spans, it is that whole interval.
\<close>

theorem createBigintValues_is_membership:
  assumes "\<forall>v \<in> set vs. in_int64 v" and "length vs \<le> 4194304"
  shows "if 2 \<le> length vs \<and> (\<exists>x. set vs = {x})
         then createBigintValues vs n = Inl CheckFailed \<and> createNegatedBigintValues vs n = Inl CheckFailed
         else \<exists>h h'. createBigintValues vs n = Inr h \<and> createNegatedBigintValues vs n = Inr h' \<and>
           testNull h = n \<and> testNull h' = n \<and>
           (\<forall>v. testInt64 h v = Inr (v \<in> listed vs)) \<and> (\<forall>v. testInt64 h' v = Inr (v \<notin> listed vs)) \<and>
           (distinct vs \<longrightarrow> listed vs = set vs \<and> wf_int h \<and> wf_int h')"
proof (cases "2 \<le> length vs \<and> (\<exists>x. set vs = {x})")
  case True
  then show ?thesis
    using create_repeated [of vs] by (auto simp: createBigintValues_def createNegatedBigintValues_def)
next
  case False
  then have d: "2 \<le> length vs \<longrightarrow> (\<forall>x. set vs \<noteq> {x})" by blast
  obtain h h' where h: "createBigintValuesFilter vs n False = Inr h" "createBigintValuesFilter vs n True = Inr h'"
    using create_differing [OF d assms] by metis
  have "distinct vs \<longrightarrow> wf_int h \<and> wf_int h'"
    using create_good [OF h(1) _ assms(1)] create_good [OF h(2) _ assms(1)] by (auto simp: list_filter_good_def)
  then show ?thesis using False h create_lists [OF h(1) assms] create_lists [OF h(2) assms] listed_distinct
    by (auto simp: createBigintValues_def createNegatedBigintValues_def)
qed

theorem createBigintValues_is_membership_witness:
  "(\<exists>h. createBigintValues [1000000, 5, 9] True = Inr h \<and> testInt64 h 9 = Inr True \<and> testInt64 h 10 = Inr False) \<and>
   (\<exists>h. createBigintValues [1, 1, 3] True = Inr h \<and> testInt64 h 2 = Inr True) \<and>
   createBigintValues [7, 7] True = Inl CheckFailed"
proof -
  have a: "set [1000000, 5, 9::int] \<noteq> {x}" "set [1, 1, 3::int] \<noteq> {x}" for x by auto
  have b: "listed [1, 1, 3] = {1..3}" by (simp add: listed_def)
  show ?thesis
    using createBigintValues_is_membership [of "[1000000, 5, 9]" True] a(1)
      createBigintValues_is_membership [of "[1, 1, 3]" True] a(2) b
      createBigintValues_is_membership [of "[7, 7]" True]
    by (auto simp: in_int64_def int64_defs)
qed

text \<open>
  C5. The test of a multi-range, a binary search among the lower bounds followed by one range test,
  is membership in the union of the ranges.
\<close>

theorem BigintMultiRange_test_is_union:
  assumes "wf_multi m"
  shows "BigintMultiRange_testInt64 m v \<longleftrightarrow> (\<exists>r \<in> set (bm_ranges m). BigintRange_testInt64 r v)"
  using multi_test [OF assms, of v] by (auto simp: cover_def BigintRange_testInt64_def)

definition example_multi :: bigint_multi where
  "example_multi = \<lparr>bm_ranges = [BigintRange_new 0 9 False, BigintRange_new 20 29 False],
                    bm_lowerBounds = [0, 20], bm_nullAllowed = False\<rparr>"

theorem BigintMultiRange_test_is_union_witness:
  "wf_multi example_multi \<and> BigintMultiRange_testInt64 example_multi 25 \<and>
   (\<exists>r \<in> set (bm_ranges example_multi). BigintRange_testInt64 r 25)"
proof -
  have "wf_multi example_multi" and "BigintMultiRange_testInt64 example_multi 25" by code_simp+
  with BigintMultiRange_test_is_union show ?thesis by blast
qed

section \<open>Vectorised tests\<close>

lemma lanes64:
  "l \<le> u \<Longrightarrow>
   BigintRange_testValues64 (BigintRange_new l u n) v = BigintRange_testInt64 (BigintRange_new l u n) v"
  by (auto simp: BigintRange_testValues64_def BigintRange_testInt64_def)

lemma lanes32:
  assumes "l \<le> u" "int32_min \<le> v \<and> v \<le> int32_max"
  shows "BigintRange_testValues32 (BigintRange_new l u n) v = BigintRange_testInt64 (BigintRange_new l u n) v"
  using assms to_int32_id [of l] to_int32_id [of u] to_int32_id [of int32_min] to_int32_id [of int32_max]
  by (auto simp: BigintRange_testValues32_def BigintRange_testInt64_def BigintRange_new_def
      max_def min_def int64_defs)

lemma lanes16:
  assumes "l \<le> u" "int16_min \<le> v \<and> v \<le> int16_max"
  shows "BigintRange_testValues16 (BigintRange_new l u n) v = BigintRange_testInt64 (BigintRange_new l u n) v"
  using assms to_int16_id [of l] to_int16_id [of u] to_int16_id [of int16_min] to_int16_id [of int16_max]
  by (auto simp: BigintRange_testValues16_def BigintRange_testInt64_def BigintRange_new_def
      max_def min_def int64_defs)

text \<open>
  The vectorised tests of a range agree with the scalar test on every lane: with the narrowed
  bounds of the constructor, on 64-bit lanes, on 32-bit lanes and on 16-bit lanes.
\<close>

lemma BigintRange_testValues_agree:
  assumes "l \<le> u"
  shows "BigintRange_testValues64 (BigintRange_new l u n) v = BigintRange_testInt64 (BigintRange_new l u n) v \<and>
    (int32_min \<le> v \<and> v \<le> int32_max \<longrightarrow>
       BigintRange_testValues32 (BigintRange_new l u n) v = BigintRange_testInt64 (BigintRange_new l u n) v) \<and>
    (int16_min \<le> v \<and> v \<le> int16_max \<longrightarrow>
       BigintRange_testValues16 (BigintRange_new l u n) v = BigintRange_testInt64 (BigintRange_new l u n) v)"
  using assms lanes64 lanes32 lanes16 by blast

lemma BigintRange_testValues_agree_witness:
  "BigintRange_testValues32 (BigintRange_new (-5000000000) 70000 False) 70000 =
   BigintRange_testInt64 (BigintRange_new (-5000000000) 70000 False) 70000"
  using BigintRange_testValues_agree [of "-5000000000" 70000 False 70000] by (simp add: int64_defs)

end
