(* ===== verification/Filter_Bytes.thy ===== *)
theory Filter_Bytes
  imports Filter_Int_Props
begin

text \<open>
  Correctness of the filters on byte strings: what each class accepts, in the lexicographic order of
  byte strings. Lengths are \<^verbatim>\<open>int32_t\<close> in the code, so strings are shorter than two gigabytes.
\<close>

section \<open>Comparing byte strings\<close>

definition short :: "string \<Rightarrow> bool" where
  "short s \<longleftrightarrow> int (length s) \<le> int32_max"

lemma memcmp_cases:
  "memcmp a b (min (length a) (length b)) < 0 \<Longrightarrow> a < b"
  "memcmp a b (min (length a) (length b)) > 0 \<Longrightarrow> b < a"
  "memcmp a b (min (length a) (length b)) = 0 \<Longrightarrow> length a < length b \<Longrightarrow> a < b"
  "memcmp a b (min (length a) (length b)) = 0 \<Longrightarrow> length b < length a \<Longrightarrow> b < a"
  "memcmp a b (min (length a) (length b)) = 0 \<Longrightarrow> length a = length b \<Longrightarrow> a = b"
proof (induction a arbitrary: b)
  case Nil
  { case 1 then show ?case by simp next case 2 then show ?case by simp
  next case 3 then show ?case by (cases b) simp_all
  next case 4 then show ?case by simp next case 5 then show ?case by simp }
next
  case (Cons x a)
  { case 1 then show ?case using Cons.IH(1) by (cases b) (auto simp: less_char_def split: if_splits)
  next case 2 then show ?case using Cons.IH(2) by (cases b) (auto simp: less_char_def split: if_splits)
  next case 3 then show ?case using Cons.IH(3) by (cases b) (auto simp: less_char_def split: if_splits)
  next case 4 then show ?case using Cons.IH(4) by (cases b) (auto simp: less_char_def split: if_splits)
  next case 5 then show ?case using Cons.IH(5) by (cases b) (auto simp: less_char_def split: if_splits) }
qed

lemma compareViews_sign:
  "compareViews a b < 0 \<longleftrightarrow> a < b" "compareViews a b = 0 \<longleftrightarrow> a = b" "compareViews a b > 0 \<longleftrightarrow> b < a"
proof -
  have "(compareViews a b < 0 \<and> a < b) \<or> (compareViews a b = 0 \<and> a = b) \<or> (compareViews a b > 0 \<and> b < a)"
    using memcmp_cases [where a = a and b = b]
    by (cases "memcmp a b (min (length a) (length b))" "0 :: int" rule: linorder_cases;
        cases "length a" "length b" rule: linorder_cases) (simp_all add: compareViews_def Let_def)
  then show "compareViews a b < 0 \<longleftrightarrow> a < b" "compareViews a b = 0 \<longleftrightarrow> a = b"
    "compareViews a b > 0 \<longleftrightarrow> b < a" by auto
qed

lemma compareRanges_sign:
  assumes "short a" "short b"
  shows "compareRanges a b < 0 \<longleftrightarrow> a < b" "compareRanges a b = 0 \<longleftrightarrow> a = b" "compareRanges a b > 0 \<longleftrightarrow> b < a"
proof -
  have d: "to_int32 (int (length a) - int (length b)) = int (length a) - int (length b)"
    using assms by (intro to_int32_id) (auto simp: short_def int64_defs)
  have "(compareRanges a b < 0 \<and> a < b) \<or> (compareRanges a b = 0 \<and> a = b) \<or> (compareRanges a b > 0 \<and> b < a)"
    using memcmp_cases [where a = a and b = b]
    by (cases "memcmp a b (min (length a) (length b))" "0 :: int" rule: linorder_cases;
        cases "length a" "length b" rule: linorder_cases) (simp_all add: compareRanges_def Let_def d to_int32_def [of 0])
  then show "compareRanges a b < 0 \<longleftrightarrow> a < b" "compareRanges a b = 0 \<longleftrightarrow> a = b"
    "compareRanges a b > 0 \<longleftrightarrow> b < a" by auto
qed

lemma string_compare_sign [simp]:
  "string_compare a b < 0 \<longleftrightarrow> a < b" "string_compare a b = 0 \<longleftrightarrow> a = b" "0 < string_compare a b \<longleftrightarrow> b < a"
  by (auto simp: string_compare_def)

lemma Nil_less_string: "([] :: string) < s \<longleftrightarrow> s \<noteq> []"
  by (cases s) auto

lemma memcmp_equal: "length a = length b \<Longrightarrow> memcmp a b (length a) = 0 \<longleftrightarrow> a = b"
proof -
  assume l: "length a = length b"
  have "memcmp a a (length a) = 0" by (induction a) auto
  with memcmp_cases(5) [of a b] l show ?thesis by auto
qed

section \<open>Invariants\<close>

text \<open>
  A range is built by its constructor from short strings, and is not the half-open range from the empty
  string to the empty string, whose test takes the lower end only.
\<close>

definition wf_brange :: "bytes_range \<Rightarrow> bool" where
  "wf_brange r \<longleftrightarrow>
     \<not> (by_lowerUnbounded r \<and> by_upperUnbounded r) \<and> short (by_lower r) \<and> short (by_upper r) \<and>
     by_singleValue r = (\<not> by_lowerExclusive r \<and> \<not> by_upperExclusive r \<and> \<not> by_lowerUnbounded r \<and>
                         \<not> by_upperUnbounded r \<and> by_lower r = by_upper r) \<and>
     \<not> (\<not> by_lowerUnbounded r \<and> by_lower r = [] \<and> \<not> by_lowerExclusive r \<and>
        \<not> by_upperUnbounded r \<and> by_upper r = [] \<and> by_upperExclusive r)"

definition wf_bvalues :: "bytes_values \<Rightarrow> bool" where
  "wf_bvalues s \<longleftrightarrow>
     bv_set s \<noteq> [] \<and> distinct (bv_set s) \<and> list_all short (bv_set s) \<and>
     set (bv_lengths s) = length ` set (bv_set s) \<and>
     bv_lower s \<in> set (bv_set s) \<and> bv_upper s \<in> set (bv_set s) \<and>
     list_all (\<lambda>v. bv_lower s \<le> v \<and> v \<le> bv_upper s) (bv_set s)"

fun bytes_kind :: "filter \<Rightarrow> bool" where
  "bytes_kind (BytesRange r) = True"
| "bytes_kind (NegatedBytesRange r n) = True"
| "bytes_kind (BytesValues s) = True"
| "bytes_kind (NegatedBytesValues s n) = True"
| "bytes_kind (MultiRange fs n) = True"
| "bytes_kind f = False"

fun wf_bytes :: "filter \<Rightarrow> bool" where
  "wf_bytes AlwaysFalse = True"
| "wf_bytes AlwaysTrue = True"
| "wf_bytes IsNull = True"
| "wf_bytes IsNotNull = True"
| "wf_bytes (BytesRange r) = wf_brange r"
| "wf_bytes (NegatedBytesRange r n) = wf_brange r"
| "wf_bytes (BytesValues s) = wf_bvalues s"
| "wf_bytes (NegatedBytesValues s n) = wf_bvalues s"
| "wf_bytes (MultiRange fs n) = list_all (\<lambda>f. bytes_kind f \<and> wf_bytes f) fs"
| "wf_bytes f = False"

definition to_upper :: "bytes_range \<Rightarrow> string \<Rightarrow> bool" where
  "to_upper r v \<longleftrightarrow> by_upperUnbounded r \<or> v < by_upper r \<or> (\<not> by_upperExclusive r \<and> v = by_upper r)"

definition from_lower :: "bytes_range \<Rightarrow> string \<Rightarrow> bool" where
  "from_lower r v \<longleftrightarrow> by_lowerUnbounded r \<or> by_lower r < v \<or> (\<not> by_lowerExclusive r \<and> v = by_lower r)"

definition baccepts :: "filter \<Rightarrow> string \<Rightarrow> bool" where
  "baccepts f v \<longleftrightarrow> testBytes f v = Inr True"

section \<open>What each filter accepts\<close>

lemma brange_test:
  assumes "wf_brange r" "short v"
  shows "BytesRange_testBytes r v \<longleftrightarrow> from_lower r v \<and> to_upper r v"
proof (cases "v = []")
  case True
  with assms show ?thesis
    by (auto simp: BytesRange_testBytes_def wf_brange_def from_lower_def to_upper_def Nil_less_string)
next
  case False
  show ?thesis
  proof (cases "by_singleValue r")
    case single: True
    with assms(1) have s: "\<not> by_lowerExclusive r" "\<not> by_upperExclusive r" "\<not> by_lowerUnbounded r"
        "\<not> by_upperUnbounded r" "by_upper r = by_lower r" by (auto simp: wf_brange_def)
    have "BytesRange_testBytes r v \<longleftrightarrow> v = by_lower r"
      using False single memcmp_equal [of v "by_lower r"] by (auto simp: BytesRange_testBytes_def)
    with s show ?thesis by (auto simp: from_lower_def to_upper_def)
  next
    case many: False
    have l: "short (by_lower r)" "short (by_upper r)" using assms(1) by (auto simp: wf_brange_def)
    note lo = compareRanges_sign [OF assms(2) l(1)] and hi = compareRanges_sign [OF assms(2) l(2)]
    show ?thesis
      using False many lo hi
      by (cases "v" "by_lower r" rule: linorder_cases; cases "v" "by_upper r" rule: linorder_cases)
        (auto simp: BytesRange_testBytes_def from_lower_def to_upper_def Let_def)
  qed
qed

lemma bvalues_test: "wf_bvalues s \<Longrightarrow> BytesValues_testBytes s v \<longleftrightarrow> v \<in> set (bv_set s)"
  by (auto simp: BytesValues_testBytes_def wf_bvalues_def)

lemma baccepts_simps [simp]:
  "baccepts AlwaysFalse v = False"
  "baccepts AlwaysTrue v = True"
  "baccepts IsNull v = False"
  "baccepts IsNotNull v = True"
  by (auto simp: baccepts_def methods_defs)

lemma baccepts_wf:
  "wf_brange r \<Longrightarrow> short v \<Longrightarrow> baccepts (BytesRange r) v \<longleftrightarrow> from_lower r v \<and> to_upper r v"
  "wf_brange r \<Longrightarrow> short v \<Longrightarrow> baccepts (NegatedBytesRange r n) v \<longleftrightarrow> \<not> (from_lower r v \<and> to_upper r v)"
  "wf_bvalues s \<Longrightarrow> baccepts (BytesValues s) v \<longleftrightarrow> v \<in> set (bv_set s)"
  "wf_bvalues s \<Longrightarrow> baccepts (NegatedBytesValues s n) v \<longleftrightarrow> v \<notin> set (bv_set s)"
  by (simp_all add: baccepts_def methods_defs brange_test bvalues_test)

text \<open>The test never throws on a well-formed filter, and a disjunction is one.\<close>

lemma wf_testBytes: "wf_bytes f \<Longrightarrow> testBytes f v = Inr (baccepts f v)"
proof (induction f)
  case (MultiRange fs n)
  have "anyR (\<lambda>m. m_testBytes m v) (map methods fs) = Inr (\<exists>f \<in> set fs. baccepts f v)"
    using MultiRange by (induction fs) (auto simp: list_all_iff)
  then show ?case by (simp add: baccepts_def methods_defs)
qed (auto simp: baccepts_def methods_defs)

lemma baccepts_multi:
  assumes "wf_bytes (MultiRange fs n)"
  shows "baccepts (MultiRange fs n) v \<longleftrightarrow> (\<exists>f \<in> set fs. baccepts f v)"
proof -
  have "anyR (\<lambda>m. m_testBytes m v) (map methods fs) = Inr (\<exists>f \<in> set fs. baccepts f v)"
    using assms wf_testBytes by (induction fs) auto
  then show ?thesis by (simp add: baccepts_def [of "MultiRange fs n"] methods_defs)
qed

lemma testNull_bytes [simp]:
  "testNull (BytesRange r) = by_nullAllowed r"
  "testNull (NegatedBytesRange r n) = n"
  "testNull (BytesValues s) = bv_nullAllowed s"
  "testNull (NegatedBytesValues s n) = n"
  "testNull (MultiRange fs n) = n"
  by (simp_all add: methods_defs)

end
