(* ===== verification/Filter_Bytes_Merge.thy ===== *)
theory Filter_Bytes_Merge
  imports Filter_Bytes
begin

text \<open>
  Merging filters on byte strings is conjunction, by the same argument as for integers: the classes
  may rely on the virtual function, and the knot is tied by induction on the depth of the calls.
\<close>

section \<open>Conjunction\<close>

definition bmerge_good :: "filter \<Rightarrow> filter \<Rightarrow> filter \<Rightarrow> bool" where
  "bmerge_good f g h \<longleftrightarrow>
     wf_bytes h \<and> testNull h = (testNull f \<and> testNull g) \<and>
     (\<forall>v. short v \<longrightarrow> (baccepts h v \<longleftrightarrow> baccepts f v \<and> baccepts g v)) \<and>
     (bytes_kind f \<and> bytes_kind g \<longrightarrow> bytes_kind h \<or> h = AlwaysFalse \<or> h = IsNull)"

lemma bmerge_good_sym: "bmerge_good g f h \<Longrightarrow> bmerge_good f g h"
  by (auto simp: bmerge_good_def)

lemma bmerge_goodI:
  "wf_bytes h \<Longrightarrow> testNull h = (testNull f \<and> testNull g) \<Longrightarrow> bytes_kind h \<Longrightarrow>
   (\<And>v. short v \<Longrightarrow> baccepts h v \<longleftrightarrow> baccepts f v \<and> baccepts g v) \<Longrightarrow> bmerge_good f g h"
  by (simp add: bmerge_good_def)

lemma bmerge_good_nullOrFalse:
  "n = (testNull f \<and> testNull g) \<Longrightarrow> (\<And>v. short v \<Longrightarrow> \<not> (baccepts f v \<and> baccepts g v)) \<Longrightarrow>
   bmerge_good f g (nullOrFalse n)"
  by (auto simp: nullOrFalse_def bmerge_good_def)

lemma bytes_new_wf:
  assumes "BytesRange_new l lu le u uu ue n = Inr r" "short l" "short u"
    and "\<not> (\<not> lu \<and> l = [] \<and> \<not> le \<and> \<not> uu \<and> u = [] \<and> ue)"
  shows "wf_brange r \<and> by_lower r = l \<and> by_upper r = u \<and> by_lowerUnbounded r = lu \<and>
    by_lowerExclusive r = le \<and> by_upperUnbounded r = uu \<and> by_upperExclusive r = ue \<and> by_nullAllowed r = n"
  using assms by (auto simp: BytesRange_new_def checkR_Inr_iff wf_brange_def)

lemma min_element_props: "min_element m vs \<in> insert m (set vs) \<and> (\<forall>v \<in> insert m (set vs). min_element m vs \<le> v)"
proof (induction m vs rule: min_element.induct)
  case (2 m x xs)
  then show ?case by (fastforce split: if_splits)
qed simp

lemma max_element_props: "max_element m vs \<in> insert m (set vs) \<and> (\<forall>v \<in> insert m (set vs). v \<le> max_element m vs)"
proof (induction m vs rule: max_element.induct)
  case (2 m x xs)
  then show ?case by (fastforce split: if_splits)
qed simp

lemma bvalues_new_wf:
  assumes "BytesValues_new vs n = Inr s" "\<forall>v \<in> set vs. short v"
  shows "wf_bvalues s \<and> set (bv_set s) = set vs \<and> bv_nullAllowed s = n"
proof -
  obtain w ws where r: "remdups vs = w # ws" using assms(1) by (cases "remdups vs") (auto simp: BytesValues_new_def)
  have s: "s = \<lparr>bv_lower = min_element w ws, bv_upper = max_element w ws, bv_set = w # ws,
      bv_lengths = remdups (map length vs), bv_isSingleValue = (length vs = 1), bv_nullAllowed = n\<rparr>"
    using assms(1) r by (simp add: BytesValues_new_def)
  have set: "set (w # ws) = set vs" by (metis r set_remdups)
  have "distinct (w # ws)" by (metis r distinct_remdups)
  moreover have "short v" if "v \<in> set (w # ws)" for v using that assms(2) set by blast
  moreover have "length ` set vs = length ` set (w # ws)" using set by simp
  ultimately show ?thesis
    using min_element_props [of w ws] max_element_props [of w ws] set
    by (auto simp: s wf_bvalues_def list_all_iff simp flip: set)
qed

lemma bvalues_new_total: "vs \<noteq> [] \<Longrightarrow> \<exists>s. BytesValues_new vs n = Inr s"
  by (cases "remdups vs") (auto simp: BytesValues_new_def)

lemma keep_good:
  assumes "keepBytesValues vs (testNull f \<and> testNull g) = Inr h" "\<forall>v \<in> set vs. short v"
    and "\<And>v. short v \<Longrightarrow> v \<in> set vs \<longleftrightarrow> baccepts f v \<and> baccepts g v"
  shows "bmerge_good f g h"
proof (cases "vs = []")
  case True
  with assms show ?thesis by (auto simp: keepBytesValues_def intro!: bmerge_good_nullOrFalse)
next
  case False
  with assms(1) obtain s where s: "BytesValues_new vs (testNull f \<and> testNull g) = Inr s" "h = BytesValues s"
    by (auto simp: keepBytesValues_def result_simps)
  with bvalues_new_wf [OF s(1) assms(2)] assms(3) show ?thesis
    by (auto simp: baccepts_wf intro!: bmerge_goodI)
qed

section \<open>Ranges\<close>

lemma merge_lower_above:
  assumes "mergeLower r s = (lu, le, l)"
  shows "(lu \<or> l < v \<or> (\<not> le \<and> v = l)) \<longleftrightarrow> from_lower r v \<and> from_lower s v"
  using assms
  by (cases "by_lower r" "by_lower s" rule: linorder_cases)
    (auto simp: mergeLower_def Let_def from_lower_def mergeExclusive_def string_compare_def split: if_splits)

lemma merge_upper_below:
  assumes "mergeUpper r s = (uu, ue, u)"
  shows "(uu \<or> v < u \<or> (\<not> ue \<and> v = u)) \<longleftrightarrow> to_upper r v \<and> to_upper s v"
  using assms
  by (cases "by_upper r" "by_upper s" rule: linorder_cases)
    (auto simp: mergeUpper_def Let_def to_upper_def mergeExclusive_def string_compare_def split: if_splits)

lemma merge_bounds_short:
  assumes "wf_brange r" "wf_brange s" "mergeLower r s = (lu, le, l)" "mergeUpper r s = (uu, ue, u)"
  shows "short l \<and> short u \<and> \<not> (lu \<and> uu)"
  using assms by (auto simp: mergeLower_def mergeUpper_def Let_def wf_brange_def split: if_splits)

lemma mergeBytesRanges_good:
  assumes "mergeBytesRanges r s (by_nullAllowed r \<and> by_nullAllowed s) = Inr h" "wf_brange r" "wf_brange s"
  shows "bmerge_good (BytesRange r) (BytesRange s) h"
proof -
  let ?n = "by_nullAllowed r \<and> by_nullAllowed s"
  obtain lu le l where lo: "mergeLower r s = (lu, le, l)" by (cases "mergeLower r s")
  obtain uu ue u where hi: "mergeUpper r s = (uu, ue, u)" by (cases "mergeUpper r s")
  note A = merge_lower_above [OF lo] and B = merge_upper_below [OF hi]
  note sh = merge_bounds_short [OF assms(2,3) lo hi]
  show ?thesis
  proof (cases "\<not> lu \<and> \<not> uu \<and> (l > u \<or> (l = u \<and> (le \<or> ue)))")
    case True
    have "\<not> (from_lower r v \<and> from_lower s v \<and> to_upper r v \<and> to_upper s v)" for v
      using True A [of v] B [of v] by auto
    with True assms(1) lo hi show ?thesis
      by (auto simp: mergeBytesRanges_def baccepts_wf assms(2,3) intro!: bmerge_good_nullOrFalse)
  next
    case False
    with assms(1) lo hi obtain b where b: "BytesRange_new l lu le u uu ue ?n = Inr b" "h = BytesRange b"
      by (auto simp: mergeBytesRanges_def result_simps simp del: not_less)
    have w: "wf_brange b \<and> by_lower b = l \<and> by_upper b = u \<and> by_lowerUnbounded b = lu \<and>
        by_lowerExclusive b = le \<and> by_upperUnbounded b = uu \<and> by_upperExclusive b = ue \<and> by_nullAllowed b = ?n"
      by (rule bytes_new_wf [OF b(1)]) (use sh False in auto)
    have "from_lower b v \<longleftrightarrow> from_lower r v \<and> from_lower s v" for v
      using A [of v] w by (simp add: from_lower_def [of b])
    moreover have "to_upper b v \<longleftrightarrow> to_upper r v \<and> to_upper s v" for v
      using B [of v] w by (simp add: to_upper_def [of b])
    ultimately show ?thesis using b(2) w assms(2,3)
      by (intro bmerge_goodI) (auto simp: baccepts_wf)
  qed
qed

text \<open>The two parts outside a range.\<close>

lemma complement_below:
  assumes "BytesRange_new [] True False (by_lower r) False (BytesRange_testBytes r (by_lower r)) n = Inr b"
    and "wf_brange r" "\<not> by_lowerUnbounded r"
  shows "wf_brange b \<and> by_nullAllowed b = n \<and> (\<forall>v. short v \<longrightarrow> (from_lower b v \<and> to_upper b v \<longleftrightarrow>
    v < by_lower r \<or> (v = by_lower r \<and> \<not> (from_lower r v \<and> to_upper r v))))"
proof -
  have l: "short (by_lower r)" using assms(2) by (simp add: wf_brange_def)
  have "wf_brange b \<and> by_lower b = [] \<and> by_upper b = by_lower r \<and> by_lowerUnbounded b = True \<and>
    by_lowerExclusive b = False \<and> by_upperUnbounded b = False \<and>
    by_upperExclusive b = BytesRange_testBytes r (by_lower r) \<and> by_nullAllowed b = n"
    by (rule bytes_new_wf [OF assms(1)]) (use l in \<open>auto simp: short_def int32_max_def\<close>)
  then show ?thesis by (auto simp: from_lower_def [of b] to_upper_def [of b] brange_test [OF assms(2) l])
qed

lemma complement_above:
  assumes "BytesRange_new (by_upper r) False (BytesRange_testBytes r (by_upper r)) [] True False n = Inr b"
    and "wf_brange r" "\<not> by_upperUnbounded r"
  shows "wf_brange b \<and> by_nullAllowed b = n \<and> (\<forall>v. short v \<longrightarrow> (from_lower b v \<and> to_upper b v \<longleftrightarrow>
    by_upper r < v \<or> (v = by_upper r \<and> \<not> (from_lower r v \<and> to_upper r v))))"
proof -
  have u: "short (by_upper r)" using assms(2) by (simp add: wf_brange_def)
  have "wf_brange b \<and> by_lower b = by_upper r \<and> by_upper b = [] \<and> by_lowerUnbounded b = False \<and>
    by_lowerExclusive b = BytesRange_testBytes r (by_upper r) \<and> by_upperUnbounded b = True \<and>
    by_upperExclusive b = False \<and> by_nullAllowed b = n"
    by (rule bytes_new_wf [OF assms(1)]) (use u in \<open>auto simp: short_def int32_max_def\<close>)
  then show ?thesis by (auto simp: from_lower_def [of b] to_upper_def [of b] brange_test [OF assms(2) u])
qed

lemma wf_brange_null [simp]: "wf_brange (r\<lparr>by_nullAllowed := n\<rparr>) = wf_brange r"
  by (simp add: wf_brange_def)

lemma above_null [simp]: "from_lower (r\<lparr>by_nullAllowed := n\<rparr>) = from_lower r" "to_upper (r\<lparr>by_nullAllowed := n\<rparr>) = to_upper r"
  by (auto simp: from_lower_def to_upper_def)

lemma BytesRange_new_total: "\<not> (lu \<and> uu) \<Longrightarrow> \<exists>b. BytesRange_new l lu le u uu ue n = Inr b"
  by (auto simp: BytesRange_new_def)

lemma toMultiRange_total: "wf_brange r \<Longrightarrow> \<exists>h. toMultiRange r n = Inr h"
  by (auto simp: toMultiRange_def BytesRange_new_def wf_brange_def)

lemma toMultiRange_good:
  assumes "toMultiRange r n = Inr h" "wf_brange r"
  shows "wf_bytes h \<and> testNull h = n \<and> bytes_kind h \<and>
         (\<forall>v. short v \<longrightarrow> (baccepts h v \<longleftrightarrow> \<not> (from_lower r v \<and> to_upper r v)))"
proof -
  have nu: "\<not> (by_lowerUnbounded r \<and> by_upperUnbounded r)" using assms(2) by (simp add: wf_brange_def)
  consider (both) b c where "\<not> by_lowerUnbounded r" "\<not> by_upperUnbounded r"
      "BytesRange_new [] True False (by_lower r) False (BytesRange_testBytes r (by_lower r)) False = Inr b"
      "BytesRange_new (by_upper r) False (BytesRange_testBytes r (by_upper r)) [] True False False = Inr c"
      "h = MultiRange [BytesRange b, BytesRange c] n"
    | (lo) b where "\<not> by_lowerUnbounded r" "by_upperUnbounded r"
      "BytesRange_new [] True False (by_lower r) False (BytesRange_testBytes r (by_lower r)) False = Inr b"
      "h = BytesRange (b\<lparr>by_nullAllowed := n\<rparr>)"
    | (hi) c where "by_lowerUnbounded r" "\<not> by_upperUnbounded r"
      "BytesRange_new (by_upper r) False (BytesRange_testBytes r (by_upper r)) [] True False False = Inr c"
      "h = BytesRange (c\<lparr>by_nullAllowed := n\<rparr>)"
    using assms(1) nu by (auto simp: toMultiRange_def result_simps split: if_splits)
  then show ?thesis
  proof cases
    case both
    have w: "wf_bytes (MultiRange [BytesRange b, BytesRange c] n)"
      using complement_below [OF both(3) assms(2) both(1)] complement_above [OF both(4) assms(2) both(2)] by simp
    show ?thesis
      using complement_below [OF both(3) assms(2) both(1)] complement_above [OF both(4) assms(2) both(2)] both(1,2) w
      by (auto simp: both(5) baccepts_multi baccepts_wf from_lower_def [of r] to_upper_def [of r])
  next
    case lo
    with complement_below [OF lo(3) assms(2) lo(1)] show ?thesis
      by (auto simp: baccepts_wf from_lower_def [of r] to_upper_def [of r])
  next
    case hi
    with complement_above [OF hi(3) assms(2) hi(2)] show ?thesis
      by (auto simp: baccepts_wf from_lower_def [of r] to_upper_def [of r])
  qed
qed

section \<open>Rejecting values from a range\<close>

definition under :: "bytes_range \<Rightarrow> bool \<Rightarrow> string \<Rightarrow> bool" where
  "under r hi v \<longleftrightarrow> by_upperUnbounded r \<or> v < by_upper r \<or> (\<not> hi \<and> v = by_upper r)"

definition over :: "bytes_range \<Rightarrow> bool \<Rightarrow> string \<Rightarrow> bool" where
  "over r lo v \<longleftrightarrow> by_lowerUnbounded r \<or> by_lower r < v \<or> (\<not> lo \<and> v = by_lower r)"

lemma gapBytesRanges_good:
  assumes "gapBytesRanges bk vs r hi = Inr bs" "wf_brange r"
    and "sorted_wrt (<) (bk # vs)" "\<forall>x \<in> set (bk # vs). short x \<and> (by_upperUnbounded r \<or> x < by_upper r)"
  shows "(\<forall>f \<in> set bs. bytes_kind f \<and> wf_bytes f) \<and>
    (\<forall>v. short v \<longrightarrow> ((\<exists>f \<in> set bs. baccepts f v) \<longleftrightarrow> bk < v \<and> v \<notin> set vs \<and> under r hi v))"
  using assms(1,3,4)
proof (induction vs arbitrary: bk bs)
  case Nil
  then obtain b where b: "BytesRange_new bk False True (by_upper r) (by_upperUnbounded r) hi False = Inr b"
    "bs = [BytesRange b]" by (auto simp: result_simps)
  have "wf_brange b \<and> by_lower b = bk \<and> by_upper b = by_upper r \<and> by_lowerUnbounded b = False \<and>
      by_lowerExclusive b = True \<and> by_upperUnbounded b = by_upperUnbounded r \<and> by_upperExclusive b = hi \<and>
      by_nullAllowed b = False"
    by (rule bytes_new_wf [OF b(1)]) (use Nil.prems assms(2) in \<open>auto simp: wf_brange_def\<close>)
  then show ?case by (auto simp: b(2) baccepts_wf from_lower_def to_upper_def under_def)
next
  case (Cons front vs)
  obtain b bs' where b: "BytesRange_new bk False True front False True False = Inr b"
    "gapBytesRanges front vs r hi = Inr bs'" "bs = BytesRange b # bs'"
    using Cons.prems(1) by (auto simp: result_simps)
  have w: "wf_brange b \<and> by_lower b = bk \<and> by_upper b = front \<and> by_lowerUnbounded b = False \<and>
      by_lowerExclusive b = True \<and> by_upperUnbounded b = False \<and> by_upperExclusive b = True \<and>
      by_nullAllowed b = False"
    by (rule bytes_new_wf [OF b(1)]) (use Cons.prems in auto)
  have IH: "(\<forall>f \<in> set bs'. bytes_kind f \<and> wf_bytes f) \<and>
    (\<forall>v. short v \<longrightarrow> ((\<exists>f \<in> set bs'. baccepts f v) \<longleftrightarrow> front < v \<and> v \<notin> set vs \<and> under r hi v))"
    using Cons.IH [OF b(2)] Cons.prems(2,3) by simp
  have lt: "bk < front" "\<forall>x \<in> set vs. front < x" "by_upperUnbounded r \<or> front < by_upper r"
    using Cons.prems(2,3) by auto
  have "(bk < v \<and> v < front) \<or> (front < v \<and> v \<notin> set vs \<and> under r hi v) \<longleftrightarrow>
        bk < v \<and> v \<notin> set (front # vs) \<and> under r hi v" for v
    using lt by (cases v front rule: linorder_cases) (auto simp: under_def)
  with IH w show ?case
    by (auto simp: b(3) baccepts_wf from_lower_def to_upper_def)
qed

text \<open>The ranges between rejected strings that are sorted and inside the range.\<close>

lemma reject_pieces:
  assumes h: "(case rs of
      [] \<Rightarrow> bindR (BytesRange_new (by_lower r) (by_lowerUnbounded r) lo (by_upper r) (by_upperUnbounded r) hi n)
              (\<lambda>b. Inr (BytesRange b))
    | bk # ws \<Rightarrow> bindR (BytesRange_new (by_lower r) (by_lowerUnbounded r) lo bk False True False) (\<lambda>b.
              bindR (gapBytesRanges bk ws r hi) (\<lambda>bs. Inr (MultiRange (BytesRange b # bs) n)))) = Inr h"
    and r: "wf_brange r" and rs: "sorted_wrt (<) rs"
    and inside: "\<And>x. x \<in> set rs \<Longrightarrow> short x \<and> (by_upperUnbounded r \<or> x < by_upper r) \<and> (by_lowerUnbounded r \<or> by_lower r < x)"
    and nd: "\<not> (\<not> by_lowerUnbounded r \<and> by_lower r = [] \<and> \<not> lo \<and> \<not> by_upperUnbounded r \<and> by_upper r = [] \<and> hi)"
  shows "wf_bytes h \<and> testNull h = n \<and> bytes_kind h \<and>
    (\<forall>v. short v \<longrightarrow> (baccepts h v \<longleftrightarrow> over r lo v \<and> under r hi v \<and> v \<notin> set rs))"
proof (cases rs)
  case Nil
  with h obtain b where b: "BytesRange_new (by_lower r) (by_lowerUnbounded r) lo (by_upper r)
      (by_upperUnbounded r) hi n = Inr b" "h = BytesRange b" by (auto simp: result_simps)
  have sh: "short (by_lower r)" "short (by_upper r)" using r by (auto simp: wf_brange_def)
  from bytes_new_wf [OF b(1) sh nd] show ?thesis
    unfolding b(2) using Nil by (auto simp: baccepts_wf over_def under_def from_lower_def to_upper_def)
next
  case (Cons bk ws)
  with h obtain b bs where b: "BytesRange_new (by_lower r) (by_lowerUnbounded r) lo bk False True False = Inr b"
      "gapBytesRanges bk ws r hi = Inr bs" "h = MultiRange (BytesRange b # bs) n"
    by (auto simp: result_simps)
  have sh: "short (by_lower r)" using r by (auto simp: wf_brange_def)
  have in2: "short x \<and> (by_upperUnbounded r \<or> x < by_upper r) \<and> (by_lowerUnbounded r \<or> by_lower r < x)"
    if "x \<in> set (bk # ws)" for x
    using inside that Cons by simp
  have w: "wf_brange b \<and> by_lower b = by_lower r \<and> by_upper b = bk \<and> by_lowerUnbounded b = by_lowerUnbounded r \<and>
      by_lowerExclusive b = lo \<and> by_upperUnbounded b = False \<and> by_upperExclusive b = True \<and> by_nullAllowed b = False"
    by (rule bytes_new_wf [OF b(1) sh]) (use in2 [of bk] in auto)
  have g: "(\<forall>f \<in> set bs. bytes_kind f \<and> wf_bytes f) \<and>
    (\<forall>v. short v \<longrightarrow> ((\<exists>f \<in> set bs. baccepts f v) \<longleftrightarrow> bk < v \<and> v \<notin> set ws \<and> under r hi v))"
    by (rule gapBytesRanges_good [OF b(2) r]) (use rs Cons in2 in auto)
  have wh: "wf_bytes (MultiRange (BytesRange b # bs) n)" using w g by (simp add: list_all_iff)
  have ws: "\<forall>x \<in> set ws. bk < x" using rs Cons by simp
  have "(over r lo v \<and> v < bk) \<or> (bk < v \<and> v \<notin> set ws \<and> under r hi v) \<longleftrightarrow>
      over r lo v \<and> under r hi v \<and> v \<notin> set rs" for v
    using in2 [of bk] ws Cons by (cases v bk rule: linorder_cases) (auto simp: over_def under_def)
  moreover have "baccepts (BytesRange b) v \<longleftrightarrow> over r lo v \<and> v < bk" if "short v" for v
    using w that by (simp add: baccepts_wf over_def from_lower_def to_upper_def)
  ultimately show ?thesis using g wh unfolding b(3) by (simp add: baccepts_multi [OF wh])
qed

lemma rejectFromBytesRange_good:
  assumes "rejectFromBytesRange vs r n = Inr h" "wf_brange r" "\<forall>v \<in> set vs. short v"
  shows "wf_bytes h \<and> testNull h = n \<and> bytes_kind h \<and>
    (\<forall>v. short v \<longrightarrow> (baccepts h v \<longleftrightarrow> from_lower r v \<and> to_upper r v \<and> v \<notin> set vs))"
proof -
  define rej where "rej = sort (remdups (filter (BytesRange_testBytes r) vs))"
  define lo where "lo = (\<not> by_lowerUnbounded r \<and> (by_lowerExclusive r \<or> by_lower r \<in> set rej))"
  define rej1 where "rej1 = (if \<not> by_lowerUnbounded r then removeAll (by_lower r) rej else rej)"
  define hi where "hi = (\<not> by_upperUnbounded r \<and> (by_upperExclusive r \<or> by_upper r \<in> set rej1))"
  define rej2 where "rej2 = (if \<not> by_upperUnbounded r then removeAll (by_upper r) rej1 else rej1)"
  have h: "(case rej2 of
      [] \<Rightarrow> bindR (BytesRange_new (by_lower r) (by_lowerUnbounded r) lo (by_upper r) (by_upperUnbounded r) hi n)
              (\<lambda>b. Inr (BytesRange b))
    | bk # ws \<Rightarrow> bindR (BytesRange_new (by_lower r) (by_lowerUnbounded r) lo bk False True False) (\<lambda>b.
              bindR (gapBytesRanges bk ws r hi) (\<lambda>bs. Inr (MultiRange (BytesRange b # bs) n)))) = Inr h"
    using assms(1) unfolding rejectFromBytesRange_def Let_def
    by (simp only: rej_def lo_def rej1_def hi_def rej2_def)
  have rej: "set rej = {v \<in> set vs. from_lower r v \<and> to_upper r v}" "sorted rej" "distinct rej"
    using assms(2,3) by (auto simp: rej_def brange_test)
  have r2: "set rej2 = {v \<in> set vs. from_lower r v \<and> to_upper r v \<and> (by_lowerUnbounded r \<or> v \<noteq> by_lower r) \<and>
      (by_upperUnbounded r \<or> v \<noteq> by_upper r)}"
    using rej(1) by (auto simp: rej1_def rej2_def)
  have s2: "sorted_wrt (<) rej2"
    using rej(2,3) strictly_sorted [of rej] unfolding rej1_def rej2_def
    by (auto simp: removeAll_filter_not_eq strictly_sorted [symmetric] sorted_wrt_filter)
  have r1: "v \<in> set rej1 \<longleftrightarrow> v \<in> set rej \<and> (by_lowerUnbounded r \<or> v \<noteq> by_lower r)" for v
    by (auto simp: rej1_def)
  have r2': "v \<in> set rej2 \<longleftrightarrow> v \<in> set rej \<and> (by_lowerUnbounded r \<or> v \<noteq> by_lower r) \<and>
      (by_upperUnbounded r \<or> v \<noteq> by_upper r)" for v
    by (auto simp: rej1_def rej2_def)
  have acc: "from_lower r v \<and> to_upper r v \<and> v \<notin> set vs \<longleftrightarrow> over r lo v \<and> under r hi v \<and> v \<notin> set rej2" for v
  proof (cases "v \<in> set rej")
    case True
    then have "v \<in> set vs" using rej(1) by simp
    moreover have "\<not> over r lo v" if "v = by_lower r" "\<not> by_lowerUnbounded r"
      using True that by (simp add: over_def lo_def)
    moreover have "\<not> under r hi v" if "v = by_upper r" "\<not> by_upperUnbounded r" "by_lowerUnbounded r \<or> v \<noteq> by_lower r"
      using True that r1 [of v] by (simp add: under_def hi_def)
    ultimately show ?thesis using r2' [of v] True by blast
  next
    case False
    have "over r lo v \<longleftrightarrow> from_lower r v" using False by (auto simp: over_def lo_def from_lower_def)
    moreover have "under r hi v \<longleftrightarrow> to_upper r v" using False r1 [of v] by (auto simp: under_def hi_def to_upper_def)
    ultimately show ?thesis using False r2' [of v] rej(1) by blast
  qed
  have nd: "\<not> (\<not> by_lowerUnbounded r \<and> by_lower r = [] \<and> \<not> lo \<and> \<not> by_upperUnbounded r \<and> by_upper r = [] \<and> hi)"
    using assms(2) by (auto simp: lo_def hi_def rej1_def wf_brange_def)
  have "short x \<and> (by_upperUnbounded r \<or> x < by_upper r) \<and> (by_lowerUnbounded r \<or> by_lower r < x)" if "x \<in> set rej2" for x
    using that r2 assms(3) by (auto simp: from_lower_def to_upper_def)
  then show ?thesis unfolding acc by (rule reject_pieces [OF h assms(2) s2 _ nd])
qed

section \<open>Copies\<close>

lemma bclone_good:
  assumes "clone f na = Inr h" "wf_bytes f"
  shows "wf_bytes h \<and> bytes_kind h = bytes_kind f \<and> (\<forall>v. short v \<longrightarrow> baccepts h v = baccepts f v) \<and>
    (bytes_kind f \<or> na = None \<longrightarrow> testNull h = (case na of None \<Rightarrow> testNull f | Some b \<Rightarrow> b))"
  using assms
proof (induction f arbitrary: na h)
  case (BytesRange r)
  then show ?case by (auto simp: baccepts_wf split: option.splits)
next
  case (NegatedBytesRange r n)
  then show ?case by (auto simp: baccepts_wf split: option.splits)
next
  case (BytesValues s)
  have "wf_bvalues (s\<lparr>bv_nullAllowed := b\<rparr>)" for b using BytesValues by (simp add: wf_bvalues_def)
  with BytesValues show ?case by (auto simp: baccepts_wf split: option.splits)
next
  case (NegatedBytesValues s n)
  then obtain s' where s': "BytesValues_new (bv_set s) (bv_nullAllowed s) = Inr s'"
    "h = NegatedBytesValues s' (case na of None \<Rightarrow> n | Some b \<Rightarrow> b)"
    by (auto simp: result_simps)
  with bvalues_new_wf [OF s'(1)] NegatedBytesValues.prems show ?case
    by (auto simp: baccepts_wf wf_bvalues_def [of s] list_all_iff split: option.splits)
next
  case (MultiRange fs n)
  then obtain gs where gs: "mapR (\<lambda>f. clone f None) fs = Inr gs"
    "h = MultiRange gs (case na of None \<Rightarrow> n | Some b \<Rightarrow> b)" by (auto simp: result_simps)
  then have all: "list_all2 (\<lambda>f g. clone f None = Inr g) fs gs" by (simp add: mapR_Inr_iff)
  let ?R = "\<lambda>f g. bytes_kind g \<and> wf_bytes g \<and> (\<forall>v. short v \<longrightarrow> baccepts g v = baccepts f v)"
  have R: "list_all2 ?R fs gs"
  proof (rule list.rel_mono_strong [OF all])
    fix f g assume f: "f \<in> set fs" "clone f None = Inr g"
    have "bytes_kind f \<and> wf_bytes f" using MultiRange.prems(2) f(1) by (simp add: list_all_iff)
    with MultiRange.IH [OF f] show "?R f g" by simp
  qed
  have wf: "wf_bytes (MultiRange gs b)" for b
    using R by (induction rule: list_all2_induct) auto
  have ex: "short v \<Longrightarrow> (\<exists>g \<in> set gs. baccepts g v) \<longleftrightarrow> (\<exists>f \<in> set fs. baccepts f v)" for v
    using R by (induction rule: list_all2_induct) auto
  show ?case using wf ex baccepts_multi [OF wf] baccepts_multi [OF MultiRange.prems(2)] gs(2)
    by (auto split: option.splits)
qed auto

section \<open>Each class, given the virtual function\<close>

lemma testBytesRange_values_no:
  assumes "wf_bvalues s" "\<not> BytesValues_testBytesRange s mn mx hasNull" "v \<in> set (bv_set s)"
    and "mn \<noteq> None \<Longrightarrow> the mn \<le> v" "mx \<noteq> None \<Longrightarrow> v \<le> the mx"
  shows False
proof -
  have b: "bv_lower s \<le> v" "v \<le> bv_upper s" using assms(1,3) by (auto simp: wf_bvalues_def list_all_iff)
  consider "mn \<noteq> None" "mn = mx" "\<not> BytesValues_testBytes s (the mn)"
    | "mn \<noteq> None" "bv_upper s < the mn" | "mx \<noteq> None" "the mx < bv_lower s"
    using assms(2) by (auto simp: BytesValues_testBytesRange_def compareViews_sign split: if_splits)
  then show False
  proof cases
    case 1
    then have "v = the mn" using assms(4,5) by auto
    with 1 assms(1,3) show False by (simp add: bvalues_test)
  next
    case 2
    with assms(4) b(2) show False by auto
  next
    case 3
    with assms(5) b(1) show False by auto
  qed
qed

lemma values_values_good:
  assumes "wf_bvalues s" "wf_bvalues t" "BytesValues_mergeWith mw s (BytesValues t) = Inr h"
  shows "bmerge_good (BytesValues s) (BytesValues t) h"
proof -
  let ?n = "bv_nullAllowed s \<and> bv_nullAllowed t"
  have sh: "\<forall>v \<in> set (bv_set s) \<union> set (bv_set t). short v"
    using assms(1,2) by (auto simp: wf_bvalues_def list_all_iff)
  have bs: "\<forall>v \<in> set (bv_set s). bv_lower s \<le> v \<and> v \<le> bv_upper s"
    "\<forall>v \<in> set (bv_set t). bv_lower t \<le> v \<and> v \<le> bv_upper t"
    using assms(1,2) by (auto simp: wf_bvalues_def list_all_iff)
  show ?thesis
  proof (cases "bv_upper s < bv_lower t \<or> bv_upper t < bv_lower s")
    case True
    then have "v \<notin> set (bv_set s) \<or> v \<notin> set (bv_set t)" for v using bs by force
    with True assms show ?thesis
      by (auto simp: BytesValues_mergeWith_def baccepts_wf intro!: bmerge_good_nullOrFalse)
  next
    case False
    define small where "small = (if length (bv_set s) > length (bv_set t) then t else s)"
    define large where "large = (if length (bv_set s) > length (bv_set t) then s else t)"
    have k: "keepBytesValues (filter (\<lambda>v. v \<in> set (bv_set large)) (bv_set small)) ?n = Inr h"
      using assms(3) False by (simp add: BytesValues_mergeWith_def small_def large_def split: if_splits)
    show ?thesis
      by (rule keep_good [where vs = "filter (\<lambda>v. v \<in> set (bv_set large)) (bv_set small)"])
        (use k sh assms(1,2) in \<open>auto simp: small_def large_def baccepts_wf split: if_splits\<close>)
  qed
qed

lemma values_range_good:
  assumes "wf_bvalues s" "wf_brange r" "BytesValues_mergeWith mw s (BytesRange r) = Inr h"
  shows "bmerge_good (BytesValues s) (BytesRange r) h"
proof -
  let ?n = "bv_nullAllowed s \<and> by_nullAllowed r"
  let ?mn = "if by_lowerUnbounded r then None else Some (by_lower r)"
  let ?mx = "if by_upperUnbounded r then None else Some (by_upper r)"
  have sh: "\<forall>v \<in> set (bv_set s). short v" using assms(1) by (auto simp: wf_bvalues_def list_all_iff)
  show ?thesis
  proof (cases "BytesValues_testBytesRange s ?mn ?mx ?n")
    case False
    have "False" if "v \<in> set (bv_set s)" "from_lower r v" "to_upper r v" for v
      by (rule testBytesRange_values_no [OF assms(1) False that(1)])
        (use that(2,3) in \<open>auto simp: from_lower_def to_upper_def split: if_splits\<close>)
    with False assms show ?thesis
      by (auto simp: BytesValues_mergeWith_def baccepts_wf intro!: bmerge_good_nullOrFalse)
  next
    case True
    then have "keepBytesValues (filter (BytesRange_testBytes r) (bv_set s)) ?n = Inr h"
      using assms(3) by (simp add: BytesValues_mergeWith_def)
    with sh assms(1,2) show ?thesis
      by (intro keep_good [where vs = "filter (BytesRange_testBytes r) (bv_set s)"])
        (auto simp: baccepts_wf brange_test)
  qed
qed

lemma values_filter_good:
  assumes "wf_bvalues s" "wf_bytes g"
    and "bindR (filterR (testBytes g) (bv_set s)) (\<lambda>vs. keepBytesValues vs (bv_nullAllowed s \<and> testNull g)) = Inr h"
  shows "bmerge_good (BytesValues s) g h"
proof -
  have "filterR (testBytes g) (bv_set s) = Inr (filter (baccepts g) (bv_set s))"
    by (rule filterR_Inr) (rule wf_testBytes [OF assms(2)])
  with assms(3) have "keepBytesValues (filter (baccepts g) (bv_set s)) (bv_nullAllowed s \<and> testNull g) = Inr h"
    by simp
  moreover have "\<forall>v \<in> set (bv_set s). short v" using assms(1) by (auto simp: wf_bvalues_def list_all_iff)
  ultimately show ?thesis using assms(1)
    by (intro keep_good [where vs = "filter (baccepts g) (bv_set s)"]) (auto simp: baccepts_wf)
qed

text \<open>The accumulator of the nested loops of \<^verbatim>\<open>MultiRange::mergeWith\<close>.\<close>

definition acc_ok :: "string list \<times> filter list \<Rightarrow> bool" where
  "acc_ok acc \<longleftrightarrow> list_all short (fst acc) \<and> list_all (\<lambda>f. bytes_kind f \<and> wf_bytes f) (snd acc)"

definition acc_accepts :: "string list \<times> filter list \<Rightarrow> string \<Rightarrow> bool" where
  "acc_accepts acc v \<longleftrightarrow> v \<in> set (fst acc) \<or> (\<exists>f \<in> set (snd acc). baccepts f v)"

lemma collectMerged_good:
  assumes "collectMerged acc h = Inr acc'" "acc_ok acc" "wf_bytes h" "bytes_kind h \<or> h = AlwaysFalse \<or> h = IsNull"
  shows "acc_ok acc' \<and> (\<forall>v. short v \<longrightarrow> (acc_accepts acc' v \<longleftrightarrow> acc_accepts acc v \<or> baccepts h v))"
proof (cases h)
  case (MultiRange fs n)
  with assms(1) obtain gs where gs: "mapR (\<lambda>f. clone f None) fs = Inr gs" "acc' = (fst acc, snd acc @ gs)"
    by (auto simp: collectMerged_def result_simps)
  have "clone (MultiRange fs n) None = Inr (MultiRange gs n)" using gs(1) by simp
  from bclone_good [OF this] assms(3) MultiRange
  have w: "wf_bytes (MultiRange gs n)"
    and a: "\<forall>v. short v \<longrightarrow> baccepts (MultiRange gs n) v = baccepts (MultiRange fs n) v" by auto
  show ?thesis using assms(2) w a baccepts_multi [OF w]
    by (auto simp: gs(2) acc_ok_def acc_accepts_def MultiRange)
next
  case (BytesValues s)
  with assms show ?thesis
    by (auto simp: collectMerged_def acc_ok_def acc_accepts_def baccepts_wf wf_bvalues_def list_all_iff)
qed (use assms in \<open>auto simp: collectMerged_def acc_ok_def acc_accepts_def\<close>)

locale bytes_merge_sound =
  fixes mw :: merge_fun
  assumes sound: "wf_bytes f \<Longrightarrow> wf_bytes g \<Longrightarrow> mw f g = Inr h \<Longrightarrow> bmerge_good f g h"
begin

lemma swapped: "wf_bytes f \<Longrightarrow> wf_bytes g \<Longrightarrow> mw g f = Inr h \<Longrightarrow> bmerge_good f g h"
  using sound bmerge_good_sym by blast

lemma mergePairs_good:
  assumes "mergePairs mw ps acc = Inr acc'" "acc_ok acc"
    and "\<forall>(f, g) \<in> set ps. bytes_kind f \<and> wf_bytes f \<and> bytes_kind g \<and> wf_bytes g"
  shows "acc_ok acc' \<and> (\<forall>v. short v \<longrightarrow> (acc_accepts acc' v \<longleftrightarrow>
           acc_accepts acc v \<or> (\<exists>(f, g) \<in> set ps. baccepts f v \<and> baccepts g v)))"
  using assms
proof (induction ps arbitrary: acc)
  case Nil
  then show ?case by simp
next
  case (Cons p ps)
  obtain f g where p: "p = (f, g)" by (cases p)
  with Cons.prems(1) obtain h acc1 where h: "mw f g = Inr h" "collectMerged acc h = Inr acc1"
    "mergePairs mw ps acc1 = Inr acc'" by (auto simp: result_simps)
  have fg: "bytes_kind f" "wf_bytes f" "bytes_kind g" "wf_bytes g" using Cons.prems(3) p by auto
  have good: "bmerge_good f g h" using sound [OF fg(2,4) h(1)] .
  then have "acc_ok acc1 \<and> (\<forall>v. short v \<longrightarrow> (acc_accepts acc1 v \<longleftrightarrow> acc_accepts acc v \<or> baccepts h v))"
    using collectMerged_good [OF h(2) Cons.prems(2)] fg by (auto simp: bmerge_good_def)
  moreover from this have "acc_ok acc' \<and> (\<forall>v. short v \<longrightarrow> (acc_accepts acc' v \<longleftrightarrow>
      acc_accepts acc1 v \<or> (\<exists>(f, g) \<in> set ps. baccepts f v \<and> baccepts g v)))"
    using Cons.IH [OF h(3)] Cons.prems(3) by auto
  moreover have "short v \<Longrightarrow> baccepts h v \<longleftrightarrow> baccepts f v \<and> baccepts g v" for v
    using good by (simp add: bmerge_good_def)
  ultimately show ?case by (auto simp: p)
qed

lemma mergeAll_good:
  assumes "MultiRange_mergeAll mw fs gs n = Inr h"
    and "\<forall>f \<in> set fs. bytes_kind f \<and> wf_bytes f" "\<forall>g \<in> set gs. bytes_kind g \<and> wf_bytes g"
  shows "wf_bytes h \<and> testNull h = n \<and> (bytes_kind h \<or> h = AlwaysFalse \<or> h = IsNull) \<and>
    (\<forall>v. short v \<longrightarrow> (baccepts h v \<longleftrightarrow> (\<exists>f \<in> set fs. baccepts f v) \<and> (\<exists>g \<in> set gs. baccepts g v)))"
proof -
  obtain bvs ms0 where ps: "mergePairs mw (List.product fs gs) ([], []) = Inr (bvs, ms0)"
    using assms(1) by (auto simp: MultiRange_mergeAll_def result_simps)
  have pairs: "acc_ok (bvs, ms0) \<and> (\<forall>v. short v \<longrightarrow> (acc_accepts (bvs, ms0) v \<longleftrightarrow>
      acc_accepts ([], []) v \<or> (\<exists>(f, g) \<in> set (List.product fs gs). baccepts f v \<and> baccepts g v)))"
    by (rule mergePairs_good [OF ps]) (use assms(2,3) in \<open>auto simp: acc_ok_def\<close>)
  then have ok: "acc_ok (bvs, ms0)" and acc: "\<forall>v. short v \<longrightarrow> (acc_accepts (bvs, ms0) v \<longleftrightarrow>
      (\<exists>f \<in> set fs. baccepts f v) \<and> (\<exists>g \<in> set gs. baccepts g v))"
    by (auto simp: acc_accepts_def)
  obtain ms where ms: "(if bvs \<noteq> [] then bindR (BytesValues_new bvs n) (\<lambda>s. Inr (ms0 @ [BytesValues s])) else Inr ms0) = Inr ms"
    and h: "(case ms of [] \<Rightarrow> Inr (nullOrFalse n) | [f] \<Rightarrow> clone f (Some n) | _ \<Rightarrow> Inr (MultiRange ms n)) = Inr h"
    using assms(1) ps by (auto simp: MultiRange_mergeAll_def result_simps split: if_splits)
  have wf: "\<forall>f \<in> set ms. bytes_kind f \<and> wf_bytes f"
    and ms_acc: "\<And>v. (\<exists>f \<in> set ms. baccepts f v) \<longleftrightarrow> acc_accepts (bvs, ms0) v"
    using ms ok bvalues_new_wf [of bvs n]
    by (auto simp: acc_ok_def acc_accepts_def list_all_iff result_simps baccepts_wf split: if_splits)
  consider "ms = []" | f where "ms = [f]" | f g fs' where "ms = f # g # fs'" by (cases ms; cases "tl ms") auto
  then show ?thesis
  proof cases
    case 1
    with h acc ms_acc show ?thesis by (cases n) (auto simp: nullOrFalse_def)
  next
    case 2
    with h bclone_good [of f "Some n" h] wf acc ms_acc show ?thesis by auto
  next
    case 3
    then have hh: "h = MultiRange ms n" and w: "wf_bytes (MultiRange ms n)"
      using h wf by (auto simp: list_all_iff)
    show ?thesis using acc ms_acc baccepts_multi [OF w] w by (simp add: hh)
  qed
qed

lemma mergeAll_merge_good:
  assumes "MultiRange_mergeAll mw fs gs (testNull f \<and> testNull g) = Inr h"
    and "\<forall>f \<in> set fs. bytes_kind f \<and> wf_bytes f" "\<forall>g \<in> set gs. bytes_kind g \<and> wf_bytes g"
    and "\<And>v. baccepts f v \<longleftrightarrow> (\<exists>f \<in> set fs. baccepts f v)" "\<And>v. baccepts g v \<longleftrightarrow> (\<exists>g \<in> set gs. baccepts g v)"
  shows "bmerge_good f g h"
  using mergeAll_good [OF assms(1-3)] assms(4,5) by (simp add: bmerge_good_def)

lemma multi_sound:
  assumes f: "wf_bytes (MultiRange fs n)" and g: "wf_bytes g" and m: "MultiRange_mergeWith mw fs n g = Inr h"
  shows "bmerge_good (MultiRange fs n) g h"
proof -
  have fs: "\<forall>f \<in> set fs. bytes_kind f \<and> wf_bytes f" using f by (simp add: list_all_iff)
  note acc = baccepts_multi [OF f]
  note all = mergeAll_merge_good [where f = "MultiRange fs n" and g = g and fs = fs, OF _ fs]
  show ?thesis
  proof (cases g)
    case IsNotNull
    then have "clone (MultiRange fs n) (Some False) = Inr h" using m by (simp add: MultiRange_mergeWith_def)
    from bclone_good [OF this f] IsNotNull show ?thesis by (intro bmerge_goodI) auto
  next
    case (BytesRange r)
    with m all [of "[g]"] g acc show ?thesis by (simp add: MultiRange_mergeWith_def Let_def)
  next
    case (BytesValues s)
    with m all [of "[g]"] g acc show ?thesis by (simp add: MultiRange_mergeWith_def Let_def)
  next
    case (NegatedBytesValues s n')
    with m all [of "[g]"] g acc show ?thesis by (simp add: MultiRange_mergeWith_def Let_def)
  next
    case (MultiRange gs n')
    have gs: "\<forall>f \<in> set gs. bytes_kind f \<and> wf_bytes f" using g MultiRange by (simp add: list_all_iff)
    have w: "wf_bytes (MultiRange gs n')" using g MultiRange by simp
    show ?thesis
      by (rule all [of gs]) (use m MultiRange gs acc baccepts_multi [OF w] in \<open>auto simp: MultiRange_mergeWith_def\<close>)
  qed (use m f g swapped [of "MultiRange fs n" g h] in \<open>auto simp: MultiRange_mergeWith_def\<close>)
qed

lemma range_sound:
  assumes f: "wf_brange r" and g: "wf_bytes g" and m: "BytesRange_mergeWith mw r g = Inr h"
  shows "bmerge_good (BytesRange r) g h"
proof (cases g)
  case IsNotNull
  then have "clone (BytesRange r) (Some False) = Inr h" using m by (simp add: BytesRange_mergeWith_def)
  from bclone_good [OF this] f IsNotNull show ?thesis by (intro bmerge_goodI) auto
next
  case (BytesRange s)
  with m f g mergeBytesRanges_good [of r s h] show ?thesis by (simp add: BytesRange_mergeWith_def)
qed (use m f g swapped [of "BytesRange r" g h] in \<open>auto simp: BytesRange_mergeWith_def\<close>)

lemma via_multi_good:
  assumes f: "wf_brange r" and g: "wf_bytes g" "bytes_kind g" and m: "bindR (toMultiRange r n) (mw g) = Inr h"
  shows "bmerge_good (NegatedBytesRange r n) g h"
proof -
  obtain k where k: "toMultiRange r n = Inr k" "mw g k = Inr h" using m by (auto simp: result_simps)
  note t = toMultiRange_good [OF k(1) f]
  then have "bmerge_good g k h" using sound [OF g(1) _ k(2)] by blast
  with t g f show ?thesis by (auto simp: bmerge_good_def baccepts_wf)
qed

lemma negated_range_sound:
  assumes f: "wf_brange r" and g: "wf_bytes g" and m: "NegatedBytesRange_mergeWith mw r n g = Inr h"
  shows "bmerge_good (NegatedBytesRange r n) g h"
proof (cases g)
  case IsNotNull
  then have "clone (NegatedBytesRange r n) (Some False) = Inr h" using m by (simp add: NegatedBytesRange_mergeWith_def)
  from bclone_good [OF this] f IsNotNull show ?thesis by (intro bmerge_goodI) auto
qed (use m f g swapped [of "NegatedBytesRange r n" g h] via_multi_good [OF f g, of n h] in
     \<open>auto simp: NegatedBytesRange_mergeWith_def\<close>)

lemma values_sound:
  assumes f: "wf_bvalues s" and g: "wf_bytes g" and m: "BytesValues_mergeWith mw s g = Inr h"
  shows "bmerge_good (BytesValues s) g h"
proof (cases g)
  case IsNotNull
  then have "clone (BytesValues s) (Some False) = Inr h" using m by (simp add: BytesValues_mergeWith_def)
  from bclone_good [OF this] f IsNotNull show ?thesis by (intro bmerge_goodI) auto
next
  case (BytesValues t)
  with f g m values_values_good show ?thesis by simp
next
  case (BytesRange r)
  with f g m values_range_good show ?thesis by simp
qed (use m f g swapped [of "BytesValues s" g h] values_filter_good [OF f g, of h] in
     \<open>auto simp: BytesValues_mergeWith_def Let_def\<close>)

lemma negated_values_sound:
  assumes f: "wf_bvalues s" and g: "wf_bytes g" and m: "NegatedBytesValues_mergeWith mw s n g = Inr h"
  shows "bmerge_good (NegatedBytesValues s n) g h"
proof (cases g)
  case IsNotNull
  then have "clone (NegatedBytesValues s n) (Some False) = Inr h" using m by (simp add: NegatedBytesValues_mergeWith_def)
  from bclone_good [OF this] f IsNotNull show ?thesis by (intro bmerge_goodI) auto
next
  case (BytesRange r)
  have "\<forall>v \<in> set (bv_set s). short v" using f by (simp add: wf_bvalues_def list_all_iff)
  with rejectFromBytesRange_good [of "bv_set s" r "n \<and> by_nullAllowed r" h] BytesRange m g f show ?thesis
    by (intro bmerge_goodI) (auto simp: NegatedBytesValues_mergeWith_def baccepts_wf)
next
  case (NegatedBytesValues t n')
  show ?thesis
  proof (cases "length (bv_set s) < length (bv_set t)")
    case True
    with NegatedBytesValues m f g swapped [of "NegatedBytesValues s n" g h] show ?thesis
      by (simp add: NegatedBytesValues_mergeWith_def)
  next
    case False
    let ?vs = "bv_set s @ filter (\<lambda>v. \<not> BytesValues_testBytes s v) (bv_set t)"
    obtain u where u: "BytesValues_new ?vs (\<not> (n \<and> n')) = Inr u" "h = NegatedBytesValues u (n \<and> n')"
      using False NegatedBytesValues m
      by (auto simp: NegatedBytesValues_mergeWith_def NegatedBytesValues_new_def result_simps)
    have "\<forall>v \<in> set ?vs. short v"
      using f g NegatedBytesValues by (auto simp: wf_bvalues_def list_all_iff)
    from bvalues_new_wf [OF u(1) this] f g NegatedBytesValues u(2) show ?thesis
      by (intro bmerge_goodI) (auto simp: baccepts_wf bvalues_test)
  qed
qed (use m f g swapped [of "NegatedBytesValues s n" g h] in
     \<open>auto simp: NegatedBytesValues_mergeWith_def Let_def\<close>)

lemma dispatch_sound:
  assumes f: "wf_bytes f" and g: "wf_bytes g" and m: "mergeWith_dispatch mw f g = Inr h"
  shows "bmerge_good f g h"
proof (cases f)
  case AlwaysTrue
  with m bclone_good [OF _ g] show ?thesis by (auto simp: mergeWith_dispatch_def bmerge_good_def)
next
  case AlwaysFalse
  with m show ?thesis by (auto simp: mergeWith_dispatch_def bmerge_good_def)
next
  case IsNull
  with m show ?thesis
    by (auto simp: mergeWith_dispatch_def IsNull_mergeWith_def bmerge_good_def split: if_splits)
next
  case IsNotNull
  with m g swapped [of IsNotNull g h] show ?thesis
    by (cases g) (auto simp: mergeWith_dispatch_def IsNotNull_mergeWith_def bmerge_good_def)
qed (use f g m multi_sound range_sound negated_range_sound values_sound negated_values_sound
     in \<open>simp_all add: mergeWith_dispatch_def\<close>)

end

section \<open>The recursion\<close>

lemma bytes_fuel_sound: "bytes_merge_sound (mergeWith_fuel k)"
proof (induction k)
  case 0
  show ?case by unfold_locales simp
next
  case (Suc k)
  then show ?case by (auto simp: bytes_merge_sound_def intro: bytes_merge_sound.dispatch_sound [OF Suc])
qed

interpretation bytes_merge: bytes_merge_sound mergeWith
  unfolding mergeWith_def
  using bytes_fuel_sound by (auto simp: bytes_merge_sound_def)

end
