(* ===== verification/Filter_Bytes_Total.thy ===== *)
theory Filter_Bytes_Total
  imports Filter_Bytes_Merge
begin

text \<open>
  Merging filters on byte strings returns: the nesting of disjunctions bounds the depth of the calls.
\<close>

lemma bclone_total: "wf_bytes f \<Longrightarrow> defined (clone f na)"
proof (induction f arbitrary: na)
  case (NegatedBytesValues s n)
  then have "bv_set s \<noteq> []" by (simp add: wf_bvalues_def)
  with bvalues_new_total [of "bv_set s" "bv_nullAllowed s"] show ?case by auto
next
  case (MultiRange fs n)
  then have "\<exists>gs. mapR (\<lambda>f. clone f None) fs = Inr gs"
    by (intro mapR_total) (auto simp: list_all_iff defined_def)
  then show ?case by auto
qed auto

lemma collectMerged_total: "wf_bytes h \<Longrightarrow> defined (collectMerged acc h)"
proof (cases h)
  case (MultiRange fs n)
  moreover assume "wf_bytes h"
  ultimately have "\<exists>gs. mapR (\<lambda>f. clone f None) fs = Inr gs"
    by (intro mapR_total) (use bclone_total in \<open>auto simp: list_all_iff defined_def\<close>)
  with MultiRange show ?thesis by (auto simp: collectMerged_def)
qed (auto simp: collectMerged_def)

context bytes_merge_sound
begin

lemma mergePairs_total:
  assumes "acc_ok acc"
    and "\<forall>(f, g) \<in> set ps. bytes_kind f \<and> wf_bytes f \<and> bytes_kind g \<and> wf_bytes g \<and> defined (mw f g)"
  shows "defined (mergePairs mw ps acc)"
  using assms
proof (induction ps arbitrary: acc)
  case (Cons p ps)
  obtain f g where p: "p = (f, g)" by (cases p)
  with Cons.prems(2) obtain h where h: "mw f g = Inr h" by (auto simp: defined_def)
  have fg: "bytes_kind f" "wf_bytes f" "bytes_kind g" "wf_bytes g" using Cons.prems(2) p by auto
  have good: "wf_bytes h" "bytes_kind h \<or> h = AlwaysFalse \<or> h = IsNull"
    using sound [OF fg(2,4) h] fg by (auto simp: bmerge_good_def)
  obtain acc1 where acc1: "collectMerged acc h = Inr acc1"
    using collectMerged_total [OF good(1), of acc] unfolding defined_def by blast
  have "acc_ok acc1" using collectMerged_good [OF acc1 Cons.prems(1) good] by blast
  with Cons.IH [of acc1] Cons.prems(2) h acc1 show ?case by (simp add: p)
qed simp

lemma mergeAll_total:
  assumes "\<forall>f \<in> set fs. bytes_kind f \<and> wf_bytes f" "\<forall>g \<in> set gs. bytes_kind g \<and> wf_bytes g"
    and "\<forall>f \<in> set fs. \<forall>g \<in> set gs. defined (mw f g)"
  shows "defined (MultiRange_mergeAll mw fs gs n)"
proof -
  have ok: "acc_ok ([], [])" by (simp add: acc_ok_def)
  obtain bvs ms0 where ps: "mergePairs mw (List.product fs gs) ([], []) = Inr (bvs, ms0)"
    using mergePairs_total [OF ok, of "List.product fs gs"] assms by (fastforce simp: defined_def)
  have "acc_ok (bvs, ms0)" using mergePairs_good [OF ps ok] assms(1,2) by auto
  then have sh: "\<forall>v \<in> set bvs. short v" and ms0: "\<forall>f \<in> set ms0. bytes_kind f \<and> wf_bytes f"
    by (auto simp: acc_ok_def list_all_iff)
  obtain ms where ms: "(if bvs \<noteq> [] then bindR (BytesValues_new bvs n) (\<lambda>s. Inr (ms0 @ [BytesValues s])) else Inr ms0) = Inr ms"
    and wf: "\<forall>f \<in> set ms. wf_bytes f"
    using bvalues_new_total [of bvs n] bvalues_new_wf [OF _ sh, of n] ms0 by (cases "bvs = []") auto
  have "defined (case ms of [] \<Rightarrow> Inr (nullOrFalse n) | [f] \<Rightarrow> clone f (Some n) | _ \<Rightarrow> Inr (MultiRange ms n))"
    using wf bclone_total by (auto split: list.split)
  with ps ms show ?thesis by (simp add: MultiRange_mergeAll_def)
qed

end

text \<open>Ranges and lists of values, and the value-independent filters.\<close>

definition simple :: "filter \<Rightarrow> bool" where
  "simple f \<longleftrightarrow> wf_bytes f \<and>
     (case f of MultiRange _ _ \<Rightarrow> False | NegatedBytesRange _ _ \<Rightarrow> False | _ \<Rightarrow> True)"

definition bdirect :: "filter \<Rightarrow> filter \<Rightarrow> bool" where
  "bdirect f g \<longleftrightarrow>
     (case f of
        AlwaysFalse \<Rightarrow> True
      | AlwaysTrue \<Rightarrow> True
      | IsNull \<Rightarrow> True
      | IsNotNull \<Rightarrow> generic_kind g
      | BytesRange _ \<Rightarrow> (case g of IsNotNull \<Rightarrow> True | BytesRange _ \<Rightarrow> True | _ \<Rightarrow> False)
      | NegatedBytesRange _ _ \<Rightarrow> g = IsNotNull
      | BytesValues _ \<Rightarrow>
          (case g of IsNotNull \<Rightarrow> True | BytesRange _ \<Rightarrow> True | BytesValues _ \<Rightarrow> True
           | NegatedBytesValues _ _ \<Rightarrow> True | NegatedBytesRange _ _ \<Rightarrow> True | _ \<Rightarrow> False)
      | NegatedBytesValues s _ \<Rightarrow>
          (case g of IsNotNull \<Rightarrow> True | BytesRange _ \<Rightarrow> True
           | NegatedBytesValues t _ \<Rightarrow> length (bv_set s) \<ge> length (bv_set t) | _ \<Rightarrow> False)
      | MultiRange _ _ \<Rightarrow> g = IsNotNull
      | _ \<Rightarrow> False)"

lemma keep_total: "defined (keepBytesValues vs n)"
  using bvalues_new_total [of vs n] by (auto simp: keepBytesValues_def)

lemma filterR_testBytes: "wf_bytes g \<Longrightarrow> filterR (testBytes g) xs = Inr (filter (baccepts g) xs)"
  by (rule filterR_Inr) (rule wf_testBytes)

lemma gapBytesRanges_total:
  "defined (gapBytesRanges bk vs r hi)"
proof (induction vs arbitrary: bk)
  case (Cons front vs)
  from Cons.IH [of front] show ?case by (auto simp: defined_def [of "gapBytesRanges front vs r hi"] BytesRange_new_def)
qed (simp add: BytesRange_new_def)

lemma defined_bindI: "defined x \<Longrightarrow> (\<And>y. x = Inr y \<Longrightarrow> defined (f y)) \<Longrightarrow> defined (bindR x f)"
  by (auto simp: defined_def)

lemma rejectFromBytesRange_total:
  assumes "wf_brange r"
  shows "defined (rejectFromBytesRange vs r n)"
proof -
  have nu: "\<not> (by_lowerUnbounded r \<and> by_upperUnbounded r)" using assms by (simp add: wf_brange_def)
  have new: "defined (BytesRange_new l lu le u uu ue b)" if "\<not> (lu \<and> uu)" for l lu le u uu ue b
    using that by (auto simp: BytesRange_new_def)
  have "defined (case ws of
      [] \<Rightarrow> bindR (BytesRange_new (by_lower r) (by_lowerUnbounded r) lo (by_upper r) (by_upperUnbounded r) hi n)
              (\<lambda>b. Inr (BytesRange b))
    | bk # ws \<Rightarrow> bindR (BytesRange_new (by_lower r) (by_lowerUnbounded r) lo bk False True False) (\<lambda>b.
              bindR (gapBytesRanges bk ws r hi) (\<lambda>bs. Inr (MultiRange (BytesRange b # bs) n))))" for ws lo hi
    using nu by (cases ws) (auto intro!: defined_bindI new gapBytesRanges_total)
  then show ?thesis by (simp only: rejectFromBytesRange_def Let_def)
qed

lemma mergeBytesRanges_total:
  assumes "wf_brange r" "wf_brange s"
  shows "defined (mergeBytesRanges r s n)"
proof -
  obtain lu le l where lo: "mergeLower r s = (lu, le, l)" by (cases "mergeLower r s")
  obtain uu ue u where hi: "mergeUpper r s = (uu, ue, u)" by (cases "mergeUpper r s")
  from merge_bounds_short [OF assms lo hi] show ?thesis
    by (auto simp: mergeBytesRanges_def lo hi BytesRange_new_def)
qed
lemma bdirect_defined:
  assumes "wf_bytes f" "wf_bytes g" "bdirect f g"
  shows "defined (mergeWith_dispatch mw f g)"
proof (cases f)
  case AlwaysTrue
  with assms(2) bclone_total show ?thesis by (simp add: mergeWith_dispatch_def)
next
  case IsNotNull
  with assms show ?thesis
    by (cases g) (auto simp: mergeWith_dispatch_def IsNotNull_mergeWith_def bdirect_def)
next
  case (BytesRange r)
  with assms mergeBytesRanges_total show ?thesis
    by (cases g) (auto simp: mergeWith_dispatch_def BytesRange_mergeWith_def bdirect_def)
next
  case (NegatedBytesRange r n)
  with assms show ?thesis by (auto simp: mergeWith_dispatch_def NegatedBytesRange_mergeWith_def bdirect_def)
next
  case (BytesValues s)
  with assms keep_total show ?thesis
    by (cases g) (auto simp: mergeWith_dispatch_def BytesValues_mergeWith_def bdirect_def Let_def
        filterR_testBytes)
next
  case (NegatedBytesValues s n)
  have "defined (NegatedBytesValues_new (bv_set s @ xs) b)" for xs b
    using assms(1) NegatedBytesValues bvalues_new_total [of "bv_set s @ xs" "\<not> b"]
    by (auto simp: NegatedBytesValues_new_def wf_bvalues_def)
  with NegatedBytesValues assms rejectFromBytesRange_total bclone_total [OF assms(1)] show ?thesis
    by (cases g) (auto simp: mergeWith_dispatch_def NegatedBytesValues_mergeWith_def bdirect_def Let_def
        simp del: clone.simps)
next
  case (MultiRange fs n)
  with assms bclone_total [OF assms(1)] show ?thesis
    by (auto simp: mergeWith_dispatch_def MultiRange_mergeWith_def bdirect_def simp del: clone.simps)
qed (use assms in \<open>auto simp: mergeWith_dispatch_def IsNull_mergeWith_def bdirect_def\<close>)

lemma simple_swap:
  assumes "simple f" "simple g" "\<not> bdirect f g"
  shows "mergeWith_dispatch mw f g = mw g f \<and> bdirect g f"
  using assms
  by (cases f; cases g)
    (auto simp: simple_def bdirect_def mergeWith_dispatch_def IsNotNull_mergeWith_def BytesRange_mergeWith_def
      BytesValues_mergeWith_def NegatedBytesValues_mergeWith_def Let_def)

text \<open>\<open>within k f g\<close>: the calls that \<^verbatim>\<open>f->mergeWith(g)\<close> makes are at most \<open>k\<close> deep.\<close>

definition within :: "nat \<Rightarrow> filter \<Rightarrow> filter \<Rightarrow> bool" where
  "within k f g \<longleftrightarrow> (\<forall>j \<ge> k. defined (mergeWith_fuel j f g))"

lemma within_mono: "within k f g \<Longrightarrow> k \<le> l \<Longrightarrow> within l f g"
  by (auto simp: within_def)

lemma withinI:
  assumes "\<And>j. j \<ge> k \<Longrightarrow> defined (mergeWith_dispatch (mergeWith_fuel j) f g)"
  shows "within (Suc k) f g"
  unfolding within_def
proof (intro allI impI)
  fix j assume "Suc k \<le> j"
  then obtain i where "j = Suc i" "k \<le> i" by (cases j) auto
  with assms show "defined (mergeWith_fuel j f g)" by simp
qed

lemma within_direct: "wf_bytes f \<Longrightarrow> wf_bytes g \<Longrightarrow> bdirect f g \<Longrightarrow> within 1 f g"
  using withinI [of 0 f g] bdirect_defined by simp

lemma within_swap:
  "(\<And>mw. mergeWith_dispatch mw f g = mw g f) \<Longrightarrow> within k g f \<Longrightarrow> within (Suc k) f g"
  by (rule withinI) (simp add: within_def)

lemma simple_within: "simple f \<Longrightarrow> simple g \<Longrightarrow> within 2 f g"
proof (cases "bdirect f g")
  case True
  moreover assume "simple f" "simple g"
  ultimately show ?thesis using within_mono [OF within_direct, of f g 2] by (simp add: simple_def)
next
  case False
  assume s: "simple f" "simple g"
  have "within 1 g f" using simple_swap [OF s False] s by (intro within_direct) (auto simp: simple_def)
  with within_swap [of f g 1] simple_swap [OF s False] show ?thesis by (simp add: numeral_2_eq_2)
qed

lemma multi_within:
  assumes "wf_bytes (MultiRange fs n)" "wf_bytes g"
    and "\<forall>f \<in> set fs. within k f g"
    and "(\<exists>r. g = BytesRange r) \<or> (\<exists>s. g = BytesValues s) \<or> (\<exists>s n. g = NegatedBytesValues s n)"
  shows "within (Suc k) (MultiRange fs n) g"
proof (rule withinI)
  fix j assume "k \<le> j"
  with assms(3) have "\<forall>f \<in> set fs. \<forall>g' \<in> set [g]. defined (mergeWith_fuel j f g')" by (simp add: within_def)
  then have "defined (MultiRange_mergeAll (mergeWith_fuel j) fs [g] (n \<and> testNull g))"
    by (intro bytes_merge_sound.mergeAll_total [OF bytes_fuel_sound])
      (use assms in \<open>auto simp: list_all_iff\<close>)
  with assms(4) show "defined (mergeWith_dispatch (mergeWith_fuel j) (MultiRange fs n) g)"
    by (auto simp: mergeWith_dispatch_def MultiRange_mergeWith_def Let_def)
qed

lemma multi_multi_within:
  assumes "wf_bytes (MultiRange fs n)" "wf_bytes (MultiRange gs m)"
    and "\<forall>f \<in> set fs. \<forall>g \<in> set gs. within k f g"
  shows "within (Suc k) (MultiRange fs n) (MultiRange gs m)"
proof (rule withinI)
  fix j assume "k \<le> j"
  with assms(3) have "\<forall>f \<in> set fs. \<forall>g \<in> set gs. defined (mergeWith_fuel j f g)" by (simp add: within_def)
  then have "defined (MultiRange_mergeAll (mergeWith_fuel j) fs gs b)" for b
    by (intro bytes_merge_sound.mergeAll_total [OF bytes_fuel_sound])
      (use assms in \<open>auto simp: list_all_iff\<close>)
  then show "defined (mergeWith_dispatch (mergeWith_fuel j) (MultiRange fs n) (MultiRange gs m))"
    by (auto simp: mergeWith_dispatch_def MultiRange_mergeWith_def Let_def)
qed

text \<open>Merging a filter with the complement of a range, as \<open>toMultiRange\<close> gives it.\<close>

lemma toMultiRange_cases:
  assumes "toMultiRange r n = Inr h" "wf_brange r"
  obtains b where "h = BytesRange b" "wf_brange b"
    | b c where "h = MultiRange [BytesRange b, BytesRange c] n" "wf_brange b" "wf_brange c"
proof -
  have wf: "wf_bytes h" using toMultiRange_good [OF assms] by blast
  have "(\<exists>b. h = BytesRange b) \<or> (\<exists>b c. h = MultiRange [BytesRange b, BytesRange c] n)"
    using assms by (auto simp: toMultiRange_def result_simps wf_brange_def split: if_splits)
  with wf that show ?thesis by auto
qed

lemma complement_within:
  assumes "wf_bytes g" "bytes_kind g"
    and "\<And>b. wf_brange b \<Longrightarrow> within k g (BytesRange b)"
    and "\<And>b c. wf_brange b \<Longrightarrow> wf_brange c \<Longrightarrow> within k g (MultiRange [BytesRange b, BytesRange c] n)"
    and "wf_brange r" "\<not> (\<exists>s. g = BytesValues s)"
  shows "within (Suc k) (NegatedBytesRange r n) g"
proof (rule withinI)
  fix j assume j: "k \<le> j"
  obtain h where h: "toMultiRange r n = Inr h" using toMultiRange_total [OF assms(5)] by blast
  have "within k g h" using toMultiRange_cases [OF h assms(5)] assms(3,4) by metis
  with j have "defined (mergeWith_fuel j g h)" by (simp add: within_def)
  with h assms(2,6) show "defined (mergeWith_dispatch (mergeWith_fuel j) (NegatedBytesRange r n) g)"
    by (cases g) (auto simp: mergeWith_dispatch_def NegatedBytesRange_mergeWith_def)
qed

section \<open>The bound\<close>

lemma inner_depth: "f \<in> set fs \<Longrightarrow> multi_depth f < multi_depth (MultiRange fs n)"
proof -
  have "f \<in> set fs \<Longrightarrow> multi_depth f \<le> foldr max (map multi_depth fs) 0" by (induction fs) auto
  then show "f \<in> set fs \<Longrightarrow> ?thesis" by simp
qed

lemma range_range_within: "wf_brange r \<Longrightarrow> wf_brange s \<Longrightarrow> within 1 (BytesRange r) (BytesRange s)"
  by (rule within_direct) (simp_all add: bdirect_def)

lemma pair_within:
  assumes "wf_brange b" "wf_brange c" "wf_bytes g" "\<And>b. wf_brange b \<Longrightarrow> within k (BytesRange b) g"
    and "(\<exists>r. g = BytesRange r) \<or> (\<exists>s. g = BytesValues s) \<or> (\<exists>s n. g = NegatedBytesValues s n)"
  shows "within (Suc k) (MultiRange [BytesRange b, BytesRange c] n) g"
  by (rule multi_within) (use assms in auto)

lemma swap_to_multi:
  "bytes_kind f \<Longrightarrow> \<not> (\<exists>r n. f = NegatedBytesRange r n) \<Longrightarrow> \<not> (\<exists>fs n. f = MultiRange fs n) \<Longrightarrow>
   mergeWith_dispatch mw f (MultiRange gs n) = mw (MultiRange gs n) f"
  by (cases f) (auto simp: mergeWith_dispatch_def BytesRange_mergeWith_def BytesValues_mergeWith_def
      NegatedBytesValues_mergeWith_def)

lemma swap_to_negated_range:
  "bytes_kind f \<Longrightarrow> \<not> (\<exists>s. f = BytesValues s) \<Longrightarrow> \<not> (\<exists>r n. f = NegatedBytesRange r n) \<Longrightarrow>
   mergeWith_dispatch mw f (NegatedBytesRange r n) = mw (NegatedBytesRange r n) f"
  by (cases f) (auto simp: mergeWith_dispatch_def BytesRange_mergeWith_def MultiRange_mergeWith_def
      NegatedBytesValues_mergeWith_def)

lemma generic_within:
  assumes "wf_bytes f" "wf_bytes g" "generic_kind f \<or> generic_kind g"
  shows "within 2 f g"
proof (cases "bdirect f g")
  case True
  with within_mono [OF within_direct] assms show ?thesis by simp
next
  case False
  with assms have "mergeWith_dispatch mw f g = mw g f \<and> bdirect g f" for mw
    by (cases f; cases g) (auto simp: bdirect_def mergeWith_dispatch_def IsNotNull_mergeWith_def
        BytesRange_mergeWith_def BytesValues_mergeWith_def NegatedBytesValues_mergeWith_def
        NegatedBytesRange_mergeWith_def MultiRange_mergeWith_def)
  with within_swap [of f g 1] within_direct [of g f] assms show ?thesis by (simp add: numeral_2_eq_2)
qed

lemma negated_range_simple_within:
  assumes "wf_brange r" "simple g" "bytes_kind g"
  shows "within 5 (NegatedBytesRange r n) g"
proof (cases "\<exists>s. g = BytesValues s")
  case True
  then obtain s where s: "g = BytesValues s" by blast
  have "within 1 g (NegatedBytesRange r n)"
    using assms s by (intro within_direct) (auto simp: simple_def bdirect_def)
  with within_swap [of "NegatedBytesRange r n" g 1] s have "within 2 (NegatedBytesRange r n) g"
    by (auto simp: mergeWith_dispatch_def NegatedBytesRange_mergeWith_def numeral_2_eq_2)
  then show ?thesis by (rule within_mono) simp
next
  case False
  have g: "wf_bytes g" using assms(2) by (simp add: simple_def)
  have br: "simple (BytesRange b)" if "wf_brange b" for b using that by (simp add: simple_def)
  have "within (Suc 4) (NegatedBytesRange r n) g"
  proof (rule complement_within [OF g assms(3) _ _ assms(1) False])
    fix b assume "wf_brange b"
    then show "within 4 g (BytesRange b)" using within_mono [OF simple_within [OF assms(2) br]] by simp
  next
    fix b c assume bc: "wf_brange b" "wf_brange c"
    have "within (Suc 2) (MultiRange [BytesRange b, BytesRange c] n) g"
      by (rule pair_within [OF bc g]) (use simple_within [OF br assms(2)] assms(2,3) False in \<open>auto simp: simple_def split: filter.splits\<close>)
    moreover have "mergeWith_dispatch mw g (MultiRange [BytesRange b, BytesRange c] n) =
        mw (MultiRange [BytesRange b, BytesRange c] n) g" for mw
      by (rule swap_to_multi [OF assms(3)]) (use assms(2) in \<open>auto simp: simple_def\<close>)
    ultimately have "within (Suc (Suc 2)) g (MultiRange [BytesRange b, BytesRange c] n)"
      using within_swap by blast
    then show "within 4 g (MultiRange [BytesRange b, BytesRange c] n)" by simp
  qed
  then show ?thesis by simp
qed

lemma negated_range_multi_within:
  assumes "wf_brange r" "wf_bytes (MultiRange fs m)"
    and "\<And>f b. f \<in> set fs \<Longrightarrow> wf_brange b \<Longrightarrow> within k f (BytesRange b)"
  shows "within (Suc (Suc k)) (NegatedBytesRange r n) (MultiRange fs m)"
proof (rule complement_within [OF assms(2) _ _ _ assms(1)])
  fix b assume "wf_brange b"
  then show "within (Suc k) (MultiRange fs m) (BytesRange b)"
    by (intro multi_within [OF assms(2)]) (use assms(3) in auto)
next
  fix b c assume "wf_brange b" "wf_brange c"
  then show "within (Suc k) (MultiRange fs m) (MultiRange [BytesRange b, BytesRange c] n)"
    by (intro multi_multi_within [OF assms(2)]) (use assms(3) in auto)
qed auto

lemma negated_negated_within:
  assumes "wf_brange r" "wf_brange s"
  shows "within 6 (NegatedBytesRange r n) (NegatedBytesRange s m)"
proof -
  have "within (Suc 5) (NegatedBytesRange r n) (NegatedBytesRange s m)"
  proof (rule complement_within [OF _ _ _ _ assms(1)])
    fix b assume "wf_brange b"
    then show "within 5 (NegatedBytesRange s m) (BytesRange b)"
      by (intro negated_range_simple_within [OF assms(2)]) (simp_all add: simple_def)
  next
    fix b c assume bc: "wf_brange b" "wf_brange c"
    have "within (Suc (Suc 1)) (NegatedBytesRange s m) (MultiRange [BytesRange b, BytesRange c] n)"
      by (rule negated_range_multi_within [OF assms(2)]) (use bc range_range_within in auto)
    then show "within 5 (NegatedBytesRange s m) (MultiRange [BytesRange b, BytesRange c] n)"
      by (rule within_mono) simp
  qed (use assms(2) in auto)
  then show ?thesis by simp
qed

lemma flat_within:
  assumes "wf_bytes f" "wf_bytes g" "multi_depth f = 0" "multi_depth g = 0"
  shows "within 6 f g"
proof (cases "generic_kind f \<or> generic_kind g")
  case True
  with generic_within [OF assms(1,2)] within_mono show ?thesis by fastforce
next
  case False
  then have k: "bytes_kind f" "bytes_kind g" using assms(1,2) by (cases f; cases g; simp)+
  show ?thesis
  proof (cases "simple f \<and> simple g")
    case True
    with simple_within within_mono show ?thesis by fastforce
  next
    case ns: False
    consider r n where "f = NegatedBytesRange r n" "simple g" | s m where "g = NegatedBytesRange s m" "simple f"
      | r n s m where "f = NegatedBytesRange r n" "g = NegatedBytesRange s m"
      using ns assms by (cases f; cases g) (auto simp: simple_def)
    then show ?thesis
    proof cases
      case 1
      with negated_range_simple_within [of r g n] k assms show ?thesis by (auto intro: within_mono)
    next
      case (2 s m)
      have five: "within 5 g f" using negated_range_simple_within [of s f m] 2 k assms by auto
      show ?thesis
      proof (cases "\<exists>t. f = BytesValues t")
        case True
        then have "within 1 f g" using assms(1,2) 2 by (intro within_direct) (auto simp: bdirect_def)
        then show ?thesis by (rule within_mono) simp
      next
        case False
        have "within (Suc 5) f g"
          by (rule within_swap [OF _ five]) (use False 2 k in \<open>auto simp: simple_def intro!: swap_to_negated_range\<close>)
        then show ?thesis by simp
      qed
    next
      case 3
      with negated_negated_within assms show ?thesis by auto
    qed
  qed
qed

lemma multi_left_within:
  assumes f: "wf_bytes (MultiRange fs n)" and g: "wf_bytes g" "bytes_kind g"
    and IH: "\<And>e h. e \<in> set fs \<Longrightarrow> wf_bytes e \<Longrightarrow> wf_bytes h \<Longrightarrow> multi_depth h \<le> multi_depth g \<Longrightarrow>
               within (6 + 4 * (multi_depth e + multi_depth h)) e h"
  shows "within (5 + 4 * (multi_depth (MultiRange fs n) + multi_depth g)) (MultiRange fs n) g"
proof -
  let ?D = "multi_depth (MultiRange fs n)"
  have fs: "\<forall>e \<in> set fs. wf_bytes e" using f by (simp add: list_all_iff)
  have one: "within (2 + 4 * (?D + multi_depth h)) e h"
    if "e \<in> set fs" "wf_bytes h" "multi_depth h \<le> multi_depth g" for e h
    by (rule within_mono [OF IH]) (use that fs inner_depth [OF that(1), of n] in auto)
  show ?thesis
  proof (cases g)
    case (MultiRange gs m)
    have "within (Suc (2 + 4 * (?D + multi_depth g))) (MultiRange fs n) (MultiRange gs m)"
    proof (rule multi_multi_within [OF f])
      show "wf_bytes (MultiRange gs m)" using g MultiRange by simp
      show "\<forall>f \<in> set fs. \<forall>g' \<in> set gs. within (2 + 4 * (?D + multi_depth g)) f g'"
      proof (intro ballI)
        fix e h assume "e \<in> set fs" "h \<in> set gs"
        moreover have "wf_bytes h" using g MultiRange \<open>h \<in> set gs\<close> by (simp add: list_all_iff)
        moreover have "multi_depth h \<le> multi_depth g" using inner_depth [OF \<open>h \<in> set gs\<close>, of m] MultiRange by simp
        ultimately show "within (2 + 4 * (?D + multi_depth g)) e h"
          by (intro within_mono [OF one]) auto
      qed
    qed
    then show ?thesis unfolding MultiRange by (rule within_mono) simp
  next
    case (NegatedBytesRange r m)
    have "within (Suc (Suc (2 + 4 * ?D))) (NegatedBytesRange r m) (MultiRange fs n)"
    proof (rule negated_range_multi_within [OF _ f])
      show "wf_brange r" using g NegatedBytesRange by simp
      fix e b assume "e \<in> set fs" "wf_brange b"
      then show "within (2 + 4 * ?D) e (BytesRange b)" using one [of e "BytesRange b"] by simp
    qed
    then have "within (Suc (Suc (Suc (2 + 4 * ?D)))) (MultiRange fs n) g"
      unfolding NegatedBytesRange by (rule within_swap [rotated]) (rule swap_to_negated_range, auto)
    then show ?thesis by (rule within_mono) (simp add: NegatedBytesRange)
  qed (use g f one [of _ g] within_mono [OF multi_within [OF f g(1)], of "2 + 4 * (?D + multi_depth g)"] in auto)
qed

lemma bytes_within:
  assumes "wf_bytes f" "wf_bytes g"
  shows "within (6 + 4 * (multi_depth f + multi_depth g)) f g"
  using assms
proof (induction "multi_depth f + multi_depth g" arbitrary: f g rule: less_induct)
  case (less f g)
  note step = less.hyps
  show ?case
  proof (cases "generic_kind f \<or> generic_kind g")
    case True
    with generic_within [OF less.prems] within_mono show ?thesis by fastforce
  next
    case ng: False
    then have k: "bytes_kind f" "bytes_kind g" using less.prems by (cases f; cases g; simp)+
    have left: "within (5 + 4 * (multi_depth (MultiRange fs n) + multi_depth h)) (MultiRange fs n) h"
      if "wf_bytes (MultiRange fs n)" "wf_bytes h" "bytes_kind h"
        "multi_depth (MultiRange fs n) + multi_depth h = multi_depth f + multi_depth g" for fs n h
    proof (rule multi_left_within [OF that(1-3)])
      fix e h' assume e: "e \<in> set fs" "wf_bytes e" "wf_bytes h'" "multi_depth h' \<le> multi_depth h"
      have "multi_depth e + multi_depth h' < multi_depth f + multi_depth g"
        using inner_depth [OF e(1), of n] e(4) that(4) by linarith
      then show "within (6 + 4 * (multi_depth e + multi_depth h')) e h'" using step e by blast
    qed
    consider (flat) "multi_depth f = 0" "multi_depth g = 0" | (l) fs n where "f = MultiRange fs n"
      | (r) gs m where "g = MultiRange gs m" "\<not> (\<exists>fs n. f = MultiRange fs n)"
      using k by (cases f; cases g) auto
    then show ?thesis
    proof cases
      case flat
      with flat_within less.prems show ?thesis by simp
    next
      case l
      with left [of fs n g] less.prems k show ?thesis by (auto intro: within_mono)
    next
      case (r gs m)
      show ?thesis
      proof (cases "\<exists>s q. f = NegatedBytesRange s q")
        case True
        then obtain s q where f: "f = NegatedBytesRange s q" by blast
        have "within (Suc (Suc (2 + 4 * multi_depth g))) f g"
          unfolding f r(1)
        proof (rule negated_range_multi_within)
          show "wf_brange s" "wf_bytes (MultiRange gs m)" using less.prems f r by auto
          fix e b assume e: "e \<in> set gs" "wf_brange b"
          have "wf_bytes e" using less.prems r e(1) by (simp add: list_all_iff)
          then have "within (6 + 4 * multi_depth e) e (BytesRange b)"
            using step [of e "BytesRange b"] inner_depth [OF e(1), of m] e(2) r f by simp
          then show "within (2 + 4 * multi_depth (MultiRange gs m)) e (BytesRange b)"
            by (rule within_mono) (use inner_depth [OF e(1), of m] in simp)
        qed
        then show ?thesis by (rule within_mono) simp
      next
        case False
        have "within (5 + 4 * (multi_depth g + multi_depth f)) g f"
          using left [of gs m f] less.prems k r by (simp add: add.commute)
        then have "within (Suc (5 + 4 * (multi_depth g + multi_depth f))) f g"
          by (rule within_swap [rotated]) (use r k False in \<open>auto intro!: swap_to_multi\<close>)
        then show ?thesis by (simp add: add.commute)
      qed
    qed
  qed
qed

lemma bytes_merge_total:
  assumes "wf_bytes f" "wf_bytes g"
  shows "defined (mergeWith f g)"
  using bytes_within [OF assms] by (simp add: within_def mergeWith_def)

end
