(* ===== verification/Filter_Bytes_Props.thy ===== *)
theory Filter_Bytes_Props
  imports Filter_Bytes_Total
begin

text \<open>
  The properties of the filters on byte strings.
\<close>

section \<open>Conjunction\<close>

text \<open>
  C7. Merging two well-formed filters on byte strings returns a filter, and it is their conjunction:
  well-formed, passing null exactly when both operands do and a string exactly when both do. The
  operands are ranges, lists of values, their negations, nested disjunctions of these, and the
  value-independent filters.
\<close>

theorem mergeWith_bytes_is_conjunction:
  assumes "wf_bytes f" and "wf_bytes g"
  shows "\<exists>h. mergeWith f g = Inr h \<and> wf_bytes h \<and> testNull h = (testNull f \<and> testNull g) \<and>
    (\<forall>v. short v \<longrightarrow> (testBytes h v = Inr True \<longleftrightarrow> testBytes f v = Inr True \<and> testBytes g v = Inr True))"
proof -
  obtain h where h: "mergeWith f g = Inr h" using bytes_merge_total [OF assms] by (auto simp: defined_def)
  from bytes_merge.sound [OF assms h] h show ?thesis by (auto simp: bmerge_good_def baccepts_def)
qed

definition example_names :: filter where
  "example_names = (case NegatedBytesValues_new [''bob'', ''eve''] True of Inr f \<Rightarrow> f | _ \<Rightarrow> AlwaysTrue)"

definition example_letters :: filter where
  "example_letters = (case BytesRange_new ''a'' False False ''m'' False True False of
     Inr r \<Rightarrow> BytesRange r | _ \<Rightarrow> AlwaysTrue)"

theorem mergeWith_bytes_is_conjunction_witness:
  "wf_bytes example_names \<and> wf_bytes example_letters \<and>
   (\<exists>h. mergeWith example_names example_letters = Inr h \<and> testNull h = False)"
proof -
  have w: "wf_bytes example_names" "wf_bytes example_letters" and n: "\<not> testNull example_letters"
    by code_simp+
  with mergeWith_bytes_is_conjunction [OF w] show ?thesis by auto
qed

section \<open>Statistics and lengths\<close>

definition between :: "string option \<Rightarrow> string option \<Rightarrow> string \<Rightarrow> bool" where
  "between mn mx v \<longleftrightarrow> (case mn of None \<Rightarrow> True | Some a \<Rightarrow> a \<le> v) \<and> (case mx of None \<Rightarrow> True | Some b \<Rightarrow> v \<le> b)"

definition short_bound :: "string option \<Rightarrow> bool" where
  "short_bound b \<longleftrightarrow> (case b of None \<Rightarrow> True | Some s \<Rightarrow> short s)"

lemma range_no:
  assumes "wf_brange r" "short_bound mn" "short_bound mx" "\<not> BytesRange_testBytesRange r mn mx hasNull"
  shows "\<not> (hasNull \<and> by_nullAllowed r) \<and> (\<forall>v. between mn mx v \<longrightarrow> \<not> (from_lower r v \<and> to_upper r v))"
proof -
  have sh: "short (by_lower r)" "short (by_upper r)" using assms(1) by (auto simp: wf_brange_def)
  have lo: "compareRanges s (by_lower r) \<ge> (if by_lowerExclusive r then 1 else 0) \<longleftrightarrow>
      by_lower r < s \<or> (\<not> by_lowerExclusive r \<and> s = by_lower r)" if "short s" for s
    using compareRanges_sign [OF that sh(1)] by (cases s "by_lower r" rule: linorder_cases) auto
  have hi: "compareRanges s (by_upper r) \<le> - (if by_upperExclusive r then 1 else 0) \<longleftrightarrow>
      s < by_upper r \<or> (\<not> by_upperExclusive r \<and> s = by_upper r)" if "short s" for s
    using compareRanges_sign [OF that sh(2)] by (cases s "by_upper r" rule: linorder_cases) auto
  consider b where "\<not> by_lowerUnbounded r" "mx = Some b" "\<not> (by_lower r < b \<or> (\<not> by_lowerExclusive r \<and> b = by_lower r))"
    | a where "\<not> by_upperUnbounded r" "mn = Some a" "\<not> (a < by_upper r \<or> (\<not> by_upperExclusive r \<and> a = by_upper r))"
    using assms(2-4) lo hi
    by (auto simp: BytesRange_testBytesRange_def short_bound_def split: if_splits option.splits)
  moreover have "\<not> (hasNull \<and> by_nullAllowed r)" using assms(4) by (auto simp: BytesRange_testBytesRange_def)
  ultimately show ?thesis
    by cases (auto simp: between_def from_lower_def to_upper_def)
qed
lemma negated_range_no:
  assumes "wf_brange r" "short_bound mn" "short_bound mx"
    "NegatedBytesRange_testBytesRange r n mn mx hasNull = Inr False"
  shows "\<not> (hasNull \<and> n) \<and> (\<forall>v. between mn mx v \<longrightarrow> from_lower r v \<and> to_upper r v)"
proof -
  obtain a b where ab: "mn = Some a" "mx = Some b" "BytesRange_testBytes r a" "BytesRange_testBytes r b"
    "\<not> (hasNull \<and> n)"
    using assms(4) by (auto simp: NegatedBytesRange_testBytesRange_def split: if_splits option.splits)
  then have "from_lower r a" "to_upper r b"
    using assms(1-3) by (auto simp: brange_test short_bound_def)
  with ab show ?thesis by (auto simp: between_def from_lower_def to_upper_def)
qed

lemma values_no:
  assumes "wf_bvalues s" "\<not> BytesValues_testBytesRange s mn mx hasNull"
  shows "\<not> (hasNull \<and> bv_nullAllowed s) \<and> (\<forall>v. between mn mx v \<longrightarrow> v \<notin> set (bv_set s))"
proof -
  have "False" if "between mn mx v" "v \<in> set (bv_set s)" for v
    by (rule testBytesRange_values_no [OF assms that(2)])
      (use that(1) in \<open>auto simp: between_def split: option.splits\<close>)
  moreover have "\<not> (hasNull \<and> bv_nullAllowed s)" using assms(2) by (auto simp: BytesValues_testBytesRange_def)
  ultimately show ?thesis by blast
qed

lemma negated_values_range_no:
  assumes "wf_bvalues s" "\<not> NegatedBytesValues_testBytesRange s n mn mx hasNull"
  shows "\<not> (hasNull \<and> n) \<and> (\<forall>v. between mn mx v \<longrightarrow> v \<in> set (bv_set s))"
proof -
  obtain a where "mn = Some a" "mx = Some a" "BytesValues_testBytes s a" "\<not> (hasNull \<and> n)"
    using assms(2) by (auto simp: NegatedBytesValues_testBytesRange_def split: if_splits)
  with assms(1) show ?thesis by (auto simp: between_def bvalues_test)
qed

lemma anyR_False: "anyR f xs = Inr False \<Longrightarrow> x \<in> set xs \<Longrightarrow> f x = Inr False"
  by (induction xs) (auto simp: result_simps split: if_splits)

lemma anyR_total: "(\<And>x. x \<in> set xs \<Longrightarrow> defined (f x)) \<Longrightarrow> defined (anyR f xs)"
  by (induction xs) (fastforce simp: defined_def)+

lemma testBytesRange_no:
  assumes "wf_bytes f" "short_bound mn" "short_bound mx" "testBytesRange f mn mx hasNull = Inr False"
  shows "\<not> (hasNull \<and> testNull f) \<and> (\<forall>v. short v \<and> between mn mx v \<longrightarrow> \<not> baccepts f v)"
  using assms(1,4)
proof (induction f)
  case (BytesRange r)
  with range_no [OF _ assms(2,3), of r hasNull] show ?case by (auto simp: methods_defs baccepts_wf)
next
  case (NegatedBytesRange r n)
  with negated_range_no [OF _ assms(2,3), of r n hasNull] show ?case by (auto simp: methods_defs baccepts_wf)
next
  case (BytesValues s)
  with values_no [of s mn mx hasNull] show ?case by (auto simp: methods_defs baccepts_wf)
next
  case (NegatedBytesValues s n)
  with negated_values_range_no [of s n mn mx hasNull] show ?case by (auto simp: methods_defs baccepts_wf)
next
  case (MultiRange fs n)
  then have any: "anyR (\<lambda>m. m_testBytesRange m mn mx hasNull) (map methods fs) = Inr False" "\<not> (hasNull \<and> n)"
    by (auto simp: methods_defs split: if_splits)
  then have "testBytesRange f mn mx hasNull = Inr False" if "f \<in> set fs" for f
    using anyR_False that by fastforce
  with MultiRange.IH MultiRange.prems(1) any(2) baccepts_multi [OF MultiRange.prems(1)] show ?case
    by (auto simp: list_all_iff)
qed (auto simp: methods_defs)

lemma testBytesRange_total:
  assumes "wf_bytes f"
  shows "defined (testBytesRange f (Some a) (Some b) hasNull)"
  using assms
proof (induction f)
  case (MultiRange fs n)
  then have "defined (anyR (\<lambda>m. m_testBytesRange m (Some a) (Some b) hasNull) (map methods fs))"
    by (intro anyR_total) (auto simp: list_all_iff)
  then show ?case by (simp add: methods_defs)
qed (auto simp: methods_defs NegatedBytesRange_testBytesRange_def)

text \<open>
  C8. Skipping strings by their statistics is safe: between a minimum and a maximum the test answers,
  and whenever it answers no (also with one or both bounds missing) no string within the bounds passes
  the filter, nor null if the data has nulls.
\<close>

theorem testBytesRange_skips_safely:
  assumes "wf_bytes f" and "short_bound mn" and "short_bound mx"
  shows "(mn \<noteq> None \<and> mx \<noteq> None \<longrightarrow> (\<exists>b. testBytesRange f mn mx hasNull = Inr b)) \<and>
    (testBytesRange f mn mx hasNull = Inr False \<longrightarrow>
       \<not> (hasNull \<and> testNull f) \<and> (\<forall>v. short v \<and> between mn mx v \<longrightarrow> testBytes f v = Inr False))"
  using testBytesRange_no [OF assms, of hasNull] testBytesRange_total [OF assms(1), of "the mn" "the mx" hasNull]
    wf_testBytes [OF assms(1)]
  by (auto simp: defined_def)

theorem testBytesRange_skips_safely_witness:
  "testBytesRange example_letters (Some ''x'') (Some ''z'') False = Inr False \<and>
   testBytes example_letters ''y'' = Inr False"
proof -
  have a: "wf_bytes example_letters" "short_bound (Some ''x'')" "short_bound (Some ''z'')"
    and no: "testBytesRange example_letters (Some ''x'') (Some ''z'') False = Inr False"
    and y: "short ''y''" "between (Some ''x'') (Some ''z'') ''y''" by code_simp+
  from testBytesRange_skips_safely [OF a, of False] no y show ?thesis by blast
qed

fun no_negated_single :: "filter \<Rightarrow> bool" where
  "no_negated_single (NegatedBytesRange r n) \<longleftrightarrow> \<not> by_singleValue r"
| "no_negated_single (MultiRange fs n) \<longleftrightarrow> list_all no_negated_single fs"
| "no_negated_single f \<longleftrightarrow> True"

lemma testLength_total: "wf_bytes f \<Longrightarrow> defined (testLength f len)"
proof (induction f)
  case (MultiRange fs n)
  then have "defined (anyR (\<lambda>m. m_testLength m len) (map methods fs))"
    by (intro anyR_total) (auto simp: list_all_iff)
  then show ?case by (simp add: methods_defs)
qed (auto simp: methods_defs)

lemma testLength_no:
  assumes "wf_bytes f" "no_negated_single f" "testLength f (int (length v)) = Inr False" "short v"
  shows "\<not> baccepts f v"
  using assms(1-3)
proof (induction f)
  case (BytesRange r)
  then have "by_singleValue r" "length (by_lower r) \<noteq> length v"
    by (auto simp: methods_defs BytesRange_testLength_def)
  with BytesRange(1) assms(4) show ?case by (auto simp: baccepts_wf wf_brange_def from_lower_def to_upper_def)
next
  case (NegatedBytesRange r n)
  then show ?case by (auto simp: methods_defs BytesRange_testLength_def)
next
  case (BytesValues s)
  then have "length v \<notin> length ` set (bv_set s)"
    by (auto simp: methods_defs BytesValues_testLength_def wf_bvalues_def)
  with BytesValues(1) show ?case by (auto simp: baccepts_wf)
next
  case (MultiRange fs n)
  then have "anyR (\<lambda>m. m_testLength m (int (length v))) (map methods fs) = Inr False"
    by (auto simp: methods_defs)
  then have "testLength f (int (length v)) = Inr False" if "f \<in> set fs" for f
    using anyR_False that by fastforce
  with MultiRange.IH MultiRange.prems baccepts_multi [OF MultiRange.prems(1)] show ?case
    by (auto simp: list_all_iff)
qed (auto simp: methods_defs)

lemma negated_single_length:
  assumes "wf_brange r" "by_singleValue r"
  shows "testLength (NegatedBytesRange r n) (int len) = Inr (len = length (by_lower r))"
    "short v \<Longrightarrow> length v \<noteq> length (by_lower r) \<Longrightarrow> testBytes (NegatedBytesRange r n) v = Inr True"
proof -
  show "testLength (NegatedBytesRange r n) (int len) = Inr (len = length (by_lower r))"
    using assms by (auto simp: methods_defs BytesRange_testLength_def)
  assume v: "short v" "length v \<noteq> length (by_lower r)"
  then have "\<not> (from_lower r v \<and> to_upper r v)"
    using assms by (auto simp: wf_brange_def from_lower_def to_upper_def)
  with assms v(1) show "testBytes (NegatedBytesRange r n) v = Inr True" by (auto simp: methods_defs brange_test)
qed

text \<open>
  C10. Skipping strings by their length is safe exactly as far as no negated single value is involved.
  \<^verbatim>\<open>testLength\<close> always answers. When a filter with no negated single value, however nested, rejects a length,
  \<^verbatim>\<open>testBytes\<close> rejects every string of that length. For a negated single value it is the other way
  round: \<^verbatim>\<open>NegatedBytesRange::testLength\<close> answers with the length test of the rejected value, so it
  rejects exactly the lengths that differ from it, and every string of such a length passes the filter.
\<close>

theorem testLength_skips:
  assumes "wf_bytes f" and "short v"
  shows "(\<exists>b. testLength f (int (length v)) = Inr b) \<and>
    (no_negated_single f \<and> testLength f (int (length v)) = Inr False \<longrightarrow> testBytes f v = Inr False) \<and>
    (\<forall>r n. f = NegatedBytesRange r n \<and> by_singleValue r \<longrightarrow>
       (testLength f (int (length v)) = Inr False \<longleftrightarrow> length v \<noteq> length (by_lower r)) \<and>
       (testLength f (int (length v)) = Inr False \<longrightarrow> testBytes f v = Inr True))"
proof (intro conjI allI impI)
  show "\<exists>b. testLength f (int (length v)) = Inr b" using testLength_total [OF assms(1)] by (simp add: defined_def)
  show "testBytes f v = Inr False" if "no_negated_single f \<and> testLength f (int (length v)) = Inr False"
    using testLength_no [OF assms(1)] assms(2) that wf_testBytes [OF assms(1)] by simp
  fix r n assume "f = NegatedBytesRange r n \<and> by_singleValue r"
  then have f: "f = NegatedBytesRange r n" "wf_brange r" "by_singleValue r" using assms(1) by auto
  show iff: "testLength f (int (length v)) = Inr False \<longleftrightarrow> length v \<noteq> length (by_lower r)"
    using negated_single_length(1) [OF f(2,3)] f(1) by simp
  show "testBytes f v = Inr True" if "testLength f (int (length v)) = Inr False"
    using negated_single_length(2) [OF f(2,3) assms(2)] iff that f(1) by simp
qed

definition example_values :: filter where
  "example_values = (case BytesValues_new [''ab'', ''abcd''] False of Inr s \<Rightarrow> BytesValues s | _ \<Rightarrow> AlwaysTrue)"

definition example_abc :: bytes_range where
  "example_abc = (case BytesRange_new ''abc'' False False ''abc'' False False True of Inr r \<Rightarrow> r)"

theorem testLength_skips_witness:
  "testLength example_values 3 = Inr False \<and> testBytes example_values ''xyz'' = Inr False \<and>
   testLength (NegatedBytesRange example_abc False) 2 = Inr False \<and>
   testBytes (NegatedBytesRange example_abc False) ''xy'' = Inr True"
proof -
  have a: "wf_bytes example_values" "no_negated_single example_values" "short ''xyz''"
    "testLength example_values (int (length ''xyz'')) = Inr False" by code_simp+
  have b: "wf_bytes (NegatedBytesRange example_abc False)" "by_singleValue example_abc" "short ''xy''"
    "length ''xy'' \<noteq> length (by_lower example_abc)" by code_simp+
  have "int (length ''xyz'') = 3" "int (length ''xy'') = 2" by simp_all
  with testLength_skips [OF a(1,3)] a(2,4) testLength_skips [OF b(1,3)] b(2,4) show ?thesis by metis
qed

end
