(* ===== verification/Filter_Wide.thy ===== *)
theory Filter_Wide
  imports Filter_Bytes_Total
begin

text \<open>
  Filters on 128-bit integers and on timestamps. Their merges replace a union of ranges by its hull,
  so they are no conjunctions, but no value that passes both operands is lost.
\<close>

section \<open>Invariants\<close>

text \<open>Merging adjacent negated ranges builds a range whose upper end is one below its lower end.\<close>

definition wf_huge :: "hugeint_range \<Rightarrow> bool" where
  "wf_huge r \<longleftrightarrow> in_int128 (hr_lower r) \<and> in_int128 (hr_upper r) \<and> hr_lower r \<le> hr_upper r + 1"

definition wf_ts :: "timestamp_range \<Rightarrow> bool" where
  "wf_ts r \<longleftrightarrow> tr_lower r \<le> tr_upper r"

fun wf_wide :: "filter \<Rightarrow> bool" where
  "wf_wide AlwaysFalse = True"
| "wf_wide AlwaysTrue = True"
| "wf_wide IsNull = True"
| "wf_wide IsNotNull = True"
| "wf_wide (HugeintRange r) = wf_huge r"
| "wf_wide (NegatedHugeintRange r n) = wf_huge r"
| "wf_wide (TimestampRange r) = wf_ts r"
| "wf_wide (NegatedTimestampRange r n) = wf_ts r"
| "wf_wide f = False"

definition passes128 :: "filter \<Rightarrow> int \<Rightarrow> bool" where
  "passes128 f v \<longleftrightarrow> testInt128 f v = Inr True"

definition passesT :: "filter \<Rightarrow> timestamp \<Rightarrow> bool" where
  "passesT f t \<longleftrightarrow> testTimestamp f t = Inr True"

lemma wide_new_sel [simp]:
  "hr_lower (HugeintRange_new l u n) = l" "hr_upper (HugeintRange_new l u n) = u"
  "hr_nullAllowed (HugeintRange_new l u n) = n"
  "tr_lower (TimestampRange_new l' u' n) = l'" "tr_upper (TimestampRange_new l' u' n) = u'"
  "tr_nullAllowed (TimestampRange_new l' u' n) = n"
  by (simp_all add: HugeintRange_new_def TimestampRange_new_def)

lemma passes_simps [simp]:
  "\<not> passes128 AlwaysFalse v" "passes128 AlwaysTrue v" "\<not> passes128 IsNull v" "passes128 IsNotNull v"
  "passes128 (HugeintRange r) v \<longleftrightarrow> hr_lower r \<le> v \<and> v \<le> hr_upper r"
  "passes128 (NegatedHugeintRange r n) v \<longleftrightarrow> \<not> (hr_lower r \<le> v \<and> v \<le> hr_upper r)"
  "\<not> passes128 (TimestampRange s) v" "\<not> passes128 (NegatedTimestampRange s n) v"
  "\<not> passesT AlwaysFalse t" "\<not> passesT AlwaysTrue t" "\<not> passesT IsNull t" "passesT IsNotNull t"
  "passesT (TimestampRange s) t \<longleftrightarrow> tr_lower s \<le> t \<and> t \<le> tr_upper s"
  "passesT (NegatedTimestampRange s n) t \<longleftrightarrow> \<not> (tr_lower s \<le> t \<and> t \<le> tr_upper s)"
  "\<not> passesT (HugeintRange r) t" "\<not> passesT (NegatedHugeintRange r n) t"
  by (auto simp: passes128_def passesT_def methods_defs)

lemma testNull_wide [simp]:
  "testNull (HugeintRange r) = hr_nullAllowed r" "testNull (NegatedHugeintRange r n) = n"
  "testNull (TimestampRange s) = tr_nullAllowed s" "testNull (NegatedTimestampRange s n) = n"
  by (simp_all add: methods_defs)

section \<open>Hulls\<close>

lemma mergeHugeintRanges_hull:
  assumes "mergeHugeintRanges c rs = Inr ms" "sorted (map hr_lower (c # rs))" "\<forall>r \<in> set (c # rs). hr_lower r \<le> hr_upper r + 1"
  shows "ms \<noteq> [] \<and> hr_lower (hd ms) = hr_lower c \<and> (\<forall>r \<in> set (c # rs). hr_upper r \<le> hr_upper (last ms)) \<and>
         (\<exists>r \<in> set (c # rs). hr_upper (last ms) = hr_upper r)"
  using assms
proof (induction c rs arbitrary: ms rule: mergeHugeintRanges.induct)
  case (1 c)
  then show ?case by auto
next
  case (2 c r rs)
  show ?case
  proof (cases "hr_lower r \<le> hr_upper c + 1")
    case True
    let ?c = "HugeintRange_new (hr_lower c) (max (hr_upper c) (hr_upper r)) False"
    have m: "mergeHugeintRanges ?c rs = Inr ms" and u: "in_int128 (hr_upper c + 1)"
      using "2.prems"(1) True by (auto simp: result_simps)
    have "ms \<noteq> [] \<and> hr_lower (hd ms) = hr_lower ?c \<and> (\<forall>r \<in> set (?c # rs). hr_upper r \<le> hr_upper (last ms)) \<and>
         (\<exists>r \<in> set (?c # rs). hr_upper (last ms) = hr_upper r)"
      by (rule "2.IH"(1) [of "hr_upper c + 1"]) (use True m u "2.prems" in \<open>auto simp: add128_def max_def\<close>)
    then show ?thesis by (auto simp: max_def split: if_splits)
  next
    case False
    then obtain ms' where m: "mergeHugeintRanges r rs = Inr ms'" "ms = c # ms'" and u: "in_int128 (hr_upper c + 1)"
      using "2.prems"(1) by (auto simp: result_simps)
    have IH: "ms' \<noteq> [] \<and> hr_lower (hd ms') = hr_lower r \<and> (\<forall>r \<in> set (r # rs). hr_upper r \<le> hr_upper (last ms')) \<and>
         (\<exists>r \<in> set (r # rs). hr_upper (last ms') = hr_upper r)"
      by (rule "2.IH"(2) [of "hr_upper c + 1"]) (use False m u "2.prems" in \<open>auto simp: add128_def\<close>)
    moreover have "hr_upper c \<le> hr_upper r" using False "2.prems"(3) by auto
    ultimately show ?thesis using m(2) by auto
  qed
qed
lemma mergeTimestampRanges_hull:
  assumes "sorted (map tr_lower (c # rs))" "\<forall>r \<in> set (c # rs). tr_lower r \<le> tr_upper r"
  shows "mergeTimestampRanges c rs \<noteq> [] \<and> tr_lower (hd (mergeTimestampRanges c rs)) = tr_lower c \<and>
         (\<forall>r \<in> set (c # rs). tr_upper r \<le> tr_upper (last (mergeTimestampRanges c rs))) \<and>
         (\<exists>r \<in> set (c # rs). tr_upper (last (mergeTimestampRanges c rs)) = tr_upper r)"
  using assms
proof (induction c rs rule: mergeTimestampRanges.induct)
  case (1 c)
  then show ?case by simp
next
  case (2 c r rs)
  show ?case
  proof (cases "tr_lower r \<le> tr_upper c")
    case True
    let ?c = "TimestampRange_new (tr_lower c) (max (tr_upper c) (tr_upper r)) False"
    have "mergeTimestampRanges ?c rs \<noteq> [] \<and> tr_lower (hd (mergeTimestampRanges ?c rs)) = tr_lower ?c \<and>
         (\<forall>r \<in> set (?c # rs). tr_upper r \<le> tr_upper (last (mergeTimestampRanges ?c rs))) \<and>
         (\<exists>r \<in> set (?c # rs). tr_upper (last (mergeTimestampRanges ?c rs)) = tr_upper r)"
      by (rule "2.IH"(1)) (use True "2.prems" in \<open>auto simp: le_max_iff_disj\<close>)
    with True show ?thesis by (auto simp: max_def split: if_splits)
  next
    case False
    have "mergeTimestampRanges r rs \<noteq> [] \<and> tr_lower (hd (mergeTimestampRanges r rs)) = tr_lower r \<and>
         (\<forall>s \<in> set (r # rs). tr_upper s \<le> tr_upper (last (mergeTimestampRanges r rs))) \<and>
         (\<exists>s \<in> set (r # rs). tr_upper (last (mergeTimestampRanges r rs)) = tr_upper s)"
      by (rule "2.IH"(2)) (use False "2.prems" in auto)
    moreover have "tr_upper c \<le> tr_upper r" using False "2.prems"(2) by auto
    ultimately show ?thesis using False by auto
  qed
qed

lemma combineHugeintRanges_covers:
  assumes "combineHugeintRanges rs n = Inr h" "\<forall>r \<in> set rs. wf_huge r"
  shows "wf_wide h \<and> testNull h = n \<and>
    (\<forall>v. (\<exists>r \<in> set rs. hr_lower r \<le> v \<and> v \<le> hr_upper r) \<longrightarrow> passes128 h v) \<and> (\<forall>t. \<not> passesT h t)"
proof (cases "sort_key hr_lower rs")
  case Nil
  then have "rs = []" by (metis length_0_conv length_sort)
  with assms(1) show ?thesis by (cases n) (auto simp: combineHugeintRanges_def nullOrFalse_def)
next
  case (Cons c cs)
  have set: "set (c # cs) = set rs" using Cons by (metis set_sort)
  have srt: "sorted (map hr_lower (c # cs))" using Cons by (metis sorted_sort_key)
  obtain ms where ms: "mergeHugeintRanges c cs = Inr ms"
    and h: "h = HugeintRange (HugeintRange_new (hr_lower (hd ms)) (hr_upper (last ms)) n)"
    using assms(1) Cons
    by (auto simp: combineHugeintRanges_def result_simps length_Suc_conv split: if_splits)
  have hull: "ms \<noteq> [] \<and> hr_lower (hd ms) = hr_lower c \<and> (\<forall>r \<in> set (c # cs). hr_upper r \<le> hr_upper (last ms)) \<and>
         (\<exists>r \<in> set (c # cs). hr_upper (last ms) = hr_upper r)"
    by (rule mergeHugeintRanges_hull [OF ms srt]) (use assms(2) set in \<open>auto simp: wf_huge_def\<close>)
  have low: "\<forall>r \<in> set (c # cs). hr_lower c \<le> hr_lower r" using srt by auto
  have c: "wf_huge c" using set assms(2) by auto
  show ?thesis using hull low c assms(2) set h unfolding set [symmetric]
    by (auto simp: wf_huge_def)
qed

lemma combineTimestampRanges_covers:
  assumes "\<forall>r \<in> set rs. wf_ts r"
  shows "wf_wide (combineTimestampRanges rs n) \<and> testNull (combineTimestampRanges rs n) = n \<and>
    (\<forall>t. (\<exists>r \<in> set rs. tr_lower r \<le> t \<and> t \<le> tr_upper r) \<longrightarrow> passesT (combineTimestampRanges rs n) t) \<and>
    (\<forall>v. \<not> passes128 (combineTimestampRanges rs n) v)"
proof (cases "sort_key tr_lower rs")
  case Nil
  then have "rs = []" by (metis length_0_conv length_sort)
  then show ?thesis by (cases n) (auto simp: combineTimestampRanges_def nullOrFalse_def)
next
  case (Cons c cs)
  let ?ms = "mergeTimestampRanges c cs"
  have set: "set (c # cs) = set rs" using Cons by (metis set_sort)
  have srt: "sorted (map tr_lower (c # cs))" using Cons by (metis sorted_sort_key)
  have "\<forall>r \<in> set (c # cs). tr_lower r \<le> tr_upper r" unfolding set using assms by (simp add: wf_ts_def)
  from mergeTimestampRanges_hull [OF srt this]
  have hull: "?ms \<noteq> [] \<and> tr_lower (hd ?ms) = tr_lower c \<and> (\<forall>r \<in> set (c # cs). tr_upper r \<le> tr_upper (last ?ms))"
    by blast
  have h: "combineTimestampRanges rs n =
      TimestampRange (TimestampRange_new (tr_lower (hd ?ms)) (tr_upper (last ?ms)) n)"
    using Cons hull by (auto simp: combineTimestampRanges_def length_Suc_conv Let_def)
  have low: "\<forall>r \<in> set (c # cs). tr_lower c \<le> tr_lower r" using srt by auto
  have c: "tr_lower c \<le> tr_upper c" using set assms by (auto simp: wf_ts_def)
  show ?thesis using hull low c h unfolding set [symmetric] by (auto simp: wf_ts_def)
qed

section \<open>No value is lost\<close>

definition wide_good :: "filter \<Rightarrow> filter \<Rightarrow> filter \<Rightarrow> bool" where
  "wide_good f g h \<longleftrightarrow>
     wf_wide h \<and> testNull h = (testNull f \<and> testNull g) \<and>
     (\<forall>v. in_int128 v \<and> passes128 f v \<and> passes128 g v \<longrightarrow> passes128 h v) \<and>
     (\<forall>t. Timestamp_min \<le> t \<and> t \<le> Timestamp_max \<and> passesT f t \<and> passesT g t \<longrightarrow> passesT h t)"

lemma wide_good_sym: "wide_good g f h \<Longrightarrow> wide_good f g h"
  by (auto simp: wide_good_def)

lemma wide_clone_good:
  assumes "clone f na = Inr h" "wf_wide f" "na = None"
  shows "wf_wide h \<and> testNull h = testNull f \<and> (\<forall>v. passes128 h v = passes128 f v) \<and> (\<forall>t. passesT h t = passesT f t)"
  using assms by (cases f) (auto simp: NegatedHugeintRange_new_def NegatedTimestampRange_new_def wf_huge_def wf_ts_def)

lemma negated_huge_range_good:
  assumes "combineNegatedRangeOnHugeintRanges (hr_lower r) (hr_upper r)
            [HugeintRange_new (hr_lower s) (hr_upper s) False] (n \<and> hr_nullAllowed s) = Inr h" "wf_huge r" "wf_huge s"
  shows "wide_good (NegatedHugeintRange r n) (HugeintRange s) h"
proof -
  obtain out where out: "subtractHugeintRange (hr_lower r) (hr_upper r) (HugeintRange_new (hr_lower s) (hr_upper s) False) = Inr out"
    and c: "combineHugeintRanges out (n \<and> hr_nullAllowed s) = Inr h"
    using assms(1) by (auto simp: combineNegatedRangeOnHugeintRanges_def result_simps)
  have ok: "\<forall>x \<in> set out. wf_huge x"
    and cov: "\<And>v. hr_lower s \<le> v \<Longrightarrow> v \<le> hr_upper s \<Longrightarrow> \<not> (hr_lower r \<le> v \<and> v \<le> hr_upper r) \<Longrightarrow>
      \<exists>x \<in> set out. hr_lower x \<le> v \<and> v \<le> hr_upper x"
    using out assms(2,3)
    by (auto simp: subtractHugeintRange_def result_simps wf_huge_def in_int128_def split: if_splits)
  from combineHugeintRanges_covers [OF c ok] cov show ?thesis by (auto simp: wide_good_def)
qed

lemma mergeNegatedHugeintRanges_good:
  assumes "mergeNegatedHugeintRanges r s (n \<and> n') = Inr h" "wf_huge r" "wf_huge s" "hr_lower r \<le> hr_lower s"
  shows "wide_good (NegatedHugeintRange r n) (NegatedHugeintRange s n') h"
proof (cases "hr_upper r < hr_lower s")
  case False
  with assms show ?thesis
    by (auto simp: mergeNegatedHugeintRanges_def wide_good_def NegatedHugeintRange_new_def wf_huge_def max_def
        split: if_splits)
next
  case True
  let ?rs = "(if hr_lower r > int128_min then [HugeintRange_new int128_min (hr_lower r - 1) False] else []) @
      [HugeintRange_new (hr_upper r + 1) (hr_lower s - 1) False] @
      (if hr_upper s < int128_max then [HugeintRange_new (hr_upper s + 1) int128_max False] else [])"
  have b: "in_int128 (hr_lower r)" "in_int128 (hr_upper r)" "in_int128 (hr_lower s)" "in_int128 (hr_upper s)"
    "hr_lower r \<le> hr_upper r + 1" "hr_lower s \<le> hr_upper s + 1"
    using assms(2,3) by (auto simp: wf_huge_def)
  have c: "combineHugeintRanges ?rs (n \<and> n') = Inr h"
    using assms(1) True b by (auto simp: mergeNegatedHugeintRanges_def result_simps in_int128_def split: if_splits)
  have ok: "\<forall>x \<in> set ?rs. wf_huge x"
    using True b by (auto simp: wf_huge_def in_int128_def int128_min_def int128_max_def)
  from combineHugeintRanges_covers [OF c ok] b True show ?thesis
    by (auto simp: wide_good_def in_int128_def split: if_splits)
qed

lemma negated_ts_range_good:
  assumes "NegatedTimestampRange_mergeWith mw r n (TimestampRange s) = Inr h" "wf_ts r" "wf_ts s"
  shows "wide_good (NegatedTimestampRange r n) (TimestampRange s) h"
proof -
  let ?n = "n \<and> tr_nullAllowed s"
  let ?rs = "(if tr_lower s < tr_lower r then [TimestampRange_new (tr_lower s) (tr_lower r) False] else []) @
             (if tr_upper s > tr_upper r then [TimestampRange_new (tr_upper r) (tr_upper s) False] else [])"
  consider (out) "tr_upper s < tr_lower r \<or> tr_lower s > tr_upper r"
      "h = TimestampRange (TimestampRange_new (min (tr_lower r) (tr_lower s)) (max (tr_upper r) (tr_upper s)) ?n)"
    | (inside) "tr_lower s \<ge> tr_lower r" "tr_upper s \<le> tr_upper r" "h = NegatedTimestampRange_new (tr_lower r) (tr_upper r) ?n"
    | (over) "h = combineTimestampRanges ?rs ?n"
    using assms(1) by (auto simp: NegatedTimestampRange_mergeWith_def Let_def split: if_splits)
  then show ?thesis
  proof cases
    case out
    with assms(2,3) show ?thesis by (auto simp: wide_good_def wf_ts_def min_def max_def)
  next
    case inside
    with assms(2,3) show ?thesis by (auto simp: wide_good_def wf_ts_def NegatedTimestampRange_new_def)
  next
    case over
    have "\<forall>x \<in> set ?rs. wf_ts x" by (auto simp: wf_ts_def)
    from combineTimestampRanges_covers [OF this, of ?n] over show ?thesis
      by (auto simp: wide_good_def not_le split: if_splits)
  qed
qed

lemma negated_ts_negated_good:
  assumes "NegatedTimestampRange_mergeWith mw r n (NegatedTimestampRange s n') = Inr h" "wf_ts r" "wf_ts s"
    "tr_lower r \<le> tr_lower s"
  shows "wide_good (NegatedTimestampRange r n) (NegatedTimestampRange s n') h"
proof (cases "tr_upper r < tr_lower s")
  case False
  with assms show ?thesis
    by (auto simp: NegatedTimestampRange_mergeWith_def Let_def wide_good_def NegatedTimestampRange_new_def
        wf_ts_def max_def split: if_splits)
next
  case True
  let ?rs = "(if tr_lower r > Timestamp_min then [TimestampRange_new Timestamp_min (tr_lower r) False] else []) @
               [TimestampRange_new (tr_upper r) (tr_lower s) False] @
               (if tr_upper s < Timestamp_max then [TimestampRange_new (tr_upper s) Timestamp_max False] else [])"
  have h: "h = combineTimestampRanges ?rs (n \<and> n')"
    using assms(1) leD [OF assms(4)] True
    by (simp only: NegatedTimestampRange_mergeWith_def Let_def filter.case testNull_wide if_True if_False sum.inject)
  have "\<forall>x \<in> set ?rs. wf_ts x" using True by (auto simp: wf_ts_def)
  note C = combineTimestampRanges_covers [OF this, of "n \<and> n'", folded h]
  have "\<exists>x \<in> set ?rs. tr_lower x \<le> t \<and> t \<le> tr_upper x"
    if t: "Timestamp_min \<le> t" "t \<le> Timestamp_max" "\<not> (tr_lower r \<le> t \<and> t \<le> tr_upper r)"
      "\<not> (tr_lower s \<le> t \<and> t \<le> tr_upper s)" for t
  proof -
    consider "t < tr_lower r" "Timestamp_min < tr_lower r" | "tr_upper r \<le> t" "t \<le> tr_lower s"
      | "tr_upper s < t" "tr_upper s < Timestamp_max"
      using t by fastforce
    then show ?thesis using t(1,2) by cases auto
  qed
  then have "passesT h t"
    if "Timestamp_min \<le> t" "t \<le> Timestamp_max" "\<not> (tr_lower r \<le> t \<and> t \<le> tr_upper r)"
      "\<not> (tr_lower s \<le> t \<and> t \<le> tr_upper s)" for t using C that by blast
  with C show ?thesis by (simp add: wide_good_def)
qed

lemma ts_ts_good:
  assumes "TimestampRange_mergeWith mw r (TimestampRange s) = Inr h"
  shows "wide_good (TimestampRange r) (TimestampRange s) h"
proof (cases "max (tr_lower r) (tr_lower s) \<le> min (tr_upper r) (tr_upper s)")
  case True
  with assms have "h = TimestampRange (TimestampRange_new (max (tr_lower r) (tr_lower s))
      (min (tr_upper r) (tr_upper s)) (tr_nullAllowed r \<and> tr_nullAllowed s))"
    by (simp only: TimestampRange_mergeWith_def filter.case Let_def if_True testNull_wide sum.inject)
  with True show ?thesis by (simp add: wide_good_def wf_ts_def)
next
  case False
  with assms have "h = nullOrFalse (tr_nullAllowed r \<and> tr_nullAllowed s)"
    by (simp only: TimestampRange_mergeWith_def filter.case Let_def if_False testNull_wide sum.inject)
  moreover have "\<not> (tr_lower r \<le> t \<and> t \<le> tr_upper r \<and> tr_lower s \<le> t \<and> t \<le> tr_upper s)" for t
  proof
    assume "tr_lower r \<le> t \<and> t \<le> tr_upper r \<and> tr_lower s \<le> t \<and> t \<le> tr_upper s"
    then have "max (tr_lower r) (tr_lower s) \<le> t" "t \<le> min (tr_upper r) (tr_upper s)" by simp_all
    with False show False by (meson order_trans)
  qed
  ultimately show ?thesis by (auto simp: wide_good_def nullOrFalse_def)
qed

locale wide_merge_sound =
  fixes mw :: merge_fun
  assumes sound: "wf_wide f \<Longrightarrow> wf_wide g \<Longrightarrow> mw f g = Inr h \<Longrightarrow> wide_good f g h"
begin

lemma swapped: "wf_wide f \<Longrightarrow> wf_wide g \<Longrightarrow> mw g f = Inr h \<Longrightarrow> wide_good f g h"
  using sound wide_good_sym by blast

lemma negated_huge_sound:
  assumes r: "wf_huge r" and g: "wf_wide g" and m: "NegatedHugeintRange_mergeWith mw r n g = Inr h"
  shows "wide_good (NegatedHugeintRange r n) g h"
proof (cases g)
  case (HugeintRange s)
  with m r g negated_huge_range_good show ?thesis by (simp add: NegatedHugeintRange_mergeWith_def Let_def)
next
  case (NegatedHugeintRange s n')
  with m r g swapped [of "NegatedHugeintRange r n" g h] mergeNegatedHugeintRanges_good [of r s n n' h]
  show ?thesis by (auto simp: NegatedHugeintRange_mergeWith_def Let_def split: if_splits)
next
  case IsNotNull
  with m r show ?thesis
    by (auto simp: NegatedHugeintRange_mergeWith_def wide_good_def NegatedHugeintRange_new_def wf_huge_def)
qed (use m r g swapped [of "NegatedHugeintRange r n" g h] in
    \<open>simp_all add: NegatedHugeintRange_mergeWith_def Let_def\<close>)

lemma ts_sound:
  assumes r: "wf_ts r" and g: "wf_wide g" and m: "TimestampRange_mergeWith mw r g = Inr h"
  shows "wide_good (TimestampRange r) g h"
proof (cases g)
  case (TimestampRange s)
  with m ts_ts_good show ?thesis by simp
next
  case IsNotNull
  with m r show ?thesis by (auto simp: TimestampRange_mergeWith_def wide_good_def wf_ts_def)
qed (use m r g swapped [of "TimestampRange r" g h] in \<open>simp_all add: TimestampRange_mergeWith_def\<close>)

lemma negated_ts_sound:
  assumes r: "wf_ts r" and g: "wf_wide g" and m: "NegatedTimestampRange_mergeWith mw r n g = Inr h"
  shows "wide_good (NegatedTimestampRange r n) g h"
proof (cases g)
  case (TimestampRange s)
  with m r g negated_ts_range_good show ?thesis by simp
next
  case (NegatedTimestampRange s n')
  show ?thesis
  proof (cases "tr_lower r \<le> tr_lower s")
    case True
    with NegatedTimestampRange m r g negated_ts_negated_good show ?thesis by simp
  next
    case False
    with NegatedTimestampRange m have "mw g (NegatedTimestampRange r n) = Inr h"
      by (simp add: NegatedTimestampRange_mergeWith_def Let_def not_le)
    with r g swapped [of "NegatedTimestampRange r n" g h] show ?thesis by simp
  qed
next
  case IsNotNull
  with m r show ?thesis
    by (auto simp: NegatedTimestampRange_mergeWith_def wide_good_def NegatedTimestampRange_new_def wf_ts_def)
qed (use m r g swapped [of "NegatedTimestampRange r n" g h] in
    \<open>simp_all add: NegatedTimestampRange_mergeWith_def Let_def\<close>)

lemma dispatch_sound:
  assumes f: "wf_wide f" and g: "wf_wide g" and m: "mergeWith_dispatch mw f g = Inr h"
  shows "wide_good f g h"
proof (cases f)
  case AlwaysTrue
  with m wide_clone_good [OF _ g refl] show ?thesis by (auto simp: mergeWith_dispatch_def wide_good_def)
next
  case AlwaysFalse
  with m show ?thesis by (auto simp: mergeWith_dispatch_def wide_good_def)
next
  case IsNull
  with m show ?thesis by (auto simp: mergeWith_dispatch_def IsNull_mergeWith_def wide_good_def split: if_splits)
next
  case IsNotNull
  with m g swapped [of IsNotNull g h] show ?thesis
    by (cases g) (simp_all add: mergeWith_dispatch_def IsNotNull_mergeWith_def wide_good_def)
qed (use f g m negated_huge_sound ts_sound negated_ts_sound in \<open>simp_all add: mergeWith_dispatch_def\<close>)

end

lemma wide_fuel_sound: "wide_merge_sound (mergeWith_fuel k)"
proof (induction k)
  case 0
  show ?case by unfold_locales simp
next
  case (Suc k)
  then show ?case by (auto simp: wide_merge_sound_def intro: wide_merge_sound.dispatch_sound [OF Suc])
qed

interpretation wide_merge: wide_merge_sound mergeWith
  unfolding mergeWith_def
  using wide_fuel_sound by (auto simp: wide_merge_sound_def)

section \<open>Properties\<close>

text \<open>
  C13. Copying a list of 128-bit values leaves the set that the test looks into empty: the copy rejects
  every value, whatever the original passes.
\<close>

theorem HugeintValues_clone_rejects_everything:
  "clone (HugeintValuesUsingHashTable h) na = Inr g \<longrightarrow> testInt128 g v = Inr False"
  by (auto simp: HugeintValuesUsingHashTable_copy_def methods_defs)

theorem HugeintValues_clone_rejects_everything_witness:
  "\<exists>f g. HugeintValuesUsingHashTable_new 1 2 [1, 2] False = Inr f \<and> testInt128 f 1 = Inr True \<and>
     clone f None = Inr g \<and> testInt128 g 1 = Inr False"
proof -
  let ?h = "\<lparr>hv_min = 1, hv_max = 2, hv_set = [1, 2], hv_values = [1, 2], hv_nullAllowed = False\<rparr>"
  have n: "HugeintValuesUsingHashTable_new 1 2 [1, 2] False = Inr (HugeintValuesUsingHashTable ?h)"
    "testInt128 (HugeintValuesUsingHashTable ?h) 1 = Inr True" by code_simp+
  obtain g where g: "clone (HugeintValuesUsingHashTable ?h) None = Inr g" by simp
  with HugeintValues_clone_rejects_everything [of ?h None g 1] n show ?thesis by blast
qed

end
