(* ===== verification/Filter_Wide_Props.thy ===== *)
theory Filter_Wide_Props
  imports Filter_Wide
begin

text \<open>
  The merges of filters on 128-bit integers and on timestamps: which pairs of kinds are supported, that
  these return a filter, and what exactly it passes.
\<close>

section \<open>The hulls, exactly\<close>

lemma mergeHugeintRanges_total:
  "\<forall>r \<in> set (butlast (c # rs)). in_int128 (hr_upper r + 1) \<Longrightarrow> \<exists>ms. mergeHugeintRanges c rs = Inr ms"
proof (induction c rs rule: mergeHugeintRanges.induct)
  case (2 c r rs)
  then have u: "in_int128 (hr_upper c + 1)" by simp
  show ?case
  proof (cases "hr_lower r \<le> hr_upper c + 1")
    case True
    have "\<exists>ms. mergeHugeintRanges (HugeintRange_new (hr_lower c) (max (hr_upper c) (hr_upper r)) False) rs = Inr ms"
      by (rule "2.IH"(1) [of "hr_upper c + 1"]) (use 2(3) u True in \<open>auto simp: add128_def max_def split: if_splits\<close>)
    with True u show ?thesis by (simp add: add128_def)
  next
    case False
    have "\<exists>ms. mergeHugeintRanges r rs = Inr ms"
      by (rule "2.IH"(2) [of "hr_upper c + 1"]) (use 2(3) u False in \<open>auto simp: add128_def split: if_splits\<close>)
    with False u show ?thesis by (auto simp: add128_def)
  qed
qed simp

lemma combineHugeintRanges_eq:
  assumes "sorted (map hr_lower (c # rs))" "\<forall>r \<in> set (c # rs). hr_lower r \<le> hr_upper r + 1"
    "\<forall>r \<in> set (butlast (c # rs)). in_int128 (hr_upper r + 1)"
  shows "combineHugeintRanges (c # rs) n =
    Inr (HugeintRange (HugeintRange_new (hr_lower c) (Max (hr_upper ` set (c # rs))) n))"
proof -
  obtain ms where ms: "mergeHugeintRanges c rs = Inr ms" using mergeHugeintRanges_total [OF assms(3)] by blast
  have s: "sort_key hr_lower (c # rs) = c # rs" by (rule sort_key_id_if_sorted [OF assms(1)])
  note hull = mergeHugeintRanges_hull [OF ms assms(1,2)]
  have m: "hr_upper (last ms) = Max (hr_upper ` set (c # rs))" by (rule Max_eqI [symmetric]) (use hull in auto)
  have "combineHugeintRanges (c # rs) n = Inr (HugeintRange (HugeintRange_new (hr_lower (hd ms)) (hr_upper (last ms)) n))"
    unfolding combineHugeintRanges_def s using ms by (auto simp: length_Suc_conv)
  then show ?thesis using hull m by simp
qed

lemma combineTimestampRanges_eq:
  assumes "sorted (map tr_lower (c # rs))" "\<forall>r \<in> set (c # rs). tr_lower r \<le> tr_upper r"
  shows "combineTimestampRanges (c # rs) n = TimestampRange (TimestampRange_new (tr_lower c) (Max (tr_upper ` set (c # rs))) n)"
proof -
  let ?ms = "mergeTimestampRanges c rs"
  have s: "sort_key tr_lower (c # rs) = c # rs" by (rule sort_key_id_if_sorted [OF assms(1)])
  note hull = mergeTimestampRanges_hull [OF assms]
  have m: "tr_upper (last ?ms) = Max (tr_upper ` set (c # rs))" by (rule Max_eqI [symmetric]) (use hull in auto)
  have "combineTimestampRanges (c # rs) n = TimestampRange (TimestampRange_new (tr_lower (hd ?ms)) (tr_upper (last ?ms)) n)"
    unfolding combineTimestampRanges_def s using hull by (auto simp: Let_def length_Suc_conv)
  then show ?thesis using hull m by simp
qed

lemma mergeWith_fuel_wide:
  "multi_depth f = 0 \<Longrightarrow> multi_depth g = 0 \<Longrightarrow> mergeWith f g = mergeWith_dispatch (mergeWith_fuel 7) f g"
  "mergeWith_fuel 7 = mergeWith_dispatch (mergeWith_fuel 6)"
  "mergeWith_fuel 6 = mergeWith_dispatch (mergeWith_fuel 5)"
  by (simp_all add: mergeWith_def fun_eq_iff eval_nat_numeral)

section \<open>128-bit integers\<close>


definition cut_pieces :: "hugeint_range \<Rightarrow> hugeint_range \<Rightarrow> hugeint_range list" where
  "cut_pieces r s = (if hr_upper s < hr_lower r \<or> hr_lower s > hr_upper r then [HugeintRange_new (hr_lower s) (hr_upper s) False] else
      (if hr_lower s < hr_lower r then [HugeintRange_new (hr_lower s) (hr_lower r - 1) False] else []) @
      (if hr_upper s > hr_upper r then [HugeintRange_new (hr_upper r + 1) (hr_upper s) False] else []))"

lemma cut_huge_eq:
  assumes "wf_huge r" "wf_huge s"
  shows "combineNegatedRangeOnHugeintRanges (hr_lower r) (hr_upper r) [HugeintRange_new (hr_lower s) (hr_upper s) False] n =
    Inr (if cut_pieces r s = [] then nullOrFalse n else
      HugeintRange (HugeintRange_new (hr_lower (hd (cut_pieces r s))) (Max (hr_upper ` set (cut_pieces r s))) n))"
proof -
  let ?out = "cut_pieces r s"
  have b: "in_int128 (hr_lower r)" "in_int128 (hr_upper r)" "in_int128 (hr_lower s)" "in_int128 (hr_upper s)"
    "hr_lower r \<le> hr_upper r + 1" "hr_lower s \<le> hr_upper s + 1"
    using assms by (auto simp: wf_huge_def)
  have o: "combineNegatedRangeOnHugeintRanges (hr_lower r) (hr_upper r) [HugeintRange_new (hr_lower s) (hr_upper s) False] n =
      combineHugeintRanges ?out n"
    using b by (auto simp: combineNegatedRangeOnHugeintRanges_def subtractHugeintRange_def cut_pieces_def add128_def sub128_def
        in_int128_def)
  have "sorted (map hr_lower ?out)" "\<forall>r \<in> set ?out. hr_lower r \<le> hr_upper r + 1"
    "\<forall>r \<in> set (butlast ?out). in_int128 (hr_upper r + 1)"
    using b by (auto simp: cut_pieces_def in_int128_def)
  then show ?thesis unfolding o using combineHugeintRanges_eq [of "hd ?out" "tl ?out" n]
    by (cases ?out) (auto simp: combineHugeintRanges_def)
qed


text \<open>Two negated ranges.\<close>

definition gap_pieces :: "hugeint_range \<Rightarrow> hugeint_range \<Rightarrow> hugeint_range list" where
  "gap_pieces r s = (if hr_lower r > int128_min then [HugeintRange_new int128_min (hr_lower r - 1) False] else []) @
      [HugeintRange_new (hr_upper r + 1) (hr_lower s - 1) False] @
      (if hr_upper s < int128_max then [HugeintRange_new (hr_upper s + 1) int128_max False] else [])"

lemma gap_huge_eq:
  assumes "wf_huge r" "wf_huge s" "hr_upper r < hr_lower s"
  shows "mergeNegatedHugeintRanges r s n =
    Inr (HugeintRange (HugeintRange_new (hr_lower (hd (gap_pieces r s))) (Max (hr_upper ` set (gap_pieces r s))) n))"
proof -
  have b: "in_int128 (hr_lower r)" "in_int128 (hr_upper r)" "in_int128 (hr_lower s)" "in_int128 (hr_upper s)"
    "hr_lower r \<le> hr_upper r + 1" "hr_lower s \<le> hr_upper s + 1"
    using assms by (auto simp: wf_huge_def)
  have o: "mergeNegatedHugeintRanges r s n = combineHugeintRanges (gap_pieces r s) n"
    using b assms(3) by (auto simp: mergeNegatedHugeintRanges_def gap_pieces_def add128_def sub128_def in_int128_def)
  have "sorted (map hr_lower (gap_pieces r s))" "\<forall>x \<in> set (gap_pieces r s). hr_lower x \<le> hr_upper x + 1"
    "\<forall>x \<in> set (butlast (gap_pieces r s)). in_int128 (hr_upper x + 1)"
    using b assms(3) by (auto simp: gap_pieces_def in_int128_def)
  moreover obtain c cs where "gap_pieces r s = c # cs" by (cases "gap_pieces r s") (simp_all add: gap_pieces_def)
  ultimately show ?thesis unfolding o using combineHugeintRanges_eq [of c cs n] by simp
qed


section \<open>Timestamps\<close>

lemma cut_ts_eq:
  assumes "wf_ts r" "wf_ts s"
  shows "\<exists>h. NegatedTimestampRange_mergeWith mw r n (TimestampRange s) = Inr h \<and> (\<forall>t. testTimestamp h t = Inr
    (if tr_upper s < tr_lower r \<or> tr_lower s > tr_upper r
     then min (tr_lower r) (tr_lower s) \<le> t \<and> t \<le> max (tr_upper r) (tr_upper s)
     else if tr_lower r \<le> tr_lower s \<and> tr_upper s \<le> tr_upper r then \<not> (tr_lower r \<le> t \<and> t \<le> tr_upper r)
     else (if tr_lower s < tr_lower r then tr_lower s else tr_upper r) \<le> t \<and>
          t \<le> (if tr_upper s > tr_upper r then tr_upper s else tr_lower r)))"
proof -
  let ?rs = "(if tr_lower s < tr_lower r then [TimestampRange_new (tr_lower s) (tr_lower r) False] else []) @
             (if tr_upper s > tr_upper r then [TimestampRange_new (tr_upper r) (tr_upper s) False] else [])"
  have le: "tr_lower r \<le> tr_upper r" "tr_lower s \<le> tr_upper s" using assms by (simp_all add: wf_ts_def)
  consider (apart) "tr_upper s < tr_lower r \<or> tr_lower s > tr_upper r"
    | (inside) "\<not> (tr_upper s < tr_lower r \<or> tr_lower s > tr_upper r)" "tr_lower r \<le> tr_lower s \<and> tr_upper s \<le> tr_upper r"
    | (over) "\<not> (tr_upper s < tr_lower r \<or> tr_lower s > tr_upper r)" "\<not> (tr_lower r \<le> tr_lower s \<and> tr_upper s \<le> tr_upper r)"
    by blast
  then show ?thesis
  proof cases
    case apart
    then show ?thesis by (auto simp: NegatedTimestampRange_mergeWith_def Let_def methods_defs)
  next
    case inside
    then show ?thesis by (auto simp: NegatedTimestampRange_mergeWith_def Let_def methods_defs NegatedTimestampRange_new_def)
  next
    case over
    then have m: "NegatedTimestampRange_mergeWith mw r n (TimestampRange s) = Inr (combineTimestampRanges ?rs (n \<and> tr_nullAllowed s))"
      by (simp only: NegatedTimestampRange_mergeWith_def Let_def filter.case testNull_wide if_False)
    obtain c cs where cs: "?rs = c # cs" using over by (cases ?rs) (auto split: if_splits)
    have "sorted (map tr_lower ?rs)" "\<forall>x \<in> set ?rs. tr_lower x \<le> tr_upper x" using le by (auto simp: less_imp_le)
    then have e: "combineTimestampRanges ?rs k = TimestampRange (TimestampRange_new (tr_lower (hd ?rs)) (Max (tr_upper ` set ?rs)) k)" for k
      unfolding cs by (simp only: combineTimestampRanges_eq list.sel)
    have "tr_lower (hd ?rs) = (if tr_lower s < tr_lower r then tr_lower s else tr_upper r)"
      "Max (tr_upper ` set ?rs) = (if tr_upper s > tr_upper r then tr_upper s else tr_lower r)"
      using over le by (cases "tr_lower s < tr_lower r"; cases "tr_upper s > tr_upper r"; auto simp: max_def)+
    then show ?thesis using over unfolding m e by (auto simp: methods_defs)
  qed
qed

lemma gap_ts_eq:
  assumes "wf_ts r" "wf_ts s" "tr_lower r \<le> tr_lower s"
  shows "\<exists>h. NegatedTimestampRange_mergeWith mw r n (NegatedTimestampRange s m) = Inr h \<and> (\<forall>t. testTimestamp h t = Inr
    (if tr_lower s \<le> tr_upper r
     then \<not> (tr_lower r \<le> t \<and> t \<le> tr_upper r) \<and> \<not> (tr_lower s \<le> t \<and> t \<le> tr_upper s)
     else (if Timestamp_min < tr_lower r then Timestamp_min else tr_upper r) \<le> t \<and>
          t \<le> (if tr_upper s < Timestamp_max then Timestamp_max else tr_lower s)))"
proof (cases "tr_lower s \<le> tr_upper r")
  case True
  have "\<exists>h. NegatedTimestampRange_mergeWith mw r n (NegatedTimestampRange s m) = Inr h \<and>
      (\<forall>t. testTimestamp h t = Inr (\<not> (tr_lower r \<le> t \<and> t \<le> max (tr_upper r) (tr_upper s))))"
    using True assms(3) by (auto simp: NegatedTimestampRange_mergeWith_def Let_def methods_defs NegatedTimestampRange_new_def)
  moreover have "(tr_lower r \<le> t \<and> t \<le> max (tr_upper r) (tr_upper s)) \<longleftrightarrow>
      (tr_lower r \<le> t \<and> t \<le> tr_upper r) \<or> (tr_lower s \<le> t \<and> t \<le> tr_upper s)" for t
    using True assms(3) by (auto simp: le_max_iff_disj intro: order_trans)
  ultimately show ?thesis using True by simp
next
  case False
  let ?rs = "(if tr_lower r > Timestamp_min then [TimestampRange_new Timestamp_min (tr_lower r) False] else []) @
               [TimestampRange_new (tr_upper r) (tr_lower s) False] @
               (if tr_upper s < Timestamp_max then [TimestampRange_new (tr_upper s) Timestamp_max False] else [])"
  have le: "tr_lower r \<le> tr_upper r" "tr_lower s \<le> tr_upper s" "tr_upper r < tr_lower s"
    using assms False by (simp_all add: wf_ts_def)
  have m: "NegatedTimestampRange_mergeWith mw r n (NegatedTimestampRange s m) = Inr (combineTimestampRanges ?rs (n \<and> m))"
    using assms(3) le(3)
    by (simp only: NegatedTimestampRange_mergeWith_def Let_def filter.case testNull_wide if_True if_False not_less [symmetric])
  obtain c cs where cs: "?rs = c # cs" by (cases ?rs) auto
  have "sorted (map tr_lower ?rs)" "\<forall>x \<in> set ?rs. tr_lower x \<le> tr_upper x" using le by (auto simp: less_imp_le)
  then have e: "combineTimestampRanges ?rs k = TimestampRange (TimestampRange_new (tr_lower (hd ?rs)) (Max (tr_upper ` set ?rs)) k)" for k
    unfolding cs by (simp only: combineTimestampRanges_eq list.sel)
  have "tr_lower (hd ?rs) = (if Timestamp_min < tr_lower r then Timestamp_min else tr_upper r)"
    "Max (tr_upper ` set ?rs) = (if tr_upper s < Timestamp_max then Timestamp_max else tr_lower s)"
    using le by (cases "Timestamp_min < tr_lower r"; cases "tr_upper s < Timestamp_max"; auto simp: max_def)+
  then show ?thesis using False unfolding m e by (auto simp: methods_defs)
qed

section \<open>The supported pairs\<close>

definition independent :: "filter \<Rightarrow> bool" where
  "independent f \<longleftrightarrow> f \<in> {AlwaysFalse, AlwaysTrue, IsNull, IsNotNull}"

definition wide_supported :: "filter \<Rightarrow> filter \<Rightarrow> bool" where
  "wide_supported f g =
     (case f of
        AlwaysFalse \<Rightarrow> True
      | AlwaysTrue \<Rightarrow> True
      | IsNull \<Rightarrow> True
      | IsNotNull \<Rightarrow> (case g of HugeintRange _ \<Rightarrow> False | HugeintValuesUsingHashTable _ \<Rightarrow> False | _ \<Rightarrow> True)
      | NegatedHugeintRange _ _ \<Rightarrow> (case g of HugeintRange _ \<Rightarrow> True | NegatedHugeintRange _ _ \<Rightarrow> True | _ \<Rightarrow> independent g)
      | TimestampRange _ \<Rightarrow> (case g of TimestampRange _ \<Rightarrow> True | _ \<Rightarrow> independent g)
      | NegatedTimestampRange _ _ \<Rightarrow> (case g of TimestampRange _ \<Rightarrow> True | NegatedTimestampRange _ _ \<Rightarrow> True | _ \<Rightarrow> independent g)
      | _ \<Rightarrow> False)"

fun wide_kind :: "filter \<Rightarrow> bool" where
  "wide_kind (HugeintValuesUsingHashTable h) = True"
| "wide_kind f = wf_wide f"

lemmas wide_dispatch = mergeWith_fuel_wide mergeWith_dispatch_def IsNull_mergeWith_def IsNotNull_mergeWith_def

lemma wide_unsupported:
  assumes "wide_kind f" "wide_kind g" "\<not> wide_supported f g"
  shows "mergeWith f g = Inl Unsupported \<or> mergeWith f g = Inl UnreachableCode"
  using assms
  by (cases f; cases g) (simp_all add: wide_supported_def independent_def wide_dispatch NegatedHugeintRange_mergeWith_def
      TimestampRange_mergeWith_def NegatedTimestampRange_mergeWith_def)

lemma negated_huge_pair_total:
  assumes "wf_huge r" "wf_huge s"
  shows "\<exists>h. mergeWith (NegatedHugeintRange r n) (NegatedHugeintRange s m) = Inr h"
proof -
  have "\<exists>h. mergeNegatedHugeintRanges x y k = Inr h" if "wf_huge x" "wf_huge y" for x y k
    using gap_huge_eq [OF that, of k] by (cases "hr_upper x < hr_lower y") (auto simp: mergeNegatedHugeintRanges_def)
  then show ?thesis using assms by (auto simp: wide_dispatch NegatedHugeintRange_mergeWith_def)
qed

lemma negated_ts_pair_total:
  assumes "wf_ts r" "wf_ts s"
  shows "\<exists>h. mergeWith (NegatedTimestampRange r n) (NegatedTimestampRange s m) = Inr h"
proof (cases "tr_lower r \<le> tr_lower s")
  case True
  with gap_ts_eq [OF assms] show ?thesis by (fastforce simp: wide_dispatch)
next
  case False
  then have "mergeWith (NegatedTimestampRange r n) (NegatedTimestampRange s m) =
      NegatedTimestampRange_mergeWith (mergeWith_fuel 6) s m (NegatedTimestampRange r n)"
    by (simp add: wide_dispatch NegatedTimestampRange_mergeWith_def Let_def not_le)
  with gap_ts_eq [OF assms(2,1)] False show ?thesis by fastforce
qed

lemma negated_huge_total:
  assumes "wf_huge r" "wide_kind g" "wide_supported (NegatedHugeintRange r n) g"
  shows "\<exists>h. mergeWith (NegatedHugeintRange r n) g = Inr h"
proof (cases g)
  case (HugeintRange s)
  with assms cut_huge_eq [of r s] show ?thesis by (simp add: wide_dispatch NegatedHugeintRange_mergeWith_def Let_def)
next
  case (NegatedHugeintRange s m)
  with assms negated_huge_pair_total show ?thesis by simp
qed (use assms in \<open>simp_all add: wide_supported_def independent_def wide_dispatch NegatedHugeintRange_mergeWith_def\<close>)

lemma negated_ts_total:
  assumes "wf_ts r" "wide_kind g" "wide_supported (NegatedTimestampRange r n) g"
  shows "\<exists>h. mergeWith (NegatedTimestampRange r n) g = Inr h"
proof (cases g)
  case (TimestampRange s)
  with assms cut_ts_eq [of r s "mergeWith_fuel 7" n] show ?thesis by (auto simp: wide_dispatch)
next
  case (NegatedTimestampRange s m)
  with assms negated_ts_pair_total show ?thesis by simp
qed (use assms in \<open>simp_all add: wide_supported_def independent_def wide_dispatch NegatedTimestampRange_mergeWith_def\<close>)

lemma wide_total:
  assumes "wide_kind f" "wide_kind g" "wide_supported f g"
  shows "\<exists>h. mergeWith f g = Inr h"
proof (cases f)
  case (NegatedHugeintRange r n)
  with assms negated_huge_total show ?thesis by simp
next
  case (NegatedTimestampRange r n)
  with assms negated_ts_total show ?thesis by simp
next
  case (TimestampRange r)
  with assms show ?thesis
    by (cases g) (simp_all add: wide_supported_def independent_def wide_dispatch TimestampRange_mergeWith_def Let_def)
next
  case IsNotNull
  with assms show ?thesis
    by (cases g) (simp_all add: wide_supported_def wide_dispatch NegatedHugeintRange_mergeWith_def
        TimestampRange_mergeWith_def NegatedTimestampRange_mergeWith_def)
next
  case IsNull
  with assms show ?thesis by (cases g) (simp_all add: wide_dispatch)
next
  case AlwaysTrue
  with assms show ?thesis by (cases g) (simp_all add: wide_dispatch)
next
  case AlwaysFalse
  with assms show ?thesis by (cases g) (simp_all add: wide_dispatch)
qed (use assms in \<open>simp_all add: wide_supported_def\<close>)

text \<open>Merges with a list of 128-bit values.\<close>

lemma merge_with_values:
  assumes "wide_kind f" "wide_supported f (HugeintValuesUsingHashTable k)" "mergeWith f (HugeintValuesUsingHashTable k) = Inr h"
  shows "testNull h = (testNull f \<and> hv_nullAllowed k) \<and>
    (f = AlwaysTrue \<longrightarrow> (\<forall>v. testInt128 h v = Inr False)) \<and> (f \<noteq> AlwaysTrue \<longrightarrow> (\<forall>v. testInt128 f v = Inr False)) \<and>
    (\<forall>t. testTimestamp f t \<noteq> Inr True)"
  using assms
  by (cases f) (auto simp: wide_supported_def independent_def wide_dispatch methods_defs HugeintValuesUsingHashTable_copy_def
      split: if_splits)

section \<open>Properties\<close>

text \<open>
  C11. Merging filters on 128-bit integers and on timestamps: ranges, negated ranges, lists of 128-bit
  values and the value-independent filters. The pairs of \<open>wide_supported\<close> return a filter, all others fail as
  unsupported or unreachable; a range or a list of 128-bit values never takes the left side. The
  treatment of null is exact, and no value is lost: what passes both operands passes the merged filter,
  for every 128-bit value and every timestamp within \<^verbatim>\<open>Timestamp::min\<close> and \<^verbatim>\<open>Timestamp::max\<close>. The one
  exception is \<^verbatim>\<open>AlwaysTrue\<close> merged with a list of 128-bit values, whose result rejects every value.
\<close>

theorem mergeWith_wide_loses_nothing:
  assumes "wide_kind f" and "wide_kind g"
  shows "if wide_supported f g then
      \<exists>h. mergeWith f g = Inr h \<and> testNull h = (testNull f \<and> testNull g) \<and>
        (if f = AlwaysTrue \<and> (\<exists>k. g = HugeintValuesUsingHashTable k) then \<forall>v. testInt128 h v = Inr False
         else \<forall>v. in_int128 v \<and> testInt128 f v = Inr True \<and> testInt128 g v = Inr True \<longrightarrow> testInt128 h v = Inr True) \<and>
        (\<forall>t. Timestamp_min \<le> t \<and> t \<le> Timestamp_max \<and> testTimestamp f t = Inr True \<and> testTimestamp g t = Inr True \<longrightarrow>
           testTimestamp h t = Inr True)
    else mergeWith f g = Inl Unsupported \<or> mergeWith f g = Inl UnreachableCode"
proof (cases "wide_supported f g")
  case True
  then obtain h where h: "mergeWith f g = Inr h" using wide_total [OF assms] by blast
  show ?thesis
  proof (cases "\<exists>k. g = HugeintValuesUsingHashTable k")
    case g: True
    then obtain k where g: "g = HugeintValuesUsingHashTable k" by blast
    with merge_with_values [OF assms(1), of k h] True h show ?thesis by (auto simp: methods_defs)
  next
    case False
    then have "wf_wide g" using assms(2) by (cases g) auto
    moreover have "wf_wide f" using assms(1) True by (cases f) (auto simp: wide_supported_def)
    ultimately have "wide_good f g h" using wide_merge.sound h by blast
    with True False h show ?thesis by (auto simp: wide_good_def passes128_def passesT_def)
  qed
next
  case False
  with wide_unsupported [OF assms] show ?thesis by simp
qed

definition example_huge :: filter where
  "example_huge = HugeintRange (HugeintRange_new 0 100 False)"

definition example_not_huge :: filter where
  "example_not_huge = NegatedHugeintRange_new 40 60 True"

theorem mergeWith_wide_loses_nothing_witness:
  "(\<exists>h. mergeWith example_not_huge example_huge = Inr h \<and> testInt128 h 70 = Inr True) \<and>
   (mergeWith example_huge example_not_huge = Inl Unsupported \<or> mergeWith example_huge example_not_huge = Inl UnreachableCode)"
proof -
  have a: "wide_kind example_not_huge" "wide_kind example_huge" "wide_supported example_not_huge example_huge"
    "\<not> wide_supported example_huge example_not_huge" by code_simp+
  have "in_int128 70" "testInt128 example_not_huge 70 = Inr True" "testInt128 example_huge 70 = Inr True"
    "example_not_huge \<noteq> AlwaysTrue" by code_simp+
  with mergeWith_wide_loses_nothing [OF a(1,2)] mergeWith_wide_loses_nothing [OF a(2,1)] a(3,4) show ?thesis by auto
qed



end
