(* ===== verification/Bolt_Bits.thy ===== *)
theory Bolt_Bits
  imports Bolt_Prelude
begin

text \<open>
  Helpers of \<^verbatim>\<open>bolt/common/base/BitUtil.h\<close> on unsigned 64-bit integers, as natural numbers below
  \<open>2 ^ 64\<close> with the wrap-around of the shift written out.
\<close>

fun bitLength :: "nat \<Rightarrow> nat" where
  "bitLength n = (if n = 0 then 0 else Suc (bitLength (n div 2)))"

declare bitLength.simps [simp del]

definition countLeadingZeros :: "nat \<Rightarrow> nat" where
  "countLeadingZeros word = (if word = 0 then 64 else 64 - bitLength word)"

definition nextPowerOfTwo :: "nat \<Rightarrow> nat" where
  "nextPowerOfTwo sz =
     (if sz = 0 then 0
      else let bits = 63 - countLeadingZeros sz; lower = 2 ^ bits mod 2 ^ 64 in
        if lower = sz then sz else (2 * lower) mod 2 ^ 64)"

lemma bitLength_bounds:
  "0 < n \<Longrightarrow> 0 < bitLength n \<and> 2 ^ (bitLength n - 1) \<le> n \<and> n < 2 ^ bitLength n"
proof (induction n rule: bitLength.induct)
  case (1 n)
  show ?case
  proof (cases "n = 1")
    case True
    then show ?thesis by (simp add: bitLength.simps)
  next
    case False
    with 1 have IH: "0 < bitLength (n div 2)" "2 ^ (bitLength (n div 2) - 1) \<le> n div 2" "n div 2 < 2 ^ bitLength (n div 2)"
      by auto
    have b: "bitLength n = Suc (bitLength (n div 2))" using 1(2) by (simp add: bitLength.simps)
    obtain k where k: "bitLength (n div 2) = Suc k" using IH(1) gr0_conv_Suc by blast
    show ?thesis using IH b k by auto
  qed
qed

lemma nextPowerOfTwo_least:
  assumes "0 < n" "n \<le> 2 ^ 63"
  shows "\<exists>k. nextPowerOfTwo n = 2 ^ k \<and> k \<le> 63 \<and> n \<le> 2 ^ k \<and> (0 < k \<longrightarrow> 2 ^ (k - 1) < n)"
proof -
  note b = bitLength_bounds [OF assms(1)]
  define j where "j = bitLength n - 1"
  have j: "bitLength n = Suc j" "2 ^ j \<le> n" "n < 2 ^ Suc j" using b by (auto simp: j_def)
  have "(2::nat) ^ j \<le> 2 ^ 63" using j(2) assms(2) by simp
  then have le: "j \<le> 63" using power_le_imp_le_exp [of "2::nat" j 63] by simp
  have pw: "(2::nat) ^ j mod 2 ^ 64 = 2 ^ j" using le by (intro mod_less power_strict_increasing) simp_all
  have bits: "63 - countLeadingZeros n = j" using assms(1) le j(1) by (simp add: countLeadingZeros_def)
  show ?thesis
  proof (cases "2 ^ j = n")
    case True
    then have "nextPowerOfTwo n = 2 ^ j" using assms(1) bits pw by (simp add: nextPowerOfTwo_def Let_def)
    then show ?thesis using True le by (intro exI [of _ j]) (auto simp: power_strict_increasing)
  next
    case False
    then have "j < 63" using j(2) assms(2) le by (metis le_antisym le_neq_implies_less)
    then have "(2::nat) ^ Suc j mod 2 ^ 64 = 2 ^ Suc j" by (intro mod_less power_strict_increasing) simp_all
    then have "nextPowerOfTwo n = 2 ^ Suc j" using False assms(1) bits pw by (simp add: nextPowerOfTwo_def Let_def)
    then show ?thesis using False j \<open>j < 63\<close> by (intro exI [of _ "Suc j"]) auto
  qed
qed

lemma nextPowerOfTwo_power: "k \<le> 63 \<Longrightarrow> nextPowerOfTwo (2 ^ k) = 2 ^ k"
proof -
  assume k: "k \<le> 63"
  then have "(2::nat) ^ k \<le> 2 ^ 63" by (intro power_increasing) simp_all
  from nextPowerOfTwo_least [OF _ this] obtain j where
    j: "nextPowerOfTwo (2 ^ k) = 2 ^ j" "(2::nat) ^ k \<le> 2 ^ j" "0 < j \<longrightarrow> (2::nat) ^ (j - 1) < 2 ^ k" by auto
  then have "k \<le> j" "0 < j \<longrightarrow> j - 1 < k" by simp_all
  then have "j = k" by (cases j) auto
  with j(1) show ?thesis by simp
qed

section \<open>Unsigned 64-bit arithmetic\<close>

definition addu64 :: "nat \<Rightarrow> nat \<Rightarrow> nat" where
  "addu64 a b = (a + b) mod 2 ^ 64"

definition subu64 :: "nat \<Rightarrow> nat \<Rightarrow> nat" where
  "subu64 a b = (a + (2 ^ 64 - b)) mod 2 ^ 64"

lemma addu64_exact: "a + b < 2 ^ 64 \<Longrightarrow> addu64 a b = a + b"
  by (simp add: addu64_def)

lemma subu64_exact:
  assumes "b \<le> a" "a < 2 ^ 64"
  shows "subu64 a b = a - b"
proof -
  have "a + (2 ^ 64 - b) = (a - b) + 2 ^ 64" using assms by linarith
  then have "subu64 a b = (a - b) mod 2 ^ 64" unfolding subu64_def by (simp only: mod_add_self2)
  also have "\<dots> = a - b" using assms by (intro mod_less) linarith
  finally show ?thesis .
qed

end
