(* ===== verification/Losers.thy ===== *)
theory Losers
  imports Bolt_Bits
begin

text \<open>
  The merge of ordered streams, \<^verbatim>\<open>bolt/exec/TreeOfLosers.h\<close>. The streams are objects that the caller
  advances between two calls, so they are a store \<open>ss\<close> passed to every operation, and a pointer to a stream
  is its index in it. The virtual methods of \<^verbatim>\<open>MergeStream\<close> are the record \<open>stream_methods\<close>. Indices of
  nodes and streams have the type \<^verbatim>\<open>TIndex\<close>, 16 unsigned bits: the truncations are written out.
\<close>

section \<open>Streams\<close>

record 's stream_methods =
  sm_hasData :: "'s \<Rightarrow> bool"
  sm_isNextEqual :: "'s \<Rightarrow> bool"
  sm_less :: "'s \<Rightarrow> 's \<Rightarrow> bool result"
  sm_compare :: "'s \<Rightarrow> 's \<Rightarrow> int result"

text \<open>\<^verbatim>\<open>operator<\<close> of the base class and of the spill streams: the sign of \<open>compare\<close>.\<close>

definition less_by_compare :: "('s \<Rightarrow> 's \<Rightarrow> int result) \<Rightarrow> 's \<Rightarrow> 's \<Rightarrow> bool result" where
  "less_by_compare cmp a b = bindR (cmp a b) (\<lambda>c. Inr (c < 0))"

section \<open>Tree of losers\<close>

definition kEmpty :: nat where "kEmpty = 65535"

definition to_TIndex :: "nat \<Rightarrow> nat" where "to_TIndex i = i mod 65536"

record tree_of_losers =
  tl_values :: "nat list"
  tl_equals :: "bool list"
  tl_lastIndex :: nat
  tl_firstStream :: nat

definition parent :: "nat \<Rightarrow> nat" where "parent node = to_TIndex ((node - 1) div 2)"

definition leftChild :: "nat \<Rightarrow> nat" where "leftChild node = to_TIndex (node * 2 + 1)"

definition rightChild :: "nat \<Rightarrow> nat" where "rightChild node = to_TIndex (node * 2 + 2)"

text \<open>
  The loop of the constructor that finds the last level; its second variable starts at 1 and doubles.
\<close>

function levelLoop :: "nat \<Rightarrow> nat \<Rightarrow> nat \<Rightarrow> nat \<times> nat" where
  "levelLoop numStreams sz levelSize =
     (if levelSize < numStreams \<and> 0 < levelSize then levelLoop numStreams (sz + levelSize) (levelSize * 2)
      else (sz, levelSize))"
  by pat_completeness auto
termination
  by (relation "measure (\<lambda>(n, s, l). n - l)") auto

declare levelLoop.simps [simp del]

definition TreeOfLosers_new :: "nat \<Rightarrow> tree_of_losers result" where
  "TreeOfLosers_new numStreams =
     checkR (numStreams < 65535) (checkR (1 \<le> numStreams)
      (case levelLoop numStreams 0 1 of (sz, levelSize) \<Rightarrow>
        let firstStream =
          (if numStreams = nextPowerOfTwo numStreams then sz
           else let secondLastSize = levelSize div 2; overflow = numStreams - secondLastSize in
             (sz - secondLastSize) + overflow)
        in Inr \<lparr>tl_values = replicate firstStream kEmpty, tl_equals = replicate firstStream False,
                tl_lastIndex = kEmpty, tl_firstStream = firstStream\<rparr>))"

text \<open>
  \<^verbatim>\<open>first(node)\<close> plays the tournament of a subtree. The first argument bounds the depth of the recursion;
  as many levels as there are streams are enough, unless a child's number is truncated.
\<close>

fun TreeOfLosers_first ::
    "nat \<Rightarrow> 's stream_methods \<Rightarrow> 's list \<Rightarrow> nat \<Rightarrow> nat \<Rightarrow> nat list \<Rightarrow> (nat \<times> nat list) result" where
  "TreeOfLosers_first 0 M ss firstStream node values = Inl OutOfFuel"
| "TreeOfLosers_first (Suc fuel) M ss firstStream node values =
     (if firstStream \<le> node
      then (if node - firstStream < length ss
            then Inr (if sm_hasData M (ss ! (node - firstStream)) then node - firstStream else kEmpty, values)
            else Inl UndefinedBehaviour)
      else bindR (TreeOfLosers_first fuel M ss firstStream (leftChild node) values) (\<lambda>(left, values).
        bindR (TreeOfLosers_first fuel M ss firstStream (rightChild node) values) (\<lambda>(right, values).
          if left = kEmpty then Inr (right, values)
          else if right = kEmpty then Inr (left, values)
          else bindR (sm_less M (ss ! left) (ss ! right)) (\<lambda>b.
            if b then Inr (left, values[node := right])
            else Inr (right, values[node := left])))))"

text \<open>One round of the second loop of \<open>propagate\<close>: what goes up and what stays.\<close>

definition propagateNode ::
    "'s stream_methods \<Rightarrow> 's list \<Rightarrow> nat \<Rightarrow> nat \<Rightarrow> nat list \<Rightarrow> (nat \<times> nat list) result" where
  "propagateNode M ss node val values =
     (if values ! node = kEmpty then Inr (val, values)
      else if val = kEmpty then Inr (values ! node, values[node := kEmpty])
      else bindR (sm_less M (ss ! (values ! node)) (ss ! val)) (\<lambda>b.
        if b then Inr (values ! node, values[node := val]) else Inr (val, values)))"

function propagateLoop ::
    "'s stream_methods \<Rightarrow> 's list \<Rightarrow> nat \<Rightarrow> nat \<Rightarrow> nat list \<Rightarrow> (nat \<times> nat list) result" where
  "propagateLoop M ss node val values =
     bindR (propagateNode M ss node val values) (\<lambda>(val, values).
       if node = 0 then Inr (val, values) else propagateLoop M ss (parent node) val values)"
  by pat_completeness auto

lemma parent_less [simp]: "0 < node \<Longrightarrow> parent node < node"
proof -
  assume "0 < node"
  then have "(node - 1) div 2 < node" by simp
  then show ?thesis unfolding parent_def to_TIndex_def
    using mod_less_eq_dividend [of "(node - 1) div 2" 65536] by linarith
qed

termination propagateLoop
  by (relation "measure (\<lambda>(M, ss, node, val, values). node)") auto

function propagate ::
    "'s stream_methods \<Rightarrow> 's list \<Rightarrow> nat \<Rightarrow> nat \<Rightarrow> nat list \<Rightarrow> (nat \<times> nat list) result" where
  "propagate M ss node val values =
     (if values ! node = kEmpty
      then if node = 0 then Inr (val, values) else propagate M ss (parent node) val values
      else propagateLoop M ss node val values)"
  by pat_completeness auto

termination propagate
  by (relation "measure (\<lambda>(M, ss, node, val, values). node)") auto

declare propagateLoop.simps [simp del] propagate.simps [simp del]

definition stream_at :: "nat \<Rightarrow> nat option" where
  "stream_at i = (if i = kEmpty then None else Some i)"

definition TreeOfLosers_next ::
    "'s stream_methods \<Rightarrow> 's list \<Rightarrow> tree_of_losers \<Rightarrow> (nat option \<times> tree_of_losers) result" where
  "TreeOfLosers_next M ss t =
     (if tl_lastIndex t = kEmpty \<and> tl_values t = [] then
        Inr (if sm_hasData M (ss ! 0) then Some 0 else None, t)
      else
        bindR
          (if tl_lastIndex t = kEmpty
           then TreeOfLosers_first (length ss) M ss (tl_firstStream t) 0 (tl_values t)
           else propagate M ss (parent (to_TIndex (tl_firstStream t + tl_lastIndex t)))
                  (if sm_hasData M (ss ! tl_lastIndex t) then tl_lastIndex t else kEmpty) (tl_values t))
          (\<lambda>(i, values). Inr (stream_at i, t\<lparr>tl_lastIndex := i, tl_values := values\<rparr>)))"

section \<open>Tree of losers with equality flags\<close>

fun firstWithEquals ::
    "nat \<Rightarrow> 's stream_methods \<Rightarrow> 's list \<Rightarrow> nat \<Rightarrow> nat \<Rightarrow> nat list \<Rightarrow> bool list \<Rightarrow>
     ((nat \<times> bool) \<times> nat list \<times> bool list) result" where
  "firstWithEquals 0 M ss firstStream node values equals = Inl OutOfFuel"
| "firstWithEquals (Suc fuel) M ss firstStream node values equals =
     (if firstStream \<le> node
      then (if node - firstStream < length ss
            then Inr (if sm_hasData M (ss ! (node - firstStream))
                      then (node - firstStream, sm_isNextEqual M (ss ! (node - firstStream)))
                      else (kEmpty, False), values, equals)
            else Inl UndefinedBehaviour)
      else bindR (firstWithEquals fuel M ss firstStream (leftChild node) values equals) (\<lambda>(left, values, equals).
        bindR (firstWithEquals fuel M ss firstStream (rightChild node) values equals) (\<lambda>(right, values, equals).
          if fst left = kEmpty then Inr (right, values, equals)
          else if fst right = kEmpty then Inr (left, values, equals)
          else bindR (sm_compare M (ss ! fst left) (ss ! fst right)) (\<lambda>comparison.
            if comparison = 0
            then Inr ((fst left, True), values[node := fst right], equals[node := snd right])
            else if comparison < 0
            then Inr (left, values[node := fst right], equals[node := snd right])
            else Inr (right, values[node := fst left], equals[node := snd left])))))"

definition propagateNodeWithEquals ::
    "'s stream_methods \<Rightarrow> 's list \<Rightarrow> nat \<Rightarrow> nat \<times> bool \<Rightarrow> nat list \<Rightarrow> bool list \<Rightarrow>
     ((nat \<times> bool) \<times> nat list \<times> bool list) result" where
  "propagateNodeWithEquals M ss node val values equals =
     (if values ! node = kEmpty then Inr (val, values, equals)
      else if fst val = kEmpty
      then Inr ((values ! node, equals ! node), values[node := kEmpty], equals[node := False])
      else bindR (sm_compare M (ss ! (values ! node)) (ss ! fst val)) (\<lambda>comparison.
        if comparison = 0 then Inr ((fst val, True), values, equals)
        else if comparison < 0
        then Inr ((values ! node, equals ! node), values[node := fst val], equals[node := snd val])
        else Inr (val, values, equals)))"

function propagateLoopWithEquals ::
    "'s stream_methods \<Rightarrow> 's list \<Rightarrow> nat \<Rightarrow> nat \<times> bool \<Rightarrow> nat list \<Rightarrow> bool list \<Rightarrow>
     ((nat \<times> bool) \<times> nat list \<times> bool list) result" where
  "propagateLoopWithEquals M ss node val values equals =
     bindR (propagateNodeWithEquals M ss node val values equals) (\<lambda>(val, values, equals).
       if node = 0 then Inr (val, values, equals)
       else propagateLoopWithEquals M ss (parent node) val values equals)"
  by pat_completeness auto

termination propagateLoopWithEquals
  by (relation "measure (\<lambda>(M, ss, node, val, values, equals). node)") auto

function propagateSkipWithEquals ::
    "'s stream_methods \<Rightarrow> 's list \<Rightarrow> nat \<Rightarrow> nat \<times> bool \<Rightarrow> nat list \<Rightarrow> bool list \<Rightarrow>
     ((nat \<times> bool) \<times> nat list \<times> bool list) result" where
  "propagateSkipWithEquals M ss node val values equals =
     (if values ! node = kEmpty
      then if node = 0 then Inr (val, values, equals)
           else propagateSkipWithEquals M ss (parent node) val values equals
      else propagateLoopWithEquals M ss node val values equals)"
  by pat_completeness auto

termination propagateSkipWithEquals
  by (relation "measure (\<lambda>(M, ss, node, val, values, equals). node)") auto

declare propagateLoopWithEquals.simps [simp del] propagateSkipWithEquals.simps [simp del]

definition propagateWithEquals ::
    "'s stream_methods \<Rightarrow> 's list \<Rightarrow> nat \<Rightarrow> nat \<Rightarrow> nat list \<Rightarrow> bool list \<Rightarrow>
     ((nat \<times> bool) \<times> nat list \<times> bool list) result" where
  "propagateWithEquals M ss node valueIndex values equals =
     propagateSkipWithEquals M ss node
       (valueIndex, if valueIndex = kEmpty then False else sm_isNextEqual M (ss ! valueIndex)) values equals"

definition nextWithEquals ::
    "'s stream_methods \<Rightarrow> 's list \<Rightarrow> tree_of_losers \<Rightarrow> ((nat option \<times> bool) \<times> tree_of_losers) result" where
  "nextWithEquals M ss t =
     (if tl_lastIndex t = kEmpty \<and> tl_values t = [] then
        Inr (if sm_hasData M (ss ! 0) then (Some 0, sm_isNextEqual M (ss ! 0)) else (None, False), t)
      else
        bindR
          (if tl_lastIndex t = kEmpty
           then firstWithEquals (length ss) M ss (tl_firstStream t) 0 (tl_values t) (tl_equals t)
           else propagateWithEquals M ss (parent (to_TIndex (tl_firstStream t + tl_lastIndex t)))
                  (if sm_hasData M (ss ! tl_lastIndex t) then tl_lastIndex t else kEmpty)
                  (tl_values t) (tl_equals t))
          (\<lambda>(r, values, equals).
             let t' = t\<lparr>tl_lastIndex := fst r, tl_values := values, tl_equals := equals\<rparr> in
             Inr (if fst r = kEmpty then (None, False) else (Some (fst r), snd r), t')))"

section \<open>Merging by a sorted array\<close>

text \<open>
  \<^verbatim>\<open>MergeArray\<close>: pointers to the streams that still have data, sorted by their first values.
  \<open>pdqsort\<close> stands for \<^verbatim>\<open>boost::sort::pdqsort\<close> with a comparison function.
\<close>

record merge_array =
  ma_isFirst :: bool
  ma_streams :: "nat list"

definition MergeArray_new ::
    "((nat \<Rightarrow> nat \<Rightarrow> bool result) \<Rightarrow> nat list \<Rightarrow> nat list) \<Rightarrow> 's stream_methods \<Rightarrow> 's list \<Rightarrow> merge_array" where
  "MergeArray_new pdqsort M ss =
     \<lparr>ma_isFirst = True,
      ma_streams = pdqsort (\<lambda>left right. sm_less M (ss ! left) (ss ! right))
        (filter (\<lambda>i. sm_hasData M (ss ! i)) [0..<length ss])\<rparr>"

text \<open>
  \<^verbatim>\<open>std::lower_bound\<close> over the pointers after the first one: how many of them are less than it. On a sorted
  array its binary search finds the end of the prefix of lesser elements.
\<close>

fun lesserPrefix :: "'s stream_methods \<Rightarrow> 's list \<Rightarrow> nat \<Rightarrow> nat list \<Rightarrow> nat result" where
  "lesserPrefix M ss first [] = Inr 0"
| "lesserPrefix M ss first (i # is) =
     bindR (sm_less M (ss ! i) (ss ! first)) (\<lambda>b.
       if b then bindR (lesserPrefix M ss first is) (\<lambda>k. Inr (Suc k)) else Inr 0)"

definition MergeArray_next ::
    "'s stream_methods \<Rightarrow> 's list \<Rightarrow> merge_array \<Rightarrow> (nat option \<times> merge_array) result" where
  "MergeArray_next M ss a =
     (let front = (\<lambda>is. case is of [] \<Rightarrow> None | i # _ \<Rightarrow> Some i) in
      if ma_isFirst a then Inr (front (ma_streams a), a\<lparr>ma_isFirst := False\<rparr>)
      else case ma_streams a of
        [] \<Rightarrow> Inl UndefinedBehaviour
      | first # rest \<Rightarrow>
          if \<not> sm_hasData M (ss ! first) then Inr (front rest, a\<lparr>ma_streams := rest\<rparr>)
          else bindR (lesserPrefix M ss first rest) (\<lambda>k.
            let moved = take k rest @ first # drop k rest in
            Inr (front moved, a\<lparr>ma_streams := moved\<rparr>)))"

end
