(* ===== verification/Losers_Tour.thy ===== *)
theory Losers_Tour
  imports Losers
begin

text \<open>
  The tournament that the tree of losers records: every inner node keeps the loser of the game between the
  winners of its two subtrees. The games of \<^verbatim>\<open>next\<close> and of \<^verbatim>\<open>nextWithEquals\<close> are the same up to the flags,
  so one relation serves both.
\<close>

section \<open>Shape of the tree\<close>

lemma levelLoop_power:
  assumes "sz = 2 ^ k - 1" "levelSize = 2 ^ k" "k = 0 \<or> 2 ^ (k - 1) < n"
  shows "\<exists>j. levelLoop n sz levelSize = (2 ^ j - 1, 2 ^ j) \<and> n \<le> 2 ^ j \<and> (j = 0 \<or> 2 ^ (j - 1) < n)"
  using assms
proof (induction n sz levelSize arbitrary: k rule: levelLoop.induct)
  case (1 n sz l)
  show ?case
  proof (cases "l < n")
    case True
    have p: "(0::nat) < 2 ^ k" by simp
    have "sz + l = 2 ^ Suc k - 1" "l * 2 = 2 ^ Suc k" using 1(2,3) p by auto
    with 1(1)[of "Suc k"] True 1(3) show ?thesis by (subst levelLoop.simps) simp
  next
    case False
    with 1 show ?thesis by (subst levelLoop.simps) auto
  qed
qed

lemma firstStream_eq:
  assumes "TreeOfLosers_new n = Inr t"
  shows "0 < n \<and> n < 65535 \<and>
    t = \<lparr>tl_values = replicate (n - 1) kEmpty, tl_equals = replicate (n - 1) False, tl_lastIndex = kEmpty,
         tl_firstStream = n - 1\<rparr>"
proof -
  have n: "0 < n" "n < 65535" using assms by (auto simp: TreeOfLosers_new_def result_simps)
  obtain j where j: "levelLoop n 0 1 = (2 ^ j - 1, 2 ^ j)" "n \<le> 2 ^ j" "j = 0 \<or> 2 ^ (j - 1) < n"
    using levelLoop_power [of 0 0 1 n] by auto
  obtain k where k: "nextPowerOfTwo n = 2 ^ k" "n \<le> 2 ^ k" "0 < k \<longrightarrow> 2 ^ (k - 1) < n"
    using nextPowerOfTwo_least [of n] n by auto
  have "(if n = nextPowerOfTwo n then 2 ^ j - 1
         else ((2 ^ j - 1) - 2 ^ j div 2) + (n - 2 ^ j div 2)) = n - 1"
  proof (cases "n = nextPowerOfTwo n")
    case True
    have "j = k"
    proof (rule antisym)
      show "k \<le> j" using j(2) k(1) True power_le_imp_le_exp [of "2::nat" k j] by simp
      show "j \<le> k"
      proof (rule ccontr)
        assume "\<not> j \<le> k"
        then have "(2::nat) ^ k \<le> 2 ^ (j - 1)" "j \<noteq> 0" by (auto intro: power_increasing)
        with j(3) True k(1) show False by simp
      qed
    qed
    with True k(1) show ?thesis by simp
  next
    case False
    then obtain i where i: "j = Suc i" using j(2,3) k n(1) by (cases j) (auto simp: le_Suc_eq nextPowerOfTwo_power [of 0, simplified])
    with j(2,3) False show ?thesis by auto
  qed
  note first = this
  have "Inr t = (Inr \<lparr>tl_values = replicate (n - 1) kEmpty, tl_equals = replicate (n - 1) False,
      tl_lastIndex = kEmpty, tl_firstStream = n - 1\<rparr> :: tree_of_losers result)"
    using n unfolding assms [symmetric] TreeOfLosers_new_def Let_def j(1) prod.case first
    by (simp add: checkR_def)
  with n show ?thesis by simp
qed

lemma TreeOfLosers_new_ok: "0 < n \<Longrightarrow> n < 65535 \<Longrightarrow> \<exists>t. TreeOfLosers_new n = Inr t"
  by (auto simp: TreeOfLosers_new_def Let_def split: prod.splits)

section \<open>Games\<close>

type_synonym entry = "nat \<times> bool"

definition play :: "(nat \<Rightarrow> nat \<Rightarrow> bool) \<Rightarrow> bool \<Rightarrow> entry \<Rightarrow> entry \<Rightarrow> entry \<Rightarrow> entry \<Rightarrow> bool" where
  "play lt ev l r p c \<longleftrightarrow>
     (if fst l = kEmpty then p = r \<and> c = l
      else if fst r = kEmpty then p = l \<and> c = r
      else \<not> lt (fst r) (fst l) \<and> p = (fst l, snd l \<or> ev \<and> \<not> lt (fst l) (fst r)) \<and> c = r \<or>
           \<not> lt (fst l) (fst r) \<and> p = (fst r, snd r \<or> ev \<and> \<not> lt (fst r) (fst l)) \<and> c = l)"

inductive tour :: "(nat \<Rightarrow> nat \<Rightarrow> bool) \<Rightarrow> bool \<Rightarrow> (nat \<Rightarrow> entry) \<Rightarrow> nat \<Rightarrow> (nat \<Rightarrow> entry) \<Rightarrow> nat \<Rightarrow> entry \<Rightarrow> bool"
  for lt ev enter n cell where
  leaf: "n \<le> node + 1 \<Longrightarrow> node + 1 < 2 * n \<Longrightarrow> tour lt ev enter n cell node (enter (node + 1 - n))"
| inner: "node + 1 < n \<Longrightarrow> tour lt ev enter n cell (2 * node + 1) l \<Longrightarrow>
    tour lt ev enter n cell (2 * node + 2) r \<Longrightarrow> play lt ev l r p (cell node) \<Longrightarrow>
    tour lt ev enter n cell node p"

inductive_cases tourE: "tour lt ev enter n cell node p"

text \<open>The nodes below a node, and the streams at its leaves.\<close>

definition up :: "nat \<Rightarrow> nat" where "up d = (d - 1) div 2"

fun subnode :: "nat \<Rightarrow> nat \<Rightarrow> bool" where
  "subnode a d = (if a < d then subnode a ((d - 1) div 2) else d = a)"

declare subnode.simps [simp del]

lemma subnode_refl [simp]: "subnode a a"
  by (subst subnode.simps) simp

lemma subnode_up: "subnode a d \<Longrightarrow> d \<noteq> a \<Longrightarrow> subnode a (up d)"
  by (subst (asm) subnode.simps) (simp add: up_def split: if_splits)

lemma subnode_child: "subnode a (up d) \<Longrightarrow> 0 < d \<Longrightarrow> subnode a d"
proof -
  assume u: "subnode a (up d)" "0 < d"
  then have "a \<le> up d" by (subst (asm) subnode.simps) (auto split: if_splits)
  with u have "a < d" by (auto simp: up_def)
  with u show ?thesis by (subst subnode.simps) (simp add: up_def)
qed

lemma subnode_le: "subnode a d \<Longrightarrow> a \<le> d"
  by (subst (asm) subnode.simps) (auto split: if_splits)

lemma up_children [simp]: "up (2 * a + 1) = a" "up (2 * a + 2) = a" "up (Suc (2 * a)) = a" "up (Suc (Suc (2 * a))) = a"
  by (simp_all add: up_def)

lemma subnode_chain: "subnode a d \<Longrightarrow> subnode b d \<Longrightarrow> subnode a b \<or> subnode b a"
proof (induction d rule: less_induct)
  case (less d)
  show ?case
  proof (cases "d = a \<or> d = b")
    case True
    with less show ?thesis by auto
  next
    case False
    with less.prems have "subnode a (up d)" "subnode b (up d)" "a < d" using subnode_up subnode_le le_neq_implies_less by blast+
    with less.IH [of "up d"] show ?thesis by (auto simp: up_def)
  qed
qed

lemma subnode_siblings: "subnode a d \<Longrightarrow> subnode b d \<Longrightarrow> up a = up b \<Longrightarrow> 0 < a \<Longrightarrow> 0 < b \<Longrightarrow> a = b"
proof (rule ccontr)
  assume a: "subnode a d" "subnode b d" "up a = up b" "0 < a" "0 < b" "a \<noteq> b"
  from subnode_chain [OF a(1,2)] show False
  proof
    assume "subnode a b"
    with a have "a \<le> up a" using subnode_up subnode_le by metis
    with a(4) show False by (auto simp: up_def)
  next
    assume "subnode b a"
    with a have "b \<le> up b" using subnode_up subnode_le by metis
    with a(5) show False by (auto simp: up_def)
  qed
qed

lemma subnode_inner: "subnode a d \<longleftrightarrow> d = a \<or> subnode (2 * a + 1) d \<or> subnode (2 * a + 2) d"
proof (induction d rule: less_induct)
  case (less d)
  show ?case
  proof (cases "d \<le> a")
    case True
    then show ?thesis using subnode_le by fastforce
  next
    case False
    then have step: "subnode x d \<longleftrightarrow> d = x \<or> (x < d \<and> subnode x (up d))" for x
      by (subst subnode.simps) (auto simp add: up_def)
    have lt: "up d < d" using False by (auto simp: up_def)
    then have below: "subnode x (up d) \<Longrightarrow> x < d" for x using subnode_le [of x "up d"] by simp
    show ?thesis
    proof (cases "up d = a")
      case True
      with False have "d = 2 * a + 1 \<or> d = 2 * a + 2" by (auto simp: up_def)
      with True False show ?thesis using step [of a] by auto
    next
      case up: False
      then have "d \<noteq> 2 * a + 1" "d \<noteq> 2 * a + 2" by auto
      with up False lt less.IH [OF lt] below step show ?thesis by auto
    qed
  qed
qed

lemma subnode_root: "subnode 0 d"
  by (induction d rule: less_induct) (subst subnode.simps, auto)

section \<open>Frames and winners\<close>

definition leaves :: "nat \<Rightarrow> nat \<Rightarrow> nat set" where
  "leaves n node = {j. j < n \<and> subnode node (n - 1 + j)}"

definition proper :: "(nat \<Rightarrow> entry) \<Rightarrow> bool" where
  "proper enter \<longleftrightarrow> (\<forall>j. enter j = (kEmpty, False) \<or> (fst (enter j) = j \<and> j \<noteq> kEmpty))"

lemma leaves_inner: "node + 1 < n \<Longrightarrow> leaves n node = leaves n (2 * node + 1) \<union> leaves n (2 * node + 2)"
  unfolding leaves_def by (subst subnode_inner) auto

lemma leaves_leaf: "n \<le> node + 1 \<Longrightarrow> node + 1 < 2 * n \<Longrightarrow> leaves n node = {node + 1 - n}"
proof -
  assume a: "n \<le> node + 1" "node + 1 < 2 * n"
  have "d = node" if "subnode node d" "d < 2 * n - 1" for d
  proof (rule ccontr)
    assume "d \<noteq> node"
    with that(1) have "node \<le> up d" "node < d" using subnode_up subnode_le le_neq_implies_less by blast+
    with that(2) a show False by (auto simp: up_def)
  qed
  with a show ?thesis unfolding leaves_def by fastforce
qed

lemma leaves_root: "leaves n 0 = {j. j < n}"
  by (simp add: leaves_def subnode_root)

lemma leaves_disjoint: "leaves n (2 * node + 1) \<inter> leaves n (2 * node + 2) = {}"
  using subnode_siblings [of "2 * node + 1" _ "2 * node + 2"] by (auto simp: leaves_def)

lemma leaves_siblings: "a \<noteq> b \<Longrightarrow> up a = up b \<Longrightarrow> 0 < a \<Longrightarrow> 0 < b \<Longrightarrow> j \<in> leaves n a \<Longrightarrow> \<not> subnode b (n - 1 + j)"
  using subnode_siblings [of a "n - 1 + j" b] by (auto simp: leaves_def)

lemma tour_empty: "tour lt ev enter n cell node p \<Longrightarrow> proper enter \<Longrightarrow> fst p = kEmpty \<Longrightarrow> p = (kEmpty, False)"
  by (induction rule: tour.induct) (auto simp: proper_def play_def split: if_splits)

lemma tour_winner: "tour lt ev enter n cell node p \<Longrightarrow> proper enter \<Longrightarrow> fst p = kEmpty \<or> fst p \<in> leaves n node"
proof (induction rule: tour.induct)
  case (leaf node)
  from leaf(3) have "fst (enter (node + 1 - n)) = node + 1 - n \<or> fst (enter (node + 1 - n)) = kEmpty"
    unfolding proper_def by (metis fst_conv)
  with leaf(1,2) show ?case by (auto simp: leaves_leaf)
next
  case (inner node l r p)
  then show ?case by (auto simp: leaves_inner play_def split: if_splits)
qed

lemma play_sym: "play lt ev l r p c \<Longrightarrow> (fst l = kEmpty \<Longrightarrow> fst r = kEmpty \<Longrightarrow> l = r) \<Longrightarrow> play lt ev r l p c"
  by (auto simp: play_def split: if_splits)

lemma tour_frame:
  assumes "tour lt ev enter n cell node p" "proper enter"
    and "\<And>j. j \<in> leaves n node \<Longrightarrow> enter' j = enter j"
    and "\<And>d. subnode node d \<Longrightarrow> cell' d = cell d"
    and "\<And>i j. i \<in> leaves n node \<Longrightarrow> j \<in> leaves n node \<Longrightarrow> lt' i j = lt i j"
  shows "tour lt' ev enter' n cell' node p"
  using assms
proof (induction rule: tour.induct)
  case (leaf node)
  then show ?case using tour.leaf [of n node lt' ev enter' cell'] by (simp add: leaves_leaf)
next
  case (inner node l r p)
  have sub: "subnode node d" if "subnode (2 * node + 1) d \<or> subnode (2 * node + 2) d" for d
    using that subnode_inner by blast
  have "tour lt' ev enter' n cell' (2 * node + 1) l" "tour lt' ev enter' n cell' (2 * node + 2) r"
    using inner sub by (auto simp: leaves_inner)
  moreover have "play lt' ev l r p (cell' node)"
    using inner.hyps(1,4) inner.prems(3,4) tour_winner [OF inner.hyps(2) inner.prems(1)]
      tour_winner [OF inner.hyps(3) inner.prems(1)]
    by (auto simp: play_def leaves_inner split: if_splits)
  ultimately show ?case using inner.hyps(1) by (rule tour.inner [rotated])
qed

text \<open>What a winner is: the least of its streams, flagged if another one is equal.\<close>

definition best :: "(nat \<Rightarrow> nat \<Rightarrow> bool) \<Rightarrow> bool \<Rightarrow> (nat \<Rightarrow> entry) \<Rightarrow> nat set \<Rightarrow> entry \<Rightarrow> bool" where
  "best lt ev enter A p \<longleftrightarrow>
     (if fst p = kEmpty then (\<forall>j \<in> A. fst (enter j) = kEmpty)
      else fst p \<in> A \<and> fst (enter (fst p)) \<noteq> kEmpty \<and>
        (\<forall>j \<in> A. fst (enter j) \<noteq> kEmpty \<longrightarrow> \<not> lt j (fst p)) \<and>
        (snd p \<longleftrightarrow> snd (enter (fst p)) \<or>
           ev \<and> (\<exists>j \<in> A. j \<noteq> fst p \<and> fst (enter j) \<noteq> kEmpty \<and> \<not> lt (fst p) j)))"

lemma best_left:
  assumes "best lt ev enter A l" "best lt ev enter B r" "A \<inter> B = {}"
    and "fst l \<noteq> kEmpty" "fst r \<noteq> kEmpty" "\<not> lt (fst r) (fst l)"
    and order: "\<And>a b c. a \<in> A \<union> B \<Longrightarrow> b \<in> A \<union> B \<Longrightarrow> c \<in> A \<union> B \<Longrightarrow> fst (enter a) \<noteq> kEmpty \<Longrightarrow>
      fst (enter b) \<noteq> kEmpty \<Longrightarrow> fst (enter c) \<noteq> kEmpty \<Longrightarrow> \<not> lt a b \<Longrightarrow> \<not> lt b c \<Longrightarrow> \<not> lt a c"
  shows "best lt ev enter (A \<union> B) (fst l, snd l \<or> ev \<and> \<not> lt (fst l) (fst r))"
proof -
  have l: "fst l \<in> A" "fst (enter (fst l)) \<noteq> kEmpty" "\<And>j. j \<in> A \<Longrightarrow> fst (enter j) \<noteq> kEmpty \<Longrightarrow> \<not> lt j (fst l)"
    and r: "fst r \<in> B" "fst (enter (fst r)) \<noteq> kEmpty" "\<And>j. j \<in> B \<Longrightarrow> fst (enter j) \<noteq> kEmpty \<Longrightarrow> \<not> lt j (fst r)"
    using assms by (auto simp: best_def split: if_splits)
  have min: "\<not> lt j (fst l)" if "j \<in> A \<union> B" "fst (enter j) \<noteq> kEmpty" for j
    using that l r assms(6) order [of j "fst r" "fst l"] by auto
  have "(\<exists>j \<in> B. j \<noteq> fst l \<and> fst (enter j) \<noteq> kEmpty \<and> \<not> lt (fst l) j) \<longleftrightarrow> \<not> lt (fst l) (fst r)"
  proof
    assume "\<exists>j \<in> B. j \<noteq> fst l \<and> fst (enter j) \<noteq> kEmpty \<and> \<not> lt (fst l) j"
    then obtain j where j: "j \<in> B" "fst (enter j) \<noteq> kEmpty" "\<not> lt (fst l) j" by blast
    show "\<not> lt (fst l) (fst r)" by (rule order [of "fst l" j "fst r"]) (use j l(1,2) r in auto)
  next
    assume "\<not> lt (fst l) (fst r)"
    moreover have "fst r \<noteq> fst l" using l(1) r(1) assms(3) by auto
    ultimately show "\<exists>j \<in> B. j \<noteq> fst l \<and> fst (enter j) \<noteq> kEmpty \<and> \<not> lt (fst l) j" using r(1,2) by blast
  qed
  with l min assms(1,4) show ?thesis by (auto simp: best_def)
qed

lemma tour_best:
  assumes "tour lt ev enter n cell node p" "proper enter"
    and order: "\<And>a b c. a < n \<Longrightarrow> b < n \<Longrightarrow> c < n \<Longrightarrow> fst (enter a) \<noteq> kEmpty \<Longrightarrow>
      fst (enter b) \<noteq> kEmpty \<Longrightarrow> fst (enter c) \<noteq> kEmpty \<Longrightarrow> \<not> lt a b \<Longrightarrow> \<not> lt b c \<Longrightarrow> \<not> lt a c"
    and refl: "\<And>a. a < n \<Longrightarrow> fst (enter a) \<noteq> kEmpty \<Longrightarrow> \<not> lt a a"
  shows "best lt ev enter (leaves n node) p"
  using assms
proof (induction rule: tour.induct)
  case (leaf node)
  define k where "k = node + 1 - n"
  have k: "k < n" "leaves n node = {k}" using leaf(1,2) by (auto simp: k_def leaves_leaf)
  from leaf(3) consider "enter k = (kEmpty, False)" | "fst (enter k) = k" "k \<noteq> kEmpty"
    unfolding proper_def by blast
  then have "best lt ev enter {k} (enter k)"
  proof cases
    case 2
    with refl [OF k(1)] show ?thesis by (simp add: best_def)
  qed (simp add: best_def)
  then show ?case by (simp only: k(2) flip: k_def)
next
  case (inner node l r p)
  let ?A = "leaves n (2 * node + 1)" and ?B = "leaves n (2 * node + 2)"
  have IH: "best lt ev enter ?A l" "best lt ev enter ?B r" using inner by blast+
  have AB: "x < n" if "x \<in> ?A \<union> ?B" for x using that by (auto simp: leaves_def)
  have o: "\<not> lt a c" if "a \<in> ?A \<union> ?B" "b \<in> ?A \<union> ?B" "c \<in> ?A \<union> ?B" "fst (enter a) \<noteq> kEmpty"
      "fst (enter b) \<noteq> kEmpty" "fst (enter c) \<noteq> kEmpty" "\<not> lt a b" "\<not> lt b c" for a b c
    using order [of a b c] AB that by blast
  consider "fst l = kEmpty" "p = r" | "fst r = kEmpty" "p = l"
    | "fst l \<noteq> kEmpty" "fst r \<noteq> kEmpty" "\<not> lt (fst r) (fst l)" "p = (fst l, snd l \<or> ev \<and> \<not> lt (fst l) (fst r))"
    | "fst l \<noteq> kEmpty" "fst r \<noteq> kEmpty" "\<not> lt (fst l) (fst r)" "p = (fst r, snd r \<or> ev \<and> \<not> lt (fst r) (fst l))"
    using inner.hyps(4) by (auto simp: play_def split: if_splits)
  then have "best lt ev enter (?A \<union> ?B) p"
  proof cases
    case 1
    with IH show ?thesis by (auto simp: best_def split: if_splits)
  next
    case 2
    with IH show ?thesis by (auto simp: best_def split: if_splits)
  next
    case 3
    show ?thesis unfolding 3(4) by (rule best_left [OF IH leaves_disjoint 3(1,2,3) o])
  next
    case 4
    have "best lt ev enter (?B \<union> ?A) p" unfolding 4(4)
      by (rule best_left [OF IH(2,1) _ 4(2,1,3)]) (use leaves_disjoint o in \<open>blast+\<close>)
    then show ?thesis by (simp add: Un_commute)
  qed
  then show ?case using inner.hyps(1) by (simp add: leaves_inner)
qed

section \<open>The path of the last winner\<close>

text \<open>
  A node is opened when along its path to the root every node keeps the winner of the subtree that
  branches off: then its own subtree may change.
\<close>

definition sib :: "nat \<Rightarrow> nat" where "sib node = (if odd node then node + 1 else node - 1)"

inductive opened :: "(nat \<Rightarrow> nat \<Rightarrow> bool) \<Rightarrow> bool \<Rightarrow> (nat \<Rightarrow> entry) \<Rightarrow> nat \<Rightarrow> (nat \<Rightarrow> entry) \<Rightarrow> nat \<Rightarrow> bool"
  for lt ev enter n cell where
  root: "opened lt ev enter n cell 0"
| child: "0 < node \<Longrightarrow> opened lt ev enter n cell (up node) \<Longrightarrow>
    tour lt ev enter n cell (sib node) (cell (up node)) \<Longrightarrow> opened lt ev enter n cell node"

inductive_cases openedE: "opened lt ev enter n cell node"

lemma sib_children [simp]: "sib (2 * a + 1) = 2 * a + 2" "sib (2 * a + 2) = 2 * a + 1"
  by (simp_all add: sib_def)

lemma up_less: "0 < node \<Longrightarrow> up node < node"
  by (auto simp: up_def)

lemma child_cases: "0 < node \<Longrightarrow> node = 2 * up node + 1 \<or> node = 2 * up node + 2"
  by (auto simp: up_def)

lemma sib_props: "0 < node \<Longrightarrow> sib node \<noteq> node \<and> 0 < sib node \<and> up (sib node) = up node"
  using child_cases [of node]
proof
  assume "0 < node" "node = 2 * up node + 1"
  then show ?thesis by (metis sib_children(1) up_children(2) add_gr_0 add_left_cancel one_eq_numeral_iff
      semiring_norm(85) zero_less_numeral)
next
  assume "0 < node" "node = 2 * up node + 2"
  then show ?thesis by (metis sib_children(2) up_children(1) add_gr_0 add_left_cancel one_eq_numeral_iff
      semiring_norm(85) zero_less_one)
qed

lemma opened_winner:
  assumes "tour lt ev enter n cell node p" "proper enter" "fst p \<noteq> kEmpty" "opened lt ev enter n cell node"
  shows "opened lt ev enter n cell (n - 1 + fst p) \<and> subnode node (n - 1 + fst p)"
  using assms
proof (induction rule: tour.induct)
  case (leaf node)
  from leaf(3,4) have "fst (enter (node + 1 - n)) = node + 1 - n" unfolding proper_def by (metis fst_conv)
  with leaf show ?case by auto
next
  case (inner node l r p)
  have sub: "subnode (2 * node + 1) d \<or> subnode (2 * node + 2) d \<Longrightarrow> subnode node d" for d using subnode_inner by blast
  from inner.hyps(4) inner.prems(2)
  consider "fst p = fst l" "cell node = r" | "fst p = fst r" "cell node = l"
    by (auto simp: play_def split: if_splits)
  then show ?case
  proof cases
    case 1
    then have "opened lt ev enter n cell (2 * node + 1)"
      using inner.prems(3) inner.hyps(3) opened.child [of "2 * node + 1" lt ev enter n cell] by (simp only: up_children sib_children)
    with inner.IH(1) inner.prems 1 sub show ?thesis by auto
  next
    case 2
    then have "opened lt ev enter n cell (2 * node + 2)"
      using inner.prems(3) inner.hyps(2) opened.child [of "2 * node + 2" lt ev enter n cell] by (simp only: up_children sib_children)
    with inner.IH(2) inner.prems 2 sub show ?thesis by auto
  qed
qed

lemma opened_frame:
  assumes "opened lt ev enter n cell node" "proper enter"
    and "\<And>j. \<not> subnode node (n - 1 + j) \<Longrightarrow> enter' j = enter j"
    and "\<And>d. \<not> subnode node d \<Longrightarrow> cell' d = cell d"
    and "\<And>i j. \<not> subnode node (n - 1 + i) \<Longrightarrow> \<not> subnode node (n - 1 + j) \<Longrightarrow> lt' i j = lt i j"
  shows "opened lt' ev enter' n cell' node"
  using assms
proof (induction rule: opened.induct)
  case root
  show ?case by (rule opened.root)
next
  case (child node)
  note sib = sib_props [OF child.hyps(1)]
  have below: "\<not> subnode (up node) d \<Longrightarrow> \<not> subnode node d" for d
    using child.hyps(1) subnode_inner [of "up node" d] child_cases [OF child.hyps(1)] by metis
  have "opened lt' ev enter' n cell' (up node)"
    by (rule child.IH) (use child.prems below in blast)+
  moreover have "tour lt' ev enter' n cell' (sib node) (cell (up node))"
  proof (rule tour_frame [OF child.hyps(3) child.prems(1)])
    have dj: "\<not> subnode node d" if "subnode (sib node) d" for d
      using subnode_siblings [of "sib node" d node] sib child.hyps(1) that by auto
    then show "cell' d = cell d" if "subnode (sib node) d" for d using that child.prems(3) by blast
    show "enter' j = enter j" if "j \<in> leaves n (sib node)" for j using that dj child.prems(2) unfolding leaves_def by blast
    show "lt' i j = lt i j" if "i \<in> leaves n (sib node)" "j \<in> leaves n (sib node)" for i j
      using that dj child.prems(4) unfolding leaves_def by blast
  qed
  moreover have "cell' (up node) = cell (up node)"
    using child.prems(3) [of "up node"] subnode_le [of node "up node"] up_less [OF child.hyps(1)] by fastforce
  ultimately show ?case using child.hyps(1) by (simp add: opened.child)
qed

text \<open>One round of propagation: the game at the parent of the node.\<close>

lemma opened_step:
  assumes "opened lt ev enter n cell node" "proper enter" "0 < node" "node + 1 < 2 * n"
    and "tour lt ev enter n cell node x" "play lt ev x (cell (up node)) y c"
  shows "opened lt ev enter n (cell(up node := c)) (up node) \<and> tour lt ev enter n (cell(up node := c)) (up node) y"
proof -
  let ?a = "up node" and ?c' = "cell(up node := c)"
  from assms(1,3) have op: "opened lt ev enter n cell ?a" and ts: "tour lt ev enter n cell (sib node) (cell ?a)"
    by (auto elim: openedE)
  have fr: "tour lt ev enter n ?c' b q" if "tour lt ev enter n cell b q" "?a < b" for b q
    by (rule tour_frame [OF that(1) assms(2)]) (use that(2) subnode_le in fastforce)+
  have "?a < node" "?a < sib node" using assms(3) sib_props [OF assms(3)] by (auto simp: up_def sib_def elim!: oddE)
  with fr assms(5) ts have t: "tour lt ev enter n ?c' node x" "tour lt ev enter n ?c' (sib node) (cell ?a)" by blast+
  have inner: "?a + 1 < n" using assms(3,4) by (auto simp: up_def)
  have eq: "x = cell ?a" if "fst x = kEmpty" "fst (cell ?a) = kEmpty"
    using tour_empty [OF assms(5,2) that(1)] tour_empty [OF ts assms(2) that(2)] by simp
  have "tour lt ev enter n ?c' ?a y"
    using child_cases [OF assms(3)]
  proof
    assume n: "node = 2 * ?a + 1"
    then have s: "sib node = 2 * ?a + 2" by (metis sib_children(1))
    show ?thesis by (rule tour.inner [OF inner, of _ _ _ _ x "cell ?a"]) (use t n s assms(6) in auto)
  next
    assume n: "node = 2 * ?a + 2"
    then have s: "sib node = 2 * ?a + 1" by (metis sib_children(2))
    show ?thesis by (rule tour.inner [OF inner, of _ _ _ _ "cell ?a" x])
        (use t n s play_sym [OF assms(6) eq] in auto)
  qed
  moreover have "opened lt ev enter n ?c' ?a"
    by (rule opened_frame [OF op assms(2)]) auto
  ultimately show ?thesis by blast
qed

end
