(* ===== verification/Losers_Run.thy ===== *)
theory Losers_Run
  imports Losers_Tour
begin

text \<open>
  The operations of the tree of losers play the tournament. \<open>merge_streams\<close> is the contract that
  \<^verbatim>\<open>MergeStream\<close> states: on streams with data, \<^verbatim>\<open>operator<\<close> is a strict weak order and \<^verbatim>\<open>compare\<close> agrees
  with it.
\<close>

section \<open>Entries and cells\<close>

definition enter_of :: "bool \<Rightarrow> 's stream_methods \<Rightarrow> 's list \<Rightarrow> nat \<Rightarrow> entry" where
  "enter_of ev M ss j =
     (if j < length ss \<and> sm_hasData M (ss ! j) then (j, ev \<and> sm_isNextEqual M (ss ! j)) else (kEmpty, False))"

definition cells :: "nat list \<Rightarrow> nat \<Rightarrow> entry" where
  "cells vs d = (vs ! d, False)"

definition eq_cells :: "nat list \<Rightarrow> bool list \<Rightarrow> nat \<Rightarrow> entry" where
  "eq_cells vs es d = (vs ! d, es ! d)"

lemma proper_enter_of: "length ss < 65535 \<Longrightarrow> proper (enter_of ev M ss)"
  by (auto simp: proper_def enter_of_def kEmpty_def)

lemma cells_update: "a < length vs \<Longrightarrow> (cells vs)(a := (c, False)) = cells (vs[a := c])"
  by (auto simp: cells_def)

lemma eq_cells_update:
  "a < length vs \<Longrightarrow> length es = length vs \<Longrightarrow> (eq_cells vs es)(a := c) = eq_cells (vs[a := fst c]) (es[a := snd c])"
  by (auto simp: eq_cells_def)

lemma parent_up: "node < 131072 \<Longrightarrow> parent node = up node"
  by (simp add: parent_def up_def to_TIndex_def)

lemma tour_live:
  "tour lt ev enter n cell node p \<Longrightarrow> proper enter \<Longrightarrow> fst p \<noteq> kEmpty \<Longrightarrow> fst (enter (fst p)) \<noteq> kEmpty"
proof (induction rule: tour.induct)
  case (leaf node)
  then show ?case unfolding proper_def by (metis fst_conv)
next
  case (inner node l r p)
  then show ?case by (auto simp: play_def split: if_splits)
qed

definition idle :: "'s stream_methods \<Rightarrow> 's list \<Rightarrow> nat \<Rightarrow> bool" where
  "idle M ss i \<longleftrightarrow> i = kEmpty \<or> (i < length ss \<and> sm_hasData M (ss ! i))"

lemma tour_idle:
  "tour lt ev (enter_of ev M ss) n cell node p \<Longrightarrow> length ss < 65535 \<Longrightarrow> idle M ss (fst p)"
  using tour_live [OF _ proper_enter_of] by (fastforce simp: idle_def enter_of_def split: if_splits)

lemma tour_leaf_enter:
  "i < n \<Longrightarrow> tour lt ev enter n cell (n - 1 + i) (enter i)"
  using tour.leaf [of n "n - 1 + i" lt ev enter cell] by (simp add: Suc_leI)

text \<open>
  The state of the tree between two calls: nothing started or all streams exhausted, or the path of the last
  winner is open. The stream of the last winner may have changed since.
\<close>

definition ready :: "(nat \<Rightarrow> nat \<Rightarrow> bool) \<Rightarrow> 's stream_methods \<Rightarrow> 's list \<Rightarrow> tree_of_losers \<Rightarrow> bool" where
  "ready lt M ss t \<longleftrightarrow> 0 < length ss \<and> length ss \<le> 32768 \<and> tl_firstStream t = length ss - 1 \<and>
     length (tl_values t) = length ss - 1 \<and>
     (tl_lastIndex t = kEmpty \<and> (\<forall>d < length ss - 1. tl_values t ! d = kEmpty) \<or>
      tl_lastIndex t < length ss \<and> 1 < length ss \<and>
      opened lt False (enter_of False M ss) (length ss) (cells (tl_values t)) (length ss - 1 + tl_lastIndex t))"

lemma tour_all_empty:
  "tour lt ev enter n cell node p \<Longrightarrow> proper enter \<Longrightarrow> fst p = kEmpty \<Longrightarrow> subnode node d \<Longrightarrow> d + 1 < n \<Longrightarrow>
   cell d = (kEmpty, False)"
proof (induction arbitrary: d rule: tour.induct)
  case (leaf node)
  then show ?case using subnode_le by fastforce
next
  case (inner node l r p)
  from inner.hyps(4) inner.prems(2) have e: "fst l = kEmpty" "fst r = kEmpty" "cell node = l"
    by (auto simp: play_def split: if_splits)
  from inner.prems(3) subnode_inner consider "d = node" | "subnode (2 * node + 1) d" | "subnode (2 * node + 2) d" by blast
  then show ?case
    by cases (use e inner tour_empty [OF inner.hyps(2)] in \<open>auto\<close>)
qed

definition least :: "'s stream_methods \<Rightarrow> ('s \<Rightarrow> 's \<Rightarrow> bool) \<Rightarrow> 's list \<Rightarrow> nat option \<Rightarrow> bool" where
  "least M lt ss r \<longleftrightarrow> (case r of
     None \<Rightarrow> \<forall>s \<in> set ss. \<not> sm_hasData M s
   | Some i \<Rightarrow> i < length ss \<and> sm_hasData M (ss ! i) \<and>
       (\<forall>s \<in> set ss. sm_hasData M s \<longrightarrow> \<not> lt s (ss ! i)))"

lemma opened_change:
  assumes "opened (\<lambda>i j. lt (ss ! i) (ss ! j)) ev (enter_of ev M ss) (length ss) cell (length ss - 1 + i)"
    and "length ss < 65535" "ss' = ss[i := s]"
  shows "opened (\<lambda>i j. lt (ss' ! i) (ss' ! j)) ev (enter_of ev M ss') (length ss') cell (length ss' - 1 + i)"
proof -
  have "opened (\<lambda>i j. lt (ss' ! i) (ss' ! j)) ev (enter_of ev M ss') (length ss) cell (length ss - 1 + i)"
  proof (rule opened_frame [OF assms(1) proper_enter_of [OF assms(2)]])
    have ne: "j \<noteq> i" if "\<not> subnode (length ss - 1 + i) (length ss - 1 + j)" for j using that by auto
    show "enter_of ev M ss' j = enter_of ev M ss j" if "\<not> subnode (length ss - 1 + i) (length ss - 1 + j)" for j
      using ne [OF that] by (simp add: enter_of_def assms(3))
    show "lt (ss' ! k) (ss' ! j) = lt (ss ! k) (ss ! j)"
      if "\<not> subnode (length ss - 1 + i) (length ss - 1 + k)" "\<not> subnode (length ss - 1 + i) (length ss - 1 + j)" for k j
      using ne [OF that(1)] ne [OF that(2)] by (simp add: assms(3))
  qed simp
  then show ?thesis by (simp add: assms(3))
qed

lemma best_least:
  assumes "best (\<lambda>i j. lt (ss ! i) (ss ! j)) ev (enter_of ev M ss) {j. j < length ss} p" "length ss < 65535"
  shows "least M lt ss (stream_at (fst p))"
proof -
  have "fst (enter_of ev M ss j) = kEmpty \<longleftrightarrow> \<not> sm_hasData M (ss ! j)" if "j < length ss" for j
    using that assms(2) by (simp add: enter_of_def kEmpty_def)
  with assms(1) show ?thesis
    by (auto simp: best_def least_def stream_at_def in_set_conv_nth split: if_splits)
qed

section \<open>The contract of the streams\<close>

locale merge_streams =
  fixes M :: "'s stream_methods"
    and valid :: "'s \<Rightarrow> bool"
    and lt :: "'s \<Rightarrow> 's \<Rightarrow> bool"
  assumes less: "valid a \<Longrightarrow> valid b \<Longrightarrow> sm_hasData M a \<Longrightarrow> sm_hasData M b \<Longrightarrow> sm_less M a b = Inr (lt a b)"
    and asym: "valid a \<Longrightarrow> valid b \<Longrightarrow> sm_hasData M a \<Longrightarrow> sm_hasData M b \<Longrightarrow> lt a b \<Longrightarrow> \<not> lt b a"
    and negtrans: "valid a \<Longrightarrow> valid b \<Longrightarrow> valid c \<Longrightarrow> sm_hasData M a \<Longrightarrow> sm_hasData M b \<Longrightarrow> sm_hasData M c \<Longrightarrow>
      \<not> lt a b \<Longrightarrow> \<not> lt b c \<Longrightarrow> \<not> lt a c"
begin

abbreviation LT :: "'s list \<Rightarrow> nat \<Rightarrow> nat \<Rightarrow> bool" where
  "LT ss i j \<equiv> lt (ss ! i) (ss ! j)"

lemma tour_least:
  assumes "tour (LT ss) ev (enter_of ev M ss) (length ss) cell 0 p" "list_all valid ss" "length ss < 65535"
  shows "best (LT ss) ev (enter_of ev M ss) {j. j < length ss} p"
proof -
  have live: "valid (ss ! a) \<and> sm_hasData M (ss ! a)" if "a < length ss" "fst (enter_of ev M ss a) \<noteq> kEmpty" for a
    using that assms(2) by (auto simp: enter_of_def list_all_length split: if_splits)
  have "best (LT ss) ev (enter_of ev M ss) (leaves (length ss) 0) p"
  proof (rule tour_best [OF assms(1) proper_enter_of [OF assms(3)]])
    show "\<not> LT ss a c" if "a < length ss" "b < length ss" "c < length ss" "fst (enter_of ev M ss a) \<noteq> kEmpty"
      "fst (enter_of ev M ss b) \<noteq> kEmpty" "fst (enter_of ev M ss c) \<noteq> kEmpty" "\<not> LT ss a b" "\<not> LT ss b c" for a b c
      using that live negtrans [of "ss ! a" "ss ! b" "ss ! c"] by blast
    show "\<not> LT ss a a" if "a < length ss" "fst (enter_of ev M ss a) \<noteq> kEmpty" for a
      using that live asym [of "ss ! a" "ss ! a"] by blast
  qed
  then show ?thesis by (simp add: leaves_root)
qed

lemma propagateNode_play:
  assumes "list_all valid ss" "idle M ss (vs ! node)" "idle M ss x"
  shows "\<exists>y c. propagateNode M ss node x vs = Inr (y, vs[node := c]) \<and>
    play (LT ss) False (x, False) (cells vs node) (y, False) (c, False)"
proof -
  consider "vs ! node = kEmpty" | "vs ! node \<noteq> kEmpty" "x = kEmpty" | "vs ! node \<noteq> kEmpty" "x \<noteq> kEmpty" by blast
  then show ?thesis
  proof cases
    case 1
    then have "vs[node := kEmpty] = vs" by (metis list_update_id)
    with 1 show ?thesis
      by (intro exI [of _ x] exI [of _ kEmpty]) (auto simp: propagateNode_def play_def cells_def)
  next
    case 3
    then have "sm_less M (ss ! (vs ! node)) (ss ! x) = Inr (lt (ss ! (vs ! node)) (ss ! x))"
      using assms less by (auto simp: idle_def list_all_length)
    moreover have "lt (ss ! (vs ! node)) (ss ! x) \<Longrightarrow> \<not> lt (ss ! x) (ss ! (vs ! node))"
      using assms 3 asym [of "ss ! (vs ! node)" "ss ! x"] by (auto simp: idle_def list_all_length)
    ultimately show ?thesis using 3
      by (cases "lt (ss ! (vs ! node)) (ss ! x)") (auto simp: propagateNode_def play_def cells_def list_update_same_conv
        intro: exI [of _ "vs ! node"])
  qed (auto simp: propagateNode_def play_def cells_def)
qed

lemma propagateLoop_tour:
  assumes "list_all valid ss" "length ss < 65535" "length vs = length ss - 1"
    and "opened (LT ss) False (enter_of False M ss) (length ss) (cells vs) node" "0 < node" "node + 1 < 2 * length ss"
    and "tour (LT ss) False (enter_of False M ss) (length ss) (cells vs) node (x, False)"
  shows "\<exists>w vs'. propagateLoop M ss (up node) x vs = Inr (w, vs') \<and> length vs' = length ss - 1 \<and>
    tour (LT ss) False (enter_of False M ss) (length ss) (cells vs') 0 (w, False)"
  using assms
proof (induction node arbitrary: x vs rule: less_induct)
  case (less node)
  note pr = proper_enter_of [OF less.prems(2), of False M]
  have a: "up node < length vs" "up node < node" using less.prems(3,5,6) by (auto simp: up_def)
  have "tour (LT ss) False (enter_of False M ss) (length ss) (cells vs) (sib node) (cells vs (up node))"
    using less.prems(4,5) by (auto elim: openedE)
  from tour_idle [OF this less.prems(2)] tour_idle [OF less.prems(7,2)]
  have "idle M ss (vs ! up node)" "idle M ss x" by (simp_all add: cells_def)
  from propagateNode_play [OF less.prems(1) this] obtain y c
    where y: "propagateNode M ss (up node) x vs = Inr (y, vs[up node := c])"
      and p: "play (LT ss) False (x, False) (cells vs (up node)) (y, False) (c, False)" by blast
  from opened_step [OF less.prems(4) pr less.prems(5,6,7) p]
  have st: "opened (LT ss) False (enter_of False M ss) (length ss) (cells (vs[up node := c])) (up node)"
    "tour (LT ss) False (enter_of False M ss) (length ss) (cells (vs[up node := c])) (up node) (y, False)"
    by (simp_all add: cells_update [OF a(1)])
  show ?case
  proof (cases "up node = 0")
    case True
    with y st less.prems(3) show ?thesis by (subst propagateLoop.simps) simp
  next
    case False
    then have "\<exists>w vs'. propagateLoop M ss (up (up node)) y (vs[up node := c]) = Inr (w, vs') \<and> length vs' = length ss - 1 \<and>
      tour (LT ss) False (enter_of False M ss) (length ss) (cells vs') 0 (w, False)"
      using less.IH [OF a(2) less.prems(1,2) _ st(1) _ _ st(2)] a less.prems(3,6) by simp
    moreover have "parent (up node) = up (up node)" using a less.prems(2,6) by (intro parent_up) simp
    ultimately show ?thesis using y False by (subst propagateLoop.simps) simp
  qed
qed

lemma propagate_is_loop: "propagate M ss node x vs = propagateLoop M ss node x vs"
proof (induction node rule: less_induct)
  case (less node)
  show ?case
  proof (cases "vs ! node = kEmpty \<and> 0 < node")
    case True
    with less.IH [of "parent node"] show ?thesis
      by (subst propagate.simps, subst (2) propagateLoop.simps) (simp add: propagateNode_def)
  next
    case False
    then show ?thesis by (subst propagate.simps) (auto simp: propagateLoop.simps [of M ss 0] propagateNode_def)
  qed
qed

lemma game_play:
  assumes "list_all valid ss" "idle M ss l" "idle M ss r" "vs ! node = kEmpty"
  shows "\<exists>y c. (if l = kEmpty then Inr (r, vs) else if r = kEmpty then Inr (l, vs)
      else bindR (sm_less M (ss ! l) (ss ! r)) (\<lambda>b. if b then Inr (l, vs[node := r]) else Inr (r, vs[node := l])))
     = Inr (y, vs[node := c]) \<and> play (LT ss) False (l, False) (r, False) (y, False) (c, False)"
proof (cases "l = kEmpty \<or> r = kEmpty")
  case True
  moreover have "vs[node := kEmpty] = vs" using assms(4) by (metis list_update_id)
  ultimately show ?thesis by (auto simp: play_def intro: exI [of _ kEmpty])
next
  case False
  then have "valid (ss ! l)" "valid (ss ! r)" "sm_hasData M (ss ! l)" "sm_hasData M (ss ! r)"
    using assms(1-3) by (auto simp: idle_def list_all_length)
  with False less [of "ss ! l" "ss ! r"] asym [of "ss ! l" "ss ! r"] show ?thesis
    by (cases "lt (ss ! l) (ss ! r)") (auto simp: play_def)
qed

lemma first_tour:
  assumes "list_all valid ss" "length ss \<le> 32768" "length vs = length ss - 1"
    and "0 < fuel" "length ss \<le> node + fuel" "node + 1 < 2 * length ss"
    and "\<And>d. subnode node d \<Longrightarrow> d + 1 < length ss \<Longrightarrow> vs ! d = kEmpty"
  shows "\<exists>w vs'. TreeOfLosers_first fuel M ss (length ss - 1) node vs = Inr (w, vs') \<and> length vs' = length ss - 1 \<and>
    tour (LT ss) False (enter_of False M ss) (length ss) (cells vs') node (w, False) \<and>
    (\<forall>d. \<not> subnode node d \<longrightarrow> vs' ! d = vs ! d)"
  using assms(3-)
proof (induction fuel arbitrary: node vs)
  case 0
  then show ?case by simp
next
  case (Suc fuel)
  let ?n = "length ss" and ?en = "enter_of False M ss"
  have pr: "proper ?en" using assms(2) by (intro proper_enter_of) simp
  have frame: "tour (LT ss) False ?en ?n (cells vs') c q"
    if "tour (LT ss) False ?en ?n (cells vs) c q" "\<And>d. subnode c d \<Longrightarrow> vs' ! d = vs ! d" for vs vs' c q
    by (rule tour_frame [OF that(1) pr]) (use that(2) in \<open>auto simp: cells_def\<close>)
  show ?case
  proof (cases "?n - 1 \<le> node")
    case True
    then have "tour (LT ss) False ?en ?n (cells vs) node (?en (node - (?n - 1)))"
      using tour.leaf [of ?n node "LT ss" False ?en "cells vs"] Suc.prems(4) by simp
    moreover have "node - (?n - 1) < ?n" using Suc.prems(4) by simp
    ultimately show ?thesis using True Suc.prems(1) 
      by (auto simp: enter_of_def [of False M ss "node - (?n - 1)"] enter_of_def [of False M ss "Suc node - ?n"]
          split: if_splits)
  next
    case False
    let ?l = "2 * node + 1" and ?r = "2 * node + 2"
    have c: "leftChild node = ?l" "rightChild node = ?r"
      using False assms(2) by (auto simp: leftChild_def rightChild_def to_TIndex_def)
    have sub: "subnode ?l d \<or> subnode ?r d \<Longrightarrow> subnode node d" for d using subnode_inner by blast
    have disj: "subnode ?r d \<Longrightarrow> \<not> subnode ?l d" for d using subnode_siblings [of ?l d ?r] by auto
    have ar: "0 < fuel" "?n \<le> ?l + fuel" "?l + 1 < 2 * ?n" "?n \<le> ?r + fuel" "?r + 1 < 2 * ?n"
      using False Suc.prems(3,4) by linarith+
    obtain l vs1 where l: "TreeOfLosers_first fuel M ss (?n - 1) ?l vs = Inr (l, vs1)" "length vs1 = ?n - 1"
      "tour (LT ss) False ?en ?n (cells vs1) ?l (l, False)" "\<forall>d. \<not> subnode ?l d \<longrightarrow> vs1 ! d = vs ! d"
      using Suc.IH [OF Suc.prems(1) ar(1,2,3)] Suc.prems(5) sub by blast
    have ev1: "vs1 ! d = kEmpty" if "subnode ?r d" "d + 1 < ?n" for d
      using l(4) disj [OF that(1)] Suc.prems(5) [OF sub that(2)] that(1) by simp
    obtain r vs2 where r: "TreeOfLosers_first fuel M ss (?n - 1) ?r vs1 = Inr (r, vs2)" "length vs2 = ?n - 1"
      "tour (LT ss) False ?en ?n (cells vs2) ?r (r, False)" "\<forall>d. \<not> subnode ?r d \<longrightarrow> vs2 ! d = vs1 ! d"
      using Suc.IH [OF l(2) ar(1,4,5) ev1] by blast
    have l2: "tour (LT ss) False ?en ?n (cells vs2) ?l (l, False)" using frame [OF l(3)] r(4) disj by blast
    have vn: "vs2 ! node = kEmpty" using r(4) l(4) subnode_le [of _ node] Suc.prems(5) [of node] False by fastforce
    note id = tour_idle [OF l2] tour_idle [OF r(3)]
    have idle: "idle M ss l" "idle M ss r" using id assms(2) by auto
    obtain y c where y: "(if l = kEmpty then Inr (r, vs2) else if r = kEmpty then Inr (l, vs2)
          else bindR (sm_less M (ss ! l) (ss ! r)) (\<lambda>b. if b then Inr (l, vs2[node := r]) else Inr (r, vs2[node := l])))
         = Inr (y, vs2[node := c])" "play (LT ss) False (l, False) (r, False) (y, False) (c, False)"
      using game_play [OF assms(1) idle vn] by blast
    have "tour (LT ss) False ?en ?n (cells (vs2[node := c])) node (y, False)"
    proof (rule tour.inner)
      show "node + 1 < ?n" using False by simp
      show "tour (LT ss) False ?en ?n (cells (vs2[node := c])) ?l (l, False)"
        by (rule frame [OF l2]) (use subnode_le [of ?l] in \<open>fastforce simp: nth_list_update\<close>)
      show "tour (LT ss) False ?en ?n (cells (vs2[node := c])) ?r (r, False)"
        by (rule frame [OF r(3)]) (use subnode_le [of ?r] in \<open>fastforce simp: nth_list_update\<close>)
      show "play (LT ss) False (l, False) (r, False) (y, False) (cells (vs2[node := c]) node)"
        using y(2) False r(2) by (simp add: cells_def)
    qed
    moreover have "\<forall>d. \<not> subnode node d \<longrightarrow> vs2[node := c] ! d = vs ! d"
      using sub l(4) r(4) by (metis nth_list_update_neq subnode_refl)
    ultimately show ?thesis using l(1) r(1,2) y(1) False c by auto
  qed
qed

lemma next_lone:
  assumes "ready (LT ss) M ss t" "length ss = 1"
  shows "TreeOfLosers_next M ss t = Inr (if sm_hasData M (ss ! 0) then Some 0 else None, t)"
  using assms by (auto simp: ready_def TreeOfLosers_next_def kEmpty_def)

lemma next_tour:
  assumes "list_all valid ss" "ready (LT ss) M ss t" "1 < length ss"
  shows "\<exists>w vs. TreeOfLosers_next M ss t = Inr (stream_at w, t\<lparr>tl_lastIndex := w, tl_values := vs\<rparr>) \<and>
    length vs = length ss - 1 \<and> tour (LT ss) False (enter_of False M ss) (length ss) (cells vs) 0 (w, False)"
proof -
  let ?n = "length ss" and ?en = "enter_of False M ss"
  have n: "?n \<le> 32768" "tl_firstStream t = ?n - 1" "length (tl_values t) = ?n - 1" "tl_values t \<noteq> []"
    using assms(2,3) by (auto simp: ready_def)
  show ?thesis
  proof (cases "tl_lastIndex t = kEmpty")
    case True
    with assms(2) have e: "\<forall>d < ?n - 1. tl_values t ! d = kEmpty" by (auto simp: ready_def kEmpty_def)
    obtain w vs where "TreeOfLosers_first ?n M ss (?n - 1) 0 (tl_values t) = Inr (w, vs)" "length vs = ?n - 1"
      "tour (LT ss) False ?en ?n (cells vs) 0 (w, False)"
      using first_tour [OF assms(1) n(1,3), of ?n 0] e assms(3) by (cases ss) auto
    with True n show ?thesis by (auto simp: TreeOfLosers_next_def)
  next
    case False
    let ?i = "tl_lastIndex t"
    from False assms(2) have o: "?i < ?n" "opened (LT ss) False ?en ?n (cells (tl_values t)) (?n - 1 + ?i)"
      by (auto simp: ready_def)
    have len: "?n < 65535" using n(1) by simp
    obtain x where x: "?en ?i = (x, False)" "x = (if sm_hasData M (ss ! ?i) then ?i else kEmpty)"
      using o(1) by (simp add: enter_of_def)
    have tx: "tour (LT ss) False ?en ?n (cells (tl_values t)) (?n - 1 + ?i) (x, False)"
      using tour_leaf_enter [OF o(1), of "LT ss" False ?en] x(1) by metis
    have bd: "0 < ?n - 1 + ?i" "?n - 1 + ?i + 1 < 2 * ?n" using assms(3) o(1) by linarith+
    from propagateLoop_tour [OF assms(1) len n(3) o(2) bd tx] obtain w vs
      where "propagateLoop M ss (up (?n - 1 + ?i)) x (tl_values t) = Inr (w, vs)" "length vs = ?n - 1"
        "tour (LT ss) False ?en ?n (cells vs) 0 (w, False)" by blast
    moreover have "parent (to_TIndex (?n - 1 + ?i)) = up (?n - 1 + ?i)"
      using o(1) n(1) by (simp add: parent_up to_TIndex_def)
    ultimately show ?thesis using False n(2) x(2) by (auto simp: TreeOfLosers_next_def propagate_is_loop)
  qed
qed

lemma next_correct:
  assumes "list_all valid ss" "ready (LT ss) M ss t"
  shows "\<exists>r t'. TreeOfLosers_next M ss t = Inr (r, t') \<and> least M lt ss r \<and>
    (case r of None \<Rightarrow> ready (LT ss) M ss t' | Some i \<Rightarrow> \<forall>s. ready (LT (ss[i := s])) M (ss[i := s]) t')"
proof (cases "length ss = 1")
  case True
  then obtain a where a: "ss = [a]" by (auto simp: length_Suc_conv)
  have "\<not> lt a a" if "sm_hasData M a" using assms(1) asym [of a a] that a by auto
  with next_lone [OF assms(2) True] assms(2) a show ?thesis by (auto simp: least_def ready_def)
next
  case False
  have n: "length ss \<le> 32768" "tl_firstStream t = length ss - 1" "0 < length ss"
    using assms(2) unfolding ready_def by blast+
  with False have n1: "1 < length ss" by linarith
  from n have len: "length ss < 65535" by simp
  obtain w vs where w: "TreeOfLosers_next M ss t = Inr (stream_at w, t\<lparr>tl_lastIndex := w, tl_values := vs\<rparr>)"
    "length vs = length ss - 1" "tour (LT ss) False (enter_of False M ss) (length ss) (cells vs) 0 (w, False)"
    using next_tour [OF assms n1] by blast
  note pr = proper_enter_of [OF len, of False M]
  have l: "least M lt ss (stream_at w)" using best_least [OF tour_least [OF w(3) assms(1) len] len] by simp
  show ?thesis
  proof (cases "w = kEmpty")
    case True
    then have "\<forall>d < length ss - 1. vs ! d = kEmpty"
      using tour_all_empty [OF w(3) pr] subnode_root by (auto simp: cells_def)
    with True w l n n1 show ?thesis by (auto simp: ready_def stream_at_def)
  next
    case False
    have "opened (LT ss) False (enter_of False M ss) (length ss) (cells vs) (length ss - 1 + w)"
      using opened_winner [OF w(3) pr] False opened.root by fastforce
    from opened_change [OF this len refl] w(2) n n1 False l show ?thesis
      by (intro exI [of _ "stream_at w"] exI [of _ "t\<lparr>tl_lastIndex := w, tl_values := vs\<rparr>"])
        (auto simp: w(1) stream_at_def ready_def least_def)
  qed
qed

end

end
