(* ===== verification/Losers_Equals.thy ===== *)
theory Losers_Equals
  imports Losers_Run
begin

text \<open>
  \<^verbatim>\<open>nextWithEquals\<close>: the same tournament with a flag beside every entry, which says that an equal value was met.
\<close>

definition ready_eq :: "(nat \<Rightarrow> nat \<Rightarrow> bool) \<Rightarrow> 's stream_methods \<Rightarrow> 's list \<Rightarrow> tree_of_losers \<Rightarrow> bool" where
  "ready_eq lt M ss t \<longleftrightarrow> 0 < length ss \<and> length ss \<le> 32768 \<and> tl_firstStream t = length ss - 1 \<and>
     length (tl_values t) = length ss - 1 \<and> length (tl_equals t) = length ss - 1 \<and>
     (tl_lastIndex t = kEmpty \<and> (\<forall>d < length ss - 1. tl_values t ! d = kEmpty \<and> \<not> tl_equals t ! d) \<or>
      tl_lastIndex t < length ss \<and> 1 < length ss \<and>
      opened lt True (enter_of True M ss) (length ss) (eq_cells (tl_values t) (tl_equals t))
        (length ss - 1 + tl_lastIndex t))"

definition flagged :: "'s stream_methods \<Rightarrow> ('s \<Rightarrow> 's \<Rightarrow> bool) \<Rightarrow> 's list \<Rightarrow> nat \<Rightarrow> bool" where
  "flagged M lt ss i \<longleftrightarrow> sm_isNextEqual M (ss ! i) \<or>
     (\<exists>j < length ss. j \<noteq> i \<and> sm_hasData M (ss ! j) \<and> \<not> lt (ss ! i) (ss ! j) \<and> \<not> lt (ss ! j) (ss ! i))"

lemma best_flagged:
  assumes "best (\<lambda>i j. lt (ss ! i) (ss ! j)) True (enter_of True M ss) {j. j < length ss} p" "length ss < 65535"
    and "fst p \<noteq> kEmpty"
  shows "snd p \<longleftrightarrow> flagged M lt ss (fst p)"
proof -
  have e: "fst (enter_of True M ss j) = kEmpty \<longleftrightarrow> \<not> sm_hasData M (ss ! j)" if "j < length ss" for j
    using that assms(2) by (simp add: enter_of_def kEmpty_def)
  from assms(1,3) have b: "fst p < length ss" "sm_hasData M (ss ! fst p)"
    "\<And>j. j < length ss \<Longrightarrow> sm_hasData M (ss ! j) \<Longrightarrow> \<not> lt (ss ! j) (ss ! fst p)"
    "snd p \<longleftrightarrow> snd (enter_of True M ss (fst p)) \<or>
       (\<exists>j < length ss. j \<noteq> fst p \<and> sm_hasData M (ss ! j) \<and> \<not> lt (ss ! fst p) (ss ! j))"
    using e by (auto simp: best_def)
  moreover have "snd (enter_of True M ss (fst p)) = sm_isNextEqual M (ss ! fst p)"
    using b(1,2) by (simp add: enter_of_def)
  ultimately show ?thesis by (auto simp: flagged_def)
qed

locale merge_streams_eq = merge_streams +
  assumes compare: "valid a \<Longrightarrow> valid b \<Longrightarrow> sm_hasData M a \<Longrightarrow> sm_hasData M b \<Longrightarrow>
    \<exists>c. sm_compare M a b = Inr c \<and> (c < 0 \<longleftrightarrow> lt a b) \<and> (0 < c \<longleftrightarrow> lt b a)"
begin

lemma compare_cases:
  assumes "list_all valid ss" "idle M ss i" "idle M ss j" "i \<noteq> kEmpty" "j \<noteq> kEmpty"
  obtains c where "sm_compare M (ss ! i) (ss ! j) = Inr c" "c < 0 \<longleftrightarrow> LT ss i j" "0 < c \<longleftrightarrow> LT ss j i"
    "LT ss i j \<Longrightarrow> \<not> LT ss j i"
  using assms compare [of "ss ! i" "ss ! j"] asym [of "ss ! i" "ss ! j"] by (auto simp: idle_def list_all_length)

lemma propagateNode_play_eq:
  assumes "list_all valid ss" "idle M ss (vs ! node)" "idle M ss (fst x)" "fst x = kEmpty \<Longrightarrow> \<not> snd x"
    and "vs ! node = kEmpty \<Longrightarrow> \<not> es ! node"
  shows "\<exists>y c. propagateNodeWithEquals M ss node x vs es = Inr (y, vs[node := fst c], es[node := snd c]) \<and>
    play (LT ss) True x (eq_cells vs es node) y c"
proof -
  have same: "vs[node := fst (eq_cells vs es node)] = vs" "es[node := snd (eq_cells vs es node)] = es"
    by (simp_all add: eq_cells_def)
  consider "vs ! node = kEmpty" | "vs ! node \<noteq> kEmpty" "fst x = kEmpty" | "vs ! node \<noteq> kEmpty" "fst x \<noteq> kEmpty" by blast
  then show ?thesis
  proof cases
    case 1
    with assms(4,5) same show ?thesis
      by (intro exI [of _ x] exI [of _ "eq_cells vs es node"])
        (cases x; auto simp: propagateNodeWithEquals_def play_def eq_cells_def)
  next
    case 2
    with assms(4) show ?thesis
      by (intro exI [of _ "eq_cells vs es node"] exI [of _ x])
        (cases x; auto simp: propagateNodeWithEquals_def play_def eq_cells_def)
  next
    case 3
    obtain c where c: "sm_compare M (ss ! (vs ! node)) (ss ! fst x) = Inr c" "c < 0 \<longleftrightarrow> LT ss (vs ! node) (fst x)"
      "0 < c \<longleftrightarrow> LT ss (fst x) (vs ! node)" "LT ss (vs ! node) (fst x) \<Longrightarrow> \<not> LT ss (fst x) (vs ! node)"
      using compare_cases [OF assms(1,2,3) 3] by blast
    show ?thesis
    proof (cases "c < 0")
      case True
      with c 3 show ?thesis
        by (intro exI [of _ "eq_cells vs es node"] exI [of _ x])
          (cases x; auto simp: propagateNodeWithEquals_def play_def eq_cells_def)
    next
      case False
      with c 3 same show ?thesis
        by (intro exI [of _ "(fst x, snd x \<or> c = 0)"] exI [of _ "eq_cells vs es node"])
          (cases x; auto simp: propagateNodeWithEquals_def play_def eq_cells_def)
    qed
  qed
qed

lemma propagateLoop_tour_eq:
  assumes "list_all valid ss" "length ss < 65535" "length vs = length ss - 1" "length es = length ss - 1"
    and "opened (LT ss) True (enter_of True M ss) (length ss) (eq_cells vs es) node" "0 < node" "node + 1 < 2 * length ss"
    and "tour (LT ss) True (enter_of True M ss) (length ss) (eq_cells vs es) node x"
  shows "\<exists>w vs' es'. propagateLoopWithEquals M ss (up node) x vs es = Inr (w, vs', es') \<and>
    length vs' = length ss - 1 \<and> length es' = length ss - 1 \<and>
    tour (LT ss) True (enter_of True M ss) (length ss) (eq_cells vs' es') 0 w"
  using assms
proof (induction node arbitrary: x vs es rule: less_induct)
  case (less node)
  note pr = proper_enter_of [OF less.prems(2), of True M]
  have a: "up node < length vs" "up node < node" using less.prems(3,6,7) by (auto simp: up_def)
  have ts: "tour (LT ss) True (enter_of True M ss) (length ss) (eq_cells vs es) (sib node) (eq_cells vs es (up node))"
    using less.prems(5,6) by (auto elim: openedE)
  from tour_idle [OF ts less.prems(2)] tour_idle [OF less.prems(8,2)]
    tour_empty [OF ts pr] tour_empty [OF less.prems(8) pr]
  have "idle M ss (vs ! up node)" "idle M ss (fst x)" "fst x = kEmpty \<Longrightarrow> \<not> snd x"
    "vs ! up node = kEmpty \<Longrightarrow> \<not> es ! up node" by (auto simp: eq_cells_def)
  from propagateNode_play_eq [OF less.prems(1) this] obtain y c
    where y: "propagateNodeWithEquals M ss (up node) x vs es = Inr (y, vs[up node := fst c], es[up node := snd c])"
      and p: "play (LT ss) True x (eq_cells vs es (up node)) y c" by blast
  let ?vs = "vs[up node := fst c]" and ?es = "es[up node := snd c]"
  from opened_step [OF less.prems(5) pr less.prems(6,7,8) p] less.prems(3,4)
  have st: "opened (LT ss) True (enter_of True M ss) (length ss) (eq_cells ?vs ?es) (up node)"
    "tour (LT ss) True (enter_of True M ss) (length ss) (eq_cells ?vs ?es) (up node) y"
    by (simp_all add: eq_cells_update [OF a(1)])
  show ?case
  proof (cases "up node = 0")
    case True
    with y st less.prems(3,4) show ?thesis by (subst propagateLoopWithEquals.simps) (simp; force)
  next
    case False
    have len: "length ?vs = length ss - 1" "length ?es = length ss - 1" "0 < up node" "up node + 1 < 2 * length ss"
      using less.prems(3,4,7) a False by simp_all
    have "parent (up node) = up (up node)" using a less.prems(2,7) by (intro parent_up) simp
    with less.IH [OF a(2) less.prems(1,2) len(1,2) st(1) len(3,4) st(2)] y False show ?thesis
      by (subst propagateLoopWithEquals.simps) simp
  qed
qed

lemma propagateSkip_is_loop:
  "propagateSkipWithEquals M ss node x vs es = propagateLoopWithEquals M ss node x vs es"
proof (induction node rule: less_induct)
  case (less node)
  show ?case
  proof (cases "vs ! node = kEmpty \<and> 0 < node")
    case True
    with less.IH [of "parent node"] show ?thesis
      by (subst propagateSkipWithEquals.simps, subst (2) propagateLoopWithEquals.simps)
        (simp add: propagateNodeWithEquals_def)
  next
    case False
    then show ?thesis
      by (subst propagateSkipWithEquals.simps)
        (auto simp: propagateLoopWithEquals.simps [of M ss 0] propagateNodeWithEquals_def)
  qed
qed

lemma game_play_eq:
  assumes "list_all valid ss" "idle M ss (fst l)" "idle M ss (fst r)" "vs ! node = kEmpty" "\<not> es ! node"
    and "fst l = kEmpty \<Longrightarrow> \<not> snd l" "fst r = kEmpty \<Longrightarrow> \<not> snd r"
  shows "\<exists>y c. (if fst l = kEmpty then Inr (r, vs, es) else if fst r = kEmpty then Inr (l, vs, es)
      else bindR (sm_compare M (ss ! fst l) (ss ! fst r)) (\<lambda>comparison.
        if comparison = 0 then Inr ((fst l, True), vs[node := fst r], es[node := snd r])
        else if comparison < 0 then Inr (l, vs[node := fst r], es[node := snd r])
        else Inr (r, vs[node := fst l], es[node := snd l])))
     = Inr (y, vs[node := fst c], es[node := snd c]) \<and> play (LT ss) True l r y c"
proof (cases "fst l = kEmpty \<or> fst r = kEmpty")
  case True
  have same: "vs[node := kEmpty] = vs" "es[node := False] = es"
    using assms(4,5) by (metis list_update_id)+
  show ?thesis
    by (rule exI [of _ "if fst l = kEmpty then r else l"], rule exI [of _ "(kEmpty, False)"])
      (use True same assms(6,7) in \<open>cases l; cases r; auto simp: play_def\<close>)
next
  case False
  then obtain c where c: "sm_compare M (ss ! fst l) (ss ! fst r) = Inr c" "c < 0 \<longleftrightarrow> LT ss (fst l) (fst r)"
      "0 < c \<longleftrightarrow> LT ss (fst r) (fst l)" "LT ss (fst l) (fst r) \<Longrightarrow> \<not> LT ss (fst r) (fst l)"
    using compare_cases [OF assms(1,2,3)] by blast
  show ?thesis
    by (rule exI [of _ "if c = 0 then (fst l, True) else if c < 0 then l else r"],
        rule exI [of _ "if c \<le> 0 then r else l"])
      (use False c in \<open>cases l; cases r; auto simp: play_def\<close>)
qed

lemma first_tour_eq:
  assumes "list_all valid ss" "length ss \<le> 32768" "length vs = length ss - 1" "length es = length ss - 1"
    and "0 < fuel" "length ss \<le> node + fuel" "node + 1 < 2 * length ss"
    and "\<And>d. subnode node d \<Longrightarrow> d + 1 < length ss \<Longrightarrow> vs ! d = kEmpty \<and> \<not> es ! d"
  shows "\<exists>w vs' es'. firstWithEquals fuel M ss (length ss - 1) node vs es = Inr (w, vs', es') \<and>
    length vs' = length ss - 1 \<and> length es' = length ss - 1 \<and>
    tour (LT ss) True (enter_of True M ss) (length ss) (eq_cells vs' es') node w \<and>
    (\<forall>d. \<not> subnode node d \<longrightarrow> vs' ! d = vs ! d \<and> es' ! d = es ! d)"
  using assms(3-)
proof (induction fuel arbitrary: node vs es)
  case 0
  then show ?case by simp
next
  case (Suc fuel)
  let ?n = "length ss" and ?en = "enter_of True M ss"
  have pr: "proper ?en" using assms(2) by (intro proper_enter_of) simp
  have frame: "tour (LT ss) True ?en ?n (eq_cells vs' es') c q"
    if "tour (LT ss) True ?en ?n (eq_cells vs es) c q" "\<And>d. subnode c d \<Longrightarrow> vs' ! d = vs ! d \<and> es' ! d = es ! d"
    for vs vs' es es' c q
    by (rule tour_frame [OF that(1) pr]) (use that(2) in \<open>auto simp: eq_cells_def\<close>)
  show ?case
  proof (cases "?n - 1 \<le> node")
    case True
    then have "tour (LT ss) True ?en ?n (eq_cells vs es) node (?en (node - (?n - 1)))"
      using tour.leaf [of ?n node "LT ss" True ?en "eq_cells vs es"] Suc.prems(5) by simp
    moreover have "node - (?n - 1) < ?n" using Suc.prems(5) by simp
    ultimately show ?thesis using True Suc.prems(1,2)
      by (auto simp: enter_of_def [of True M ss "node - (?n - 1)"] enter_of_def [of True M ss "Suc node - ?n"]
          split: if_splits)
  next
    case False
    let ?l = "2 * node + 1" and ?r = "2 * node + 2"
    have c: "leftChild node = ?l" "rightChild node = ?r"
      using False assms(2) by (auto simp: leftChild_def rightChild_def to_TIndex_def)
    have sub: "subnode ?l d \<or> subnode ?r d \<Longrightarrow> subnode node d" for d using subnode_inner by blast
    have disj: "subnode ?r d \<Longrightarrow> \<not> subnode ?l d" for d using subnode_siblings [of ?l d ?r] by auto
    have ar: "0 < fuel" "?n \<le> ?l + fuel" "?l + 1 < 2 * ?n" "?n \<le> ?r + fuel" "?r + 1 < 2 * ?n"
      using False Suc.prems(4,5) by linarith+
    obtain l vs1 es1 where l: "firstWithEquals fuel M ss (?n - 1) ?l vs es = Inr (l, vs1, es1)"
      "length vs1 = ?n - 1" "length es1 = ?n - 1" "tour (LT ss) True ?en ?n (eq_cells vs1 es1) ?l l"
      "\<forall>d. \<not> subnode ?l d \<longrightarrow> vs1 ! d = vs ! d \<and> es1 ! d = es ! d"
      using Suc.IH [OF Suc.prems(1,2) ar(1,2,3)] Suc.prems(6) sub by blast
    have ev1: "vs1 ! d = kEmpty \<and> \<not> es1 ! d" if "subnode ?r d" "d + 1 < ?n" for d
      using l(5) disj [OF that(1)] Suc.prems(6) [OF sub that(2)] that(1) by simp
    obtain r vs2 es2 where r: "firstWithEquals fuel M ss (?n - 1) ?r vs1 es1 = Inr (r, vs2, es2)"
      "length vs2 = ?n - 1" "length es2 = ?n - 1" "tour (LT ss) True ?en ?n (eq_cells vs2 es2) ?r r"
      "\<forall>d. \<not> subnode ?r d \<longrightarrow> vs2 ! d = vs1 ! d \<and> es2 ! d = es1 ! d"
      using Suc.IH [OF l(2,3) ar(1,4,5) ev1] by blast
    have l2: "tour (LT ss) True ?en ?n (eq_cells vs2 es2) ?l l" using frame [OF l(4)] r(5) disj by blast
    have vn: "vs2 ! node = kEmpty" "\<not> es2 ! node"
      using r(5) l(5) subnode_le [of _ node] Suc.prems(6) [of node] False by fastforce+
    have idle: "idle M ss (fst l)" "idle M ss (fst r)"
      using tour_idle [OF l2] tour_idle [OF r(4)] assms(2) by auto
    obtain y k where y: "(if fst l = kEmpty then Inr (r, vs2, es2) else if fst r = kEmpty then Inr (l, vs2, es2)
      else bindR (sm_compare M (ss ! fst l) (ss ! fst r)) (\<lambda>comparison.
        if comparison = 0 then Inr ((fst l, True), vs2[node := fst r], es2[node := snd r])
        else if comparison < 0 then Inr (l, vs2[node := fst r], es2[node := snd r])
        else Inr (r, vs2[node := fst l], es2[node := snd l])))
      = Inr (y, vs2[node := fst k], es2[node := snd k])" "play (LT ss) True l r y k"
      using game_play_eq [OF assms(1) idle vn] tour_empty [OF l2 pr] tour_empty [OF r(4) pr] by fastforce
    let ?vs = "vs2[node := fst k]" and ?es = "es2[node := snd k]"
    have "tour (LT ss) True ?en ?n (eq_cells ?vs ?es) node y"
    proof (rule tour.inner)
      show "node + 1 < ?n" using False by simp
      show "tour (LT ss) True ?en ?n (eq_cells ?vs ?es) ?l l"
        by (rule frame [OF l2]) (use subnode_le [of ?l] in \<open>fastforce simp: nth_list_update\<close>)
      show "tour (LT ss) True ?en ?n (eq_cells ?vs ?es) ?r r"
        by (rule frame [OF r(4)]) (use subnode_le [of ?r] in \<open>fastforce simp: nth_list_update\<close>)
      show "play (LT ss) True l r y (eq_cells ?vs ?es node)"
        using y(2) False r(2,3) by (simp add: eq_cells_def)
    qed
    moreover have "\<forall>d. \<not> subnode node d \<longrightarrow> ?vs ! d = vs ! d \<and> ?es ! d = es ! d"
      using sub l(5) r(5) by (metis nth_list_update_neq subnode_refl)
    ultimately show ?thesis using l(1) r(1,2,3) y(1) False c by auto
  qed
qed

lemma next_tour_eq:
  assumes "list_all valid ss" "ready_eq (LT ss) M ss t" "1 < length ss"
  shows "\<exists>w vs es. nextWithEquals M ss t = Inr (if fst w = kEmpty then (None, False) else (Some (fst w), snd w),
      t\<lparr>tl_lastIndex := fst w, tl_values := vs, tl_equals := es\<rparr>) \<and>
    length vs = length ss - 1 \<and> length es = length ss - 1 \<and>
    tour (LT ss) True (enter_of True M ss) (length ss) (eq_cells vs es) 0 w"
proof -
  let ?n = "length ss" and ?en = "enter_of True M ss"
  have n: "?n \<le> 32768" "tl_firstStream t = ?n - 1" "length (tl_values t) = ?n - 1" "length (tl_equals t) = ?n - 1"
    "tl_values t \<noteq> []"
    using assms(2,3) by (auto simp: ready_eq_def)
  show ?thesis
  proof (cases "tl_lastIndex t = kEmpty")
    case True
    with assms(2) have e: "\<forall>d < ?n - 1. tl_values t ! d = kEmpty \<and> \<not> tl_equals t ! d"
      by (auto simp: ready_eq_def kEmpty_def)
    obtain w vs es where "firstWithEquals ?n M ss (?n - 1) 0 (tl_values t) (tl_equals t) = Inr (w, vs, es)"
      "length vs = ?n - 1" "length es = ?n - 1" "tour (LT ss) True ?en ?n (eq_cells vs es) 0 w"
      using first_tour_eq [OF assms(1) n(1,3,4), of ?n 0] e assms(3) by (cases ss) auto
    with True n show ?thesis
      by (intro exI [of _ w] exI [of _ vs] exI [of _ es]) (auto simp: nextWithEquals_def Let_def)
  next
    case False
    let ?i = "tl_lastIndex t"
    from False assms(2) have o: "?i < ?n" "opened (LT ss) True ?en ?n (eq_cells (tl_values t) (tl_equals t)) (?n - 1 + ?i)"
      by (auto simp: ready_eq_def)
    have len: "?n < 65535" using n(1) by simp
    let ?v = "if sm_hasData M (ss ! ?i) then ?i else kEmpty"
    have x: "?en ?i = (?v, if ?v = kEmpty then False else sm_isNextEqual M (ss ! ?v))"
      using o(1) len by (auto simp: enter_of_def kEmpty_def)
    have tx: "tour (LT ss) True ?en ?n (eq_cells (tl_values t) (tl_equals t)) (?n - 1 + ?i) (?en ?i)"
      by (rule tour_leaf_enter [OF o(1)])
    have bd: "0 < ?n - 1 + ?i" "?n - 1 + ?i + 1 < 2 * ?n" using assms(3) o(1) by linarith+
    from propagateLoop_tour_eq [OF assms(1) len n(3,4) o(2) bd tx] obtain w vs es
      where "propagateLoopWithEquals M ss (up (?n - 1 + ?i)) (?en ?i) (tl_values t) (tl_equals t) = Inr (w, vs, es)"
        "length vs = ?n - 1" "length es = ?n - 1" "tour (LT ss) True ?en ?n (eq_cells vs es) 0 w" by blast
    moreover have "parent (to_TIndex (?n - 1 + ?i)) = up (?n - 1 + ?i)"
      using o(1) n(1) by (simp add: parent_up to_TIndex_def)
    ultimately show ?thesis using False n(2) x
      by (intro exI [of _ w] exI [of _ vs] exI [of _ es])
        (auto simp: nextWithEquals_def propagateWithEquals_def propagateSkip_is_loop Let_def)
  qed
qed

lemma nextWithEquals_correct:
  assumes "list_all valid ss" "ready_eq (LT ss) M ss t"
  shows "\<exists>r b t'. nextWithEquals M ss t = Inr ((r, b), t') \<and> least M lt ss r \<and>
    (case r of None \<Rightarrow> \<not> b \<and> ready_eq (LT ss) M ss t'
     | Some i \<Rightarrow> (b \<longleftrightarrow> flagged M lt ss i) \<and> (\<forall>s. ready_eq (LT (ss[i := s])) M (ss[i := s]) t'))"
proof (cases "length ss = 1")
  case True
  then obtain a where a: "ss = [a]" by (auto simp: length_Suc_conv)
  have "\<not> lt a a" if "sm_hasData M a" using assms(1) asym [of a a] that a by auto
  with assms(2) a show ?thesis
    by (auto simp: least_def ready_eq_def flagged_def nextWithEquals_def kEmpty_def)
next
  case False
  have n: "length ss \<le> 32768" "tl_firstStream t = length ss - 1" "0 < length ss"
    using assms(2) unfolding ready_eq_def by blast+
  with False have n1: "1 < length ss" by linarith
  from n have len: "length ss < 65535" by simp
  obtain w vs es where w: "nextWithEquals M ss t = Inr (if fst w = kEmpty then (None, False) else (Some (fst w), snd w),
      t\<lparr>tl_lastIndex := fst w, tl_values := vs, tl_equals := es\<rparr>)"
    "length vs = length ss - 1" "length es = length ss - 1"
    "tour (LT ss) True (enter_of True M ss) (length ss) (eq_cells vs es) 0 w"
    using next_tour_eq [OF assms n1] by blast
  note pr = proper_enter_of [OF len, of True M]
  note best = tour_least [OF w(4) assms(1) len]
  have l: "least M lt ss (stream_at (fst w))" using best_least [OF best len] .
  show ?thesis
  proof (cases "fst w = kEmpty")
    case True
    then have "\<forall>d < length ss - 1. vs ! d = kEmpty \<and> \<not> es ! d"
      using tour_all_empty [OF w(4) pr] subnode_root by (auto simp: eq_cells_def)
    with True w l n n1 show ?thesis by (auto simp: ready_eq_def stream_at_def)
  next
    case False
    have op: "opened (LT ss) True (enter_of True M ss) (length ss) (eq_cells vs es) (length ss - 1 + fst w)"
      using opened_winner [OF w(4) pr] False opened.root by fastforce
    have "fst w < length ss" using l False by (simp add: least_def stream_at_def)
    with opened_change [OF op len refl] w(2,3) n n1 False l best_flagged [OF best len False] show ?thesis
      by (auto simp: w(1) stream_at_def ready_eq_def)
  qed
qed

end

end
