(* ===== verification/Spill_Merge.thy ===== *)
theory Spill_Merge
  imports Losers_Equals "HOL-Library.List_Lexorder" "HOL-Library.Product_Lexorder" "HOL-Library.Multiset"
begin

text \<open>
  Reading sorted spill files back: \<^verbatim>\<open>SpillMergeStream\<close> and \<^verbatim>\<open>FileSpillMergeStream\<close>
  (\<^verbatim>\<open>bolt/exec/Spill.h\<close>, \<^verbatim>\<open>Spill.cpp\<close>) with the comparison of scalar columns
  (\<^verbatim>\<open>SimpleVector::compare\<close>, \<^verbatim>\<open>BaseVector::compareNulls\<close>), and the loop of
  \<^verbatim>\<open>SortBuffer::getOutputWithSpill\<close> that merges the streams into output batches. A row is the list of its
  column values, null being \<open>None\<close>. A spill file is the list of the batches it still has to deliver.
\<close>

section \<open>Comparing values\<close>

datatype null_handling_mode = kNullAsValue | kNullAsIndeterminate | kNullAsSpeciallValue

record compare_flags =
  cf_nullsFirst :: bool
  cf_ascending :: bool
  cf_equalsOnly :: bool
  cf_nullHandlingMode :: null_handling_mode

definition comparePrimitiveAsc :: "int \<Rightarrow> int \<Rightarrow> int" where
  "comparePrimitiveAsc left right = (if left < right then -1 else if left = right then 0 else 1)"

definition compareNulls :: "bool \<Rightarrow> bool \<Rightarrow> compare_flags \<Rightarrow> int option result" where
  "compareNulls thisNull otherNull flags =
     (let ordered = (if cf_nullsFirst flags then (if thisNull then -1 else 1) else (if thisNull then 1 else -1)) in
      case cf_nullHandlingMode flags of
        kNullAsIndeterminate \<Rightarrow> if cf_equalsOnly flags then Inr None else Inl UserError
      | kNullAsValue \<Rightarrow> if thisNull \<and> otherNull then Inr (Some 0) else Inr (Some ordered)
      | kNullAsSpeciallValue \<Rightarrow> if thisNull \<and> otherNull then Inr None else Inr (Some ordered))"

definition SimpleVector_compare :: "int option \<Rightarrow> int option \<Rightarrow> compare_flags \<Rightarrow> int option result" where
  "SimpleVector_compare this other flags =
     (case (this, other) of
        (Some a, Some b) \<Rightarrow>
          let r = comparePrimitiveAsc a b in Inr (Some (if cf_ascending flags then r else r * -1))
      | _ \<Rightarrow> compareNulls (this = None) (other = None) flags)"

type_synonym row = "int option list"
type_synonym sort_key = "nat \<times> compare_flags"

section \<open>Streams over spill files\<close>

record spill_stream =
  sp_closed :: bool
  sp_rowVector :: "row list"
  sp_index :: nat
  sp_size :: nat
  sp_spillFile :: "row list list"
  sp_sortingKeys :: "sort_key list"

definition SpillMergeStream_hasData :: "spill_stream \<Rightarrow> bool" where
  "SpillMergeStream_hasData s \<longleftrightarrow> sp_index s < sp_size s"

fun compareKeys :: "sort_key list \<Rightarrow> row \<Rightarrow> row \<Rightarrow> int result" where
  "compareKeys [] a b = Inr 0"
| "compareKeys ((key, flags) # keys) a b =
     (if key < length a \<and> key < length b
      then bindR (SimpleVector_compare (a ! key) (b ! key) flags) (\<lambda>r.
        case r of
          None \<Rightarrow> Inl BadOptionalAccess
        | Some c \<Rightarrow> if c \<noteq> 0 then Inr c else compareKeys keys a b)
      else Inl UndefinedBehaviour)"

definition SpillMergeStream_compare :: "spill_stream \<Rightarrow> spill_stream \<Rightarrow> int result" where
  "SpillMergeStream_compare s other =
     checkR (\<not> sp_closed s) (checkR (\<not> sp_closed other)
       (compareKeys (sp_sortingKeys s) (sp_rowVector s ! sp_index s) (sp_rowVector other ! sp_index other)))"

definition SpillMergeStream_close :: "spill_stream \<Rightarrow> spill_stream result" where
  "SpillMergeStream_close s =
     checkR (\<not> sp_closed s)
       (Inr (s\<lparr>sp_closed := True, sp_rowVector := [], sp_index := 0, sp_size := 0\<rparr>))"

definition FileSpillMergeStream_nextBatch :: "spill_stream \<Rightarrow> spill_stream result" where
  "FileSpillMergeStream_nextBatch s =
     checkR (\<not> sp_closed s)
       (case sp_spillFile s of
          [] \<Rightarrow> SpillMergeStream_close (s\<lparr>sp_index := 0, sp_size := 0\<rparr>)
        | b # bs \<Rightarrow> Inr (s\<lparr>sp_index := 0, sp_rowVector := b, sp_spillFile := bs, sp_size := length b\<rparr>))"

definition SpillMergeStream_pop :: "spill_stream \<Rightarrow> spill_stream result" where
  "SpillMergeStream_pop s =
     checkR (\<not> sp_closed s)
       (let s = s\<lparr>sp_index := sp_index s + 1\<rparr> in
        if sp_size s \<le> sp_index s then FileSpillMergeStream_nextBatch s else Inr s)"

definition FileSpillMergeStream_create :: "sort_key list \<Rightarrow> row list list \<Rightarrow> spill_stream result" where
  "FileSpillMergeStream_create keys batches =
     FileSpillMergeStream_nextBatch
       \<lparr>sp_closed = False, sp_rowVector = [], sp_index = 0, sp_size = 0, sp_spillFile = batches,
        sp_sortingKeys = keys\<rparr>"

definition SpillMergeStream_methods :: "spill_stream stream_methods" where
  "SpillMergeStream_methods =
     \<lparr>sm_hasData = SpillMergeStream_hasData, sm_isNextEqual = (\<lambda>_. False),
      sm_less = less_by_compare SpillMergeStream_compare, sm_compare = SpillMergeStream_compare\<rparr>"

definition createOrderedReader ::
    "sort_key list \<Rightarrow> row list list list \<Rightarrow> (spill_stream list \<times> tree_of_losers) option result" where
  "createOrderedReader keys files =
     bindR (mapR (FileSpillMergeStream_create keys) files) (\<lambda>streams.
       if streams = [] then Inr None
       else bindR (TreeOfLosers_new (length streams)) (\<lambda>t. Inr (Some (streams, t))))"

section \<open>Output of the sort buffer\<close>

text \<open>
  The rows of a batch are remembered as pairs of a stream and an index into its current batch, and copied
  out when a stream is about to replace its batch and when the output is full. A projection maps an input
  column to an output column.
\<close>

definition projectRow :: "(nat \<times> nat) list \<Rightarrow> row \<Rightarrow> row" where
  "projectRow columnMap r =
     (if columnMap = [] then r
      else fold (\<lambda>(inputChannel, outputChannel) out. out[outputChannel := r ! inputChannel]) columnMap
             (replicate (length columnMap) None))"

definition gatherCopy :: "(nat \<times> nat) list \<Rightarrow> spill_stream list \<Rightarrow> (nat \<times> nat) list \<Rightarrow> row list" where
  "gatherCopy columnMap ss pending =
     map (\<lambda>(stream, i). projectRow columnMap (sp_rowVector (ss ! stream) ! i)) pending"

fun outputLoop ::
    "(nat \<times> nat) list \<Rightarrow> nat \<Rightarrow> spill_stream list \<Rightarrow> tree_of_losers \<Rightarrow> (nat \<times> nat) list \<Rightarrow> row list \<Rightarrow>
     (spill_stream list \<times> tree_of_losers \<times> (nat \<times> nat) list \<times> row list) result" where
  "outputLoop columnMap 0 ss t pending output = Inr (ss, t, pending, output)"
| "outputLoop columnMap (Suc missing) ss t pending output =
     bindR (TreeOfLosers_next SpillMergeStream_methods ss t) (\<lambda>(r, t).
       case r of
         None \<Rightarrow> Inl CheckFailed
       | Some i \<Rightarrow>
           checkR (\<not> sp_closed (ss ! i))
             (let pending = pending @ [(i, sp_index (ss ! i))];
                  isEndOfBatch = (sp_index (ss ! i) + 1 = length (sp_rowVector (ss ! i)));
                  output = (if isEndOfBatch then output @ gatherCopy columnMap ss pending else output);
                  pending = (if isEndOfBatch then [] else pending)
              in bindR (SpillMergeStream_pop (ss ! i)) (\<lambda>s.
                   outputLoop columnMap missing (ss[i := s]) t pending output)))"

definition getOutputWithSpill ::
    "(nat \<times> nat) list \<Rightarrow> nat \<Rightarrow> spill_stream list \<Rightarrow> tree_of_losers \<Rightarrow>
     (spill_stream list \<times> tree_of_losers \<times> row list) result" where
  "getOutputWithSpill columnMap outputSize ss t =
     bindR (outputLoop columnMap outputSize ss t [] []) (\<lambda>(ss, t, pending, output).
       checkR (length output + length pending = outputSize)
         (Inr (ss, t, if pending = [] then output else output @ gatherCopy columnMap ss pending)))"

end
