(* ===== verification/Spill_Sorted.thy ===== *)
theory Spill_Sorted
  imports Spill_Merge
begin

text \<open>
  The spill streams meet the contract of the merge, and the output of the sort buffer is the sorted
  merge of the spilled rows.
\<close>

section \<open>The order of rows\<close>

text \<open>A row is ranked by its sort keys: nulls before or after all values, descending values negated.\<close>

definition rank :: "compare_flags \<Rightarrow> int option \<Rightarrow> int \<times> int" where
  "rank f v = (case v of None \<Rightarrow> (if cf_nullsFirst f then 0 else 2, 0) | Some x \<Rightarrow> (1, if cf_ascending f then x else - x))"

definition sort_rank :: "sort_key list \<Rightarrow> row \<Rightarrow> (int \<times> int) list" where
  "sort_rank keys r = map (\<lambda>(key, f). rank f (r ! key)) keys"

definition keys_ok :: "sort_key list \<Rightarrow> bool" where
  "keys_ok keys \<longleftrightarrow> list_all (\<lambda>(_, f). cf_nullHandlingMode f = kNullAsValue) keys"

definition has_keys :: "sort_key list \<Rightarrow> row \<Rightarrow> bool" where
  "has_keys keys r \<longleftrightarrow> list_all (\<lambda>(key, _). key < length r) keys"

lemma SimpleVector_compare_rank:
  assumes "cf_nullHandlingMode f = kNullAsValue"
  shows "\<exists>c. SimpleVector_compare x y f = Inr (Some c) \<and> (c < 0 \<longleftrightarrow> rank f x < rank f y) \<and> (c = 0 \<longleftrightarrow> rank f x = rank f y)"
  using assms
  by (cases x; cases y)
    (auto simp: SimpleVector_compare_def compareNulls_def comparePrimitiveAsc_def rank_def Let_def)

lemma compareKeys_rank:
  assumes "keys_ok keys" "has_keys keys a" "has_keys keys b"
  shows "\<exists>c. compareKeys keys a b = Inr c \<and> (c < 0 \<longleftrightarrow> sort_rank keys a < sort_rank keys b) \<and>
    (0 < c \<longleftrightarrow> sort_rank keys b < sort_rank keys a)"
  using assms
proof (induction keys)
  case Nil
  then show ?case by (simp add: sort_rank_def)
next
  case (Cons kf keys)
  obtain k f where kf: "kf = (k, f)" by (cases kf)
  obtain c where c: "SimpleVector_compare (a ! k) (b ! k) f = Inr (Some c)"
    "c < 0 \<longleftrightarrow> rank f (a ! k) < rank f (b ! k)" "c = 0 \<longleftrightarrow> rank f (a ! k) = rank f (b ! k)"
    using SimpleVector_compare_rank [of f "a ! k" "b ! k"] Cons.prems(1) kf by (auto simp: keys_ok_def)
  then have gt: "0 < c \<longleftrightarrow> rank f (b ! k) < rank f (a ! k)" by (metis linorder_neqE_linordered_idom order_less_asym less_linear)
  have w: "k < length a" "k < length b" using Cons.prems(2,3) kf by (auto simp: has_keys_def)
  from Cons obtain d where d: "compareKeys keys a b = Inr d" "d < 0 \<longleftrightarrow> sort_rank keys a < sort_rank keys b"
    "0 < d \<longleftrightarrow> sort_rank keys b < sort_rank keys a" by (auto simp: keys_ok_def has_keys_def)
  show ?case
  proof (cases "c = 0")
    case True
    with c d w kf show ?thesis by (simp add: sort_rank_def)
  next
    case False
    with c gt w kf show ?thesis by (auto simp: sort_rank_def)
  qed
qed

section \<open>The contents of a stream\<close>

definition rest :: "spill_stream \<Rightarrow> row list" where
  "rest s = (if sp_closed s then [] else drop (sp_index s) (sp_rowVector s) @ concat (sp_spillFile s))"

definition current_row :: "spill_stream \<Rightarrow> row" where
  "current_row s = sp_rowVector s ! sp_index s"

definition spill_valid :: "sort_key list \<Rightarrow> spill_stream \<Rightarrow> bool" where
  "spill_valid keys s \<longleftrightarrow> keys_ok keys \<and> sp_sortingKeys s = keys \<and> sp_size s = length (sp_rowVector s) \<and>
     (if sp_closed s then sp_size s = 0 else sp_index s < sp_size s) \<and> [] \<notin> set (sp_spillFile s) \<and>
     list_all (has_keys keys) (rest s)"

lemma valid_hasData: "spill_valid keys s \<Longrightarrow> SpillMergeStream_hasData s \<longleftrightarrow> \<not> sp_closed s"
  by (auto simp: spill_valid_def SpillMergeStream_hasData_def split: if_splits)

lemma rest_current:
  "spill_valid keys s \<Longrightarrow> \<not> sp_closed s \<Longrightarrow>
   rest s = current_row s # drop (sp_index s + 1) (sp_rowVector s) @ concat (sp_spillFile s)"
  by (simp add: spill_valid_def rest_def current_row_def Cons_nth_drop_Suc)

lemma current_in_rest: "spill_valid keys s \<Longrightarrow> \<not> sp_closed s \<Longrightarrow> has_keys keys (current_row s)"
  using rest_current [of keys s] by (simp add: spill_valid_def)

lemma compare_rank:
  assumes "spill_valid keys a" "spill_valid keys b" "\<not> sp_closed a" "\<not> sp_closed b"
  shows "\<exists>c. SpillMergeStream_compare a b = Inr c \<and>
    (c < 0 \<longleftrightarrow> sort_rank keys (current_row a) < sort_rank keys (current_row b)) \<and>
    (0 < c \<longleftrightarrow> sort_rank keys (current_row b) < sort_rank keys (current_row a))"
proof -
  have k: "keys_ok keys" "sp_sortingKeys a = keys" using assms(1) by (auto simp: spill_valid_def)
  from compareKeys_rank [OF k(1) current_in_rest [OF assms(1,3)] current_in_rest [OF assms(2,4)]]
  show ?thesis using assms(3,4) k(2) by (simp add: SpillMergeStream_compare_def current_row_def)
qed

definition spill_lt :: "sort_key list \<Rightarrow> spill_stream \<Rightarrow> spill_stream \<Rightarrow> bool" where
  "spill_lt keys a b \<longleftrightarrow> sort_rank keys (current_row a) < sort_rank keys (current_row b)"

interpretation spill: merge_streams_eq SpillMergeStream_methods "spill_valid keys" "spill_lt keys" for keys
proof unfold_locales
  fix a b c
  assume v: "spill_valid keys a" "spill_valid keys b"
    and d: "sm_hasData SpillMergeStream_methods a" "sm_hasData SpillMergeStream_methods b"
  then have o: "\<not> sp_closed a" "\<not> sp_closed b" by (auto simp: SpillMergeStream_methods_def valid_hasData)
  from compare_rank [OF v o] show "sm_less SpillMergeStream_methods a b = Inr (spill_lt keys a b)"
    by (auto simp: SpillMergeStream_methods_def less_by_compare_def spill_lt_def)
  from compare_rank [OF v o] show "\<exists>c. sm_compare SpillMergeStream_methods a b = Inr c \<and>
      (c < 0 \<longleftrightarrow> spill_lt keys a b) \<and> (0 < c \<longleftrightarrow> spill_lt keys b a)"
    by (auto simp: SpillMergeStream_methods_def spill_lt_def)
qed (auto simp: spill_lt_def)

lemma pop_rest:
  assumes "spill_valid keys s" "\<not> sp_closed s"
  shows "\<exists>s'. SpillMergeStream_pop s = Inr s' \<and> spill_valid keys s' \<and> rest s = current_row s # rest s' \<and>
    (sp_index s + 1 \<noteq> length (sp_rowVector s) \<longrightarrow> sp_rowVector s' = sp_rowVector s)"
proof -
  note v = assms(1)[unfolded spill_valid_def]
  have i: "sp_index s < length (sp_rowVector s)" "sp_size s = length (sp_rowVector s)" using v assms(2) by auto
  note r = rest_current [OF assms]
  show ?thesis
  proof (cases "sp_index s + 1 = length (sp_rowVector s)")
    case False
    with i v r assms(2) show ?thesis by (auto simp: SpillMergeStream_pop_def Let_def spill_valid_def rest_def)
  next
    case True
    with i v r assms(2) show ?thesis
      by (cases "sp_spillFile s")
        (auto simp: SpillMergeStream_pop_def FileSpillMergeStream_nextBatch_def SpillMergeStream_close_def Let_def
          spill_valid_def rest_def)
  qed
qed

lemma create_rest:
  assumes "keys_ok keys" "[] \<notin> set batches" "list_all (has_keys keys) (concat batches)"
  shows "\<exists>s. FileSpillMergeStream_create keys batches = Inr s \<and> spill_valid keys s \<and> rest s = concat batches"
  using assms
  by (cases batches)
    (auto simp: FileSpillMergeStream_create_def FileSpillMergeStream_nextBatch_def SpillMergeStream_close_def
      spill_valid_def rest_def)

section \<open>The merge\<close>

definition remaining :: "spill_stream list \<Rightarrow> row list" where
  "remaining ss = concat (map rest ss)"

definition merging :: "sort_key list \<Rightarrow> spill_stream list \<Rightarrow> tree_of_losers \<Rightarrow> bool" where
  "merging keys ss t \<longleftrightarrow> list_all (spill_valid keys) ss \<and>
     list_all (\<lambda>s. sorted (map (sort_rank keys) (rest s))) ss \<and>
     ready (\<lambda>i j. spill_lt keys (ss ! i) (ss ! j)) SpillMergeStream_methods ss t"

lemma mset_concat_update:
  "i < length ss \<Longrightarrow> f (ss ! i) = x # f s \<Longrightarrow>
   mset (concat (map f ss)) = add_mset x (mset (concat (map f (ss[i := s]))))"
proof (induction ss arbitrary: i)
  case Nil
  then show ?case by simp
next
  case (Cons a ss)
  then show ?case by (cases i) auto
qed

lemma least_is_minimum:
  assumes "merging keys ss t" "least SpillMergeStream_methods (spill_lt keys) ss (Some i)"
  shows "i < length ss \<and> \<not> sp_closed (ss ! i) \<and>
    (\<forall>y \<in> set (remaining ss). sort_rank keys (current_row (ss ! i)) \<le> sort_rank keys y)"
proof -
  have i: "i < length ss" "SpillMergeStream_hasData (ss ! i)"
    "\<And>s. s \<in> set ss \<Longrightarrow> SpillMergeStream_hasData s \<Longrightarrow> \<not> spill_lt keys s (ss ! i)"
    using assms(2) by (auto simp: least_def SpillMergeStream_methods_def)
  have v: "spill_valid keys s" "sorted (map (sort_rank keys) (rest s))" if "s \<in> set ss" for s
    using that assms(1) by (auto simp: merging_def list_all_iff)
  have "sort_rank keys (current_row (ss ! i)) \<le> sort_rank keys y" if s: "s \<in> set ss" "y \<in> set (rest s)" for s y
  proof -
    have o: "\<not> sp_closed s" using s(2) by (auto simp: rest_def split: if_splits)
    then have "sort_rank keys (current_row (ss ! i)) \<le> sort_rank keys (current_row s)"
      using i(3) [OF s(1)] valid_hasData [OF v(1) [OF s(1)]] by (simp add: spill_lt_def)
    moreover have "sort_rank keys (current_row s) \<le> sort_rank keys y"
      using v(2) [OF s(1)] s(2) rest_current [OF v(1) [OF s(1)] o] by auto
    ultimately show ?thesis by simp
  qed
  moreover have "\<not> sp_closed (ss ! i)" using i(1,2) valid_hasData [OF v(1), of "ss ! i"] by simp
  ultimately show ?thesis using i(1) by (auto simp: remaining_def)
qed

lemma merging_step:
  assumes "merging keys ss t" "remaining ss \<noteq> []"
  shows "\<exists>i t' s'. TreeOfLosers_next SpillMergeStream_methods ss t = Inr (Some i, t') \<and> i < length ss \<and>
    \<not> sp_closed (ss ! i) \<and> SpillMergeStream_pop (ss ! i) = Inr s' \<and> merging keys (ss[i := s']) t' \<and>
    mset (remaining ss) = add_mset (current_row (ss ! i)) (mset (remaining (ss[i := s']))) \<and>
    (\<forall>y \<in> set (remaining ss). sort_rank keys (current_row (ss ! i)) \<le> sort_rank keys y) \<and>
    (sp_index (ss ! i) + 1 \<noteq> length (sp_rowVector (ss ! i)) \<longrightarrow> sp_rowVector s' = sp_rowVector (ss ! i))"
proof -
  have all: "list_all (spill_valid keys) ss" and r: "ready (\<lambda>i j. spill_lt keys (ss ! i) (ss ! j)) SpillMergeStream_methods ss t"
    using assms(1) by (auto simp: merging_def)
  obtain q t' where q: "TreeOfLosers_next SpillMergeStream_methods ss t = Inr (q, t')"
      "least SpillMergeStream_methods (spill_lt keys) ss q"
      "case q of None \<Rightarrow> ready (\<lambda>i j. spill_lt keys (ss ! i) (ss ! j)) SpillMergeStream_methods ss t'
       | Some i \<Rightarrow> \<forall>s. ready (\<lambda>k j. spill_lt keys (ss[i := s] ! k) (ss[i := s] ! j)) SpillMergeStream_methods (ss[i := s]) t'"
    using spill.next_correct [OF all r] by blast
  have "q \<noteq> None"
  proof
    assume "q = None"
    then have "\<forall>s \<in> set ss. rest s = []" using q(2) all valid_hasData
      by (fastforce simp: least_def SpillMergeStream_methods_def list_all_iff rest_def)
    with assms(2) show False by (simp add: remaining_def)
  qed
  then obtain i where qi: "q = Some i" by blast
  from least_is_minimum [OF assms(1)] q(2) qi
  have i: "i < length ss" "\<not> sp_closed (ss ! i)"
    "\<forall>y \<in> set (remaining ss). sort_rank keys (current_row (ss ! i)) \<le> sort_rank keys y" by auto
  have v: "spill_valid keys (ss ! i)" "sorted (map (sort_rank keys) (rest (ss ! i)))"
    using assms(1) i(1) by (auto simp: merging_def list_all_length)
  obtain s' where s': "SpillMergeStream_pop (ss ! i) = Inr s'" "spill_valid keys s'"
    "rest (ss ! i) = current_row (ss ! i) # rest s'"
    "sp_index (ss ! i) + 1 \<noteq> length (sp_rowVector (ss ! i)) \<longrightarrow> sp_rowVector s' = sp_rowVector (ss ! i)"
    using pop_rest [OF v(1) i(2)] by blast
  have "merging keys (ss[i := s']) t'"
    using assms(1) q(3) qi i(1) s'(2,3) v(2)
    by (auto simp: merging_def list_all_length nth_list_update)
  with q(1) qi i s' mset_concat_update [of i ss rest, OF i(1) s'(3)] show ?thesis
    by (auto simp: remaining_def)
qed

lemma gatherCopy_update:
  "sp_rowVector s = sp_rowVector (ss ! i) \<Longrightarrow> i < length ss \<Longrightarrow>
   gatherCopy columnMap (ss[i := s]) pending = gatherCopy columnMap ss pending"
  by (auto simp: gatherCopy_def nth_list_update)

lemma outputLoop_sorted:
  assumes "merging keys ss t" "missing \<le> length (remaining ss)"
  shows "\<exists>ss' t' pending' outp' rows. outputLoop columnMap missing ss t pending outp = Inr (ss', t', pending', outp') \<and>
    outp' @ gatherCopy columnMap ss' pending' = outp @ gatherCopy columnMap ss pending @ map (projectRow columnMap) rows \<and>
    merging keys ss' t' \<and> length rows = missing \<and> sorted (map (sort_rank keys) rows) \<and>
    (\<forall>x \<in> set rows. \<forall>y \<in> set (remaining ss'). sort_rank keys x \<le> sort_rank keys y) \<and>
    mset (remaining ss) = mset rows + mset (remaining ss')"
  using assms
proof (induction missing arbitrary: ss t pending outp)
  case 0
  then show ?case by (auto intro!: exI [of _ "[]"])
next
  case (Suc missing)
  then have "remaining ss \<noteq> []" by auto
  from merging_step [OF Suc.prems(1) this] obtain i t1 s1
    where st: "TreeOfLosers_next SpillMergeStream_methods ss t = Inr (Some i, t1)" "i < length ss"
      "\<not> sp_closed (ss ! i)" "SpillMergeStream_pop (ss ! i) = Inr s1" "merging keys (ss[i := s1]) t1"
      "mset (remaining ss) = add_mset (current_row (ss ! i)) (mset (remaining (ss[i := s1])))"
      "\<forall>y \<in> set (remaining ss). sort_rank keys (current_row (ss ! i)) \<le> sort_rank keys y"
      "sp_index (ss ! i) + 1 \<noteq> length (sp_rowVector (ss ! i)) \<longrightarrow> sp_rowVector s1 = sp_rowVector (ss ! i)"
    by blast
  let ?x = "current_row (ss ! i)" and ?eob = "sp_index (ss ! i) + 1 = length (sp_rowVector (ss ! i))"
  define pend1 where "pend1 = (if ?eob then [] else pending @ [(i, sp_index (ss ! i))])"
  define out1 where "out1 = (if ?eob then outp @ gatherCopy columnMap ss (pending @ [(i, sp_index (ss ! i))]) else outp)"
  have emitted: "out1 @ gatherCopy columnMap (ss[i := s1]) pend1 =
      outp @ gatherCopy columnMap ss pending @ [projectRow columnMap ?x]"
    using st(2,8) gatherCopy_update [of s1 ss i columnMap pend1]
    by (auto simp: out1_def pend1_def gatherCopy_def current_row_def)
  have "size (mset (remaining ss)) = Suc (size (mset (remaining (ss[i := s1]))))" using st(6) by simp
  then have "missing \<le> length (remaining (ss[i := s1]))" using Suc.prems(2) by simp
  from Suc.IH [OF st(5) this, of pend1 out1] obtain ss' t' pending' outp' rows
    where r: "outputLoop columnMap missing (ss[i := s1]) t1 pend1 out1 = Inr (ss', t', pending', outp')"
      "outp' @ gatherCopy columnMap ss' pending' =
         out1 @ gatherCopy columnMap (ss[i := s1]) pend1 @ map (projectRow columnMap) rows"
      "merging keys ss' t'" "length rows = missing" "sorted (map (sort_rank keys) rows)"
      "\<forall>x \<in> set rows. \<forall>y \<in> set (remaining ss'). sort_rank keys x \<le> sort_rank keys y"
      "mset (remaining (ss[i := s1])) = mset rows + mset (remaining ss')" by blast
  have sub: "set rows \<union> set (remaining ss') \<subseteq> set (remaining ss)"
    using st(6) r(7) by (metis set_mset_mset set_mset_union set_mset_add_mset_insert subset_insertI)
  have "outputLoop columnMap (Suc missing) ss t pending outp = Inr (ss', t', pending', outp')"
    using st(1,3,4) r(1) by (simp add: pend1_def out1_def Let_def)
  moreover have "sorted (map (sort_rank keys) (?x # rows))" using r(5) st(7) sub by auto
  moreover have "\<forall>x \<in> set (?x # rows). \<forall>y \<in> set (remaining ss'). sort_rank keys x \<le> sort_rank keys y"
    using r(6) st(7) sub by auto
  moreover have "outp' @ gatherCopy columnMap ss' pending' =
      outp @ gatherCopy columnMap ss pending @ map (projectRow columnMap) (?x # rows)"
    using r(2) emitted by simp
  ultimately show ?case using r(3,4) st(6) r(7)
    by (intro exI [of _ ss'] exI [of _ t'] exI [of _ pending'] exI [of _ outp'] exI [of _ "?x # rows"]) simp
qed

lemma getOutput_sorted:
  assumes "merging keys ss t" "outputSize \<le> length (remaining ss)"
  shows "\<exists>ss' t' rows. getOutputWithSpill columnMap outputSize ss t = Inr (ss', t', map (projectRow columnMap) rows) \<and>
    merging keys ss' t' \<and> length rows = outputSize \<and> sorted (map (sort_rank keys) rows) \<and>
    (\<forall>x \<in> set rows. \<forall>y \<in> set (remaining ss'). sort_rank keys x \<le> sort_rank keys y) \<and>
    mset (remaining ss) = mset rows + mset (remaining ss')"
proof -
  obtain ss' t' pending' outp' rows
    where r: "outputLoop columnMap outputSize ss t [] [] = Inr (ss', t', pending', outp')"
      "outp' @ gatherCopy columnMap ss' pending' = map (projectRow columnMap) rows"
      "merging keys ss' t'" "length rows = outputSize" "sorted (map (sort_rank keys) rows)"
      "\<forall>x \<in> set rows. \<forall>y \<in> set (remaining ss'). sort_rank keys x \<le> sort_rank keys y"
      "mset (remaining ss) = mset rows + mset (remaining ss')"
    using outputLoop_sorted [OF assms, of columnMap "[]" "[]"] by (auto simp: gatherCopy_def)
  have "length outp' + length pending' = outputSize"
    using arg_cong [OF r(2), of length] r(4) by (simp add: gatherCopy_def)
  then have "getOutputWithSpill columnMap outputSize ss t = Inr (ss', t', map (projectRow columnMap) rows)"
    using r(1,2) by (auto simp: getOutputWithSpill_def gatherCopy_def)
  with r(3-) show ?thesis by blast
qed

end
