(* ===== verification/Losers_Array.thy ===== *)
theory Losers_Array
  imports Losers_Run
begin

text \<open>
  \<^verbatim>\<open>MergeArray\<close> keeps the streams sorted by their first values; the returned stream is put in its new place by the
  next call.
\<close>

definition in_order :: "('s \<Rightarrow> 's \<Rightarrow> bool) \<Rightarrow> 's list \<Rightarrow> nat list \<Rightarrow> bool" where
  "in_order lt ss is \<longleftrightarrow> sorted_wrt (\<lambda>i j. \<not> lt (ss ! j) (ss ! i)) is"

definition array_ready :: "'s stream_methods \<Rightarrow> ('s \<Rightarrow> 's \<Rightarrow> bool) \<Rightarrow> 's list \<Rightarrow> merge_array \<Rightarrow> bool" where
  "array_ready M lt ss a \<longleftrightarrow>
     distinct (ma_streams a) \<and> set (ma_streams a) \<subseteq> {..<length ss} \<and>
     (\<forall>i < length ss. sm_hasData M (ss ! i) \<longrightarrow> i \<in> set (ma_streams a)) \<and>
     (if ma_isFirst a
      then in_order lt ss (ma_streams a) \<and> (\<forall>i \<in> set (ma_streams a). sm_hasData M (ss ! i))
      else ma_streams a \<noteq> [] \<and> in_order lt ss (tl (ma_streams a)) \<and>
        (\<forall>i \<in> set (tl (ma_streams a)). sm_hasData M (ss ! i)))"

context merge_streams
begin

lemma lesserPrefix_takeWhile:
  assumes "list_all valid ss" "\<forall>i \<in> set is. i < length ss \<and> sm_hasData M (ss ! i)" "k < length ss" "sm_hasData M (ss ! k)"
  shows "lesserPrefix M ss k is = Inr (length (takeWhile (\<lambda>i. LT ss i k) is))"
  using assms(2)
proof (induction "is")
  case Nil
  then show ?case by simp
next
  case (Cons i "is")
  then have "sm_less M (ss ! i) (ss ! k) = Inr (LT ss i k)"
    using assms(1,3,4) less [of "ss ! i" "ss ! k"] by (simp add: list_all_length)
  with Cons show ?case by simp
qed

lemma insert_in_order:
  assumes "list_all valid ss" "\<forall>i \<in> set (k # is). i < length ss \<and> sm_hasData M (ss ! i)" "in_order lt ss is"
  shows "in_order lt ss (takeWhile (\<lambda>i. LT ss i k) is @ k # dropWhile (\<lambda>i. LT ss i k) is)"
  using assms(2,3)
proof (induction "is")
  case Nil
  then show ?case by (simp add: in_order_def)
next
  case (Cons i "is")
  have v: "valid (ss ! j) \<and> sm_hasData M (ss ! j)" if "j \<in> set (k # i # is)" for j
    using that Cons.prems(1) assms(1) by (auto simp: list_all_length)
  show ?case
  proof (cases "LT ss i k")
    case True
    then have "\<not> LT ss k i" using v asym [of "ss ! i" "ss ! k"] by simp
    moreover have "set (takeWhile (\<lambda>i. LT ss i k) is) \<union> set (dropWhile (\<lambda>i. LT ss i k) is) = set is"
      by (metis set_append takeWhile_dropWhile_id)
    ultimately show ?thesis using True Cons by (auto simp: in_order_def)
  next
    case False
    have "\<not> LT ss j k" if "j \<in> set is" for j
      using that False Cons.prems(2) v negtrans [of "ss ! j" "ss ! i" "ss ! k"] by (auto simp: in_order_def)
    with False Cons.prems(2) show ?thesis by (simp add: in_order_def)
  qed
qed

lemma front_least:
  assumes "list_all valid ss" "in_order lt ss (i # is)" "\<forall>j \<in> set (i # is). sm_hasData M (ss ! j) \<and> j < length ss"
    and "\<forall>j < length ss. sm_hasData M (ss ! j) \<longrightarrow> j \<in> set (i # is)"
  shows "least M lt ss (Some i)"
proof -
  have "\<not> LT ss i i" using assms(1,3) asym [of "ss ! i" "ss ! i"] by (auto simp: list_all_length)
  with assms(2-4) show ?thesis by (fastforce simp: least_def in_order_def in_set_conv_nth)
qed

lemma array_step:
  assumes "list_all valid ss" "array_ready M lt ss a"
  shows "\<exists>r a'. MergeArray_next M ss a = Inr (r, a') \<and> least M lt ss r \<and>
    (case r of None \<Rightarrow> True | Some i \<Rightarrow> \<forall>s. array_ready M lt (ss[i := s]) a')"
proof -
  have change: "in_order lt (ss[i := s]) is = in_order lt ss is" if "i \<notin> set is" for i s "is"
  proof -
    have "\<And>j. j \<in> set is \<Longrightarrow> ss[i := s] ! j = ss ! j" using that by (metis nth_list_update_neq)
    then show ?thesis by (induction "is") (auto simp: in_order_def)
  qed
  have front: "least M lt ss (Some i) \<and> array_ready M lt (ss[i := s]) \<lparr>ma_isFirst = False, ma_streams = i # is\<rparr>"
    if "distinct (i # is)" "set (i # is) \<subseteq> {..<length ss}" "\<forall>j < length ss. sm_hasData M (ss ! j) \<longrightarrow> j \<in> set (i # is)"
      "in_order lt ss (i # is)" "\<forall>j \<in> set (i # is). sm_hasData M (ss ! j)" for i s "is"
    using front_least [OF assms(1), of i "is"] that change [of i "is" s]
    by (auto simp: array_ready_def in_order_def nth_list_update)
  have none: "least M lt ss None" if "\<forall>j < length ss. \<not> sm_hasData M (ss ! j)"
    using that by (auto simp: least_def in_set_conv_nth)
  obtain "is" fs where a: "a = \<lparr>ma_isFirst = fs, ma_streams = is\<rparr>" by (cases a)
  note r = assms(2)[unfolded array_ready_def a, simplified]
  show ?thesis
  proof (cases fs)
    case True
    with r a front none show ?thesis by (cases "is") (auto simp: MergeArray_next_def)
  next
    case False
    with r obtain k ks where k: "is = k # ks" by (cases "is") auto
    show ?thesis
    proof (cases "sm_hasData M (ss ! k)")
      case False
      then have all: "\<forall>j < length ss. sm_hasData M (ss ! j) \<longrightarrow> j \<in> set ks" using r k by auto
      have "MergeArray_next M ss a = Inr (case ks of [] \<Rightarrow> None | i # _ \<Rightarrow> Some i, \<lparr>ma_isFirst = False, ma_streams = ks\<rparr>)"
        using a \<open>\<not> fs\<close> k False by (simp add: MergeArray_next_def)
      with all r \<open>\<not> fs\<close> k front none show ?thesis by (cases ks) auto
    next
      case True
      let ?p = "\<lambda>i. LT ss i k"
      have ks: "\<forall>i \<in> set (k # ks). i < length ss \<and> sm_hasData M (ss ! i)" using r k True \<open>\<not> fs\<close> by auto
      define ms where "ms = takeWhile ?p ks @ k # dropWhile ?p ks"
      have ord: "in_order lt ss ms" unfolding ms_def by (rule insert_in_order [OF assms(1) ks]) (use r k \<open>\<not> fs\<close> in simp)
      have "mset ms = add_mset k (mset (takeWhile ?p ks @ dropWhile ?p ks))"
        by (simp add: ms_def del: takeWhile_dropWhile_id)
      then have m: "mset ms = mset is" by (simp only: takeWhile_dropWhile_id mset.simps k)
      have "MergeArray_next M ss a = Inr (case ms of [] \<Rightarrow> None | i # _ \<Rightarrow> Some i, \<lparr>ma_isFirst = False, ma_streams = ms\<rparr>)"
        using a \<open>\<not> fs\<close> k True lesserPrefix_takeWhile [OF assms(1), of ks k] ks
        by (simp add: MergeArray_next_def ms_def Let_def takeWhile_eq_take [symmetric] dropWhile_eq_drop [symmetric])
      moreover have dist: "distinct ms" "set ms = set (k # ks)"
        using m r k mset_eq_setD mset_eq_imp_distinct_iff by blast+
      moreover obtain i js where ms: "ms = i # js" using dist(2) by (cases ms) auto
      moreover have "least M lt ss (Some i) \<and> array_ready M lt (ss[i := s]) \<lparr>ma_isFirst = False, ma_streams = i # js\<rparr>" for s
      proof (rule front)
        show "distinct (i # js)" "in_order lt ss (i # js)" using dist(1) ord ms by simp_all
        show "set (i # js) \<subseteq> {..<length ss}" "\<forall>j \<in> set (i # js). sm_hasData M (ss ! j)" using ks dist(2) ms by auto
        show "\<forall>j < length ss. sm_hasData M (ss ! j) \<longrightarrow> j \<in> set (i # js)" using r k dist(2) ms by auto
      qed
      ultimately show ?thesis by auto
    qed
  qed
qed

end

end
