(* ===== verification/Merge_Props.thy ===== *)
theory Merge_Props
  imports Spill_Sorted Losers_Array
begin

text \<open>
  The properties of merging ordered streams: the least stream at every call, the flags for equal values,
  the sorted output of a spilled sort, and the limit on the number of streams.
\<close>

section \<open>Runs of the tree\<close>

text \<open>
  A run of the tree: it is built over some streams, and after each call that returns a stream the caller
  advances this stream in any way.
\<close>

inductive tree_run :: "'s stream_methods \<Rightarrow> ('s \<Rightarrow> bool) \<Rightarrow> 's list \<Rightarrow> tree_of_losers \<Rightarrow> bool" for M valid where
  start: "list_all valid ss \<Longrightarrow> TreeOfLosers_new (length ss) = Inr t \<Longrightarrow> tree_run M valid ss t"
| advance: "tree_run M valid ss t \<Longrightarrow> TreeOfLosers_next M ss t = Inr (Some i, t') \<Longrightarrow> valid s \<Longrightarrow>
    tree_run M valid (ss[i := s]) t'"

inductive eq_run :: "'s stream_methods \<Rightarrow> ('s \<Rightarrow> bool) \<Rightarrow> 's list \<Rightarrow> tree_of_losers \<Rightarrow> bool" for M valid where
  start: "list_all valid ss \<Longrightarrow> TreeOfLosers_new (length ss) = Inr t \<Longrightarrow> eq_run M valid ss t"
| advance: "eq_run M valid ss t \<Longrightarrow> nextWithEquals M ss t = Inr ((Some i, b), t') \<Longrightarrow> valid s \<Longrightarrow>
    eq_run M valid (ss[i := s]) t'"

inductive array_run :: "((nat \<Rightarrow> nat \<Rightarrow> bool result) \<Rightarrow> nat list \<Rightarrow> nat list) \<Rightarrow> 's stream_methods \<Rightarrow> ('s \<Rightarrow> bool) \<Rightarrow> 's list \<Rightarrow> merge_array \<Rightarrow> bool"
  for pdqsort M valid where
  start: "list_all valid ss \<Longrightarrow> array_run pdqsort M valid ss (MergeArray_new pdqsort M ss)"
| advance: "array_run pdqsort M valid ss a \<Longrightarrow> MergeArray_next M ss a = Inr (Some i, a') \<Longrightarrow> valid s \<Longrightarrow>
    array_run pdqsort M valid (ss[i := s]) a'"

lemma list_all_update: "list_all P xs \<Longrightarrow> P x \<Longrightarrow> list_all P (xs[i := x])"
  by (auto simp: list_all_iff dest: set_update_subset_insert [THEN subsetD])

lemma new_ready:
  "TreeOfLosers_new (length ss) = Inr t \<Longrightarrow> length ss \<le> 32768 \<Longrightarrow> ready lt M ss t \<and> ready_eq lt M ss t"
  using firstStream_eq [of "length ss" t] by (auto simp: ready_def ready_eq_def)

context merge_streams
begin

lemma tree_run_ready:
  "tree_run M valid ss t \<Longrightarrow> length ss \<le> 32768 \<Longrightarrow> list_all valid ss \<and> ready (LT ss) M ss t"
proof (induction rule: tree_run.induct)
  case (start ss t)
  then show ?case using new_ready by blast
next
  case (advance ss t i t' s)
  with next_correct [of ss t] show ?case by (auto simp: list_all_update)
qed

end

context merge_streams_eq
begin

lemma eq_run_ready:
  "eq_run M valid ss t \<Longrightarrow> length ss \<le> 32768 \<Longrightarrow> list_all valid ss \<and> ready_eq (LT ss) M ss t"
proof (induction rule: eq_run.induct)
  case (start ss t)
  then show ?case using new_ready by blast
next
  case (advance ss t i b t' s)
  with nextWithEquals_correct [of ss t] show ?case by (auto simp: list_all_update)
qed

end

text \<open>
  C14. At every call, whatever the caller did with the streams returned before, \<^verbatim>\<open>TreeOfLosers::next\<close> returns
  the stream with the least first value among those with data, and no stream only if none has data. This holds
  for every kind of stream whose \<^verbatim>\<open>operator<\<close> is a strict weak order, for up to 32768 streams.
\<close>

theorem TreeOfLosers_next_is_least:
  assumes "merge_streams M valid lt" and "tree_run M valid ss t" and "length ss \<le> 32768"
  shows "\<exists>r t'. TreeOfLosers_next M ss t = Inr (r, t') \<and> least M lt ss r"
  using merge_streams.next_correct [OF assms(1)] merge_streams.tree_run_ready [OF assms] by blast

text \<open>
  C15. \<^verbatim>\<open>TreeOfLosers::nextWithEquals\<close> returns the least stream too, and its flag is set exactly when the
  stream says so itself or another stream with data has an equal first value.
\<close>

theorem nextWithEquals_flags_duplicates:
  assumes "merge_streams_eq M valid lt" and "eq_run M valid ss t" and "length ss \<le> 32768"
  shows "\<exists>r b t'. nextWithEquals M ss t = Inr ((r, b), t') \<and> least M lt ss r \<and>
    (case r of None \<Rightarrow> \<not> b
     | Some i \<Rightarrow> b \<longleftrightarrow> sm_isNextEqual M (ss ! i) \<or>
         (\<exists>j < length ss. j \<noteq> i \<and> sm_hasData M (ss ! j) \<and> \<not> lt (ss ! i) (ss ! j) \<and> \<not> lt (ss ! j) (ss ! i)))"
proof -
  from merge_streams_eq.nextWithEquals_correct [OF assms(1)] merge_streams_eq.eq_run_ready [OF assms]
  obtain r b t' where r: "nextWithEquals M ss t = Inr ((r, b), t')" "least M lt ss r"
    "case r of None \<Rightarrow> \<not> b \<and> ready_eq (\<lambda>i j. lt (ss ! i) (ss ! j)) M ss t'
     | Some i \<Rightarrow> (b \<longleftrightarrow> flagged M lt ss i) \<and> (\<forall>s. ready_eq (\<lambda>k j. lt (ss[i := s] ! k) (ss[i := s] ! j)) M (ss[i := s]) t')"
    by blast
  then show ?thesis by (cases r) (auto simp: flagged_def)
qed

section \<open>Witness streams\<close>

definition example_keys :: "sort_key list" where
  "example_keys = [(0, \<lparr>cf_nullsFirst = True, cf_ascending = True, cf_equalsOnly = False,
     cf_nullHandlingMode = kNullAsValue\<rparr>)]"

definition example_files :: "row list list list" where
  "example_files = [[[[Some 1], [Some 4]], [[Some 6]]], [[[None], [Some 2]]], [[[Some 2], [Some 9]]]]"

definition example_streams :: "spill_stream list" where
  "example_streams = (case mapR (FileSpillMergeStream_create example_keys) example_files of Inr ss \<Rightarrow> ss | _ \<Rightarrow> [])"

definition example_tree :: tree_of_losers where
  "example_tree = \<lparr>tl_values = replicate 2 kEmpty, tl_equals = replicate 2 False, tl_lastIndex = kEmpty, tl_firstStream = 2\<rparr>"

lemma example_valid: "list_all (spill_valid example_keys) example_streams" "length example_streams = 3"
  by code_simp+

lemma example_new: "TreeOfLosers_new (length example_streams) = Inr example_tree"
  using TreeOfLosers_new_ok [of 3] firstStream_eq [of 3] example_valid(2) by (auto simp: example_tree_def)

theorem TreeOfLosers_next_is_least_witness:
  "\<exists>r t'. TreeOfLosers_next SpillMergeStream_methods example_streams example_tree = Inr (r, t') \<and>
     least SpillMergeStream_methods (spill_lt example_keys) example_streams r"
proof -
  have run: "tree_run SpillMergeStream_methods (spill_valid example_keys) example_streams example_tree"
    by (rule tree_run.start [OF example_valid(1) example_new])
  from TreeOfLosers_next_is_least [OF spill.merge_streams_axioms run] example_valid(2) show ?thesis by simp
qed

theorem nextWithEquals_flags_duplicates_witness:
  "\<exists>r b t'. nextWithEquals SpillMergeStream_methods example_streams example_tree = Inr ((r, b), t') \<and>
     least SpillMergeStream_methods (spill_lt example_keys) example_streams r"
proof -
  have run: "eq_run SpillMergeStream_methods (spill_valid example_keys) example_streams example_tree"
    by (rule eq_run.start [OF example_valid(1) example_new])
  from nextWithEquals_flags_duplicates [OF spill.merge_streams_eq_axioms run] example_valid(2) show ?thesis by auto
qed

section \<open>The output of a spilled sort\<close>

text \<open>Successive batches of output, of the sizes that \<^verbatim>\<open>SortBuffer::getOutput\<close> asks for.\<close>

fun getOutputs ::
    "(nat \<times> nat) list \<Rightarrow> nat list \<Rightarrow> spill_stream list \<Rightarrow> tree_of_losers \<Rightarrow> row list result" where
  "getOutputs columnMap [] ss t = Inr []"
| "getOutputs columnMap (outputSize # sizes) ss t =
     bindR (getOutputWithSpill columnMap outputSize ss t) (\<lambda>(ss, t, rows).
       bindR (getOutputs columnMap sizes ss t) (\<lambda>rest. Inr (rows @ rest)))"

lemma getOutputs_sorted:
  assumes "merging keys ss t" "sum_list sizes = length (remaining ss)"
  shows "\<exists>rows. getOutputs columnMap sizes ss t = Inr (map (projectRow columnMap) rows) \<and>
    sorted (map (sort_rank keys) rows) \<and> mset rows = mset (remaining ss)"
  using assms
proof (induction sizes arbitrary: ss t)
  case Nil
  then show ?case by simp
next
  case (Cons n sizes)
  then have "n \<le> length (remaining ss)" by simp
  from getOutput_sorted [OF Cons.prems(1) this] obtain ss' t' rows
    where r: "getOutputWithSpill columnMap n ss t = Inr (ss', t', map (projectRow columnMap) rows)"
      "merging keys ss' t'" "length rows = n" "sorted (map (sort_rank keys) rows)"
      "\<forall>x \<in> set rows. \<forall>y \<in> set (remaining ss'). sort_rank keys x \<le> sort_rank keys y"
      "mset (remaining ss) = mset rows + mset (remaining ss')" by blast
  have "sum_list sizes = length (remaining ss')"
    using arg_cong [OF r(6), of size] Cons.prems(2) r(3) by simp
  from Cons.IH [OF r(2) this] obtain more where m: "getOutputs columnMap sizes ss' t' = Inr (map (projectRow columnMap) more)"
    "sorted (map (sort_rank keys) more)" "mset more = mset (remaining ss')" by blast
  have "set more = set (remaining ss')" using m(3) mset_eq_setD by blast
  with r m show ?case by (intro exI [of _ "rows @ more"]) (auto simp: sorted_append)
qed

lemma reader_merging:
  assumes "keys_ok keys" "files \<noteq> []" "length files \<le> 32768"
    and "\<forall>f \<in> set files. [] \<notin> set f \<and> list_all (has_keys keys) (concat f) \<and> sorted (map (sort_rank keys) (concat f))"
  shows "\<exists>ss t. createOrderedReader keys files = Inr (Some (ss, t)) \<and> merging keys ss t \<and> remaining ss = concat (concat files)"
proof -
  have "\<exists>s. FileSpillMergeStream_create keys f = Inr s" if "f \<in> set files" for f
    using create_rest [OF assms(1), of f] assms(4) that by blast
  then obtain ss where ss: "mapR (FileSpillMergeStream_create keys) files = Inr ss" using mapR_total by metis
  then have rel: "list_all2 (\<lambda>f s. FileSpillMergeStream_create keys f = Inr s) files ss" by (simp add: mapR_Inr_iff)
  then have len: "length ss = length files" by (metis list_all2_lengthD)
  have each: "list_all2 (\<lambda>f s. spill_valid keys s \<and> rest s = concat f \<and> sorted (map (sort_rank keys) (rest s))) files ss"
    unfolding list_all2_conv_all_nth
  proof (intro conjI allI impI)
    show "length files = length ss" by (simp add: len)
    fix n
    assume n: "n < length files"
    then have c: "FileSpillMergeStream_create keys (files ! n) = Inr (ss ! n)" using rel by (simp add: list_all2_conv_all_nth)
    from assms(4) n have "[] \<notin> set (files ! n)" "list_all (has_keys keys) (concat (files ! n))"
      "sorted (map (sort_rank keys) (concat (files ! n)))" using nth_mem by blast+
    with create_rest [OF assms(1), of "files ! n"] c
    show "spill_valid keys (ss ! n)" "rest (ss ! n) = concat (files ! n)" "sorted (map (sort_rank keys) (rest (ss ! n)))" by auto
  qed
  obtain t where t: "TreeOfLosers_new (length ss) = Inr t"
    using TreeOfLosers_new_ok [of "length ss"] assms(2,3) len by fastforce
  have "list_all (spill_valid keys) ss" "list_all (\<lambda>s. sorted (map (sort_rank keys) (rest s))) ss"
    using each by (auto simp: list_all_length list_all2_conv_all_nth)
  moreover have "remaining ss = concat (concat files)"
  proof -
    have "map rest ss = map concat files" using each by (auto simp: list_all2_conv_all_nth intro: nth_equalityI)
    moreover have "concat (map concat fs) = concat (concat fs)" for fs :: "row list list list" by (induction fs) auto
    ultimately show ?thesis by (simp add: remaining_def)
  qed
  moreover have "ready (\<lambda>i j. spill_lt keys (ss ! i) (ss ! j)) SpillMergeStream_methods ss t"
    using new_ready [OF t] assms(3) len by simp
  moreover have "ss \<noteq> []" using len assms(2) by auto
  ultimately show ?thesis using ss t by (auto simp: createOrderedReader_def merging_def)
qed

text \<open>
  C16. A sort that spilled returns its rows in order: over spill files that are sorted one by one, the ordered
  reader is built, every batch is filled, and the batches together are all rows of all files, projected to the output
  columns, in the order of the sort keys. The sizes of the batches are arbitrary.
\<close>

theorem spilled_sort_is_sorted:
  assumes "keys_ok keys" and "files \<noteq> []" and "length files \<le> 32768"
    and "\<forall>f \<in> set files. [] \<notin> set f \<and> list_all (has_keys keys) (concat f) \<and> sorted (map (sort_rank keys) (concat f))"
    and "sum_list sizes = length (concat (concat files))"
  shows "\<exists>ss t rows. createOrderedReader keys files = Inr (Some (ss, t)) \<and>
    getOutputs columnMap sizes ss t = Inr (map (projectRow columnMap) rows) \<and>
    sorted (map (sort_rank keys) rows) \<and> mset rows = mset (concat (concat files))"
  using reader_merging [OF assms(1-4)] getOutputs_sorted assms(5) by metis

theorem spilled_sort_is_sorted_witness:
  "\<exists>ss t rows. createOrderedReader example_keys example_files = Inr (Some (ss, t)) \<and>
    getOutputs [] [2, 5] ss t = Inr (map (projectRow []) rows) \<and> mset rows = mset (concat (concat example_files))"
proof -
  have "keys_ok example_keys" "example_files \<noteq> []"
    "\<forall>f \<in> set example_files. [] \<notin> set f \<and> list_all (has_keys example_keys) (concat f) \<and>
       sorted (map (sort_rank example_keys) (concat f))"
    "sum_list [2, 5] = length (concat (concat example_files))" by code_simp+
  moreover have "length example_files \<le> 32768" by (simp add: example_files_def)
  ultimately show ?thesis using spilled_sort_is_sorted [of example_keys example_files "[2, 5]" "[]"] by blast
qed

section \<open>Too many streams\<close>

lemma first_diverges:
  assumes "32769 \<le> length ss" "length ss < 65535" "k \<le> 15"
  shows "TreeOfLosers_first fuel M ss (length ss - 1) (2 ^ k - 1) vs = Inl OutOfFuel"
  using assms(3)
proof (induction fuel arbitrary: k vs)
  case 0
  then show ?case by simp
next
  case (Suc fuel)
  have "(2::nat) ^ k \<le> 2 ^ 15" using Suc.prems by (rule power_increasing) simp
  then have inner: "\<not> length ss - 1 \<le> 2 ^ k - 1" using assms(1) by simp
  show ?case
  proof (cases "k = 15")
    case False
    then have "leftChild (2 ^ k - 1) = 2 ^ Suc k - 1"
    proof -
      have "k < 15" using False Suc.prems by simp
      then have "(2::nat) ^ Suc k \<le> 2 ^ 15" by (intro power_increasing) simp_all
      moreover have "0 < (2::nat) ^ k" by simp
      then have "(2 ^ k - 1) * 2 + 1 = 2 ^ Suc k - (1::nat)" unfolding power_Suc by linarith
      ultimately show ?thesis by (simp add: leftChild_def to_TIndex_def)
    qed
    with Suc.IH [of "Suc k" vs] False Suc.prems inner show ?thesis by simp
  next
    case True
    have c: "leftChild (2 ^ 15 - 1) = 65535" "rightChild (2 ^ 15 - 1) = 0"
      by (simp_all add: leftChild_def rightChild_def to_TIndex_def)
    have "\<exists>r. TreeOfLosers_first fuel M ss (length ss - 1) 65535 vs = r \<and> (r = Inl OutOfFuel \<or> (\<exists>l. r = Inr (l, vs)))"
      using assms(1,2) by (cases fuel) auto
    with Suc.IH [of 0 vs] c True inner show ?thesis by (auto simp: bindR_def)
  qed
qed

text \<open>
  C17. The constructor accepts up to 65534 streams, but with more than 32768 of them the number of a child node
  is truncated to 16 bits: the right child of node 32767 is node 0 again, and the first call of \<^verbatim>\<open>next\<close> never
  returns. No depth of the recursion is enough.
\<close>

theorem many_streams_never_return:
  assumes "32769 \<le> length ss" and "length ss < 65535"
  shows "(\<exists>t. TreeOfLosers_new (length ss) = Inr t) \<and>
    TreeOfLosers_first fuel M ss (length ss - 1) 0 vs = Inl OutOfFuel"
proof -
  have "0 < length ss" using assms by linarith
  with TreeOfLosers_new_ok [of "length ss"] first_diverges [OF assms, of 0 fuel M vs] assms(2) show ?thesis by simp
qed

theorem many_streams_never_return_witness:
  "TreeOfLosers_first 100 SpillMergeStream_methods (replicate 40000 (hd example_streams)) 39999 0
     (replicate 39999 kEmpty) = Inl OutOfFuel"
  using many_streams_never_return [of "replicate 40000 (hd example_streams)" 100 SpillMergeStream_methods
      "replicate 39999 kEmpty"]
  by (simp only: length_replicate) simp

section \<open>The merge array\<close>

text \<open>What the merge relies on of \<^verbatim>\<open>boost::sort::pdqsort\<close>: with a strict weak order it sorts.\<close>

definition strict_weak :: "(nat \<Rightarrow> nat \<Rightarrow> bool result) \<Rightarrow> (nat \<Rightarrow> nat \<Rightarrow> bool) \<Rightarrow> nat set \<Rightarrow> bool" where
  "strict_weak cmp lt S \<longleftrightarrow> (\<forall>i \<in> S. \<forall>j \<in> S. cmp i j = Inr (lt i j) \<and> (lt i j \<longrightarrow> \<not> lt j i) \<and>
     (\<forall>k \<in> S. \<not> lt i j \<longrightarrow> \<not> lt j k \<longrightarrow> \<not> lt i k))"

definition sorts_by :: "((nat \<Rightarrow> nat \<Rightarrow> bool result) \<Rightarrow> nat list \<Rightarrow> nat list) \<Rightarrow> bool" where
  "sorts_by pdqsort \<longleftrightarrow> (\<forall>cmp lt xs. strict_weak cmp lt (set xs) \<longrightarrow>
     mset (pdqsort cmp xs) = mset xs \<and> sorted_wrt (\<lambda>i j. \<not> lt j i) (pdqsort cmp xs))"

context merge_streams
begin

lemma new_array_ready:
  assumes "sorts_by pdqsort" "list_all valid ss"
  shows "array_ready M lt ss (MergeArray_new pdqsort M ss)"
proof -
  let ?xs = "filter (\<lambda>i. sm_hasData M (ss ! i)) [0..<length ss]"
  have live: "valid (ss ! i) \<and> sm_hasData M (ss ! i)" if "i \<in> set ?xs" for i
    using that assms(2) by (auto simp: list_all_length)
  have "strict_weak (\<lambda>left right. sm_less M (ss ! left) (ss ! right)) (LT ss) (set ?xs)"
    unfolding strict_weak_def
  proof (intro ballI conjI impI)
    fix i j
    assume ij: "i \<in> set ?xs" "j \<in> set ?xs"
    show "sm_less M (ss ! i) (ss ! j) = Inr (LT ss i j)" using live [OF ij(1)] live [OF ij(2)] by (simp add: less)
    show "\<not> LT ss j i" if "LT ss i j" using live [OF ij(1)] live [OF ij(2)] that by (simp add: asym)
    show "\<not> LT ss i k" if "k \<in> set ?xs" "\<not> LT ss i j" "\<not> LT ss j k" for k
      using live [OF ij(1)] live [OF ij(2)] live [OF that(1)] that(2,3) negtrans [of "ss ! i" "ss ! j" "ss ! k"] by blast
  qed
  from assms(1)[unfolded sorts_by_def, rule_format, OF this]
  have "mset (pdqsort (\<lambda>left right. sm_less M (ss ! left) (ss ! right)) ?xs) = mset ?xs"
    "sorted_wrt (\<lambda>i j. \<not> LT ss j i) (pdqsort (\<lambda>left right. sm_less M (ss ! left) (ss ! right)) ?xs)"
    by blast+
  moreover from this(1) have "set (pdqsort (\<lambda>left right. sm_less M (ss ! left) (ss ! right)) ?xs) = set ?xs"
    "distinct (pdqsort (\<lambda>left right. sm_less M (ss ! left) (ss ! right)) ?xs)"
    using mset_eq_setD mset_eq_imp_distinct_iff [of _ ?xs] by (metis, simp)
  ultimately show ?thesis by (auto simp: array_ready_def MergeArray_new_def in_order_def)
qed

lemma array_run_ready:
  assumes "sorts_by pdqsort"
  shows "array_run pdqsort M valid ss a \<Longrightarrow> list_all valid ss \<and> array_ready M lt ss a"
proof (induction rule: array_run.induct)
  case (start ss)
  then show ?case using new_array_ready [OF assms] by blast
next
  case (advance ss a i a' s)
  with array_step [of ss a] show ?case by (auto simp: list_all_update)
qed

end

text \<open>
  C18. \<^verbatim>\<open>MergeArray::next\<close> keeps the same promise as the tree: at every call of a run it returns the stream with
  the least first value, and no stream when none has data.
\<close>

theorem MergeArray_next_is_least:
  assumes "merge_streams M valid lt" and "sorts_by pdqsort" and "array_run pdqsort M valid ss a"
  shows "\<exists>r a'. MergeArray_next M ss a = Inr (r, a') \<and> least M lt ss r"
  using merge_streams.array_step [OF assms(1)] merge_streams.array_run_ready [OF assms] by blast

fun insert_by :: "(nat \<Rightarrow> nat \<Rightarrow> bool result) \<Rightarrow> nat \<Rightarrow> nat list \<Rightarrow> nat list" where
  "insert_by cmp x [] = [x]"
| "insert_by cmp x (y # ys) = (if cmp y x = Inr True then y # insert_by cmp x ys else x # y # ys)"

definition insertion_sort :: "(nat \<Rightarrow> nat \<Rightarrow> bool result) \<Rightarrow> nat list \<Rightarrow> nat list" where
  "insertion_sort cmp xs = foldr (insert_by cmp) xs []"

lemma strict_weak_subset: "strict_weak cmp lt S \<Longrightarrow> T \<subseteq> S \<Longrightarrow> strict_weak cmp lt T"
  unfolding strict_weak_def by blast

lemma strict_weakD:
  "strict_weak cmp lt S \<Longrightarrow> i \<in> S \<Longrightarrow> j \<in> S \<Longrightarrow> cmp i j = Inr (lt i j)"
  "strict_weak cmp lt S \<Longrightarrow> i \<in> S \<Longrightarrow> j \<in> S \<Longrightarrow> lt i j \<Longrightarrow> \<not> lt j i"
  "strict_weak cmp lt S \<Longrightarrow> i \<in> S \<Longrightarrow> j \<in> S \<Longrightarrow> k \<in> S \<Longrightarrow> \<not> lt i j \<Longrightarrow> \<not> lt j k \<Longrightarrow> \<not> lt i k"
  unfolding strict_weak_def by blast+

lemma insert_by_sorted:
  assumes "strict_weak cmp lt (set (x # ys))" "sorted_wrt (\<lambda>i j. \<not> lt j i) ys"
  shows "mset (insert_by cmp x ys) = add_mset x (mset ys) \<and> sorted_wrt (\<lambda>i j. \<not> lt j i) (insert_by cmp x ys)"
  using assms
proof (induction ys)
  case Nil
  then show ?case by simp
next
  case (Cons y ys)
  have "strict_weak cmp lt (set (x # ys))" by (rule strict_weak_subset [OF Cons.prems(1)]) auto
  with Cons have IH: "mset (insert_by cmp x ys) = add_mset x (mset ys)" "sorted_wrt (\<lambda>i j. \<not> lt j i) (insert_by cmp x ys)"
    by simp_all
  from IH(1) have s: "set (insert_by cmp x ys) = insert x (set ys)" by (metis set_mset_mset set_mset_add_mset_insert)
  have c: "cmp y x = Inr (lt y x)" "lt y x \<Longrightarrow> \<not> lt x y" 
    using strict_weakD(1,2) [OF Cons.prems(1), of y x] by simp_all
  show ?case
  proof (cases "lt y x")
    case True
    with IH s c Cons.prems(2) show ?thesis by simp
  next
    case False
    have "\<not> lt z x" if "z \<in> set ys" for z
    proof -
      have "\<not> lt z y" using Cons.prems(2) that by simp
      with False that show ?thesis by (intro strict_weakD(3) [OF Cons.prems(1), of z y x]) simp_all
    qed
    with False c Cons.prems(2) show ?thesis by simp
  qed
qed

lemma insertion_sort_sorts: "sorts_by insertion_sort"
proof -
  have "mset (insertion_sort cmp xs) = mset xs \<and> sorted_wrt (\<lambda>i j. \<not> lt j i) (insertion_sort cmp xs)"
    if "strict_weak cmp lt (set xs)" for cmp lt xs
    using that
  proof (induction xs)
    case Nil
    then show ?case by (simp add: insertion_sort_def)
  next
    case (Cons x xs)
    have "strict_weak cmp lt (set xs)" by (rule strict_weak_subset [OF Cons.prems]) auto
    with Cons.IH have IH: "mset (insertion_sort cmp xs) = mset xs" "sorted_wrt (\<lambda>i j. \<not> lt j i) (insertion_sort cmp xs)"
      by simp_all
    from IH(1) have "set (insertion_sort cmp xs) = set xs" by (rule mset_eq_setD)
    with insert_by_sorted [of cmp lt x "insertion_sort cmp xs"] IH Cons.prems show ?case
      by (simp add: insertion_sort_def)
  qed
  then show ?thesis unfolding sorts_by_def by blast
qed

theorem MergeArray_next_is_least_witness:
  "\<exists>r a'. MergeArray_next SpillMergeStream_methods example_streams
      (MergeArray_new insertion_sort SpillMergeStream_methods example_streams) = Inr (r, a') \<and>
    least SpillMergeStream_methods (spill_lt example_keys) example_streams r"
  by (rule MergeArray_next_is_least [OF spill.merge_streams_axioms insertion_sort_sorts array_run.start [OF example_valid(1)]])

end
