(* ===== verification/Ordered_Map.thy ===== *)
theory Ordered_Map
  imports Bolt_Prelude
begin

text \<open>
  \<^verbatim>\<open>std::map\<close> as an association list in the order of its keys, with the operations the sources use:
  insertion, erasure, \<^verbatim>\<open>lower_bound\<close>, and the neighbours of a position.
\<close>

type_synonym ('k, 'v) omap = "('k \<times> 'v) list"

definition omap_ok :: "('k::linorder, 'v) omap \<Rightarrow> bool" where
  "omap_ok m \<longleftrightarrow> sorted_wrt (<) (map fst m)"

fun omap_put :: "'k::linorder \<Rightarrow> 'v \<Rightarrow> ('k, 'v) omap \<Rightarrow> ('k, 'v) omap" where
  "omap_put k v [] = [(k, v)]"
| "omap_put k v ((k', v') # m) =
     (if k < k' then (k, v) # (k', v') # m else if k = k' then (k, v) # m else (k', v') # omap_put k v m)"

definition omap_del :: "'k \<Rightarrow> ('k, 'v) omap \<Rightarrow> ('k, 'v) omap" where
  "omap_del k m = filter (\<lambda>p. fst p \<noteq> k) m"

definition omap_lower :: "'k::linorder \<Rightarrow> ('k, 'v) omap \<Rightarrow> ('k \<times> 'v) option" where
  "omap_lower k m = find (\<lambda>p. k \<le> fst p) m"

definition omap_next :: "'k::linorder \<Rightarrow> ('k, 'v) omap \<Rightarrow> ('k \<times> 'v) option" where
  "omap_next k m = find (\<lambda>p. k < fst p) m"

definition omap_prev :: "'k::linorder \<Rightarrow> ('k, 'v) omap \<Rightarrow> ('k \<times> 'v) option" where
  "omap_prev k m = (case filter (\<lambda>p. fst p < k) m of [] \<Rightarrow> None | ps \<Rightarrow> Some (last ps))"

lemma omap_ok_Nil [simp]: "omap_ok []"
  by (simp add: omap_ok_def)

lemma omap_ok_Cons [simp]: "omap_ok (p # m) \<longleftrightarrow> (\<forall>q \<in> set m. fst p < fst q) \<and> omap_ok m"
  by (auto simp: omap_ok_def)

lemma omap_unique: "omap_ok m \<Longrightarrow> (k, v) \<in> set m \<Longrightarrow> (k, w) \<in> set m \<Longrightarrow> v = w"
  by (induction m) fastforce+

lemma omap_map_of: "omap_ok m \<Longrightarrow> map_of m k = Some v \<longleftrightarrow> (k, v) \<in> set m"
  by (intro map_of_eq_Some_iff) (simp add: omap_ok_def strict_sorted_iff)

lemma omap_map_of_None: "map_of m k = None \<longleftrightarrow> (\<forall>v. (k, v) \<notin> set m)"
  by (force simp: map_of_eq_None_iff)

lemma set_omap_put: "omap_ok m \<Longrightarrow> set (omap_put k v m) = insert (k, v) {p \<in> set m. fst p \<noteq> k}"
proof (induction m)
  case Nil
  then show ?case by simp
next
  case (Cons p m)
  obtain k' v' where p: "p = (k', v')" by (cases p)
  from Cons.prems p have lt: "\<And>q. q \<in> set m \<Longrightarrow> k' < fst q" by simp
  consider "k < k'" | "k = k'" | "k' < k" by (rule linorder_cases)
  then show ?case
  proof cases
    case 1
    then have "fst q \<noteq> k" if "q \<in> set m" for q using lt [OF that] by auto
    with 1 p show ?thesis by auto
  next
    case 2
    then have "fst q \<noteq> k" if "q \<in> set m" for q using lt [OF that] by auto
    with 2 p show ?thesis by auto
  next
    case 3
    with p Cons show ?thesis by auto
  qed
qed

lemma omap_ok_put [simp]: "omap_ok m \<Longrightarrow> omap_ok (omap_put k v m)"
  by (induction m) (fastforce simp: set_omap_put not_less_iff_gr_or_eq intro: order_less_trans)+

lemma set_omap_del [simp]: "set (omap_del k m) = {p \<in> set m. fst p \<noteq> k}"
  by (auto simp: omap_del_def)

lemma omap_ok_del [simp]: "omap_ok m \<Longrightarrow> omap_ok (omap_del k m)"
  by (induction m) (auto simp: omap_del_def)

lemma omap_lower_Some:
  "omap_ok m \<Longrightarrow> omap_lower k m = Some p \<Longrightarrow> p \<in> set m \<and> k \<le> fst p \<and> (\<forall>q \<in> set m. k \<le> fst q \<longrightarrow> fst p \<le> fst q)"
  unfolding omap_lower_def by (induction m) (auto split: if_splits)

lemma omap_lower_None: "omap_lower k m = None \<longleftrightarrow> (\<forall>p \<in> set m. fst p < k)"
  unfolding omap_lower_def by (auto simp: find_None_iff)

lemma omap_next_Some:
  "omap_ok m \<Longrightarrow> omap_next k m = Some p \<Longrightarrow> p \<in> set m \<and> k < fst p \<and> (\<forall>q \<in> set m. k < fst q \<longrightarrow> fst p \<le> fst q)"
  unfolding omap_next_def by (induction m) (auto split: if_splits)

lemma omap_next_None: "omap_next k m = None \<longleftrightarrow> (\<forall>p \<in> set m. fst p \<le> k)"
  unfolding omap_next_def by (auto simp: find_None_iff)

lemma omap_prev_None: "omap_prev k m = None \<longleftrightarrow> (\<forall>p \<in> set m. k \<le> fst p)"
proof -
  have "omap_prev k m = None \<longleftrightarrow> filter (\<lambda>p. fst p < k) m = []" by (simp add: omap_prev_def split: list.splits)
  then show ?thesis by (auto simp: filter_empty_conv not_less)
qed

lemma omap_last: "omap_ok m \<Longrightarrow> q \<in> set m \<Longrightarrow> fst q \<le> fst (last m)"
  by (induction m) (auto simp: order_less_imp_le)

lemma omap_ok_filter: "omap_ok m \<Longrightarrow> omap_ok (filter P m)"
  by (induction m) auto

lemma omap_prev_Some:
  assumes "omap_ok m" "omap_prev k m = Some p"
  shows "p \<in> set m \<and> fst p < k \<and> (\<forall>q \<in> set m. fst q < k \<longrightarrow> fst q \<le> fst p)"
proof -
  define f where "f = filter (\<lambda>p. fst p < k) m"
  have ne: "f \<noteq> []" and p: "p = last f" using assms(2) by (auto simp: omap_prev_def f_def split: list.splits)
  have "p \<in> set f" using ne p by simp
  moreover have "fst q \<le> fst p" if "q \<in> set f" for q
    using omap_last [OF omap_ok_filter [OF assms(1)]] that p unfolding f_def by blast
  ultimately show ?thesis by (auto simp: f_def)
qed

end
