(* ===== verification/Arena.thy ===== *)
theory Arena
  imports Ordered_Map Bolt_Bits
begin

text \<open>
  The arena allocator of \<^verbatim>\<open>bolt/common/memory/MmapArena.cpp\<close>: one mapped region that is cut into
  blocks of power-of-two sizes. The free blocks are kept twice, by address and by size. Addresses and sizes are unsigned
  64-bit integers. An unordered set of addresses is a list without order: \<open>pick\<close> stands for the element that
  \<^verbatim>\<open>begin()\<close> points to. Mapping and unmapping memory is the operating system's: the address that \<^verbatim>\<open>mmap\<close>
  returns is an argument.
\<close>

section \<open>One arena\<close>

record mmap_arena =
  ar_byteSize :: nat
  ar_address :: nat
  ar_freeBytes :: nat
  ar_freeList :: "(nat, nat) omap"
  ar_freeLookup :: "(nat, nat list) omap"

definition kMinGrainSizeBytes :: nat where "kMinGrainSizeBytes = 1024 * 1024"

definition roundBytes :: "nat \<Rightarrow> nat" where
  "roundBytes bytes = nextPowerOfTwo bytes"

text \<open>\<^verbatim>\<open>freeLookup_[bytes]\<close>, which adds an empty set for a new key.\<close>

definition lookup_at :: "nat \<Rightarrow> (nat, nat list) omap \<Rightarrow> nat list" where
  "lookup_at bytes lookup = (case map_of lookup bytes of None \<Rightarrow> [] | Some addrs \<Rightarrow> addrs)"

definition addToLookup :: "nat \<Rightarrow> nat \<Rightarrow> (nat, nat list) omap \<Rightarrow> (nat, nat list) omap" where
  "addToLookup addr bytes lookup =
     (let addrs = lookup_at bytes lookup in
      omap_put bytes (if addr \<in> set addrs then addrs else addr # addrs) lookup)"

definition removeFromLookup :: "nat \<Rightarrow> nat \<Rightarrow> mmap_arena \<Rightarrow> mmap_arena" where
  "removeFromLookup addr bytes a =
     (let addrs = filter (\<lambda>x. x \<noteq> addr) (lookup_at bytes (ar_freeLookup a)) in
      a\<lparr>ar_freeLookup := (if addrs = [] then omap_del bytes (ar_freeLookup a)
                           else omap_put bytes addrs (ar_freeLookup a))\<rparr>)"

definition addFreeBlock :: "nat \<Rightarrow> nat \<Rightarrow> mmap_arena \<Rightarrow> mmap_arena result" where
  "addFreeBlock addr bytes a =
     checkR (map_of (ar_freeList a) addr = None)
       (Inr (a\<lparr>ar_freeList := omap_put addr bytes (ar_freeList a),
               ar_freeLookup := addToLookup addr bytes (ar_freeLookup a)\<rparr>))"

definition removeFreeBlock :: "nat \<Rightarrow> nat \<Rightarrow> mmap_arena \<Rightarrow> mmap_arena" where
  "removeFreeBlock addr bytes a = removeFromLookup addr bytes (a\<lparr>ar_freeList := omap_del addr (ar_freeList a)\<rparr>)"

definition MmapArena_new :: "nat \<Rightarrow> nat option \<Rightarrow> mmap_arena result" where
  "MmapArena_new capacityBytes mmap =
     checkR (capacityBytes mod kMinGrainSizeBytes = 0)
       (case mmap of
          None \<Rightarrow> Inl CheckFailed
        | Some ptr \<Rightarrow>
            bindR (addFreeBlock ptr capacityBytes
                     \<lparr>ar_byteSize = capacityBytes, ar_address = ptr, ar_freeBytes = 0, ar_freeList = [],
                      ar_freeLookup = []\<rparr>)
              (\<lambda>a. Inr (a\<lparr>ar_freeBytes := capacityBytes\<rparr>)))"

definition MmapArena_empty :: "mmap_arena \<Rightarrow> bool" where
  "MmapArena_empty a \<longleftrightarrow> ar_freeBytes a = ar_byteSize a"

definition MmapArena_allocate :: "(nat list \<Rightarrow> nat) \<Rightarrow> nat \<Rightarrow> mmap_arena \<Rightarrow> (nat option \<times> mmap_arena) result" where
  "MmapArena_allocate pick bytes a =
     (if bytes = 0 then Inr (None, a)
      else let bytes = roundBytes bytes in
        case omap_lower bytes (ar_freeLookup a) of
          None \<Rightarrow> Inr (None, a)
        | Some (curFreeBytes, addrs) \<Rightarrow>
            let a = a\<lparr>ar_freeBytes := subu64 (ar_freeBytes a) bytes\<rparr>; addr = pick addrs in
            if curFreeBytes = bytes then Inr (Some addr, removeFreeBlock addr curFreeBytes a)
            else bindR (addFreeBlock (addu64 addr bytes) (subu64 curFreeBytes bytes) a) (\<lambda>a.
              Inr (Some addr, removeFreeBlock addr curFreeBytes a)))"

text \<open>
  The end of \<^verbatim>\<open>MmapArena::free\<close>: joining the new free block with its neighbours. A neighbour that is joined is
  \<open>Some\<close> address and size.
\<close>

definition mergeFree ::
    "nat \<Rightarrow> nat \<Rightarrow> (nat \<times> nat) option \<Rightarrow> (nat \<times> nat) option \<Rightarrow> mmap_arena \<Rightarrow> mmap_arena" where
  "mergeFree curAddr bytes mergePrev mergeNext a =
     (case mergePrev of
        Some (prevAddr, prevBytes) \<Rightarrow>
          let a = removeFreeBlock curAddr bytes a;
              a = removeFromLookup prevAddr prevBytes a;
              (newFreeSize, a) =
                (case mergeNext of
                   Some (nextAddr, nextBytes) \<Rightarrow>
                     (addu64 (subu64 nextAddr prevAddr) nextBytes, removeFreeBlock nextAddr nextBytes a)
                 | None \<Rightarrow> (addu64 (subu64 curAddr prevAddr) bytes, a))
          in a\<lparr>ar_freeList := omap_put prevAddr newFreeSize (ar_freeList a),
               ar_freeLookup := addToLookup prevAddr newFreeSize (ar_freeLookup a)\<rparr>
      | None \<Rightarrow>
          (case mergeNext of
             Some (nextAddr, nextBytes) \<Rightarrow>
               let a = removeFreeBlock nextAddr nextBytes a;
                   a = removeFromLookup curAddr bytes a;
                   newFreeSize = addu64 (subu64 nextAddr curAddr) nextBytes
               in a\<lparr>ar_freeList := omap_put curAddr newFreeSize (ar_freeList a),
                    ar_freeLookup := addToLookup curAddr newFreeSize (ar_freeLookup a)\<rparr>
           | None \<Rightarrow> a))"

definition MmapArena_free :: "nat \<Rightarrow> nat \<Rightarrow> mmap_arena \<Rightarrow> mmap_arena result" where
  "MmapArena_free curAddr bytes a =
     (if curAddr = 0 \<or> bytes = 0 then Inr a
      else let bytes = roundBytes bytes; a = a\<lparr>ar_freeBytes := addu64 (ar_freeBytes a) bytes\<rparr> in
        bindR (addFreeBlock curAddr bytes a) (\<lambda>a.
          let prev = omap_prev curAddr (ar_freeList a);
              next = omap_next curAddr (ar_freeList a);
              prevEnd = map_option (\<lambda>(addr, n). addu64 addr n) prev;
              curEnd = addu64 curAddr bytes
          in checkR (case prevEnd of None \<Rightarrow> True | Some e \<Rightarrow> e \<le> curAddr)
              (checkR (case next of None \<Rightarrow> True | Some (addr, _) \<Rightarrow> curEnd \<le> addr)
                (Inr (mergeFree curAddr bytes
                   (if prevEnd = Some curAddr then prev else None)
                   (case next of Some (addr, n) \<Rightarrow> if curEnd = addr then Some (addr, n) else None | None \<Rightarrow> None)
                   a)))))"

fun freeListErrors :: "mmap_arena \<Rightarrow> nat \<Rightarrow> (nat, nat) omap \<Rightarrow> nat" where
  "freeListErrors a arenaEnd [] = 0"
| "freeListErrors a arenaEnd ((addr, bytes) # rest) =
     (if addr \<notin> set (lookup_at bytes (ar_freeLookup a)) then 1 else 0) +
     (if arenaEnd < addu64 addr bytes then 1 else 0) +
     (case rest of [] \<Rightarrow> 0 | (nextAddr, _) # _ \<Rightarrow> if nextAddr < addu64 addr bytes then 1 else 0) +
     freeListErrors a arenaEnd rest"

definition checkConsistency :: "mmap_arena \<Rightarrow> bool" where
  "checkConsistency a =
     (let arenaEnd = addu64 (ar_address a) (ar_byteSize a);
          freeListTotal = sum_list (map snd (ar_freeList a)) mod 2 ^ 64;
          lookupTotal = sum_list (map (\<lambda>(bytes, addrs). bytes * length addrs) (ar_freeLookup a)) mod 2 ^ 64;
          numErrors = freeListErrors a arenaEnd (ar_freeList a) +
            length (filter (\<lambda>p. snd p = []) (ar_freeLookup a)) +
            (if freeListTotal \<noteq> lookupTotal \<or> freeListTotal \<noteq> ar_freeBytes a then 1 else 0)
      in numErrors = 0)"

section \<open>Several arenas\<close>

text \<open>
  \<^verbatim>\<open>ManagedMmapArenas\<close>: arenas by their addresses, and the address of the current one. A new arena is mapped at
  the address the caller of the model supplies.
\<close>

record managed_arenas =
  mg_capacity :: nat
  mg_arenas :: "(nat, mmap_arena) omap"
  mg_current :: nat

definition ManagedMmapArenas_new :: "nat \<Rightarrow> nat option \<Rightarrow> managed_arenas result" where
  "ManagedMmapArenas_new capacity mmap =
     bindR (MmapArena_new capacity mmap) (\<lambda>a.
       Inr \<lparr>mg_capacity = capacity, mg_arenas = [(ar_address a, a)], mg_current = ar_address a\<rparr>)"

definition current_arena :: "managed_arenas \<Rightarrow> mmap_arena" where
  "current_arena g = the (map_of (mg_arenas g) (mg_current g))"

definition ManagedMmapArenas_allocate ::
    "(nat list \<Rightarrow> nat) \<Rightarrow> nat option \<Rightarrow> nat \<Rightarrow> managed_arenas \<Rightarrow> (nat option \<times> managed_arenas) result" where
  "ManagedMmapArenas_allocate pick mmap bytes g =
     bindR (MmapArena_allocate pick bytes (current_arena g)) (\<lambda>(r, a).
       case r of
         Some p \<Rightarrow> Inr (Some p, g\<lparr>mg_arenas := omap_put (mg_current g) a (mg_arenas g)\<rparr>)
       | None \<Rightarrow>
           bindR (MmapArena_new (mg_capacity g) mmap) (\<lambda>new.
             bindR (MmapArena_allocate pick bytes new) (\<lambda>(r, new).
               Inr (r, g\<lparr>mg_arenas := omap_put (ar_address new) new (mg_arenas g), mg_current := ar_address new\<rparr>))))"

definition ManagedMmapArenas_free :: "nat \<Rightarrow> nat \<Rightarrow> managed_arenas \<Rightarrow> managed_arenas result" where
  "ManagedMmapArenas_free addr bytes g =
     checkR (mg_arenas g \<noteq> [])
       (let free_in = (\<lambda>(key, a).
          bindR (MmapArena_free addr bytes a) (\<lambda>a.
            Inr (if MmapArena_empty a \<and> key \<noteq> mg_current g
                 then g\<lparr>mg_arenas := omap_del key (mg_arenas g)\<rparr>
                 else g\<lparr>mg_arenas := omap_put key a (mg_arenas g)\<rparr>)))
        in case map_of (mg_arenas g) addr of
             Some a \<Rightarrow> free_in (addr, a)
           | None \<Rightarrow>
               (case omap_prev addr (mg_arenas g) of
                  None \<Rightarrow> Inl CheckFailed
                | Some (key, a) \<Rightarrow>
                    checkR (addu64 addr bytes \<le> addu64 key (mg_capacity g)) (free_in (key, a))))"

end
