(* ===== verification/Arena_Blocks.thy ===== *)
theory Arena_Blocks
  imports Arena
begin

text \<open>
  Geometry of an arena: free and allocated blocks tile the region, and no two free blocks touch. The lookup by size
  holds the same blocks as the list by address.
\<close>

section \<open>Lookup by size\<close>

definition lookup_blocks :: "(nat, nat list) omap \<Rightarrow> (nat \<times> nat) set" where
  "lookup_blocks m = {(addr, bytes). \<exists>addrs. (bytes, addrs) \<in> set m \<and> addr \<in> set addrs}"

definition lookup_ok :: "(nat, nat list) omap \<Rightarrow> (nat \<times> nat) set \<Rightarrow> bool" where
  "lookup_ok m F \<longleftrightarrow> omap_ok m \<and> (\<forall>p \<in> set m. snd p \<noteq> [] \<and> distinct (snd p)) \<and> lookup_blocks m = F"

lemma lookup_at_mem: "omap_ok m \<Longrightarrow> addr \<in> set (lookup_at bytes m) \<longleftrightarrow> (addr, bytes) \<in> lookup_blocks m"
  by (cases "map_of m bytes") (auto simp: lookup_at_def lookup_blocks_def omap_map_of [symmetric])

lemma lookup_at_distinct: "lookup_ok m F \<Longrightarrow> distinct (lookup_at bytes m)"
  by (cases "map_of m bytes") (use map_of_SomeD in \<open>fastforce simp: lookup_ok_def lookup_at_def\<close>)+

lemma lookup_blocks_put:
  "omap_ok m \<Longrightarrow> lookup_blocks (omap_put bytes addrs m) =
     {p \<in> lookup_blocks m. snd p \<noteq> bytes} \<union> {(addr, bytes) |addr. addr \<in> set addrs}"
  by (auto simp: lookup_blocks_def set_omap_put)

lemma lookup_blocks_del: "lookup_blocks (omap_del bytes m) = {p \<in> lookup_blocks m. snd p \<noteq> bytes}"
  by (auto simp: lookup_blocks_def)

lemma addToLookup_ok: "lookup_ok m F \<Longrightarrow> lookup_ok (addToLookup addr bytes m) (insert (addr, bytes) F)"
proof -
  assume l: "lookup_ok m F"
  then have ok: "omap_ok m" "lookup_blocks m = F" by (auto simp: lookup_ok_def)
  define addrs where "addrs = (if addr \<in> set (lookup_at bytes m) then lookup_at bytes m else addr # lookup_at bytes m)"
  have s: "set addrs = insert addr {x. (x, bytes) \<in> F}" "distinct addrs"
    using lookup_at_mem [OF ok(1)] lookup_at_distinct [OF l, of bytes] ok(2) by (auto simp: addrs_def)
  then have ne: "addrs \<noteq> []" by auto
  have "addToLookup addr bytes m = omap_put bytes addrs m" by (simp add: addToLookup_def addrs_def Let_def)
  with l ok s ne show ?thesis by (auto simp: lookup_ok_def lookup_blocks_put set_omap_put)
qed

lemma removeFromLookup_ok:
  assumes "lookup_ok (ar_freeLookup a) F"
  shows "lookup_ok (ar_freeLookup (removeFromLookup addr bytes a)) (F - {(addr, bytes)})"
proof -
  have ok: "omap_ok (ar_freeLookup a)" "lookup_blocks (ar_freeLookup a) = F" using assms by (auto simp: lookup_ok_def)
  define addrs where "addrs = filter (\<lambda>x. x \<noteq> addr) (lookup_at bytes (ar_freeLookup a))"
  have s: "set addrs = {x. (x, bytes) \<in> F \<and> x \<noteq> addr}" "distinct addrs"
    using lookup_at_mem [OF ok(1)] lookup_at_distinct [OF assms, of bytes] ok(2) by (auto simp: addrs_def)
  have eq: "ar_freeLookup (removeFromLookup addr bytes a) =
      (if addrs = [] then omap_del bytes (ar_freeLookup a) else omap_put bytes addrs (ar_freeLookup a))"
    by (simp add: removeFromLookup_def addrs_def Let_def)
  show ?thesis
  proof (cases "addrs = []")
    case True
    with s have none: "\<And>x. (x, bytes) \<in> F \<Longrightarrow> x = addr" by auto
    have "p \<in> {p \<in> F. snd p \<noteq> bytes} \<longleftrightarrow> p \<in> F - {(addr, bytes)}" for p
      using none [of "fst p"] by (cases p) auto
    then have "{p \<in> F. snd p \<noteq> bytes} = F - {(addr, bytes)}" by (rule set_eqI)
    then have "lookup_blocks (omap_del bytes (ar_freeLookup a)) = F - {(addr, bytes)}"
      by (simp only: lookup_blocks_del ok(2))
    with True assms eq show ?thesis by (simp add: lookup_ok_def)
  next
    case False
    with s assms ok eq show ?thesis by (auto simp: lookup_ok_def lookup_blocks_put set_omap_put)
  qed
qed

lemma removeFromLookup_simps [simp]:
  "ar_byteSize (removeFromLookup addr bytes a) = ar_byteSize a"
  "ar_address (removeFromLookup addr bytes a) = ar_address a"
  "ar_freeBytes (removeFromLookup addr bytes a) = ar_freeBytes a"
  "ar_freeList (removeFromLookup addr bytes a) = ar_freeList a"
  by (simp_all add: removeFromLookup_def Let_def)

section \<open>Tilings\<close>

definition span :: "nat \<times> nat \<Rightarrow> nat set" where
  "span b = {fst b..<fst b + snd b}"

definition tiles :: "nat \<Rightarrow> nat \<Rightarrow> (nat \<times> nat) set \<Rightarrow> bool" where
  "tiles base sz B \<longleftrightarrow> finite B \<and> (\<forall>b \<in> B. 0 < snd b) \<and>
     (\<forall>b \<in> B. \<forall>c \<in> B. b \<noteq> c \<longrightarrow> span b \<inter> span c = {}) \<and> (\<Union>b \<in> B. span b) = {base..<base + sz}"

definition apart :: "(nat \<times> nat) set \<Rightarrow> bool" where
  "apart F \<longleftrightarrow> (\<forall>b \<in> F. \<forall>c \<in> F. fst b + snd b \<noteq> fst c)"

lemma span_mem [simp]: "x \<in> span b \<longleftrightarrow> fst b \<le> x \<and> x < fst b + snd b"
  by (simp add: span_def)

lemma tiles_pair: "tiles base sz B \<Longrightarrow> b \<in> B \<Longrightarrow> c \<in> B \<Longrightarrow> b \<noteq> c \<Longrightarrow> span b \<inter> span c = {}"
  by (simp add: tiles_def)

lemma tiles_disjoint: "tiles base sz B \<Longrightarrow> b \<in> B \<Longrightarrow> c \<in> B \<Longrightarrow> x \<in> span b \<Longrightarrow> x \<in> span c \<Longrightarrow> b = c"
  unfolding tiles_def by blast

lemma tiles_inside:
  assumes "tiles base sz B" "b \<in> B"
  shows "base \<le> fst b \<and> fst b + snd b \<le> base + sz \<and> 0 < snd b"
proof -
  have p: "0 < snd b" and s: "span b \<subseteq> {base..<base + sz}" using assms by (auto simp: tiles_def)
  from p have "fst b \<in> span b" "fst b + snd b - 1 \<in> span b" by auto
  with s have "fst b \<in> {base..<base + sz}" "fst b + snd b - 1 \<in> {base..<base + sz}" by blast+
  with p show ?thesis by auto
qed

lemma tiles_order:
  assumes "tiles base sz B" "b \<in> B" "c \<in> B" "fst b < fst c"
  shows "fst b + snd b \<le> fst c"
proof (rule ccontr)
  assume "\<not> ?thesis"
  then have "fst c \<in> span b" "fst c \<in> span c" using assms tiles_inside [OF assms(1,3)] by auto
  from tiles_disjoint [OF assms(1-3) this] assms(4) show False by simp
qed

lemma tiles_start_unique: "tiles base sz B \<Longrightarrow> b \<in> B \<Longrightarrow> c \<in> B \<Longrightarrow> fst b = fst c \<Longrightarrow> b = c"
  using tiles_disjoint [of base sz B b c "fst b"] tiles_inside [of base sz B] by auto

lemma tiles_end_unique: "tiles base sz B \<Longrightarrow> b \<in> B \<Longrightarrow> c \<in> B \<Longrightarrow> fst b + snd b = fst c + snd c \<Longrightarrow> b = c"
  using tiles_disjoint [of base sz B b c "fst b + snd b - 1"] tiles_inside [of base sz B b] tiles_inside [of base sz B c] by auto

text \<open>Cutting a block in two and joining two blocks that touch.\<close>

lemma tiles_replace:
  assumes "tiles base sz (insert b R)" "b \<notin> R" "finite N" "\<And>c. c \<in> N \<Longrightarrow> 0 < snd c"
    and "\<And>c d. c \<in> N \<Longrightarrow> d \<in> N \<Longrightarrow> c \<noteq> d \<Longrightarrow> span c \<inter> span d = {}" "(\<Union>c \<in> N. span c) = span b"
  shows "tiles base sz (N \<union> R)"
proof -
  have sub: "span c \<subseteq> span b" if "c \<in> N" for c using that assms(6) by blast
  have "span c \<inter> span d = {}" if "c \<in> N \<union> R" "d \<in> N \<union> R" "c \<noteq> d" for c d
  proof -
    have out: "span b \<inter> span r = {}" if "r \<in> R" for r
      by (rule tiles_pair [OF assms(1)]) (use that assms(2) in auto)
    have inr: "span r \<inter> span q = {}" if "r \<in> R" "q \<in> R" "r \<noteq> q" for r q
    by (rule tiles_pair [OF assms(1)]) (use that in auto)
    have mix: "span n \<inter> span r = {}" if "n \<in> N" "r \<in> R" for n r using sub [OF that(1)] out [OF that(2)] by blast
    from that(1,2) consider "c \<in> N" "d \<in> N" | "c \<in> N" "d \<in> R" | "c \<in> R" "d \<in> N" | "c \<in> R" "d \<in> R" by blast
    then show ?thesis
      by cases (use that(3) assms(5) [of c d] inr [of c d] mix [of c d] mix [of d c] in \<open>simp_all add: Int_commute\<close>)
  qed
  moreover have "(\<Union>c \<in> N \<union> R. span c) = {base..<base + sz}"
    using assms(1,6) by (simp add: tiles_def UN_Un)
  moreover have "\<forall>c \<in> N \<union> R. 0 < snd c" "finite (N \<union> R)" using assms(1,3,4) by (auto simp: tiles_def)
  ultimately show ?thesis by (simp add: tiles_def)
qed

lemma tiles_cut:
  assumes "tiles base sz (insert (a, s) R)" "(a, s) \<notin> R" "0 < k" "k < s"
  shows "tiles base sz (insert (a, k) (insert (a + k, s - k) R))"
proof -
  have "tiles base sz ({(a, k), (a + k, s - k)} \<union> R)"
    by (rule tiles_replace [OF assms(1,2)]) (use assms(3,4) in \<open>auto simp: span_def\<close>)
  then show ?thesis by simp
qed

lemma tiles_join:
  assumes "tiles base sz (insert (a, s) (insert (a + s, t) R))" "(a, s) \<notin> R" "(a + s, t) \<notin> R"
  shows "tiles base sz (insert (a, s + t) R)"
proof -
  have p: "0 < s" "0 < t" using assms(1) by (auto simp: tiles_def)
  let ?B = "insert (a, s) (insert (a + s, t) R)"
  have U: "(\<Union>c \<in> insert (a, s + t) R. span c) = (\<Union>c \<in> ?B. span c)" by (auto simp: span_def)
  have out: "span (a, s + t) \<inter> span r = {}" if "r \<in> R" for r
  proof -
    have "span (a, s) \<inter> span r = {}" "span (a + s, t) \<inter> span r = {}"
      by (rule tiles_pair [OF assms(1)]; use that assms(2,3) in auto)+
    moreover have "span (a, s + t) = span (a, s) \<union> span (a + s, t)" by (auto simp: span_def)
    ultimately show ?thesis by blast
  qed
  have inr: "span r \<inter> span q = {}" if "r \<in> R" "q \<in> R" "r \<noteq> q" for r q
    by (rule tiles_pair [OF assms(1)]) (use that in auto)
  have "\<forall>b \<in> insert (a, s + t) R. \<forall>c \<in> insert (a, s + t) R. b \<noteq> c \<longrightarrow> span b \<inter> span c = {}"
    using out inr by blast
  moreover have "\<forall>b \<in> insert (a, s + t) R. 0 < snd b" "finite R" using assms(1) p by (auto simp: tiles_def)
  ultimately show ?thesis using assms(1) U unfolding tiles_def by auto
qed

end
