(* ===== verification/Arena_Inv.thy ===== *)
theory Arena_Inv
  imports Arena_Blocks
begin

text \<open>
  The invariant of an arena with its allocated blocks, and that \<^verbatim>\<open>allocate\<close> and \<^verbatim>\<open>free\<close> keep it.
\<close>

section \<open>The invariant\<close>

definition region_ok :: "mmap_arena \<Rightarrow> bool" where
  "region_ok a \<longleftrightarrow> 0 < ar_address a \<and> 0 < ar_byteSize a \<and> ar_address a + ar_byteSize a < 2 ^ 64"

definition arena_core :: "mmap_arena \<Rightarrow> (nat \<times> nat) set \<Rightarrow> (nat \<times> nat) set \<Rightarrow> bool" where
  "arena_core a F live \<longleftrightarrow> region_ok a \<and> omap_ok (ar_freeList a) \<and> set (ar_freeList a) = F \<and>
     lookup_ok (ar_freeLookup a) F \<and> tiles (ar_address a) (ar_byteSize a) (F \<union> live) \<and> F \<inter> live = {} \<and>
     ar_freeBytes a = (\<Sum>b \<in> F. snd b)"

definition arena_inv :: "mmap_arena \<Rightarrow> (nat \<times> nat) set \<Rightarrow> bool" where
  "arena_inv a live \<longleftrightarrow> arena_core a (set (ar_freeList a)) live \<and> apart (set (ar_freeList a))"

lemma apartD: "apart F \<Longrightarrow> b \<in> F \<Longrightarrow> c \<in> F \<Longrightarrow> fst b + snd b \<noteq> fst c"
  by (simp add: apart_def)

lemma tiles_total: "tiles base sz B \<Longrightarrow> (\<Sum>b \<in> B. snd b) = sz"
proof -
  assume t: "tiles base sz B"
  then have "card (\<Union>b \<in> B. span b) = (\<Sum>b \<in> B. card (span b))"
    by (intro card_UN_disjoint ballI impI tiles_pair [OF t]) (simp_all add: tiles_def span_def)
  with t show ?thesis by (simp add: tiles_def span_def)
qed

lemma core_finite: "arena_core a F live \<Longrightarrow> finite F \<and> finite live"
  by (auto simp: arena_core_def tiles_def)

lemma core_total: "arena_core a F live \<Longrightarrow> (\<Sum>b \<in> F. snd b) + (\<Sum>b \<in> live. snd b) = ar_byteSize a"
  using core_finite [of a F live] tiles_total [of "ar_address a" "ar_byteSize a" "F \<union> live"]
  by (simp add: arena_core_def sum.union_disjoint)

lemma core_block:
  assumes "arena_core a F live" "b \<in> F \<union> live"
  shows "ar_address a \<le> fst b \<and> fst b + snd b \<le> ar_address a + ar_byteSize a \<and> 0 < snd b \<and> fst b + snd b < 2 ^ 64"
proof -
  have "tiles (ar_address a) (ar_byteSize a) (F \<union> live)" "ar_address a + ar_byteSize a < 2 ^ 64"
    using assms(1) by (auto simp: arena_core_def region_ok_def)
  with tiles_inside [OF this(1) assms(2)] show ?thesis by linarith
qed

text \<open>Changing the lists and the count together.\<close>

lemma core_update:
  assumes "arena_core a F live" "ar_byteSize a' = ar_byteSize a" "ar_address a' = ar_address a"
    and "omap_ok (ar_freeList a')" "set (ar_freeList a') = F'" "lookup_ok (ar_freeLookup a') F'"
    and "tiles (ar_address a) (ar_byteSize a) (F' \<union> live')" "F' \<inter> live' = {}" "ar_freeBytes a' = (\<Sum>b \<in> F'. snd b)"
  shows "arena_core a' F' live'"
  using assms by (simp add: arena_core_def region_ok_def)

lemma block_at_unique:
  "tiles base sz (F \<union> live) \<Longrightarrow> (p, s) \<in> F \<Longrightarrow> {q \<in> F. fst q \<noteq> p} = F - {(p, s)}"
proof (rule set_eqI)
  fix q
  assume "tiles base sz (F \<union> live)" "(p, s) \<in> F"
  with tiles_start_unique [of base sz "F \<union> live" "(p, s)" q] show "q \<in> {q \<in> F. fst q \<noteq> p} \<longleftrightarrow> q \<in> F - {(p, s)}" by auto
qed

section \<open>Creation\<close>

lemma new_inv:
  assumes "capacity mod kMinGrainSizeBytes = 0" "0 < capacity" "0 < ptr" "ptr + capacity < 2 ^ 64"
  shows "\<exists>a. MmapArena_new capacity (Some ptr) = Inr a \<and> arena_inv a {} \<and>
    ar_freeList a = [(ptr, capacity)] \<and> ar_address a = ptr \<and> ar_byteSize a = capacity"
proof -
  have "lookup_ok [] {}" by (simp add: lookup_ok_def lookup_blocks_def)
  from addToLookup_ok [OF this, of ptr capacity] have l: "lookup_ok (addToLookup ptr capacity []) {(ptr, capacity)}" .
  have "tiles ptr capacity {(ptr, capacity)}" using assms(2) by (simp add: tiles_def span_def)
  with l assms show ?thesis
    by (auto simp: MmapArena_new_def addFreeBlock_def arena_inv_def arena_core_def region_ok_def apart_def)
qed

section \<open>Allocation\<close>

lemma allocate_whole:
  assumes "arena_inv a live" "(p, k) \<in> set (ar_freeList a)"
  shows "arena_inv (removeFreeBlock p k (a\<lparr>ar_freeBytes := subu64 (ar_freeBytes a) k\<rparr>)) (insert (p, k) live)"
proof -
  let ?F = "set (ar_freeList a)" and ?a' = "removeFreeBlock p k (a\<lparr>ar_freeBytes := subu64 (ar_freeBytes a) k\<rparr>)"
  have core: "arena_core a ?F live" and ap: "apart ?F" using assms(1) by (auto simp: arena_inv_def)
  then have t: "tiles (ar_address a) (ar_byteSize a) (?F \<union> live)" and l: "lookup_ok (ar_freeLookup a) ?F"
    and d: "?F \<inter> live = {}" and fb: "ar_freeBytes a = (\<Sum>b \<in> ?F. snd b)" and rg: "region_ok a" by (auto simp: arena_core_def)
  have set': "set (ar_freeList ?a') = ?F - {(p, k)}"
    using block_at_unique [OF t assms(2)] by (simp add: removeFreeBlock_def)
  have fin: "finite ?F" by simp
  have sum: "(\<Sum>b \<in> ?F. snd b) = k + (\<Sum>b \<in> ?F - {(p, k)}. snd b)" using sum.remove [OF fin assms(2), of snd] by simp
  have "(\<Sum>b \<in> ?F. snd b) < 2 ^ 64" using core_total [OF core] rg by (simp add: region_ok_def)
  then have fb': "ar_freeBytes ?a' = (\<Sum>b \<in> ?F - {(p, k)}. snd b)"
    using sum fb subu64_exact [of k "ar_freeBytes a"] by (simp add: removeFreeBlock_def)
  have "arena_core ?a' (?F - {(p, k)}) (insert (p, k) live)"
  proof (rule core_update [OF core])
    show "lookup_ok (ar_freeLookup ?a') (?F - {(p, k)})" unfolding removeFreeBlock_def
      by (rule removeFromLookup_ok) (simp add: l)
    have "?F - {(p, k)} \<union> insert (p, k) live = ?F \<union> live" using assms(2) by auto
    then show "tiles (ar_address a) (ar_byteSize a) (?F - {(p, k)} \<union> insert (p, k) live)" using t by simp
  qed (use set' fb' d core in \<open>auto simp: removeFreeBlock_def arena_core_def\<close>)
  moreover have "apart (?F - {(p, k)})" using ap by (auto simp: apart_def)
  ultimately show ?thesis by (simp add: arena_inv_def set')
qed

lemma allocate_part:
  assumes "arena_inv a live" "(p, s) \<in> set (ar_freeList a)" "0 < k" "k < s"
  shows "\<exists>a1. addFreeBlock (addu64 p k) (subu64 s k) (a\<lparr>ar_freeBytes := subu64 (ar_freeBytes a) k\<rparr>) = Inr a1 \<and>
    arena_inv (removeFreeBlock p s a1) (insert (p, k) live)"
proof -
  let ?F = "set (ar_freeList a)"
  have core: "arena_core a ?F live" and ap: "apart ?F" using assms(1) by (auto simp: arena_inv_def)
  then have t: "tiles (ar_address a) (ar_byteSize a) (?F \<union> live)" and l: "lookup_ok (ar_freeLookup a) ?F"
    and d: "?F \<inter> live = {}" and fb: "ar_freeBytes a = (\<Sum>b \<in> ?F. snd b)" and rg: "region_ok a"
    and ok: "omap_ok (ar_freeList a)" by (auto simp: arena_core_def)
  have b: "p + s < 2 ^ 64" using core_block [OF core, of "(p, s)"] assms(2) by simp
  then have ex: "addu64 p k = p + k" "subu64 s k = s - k" using assms(3,4) by (simp_all add: addu64_exact subu64_exact)
  have fresh: "q \<notin> ?F \<union> live" if "fst q = p + k" for q
  proof
    assume "q \<in> ?F \<union> live"
    with tiles_order [OF t, of "(p, s)" q] assms(2-4) that show False by auto
  qed
  define a1 where "a1 = a\<lparr>ar_freeBytes := subu64 (ar_freeBytes a) k, ar_freeList := omap_put (p + k) (s - k) (ar_freeList a),
    ar_freeLookup := addToLookup (p + k) (s - k) (ar_freeLookup a)\<rparr>"
  let ?G = "insert (p + k, s - k) (?F - {(p, s)})" and ?a' = "removeFreeBlock p s a1"
  have "map_of (ar_freeList a) (p + k) = None" unfolding omap_map_of_None using fresh by auto
  then have add: "addFreeBlock (addu64 p k) (subu64 s k) (a\<lparr>ar_freeBytes := subu64 (ar_freeBytes a) k\<rparr>) = Inr a1"
    by (simp add: addFreeBlock_def ex a1_def)
  have put: "set (omap_put (p + k) (s - k) (ar_freeList a)) = insert (p + k, s - k) ?F"
    using fresh by (auto simp: set_omap_put [OF ok])
  have set': "set (ar_freeList ?a') = ?G"
    using put block_at_unique [OF t assms(2)] assms(3) by (auto simp: removeFreeBlock_def a1_def)
  have fin: "finite ?F" by simp
  have sum: "(\<Sum>b \<in> ?F. snd b) = s + (\<Sum>b \<in> ?F - {(p, s)}. snd b)" "(\<Sum>b \<in> ?G. snd b) = (s - k) + (\<Sum>b \<in> ?F - {(p, s)}. snd b)"
    using sum.remove [OF fin assms(2), of snd] fresh fin by simp_all
  have "(\<Sum>b \<in> ?F. snd b) < 2 ^ 64" using core_total [OF core] rg by (simp add: region_ok_def)
  then have fb': "ar_freeBytes ?a' = (\<Sum>b \<in> ?G. snd b)"
    using sum fb assms(4) subu64_exact [of k "ar_freeBytes a"] by (simp add: removeFreeBlock_def a1_def)
  have "arena_core ?a' ?G (insert (p, k) live)"
  proof (rule core_update [OF core])
    have "lookup_ok (ar_freeLookup ?a') (insert (p + k, s - k) ?F - {(p, s)})" unfolding removeFreeBlock_def
      by (rule removeFromLookup_ok) (simp add: a1_def addToLookup_ok l)
    moreover have "insert (p + k, s - k) ?F - {(p, s)} = ?G" using assms(3) by auto
    ultimately show "lookup_ok (ar_freeLookup ?a') ?G" by simp
    have "tiles (ar_address a) (ar_byteSize a) (insert (p, s) ((?F - {(p, s)}) \<union> live))"
      using t assms(2) by (metis Un_insert_left insert_Diff)
    moreover have "(p, s) \<notin> (?F - {(p, s)}) \<union> live" using d assms(2) by auto
    ultimately have "tiles (ar_address a) (ar_byteSize a) (insert (p, k) (insert (p + k, s - k) ((?F - {(p, s)}) \<union> live)))"
      by (rule tiles_cut [OF _ _ assms(3,4)])
    then show "tiles (ar_address a) (ar_byteSize a) (?G \<union> insert (p, k) live)" by (simp add: insert_commute)
    have "(p, k) \<notin> ?F" using tiles_start_unique [OF t, of "(p, s)" "(p, k)"] assms(2,4) by auto
    then show "?G \<inter> insert (p, k) live = {}" using d fresh assms(3) by auto
  qed (use set' fb' ok in \<open>auto simp: removeFreeBlock_def a1_def\<close>)
  moreover have "apart ?G"
  proof -
    have "fst c + snd c \<noteq> p + k" if c: "c \<in> ?F - {(p, s)}" for c
    proof
      assume e: "fst c + snd c = p + k"
      have "0 < snd c" using core_block [OF core, of c] c by auto
      with e assms(3,4) have "p + k - 1 \<in> span c" "p + k - 1 \<in> span (p, s)" by auto
      with tiles_disjoint [OF t, of c "(p, s)"] c assms(2) show False by auto
    qed
    moreover have "p + s \<noteq> fst c" if "c \<in> ?F" for c using apartD [OF ap assms(2) that] by simp
    ultimately show ?thesis using ap assms(3,4) by (auto simp: apart_def)
  qed
  ultimately show ?thesis using add by (auto simp: arena_inv_def set')
qed

definition picks :: "(nat list \<Rightarrow> nat) \<Rightarrow> bool" where
  "picks pick \<longleftrightarrow> (\<forall>xs. xs \<noteq> [] \<longrightarrow> pick xs \<in> set xs)"

lemma roundBytes_power:
  "0 < bytes \<Longrightarrow> bytes \<le> 2 ^ 63 \<Longrightarrow> bytes \<le> roundBytes bytes \<and> roundBytes (roundBytes bytes) = roundBytes bytes"
proof -
  assume "0 < bytes" "bytes \<le> 2 ^ 63"
  from nextPowerOfTwo_least [OF this] obtain k where "nextPowerOfTwo bytes = 2 ^ k" "k \<le> 63" "bytes \<le> 2 ^ k" by blast
  then show ?thesis using nextPowerOfTwo_power [of k] by (simp only: roundBytes_def)
qed

lemma allocate_spec:
  assumes "arena_inv a live" "picks pick" "0 < bytes" "bytes \<le> 2 ^ 63"
  shows "(\<exists>p a'. MmapArena_allocate pick bytes a = Inr (Some p, a') \<and> arena_inv a' (insert (p, roundBytes bytes) live) \<and>
      ar_address a' = ar_address a \<and> ar_byteSize a' = ar_byteSize a \<and>
      (\<exists>s. (p, s) \<in> set (ar_freeList a) \<and> roundBytes bytes \<le> s)) \<or>
    (MmapArena_allocate pick bytes a = Inr (None, a) \<and> (\<forall>b \<in> set (ar_freeList a). snd b < roundBytes bytes))"
proof -
  let ?k = "roundBytes bytes"
  have k: "0 < ?k" using roundBytes_power [OF assms(3,4)] assms(3) by linarith
  have core: "arena_core a (set (ar_freeList a)) live" using assms(1) by (simp add: arena_inv_def)
  then have l: "lookup_ok (ar_freeLookup a) (set (ar_freeList a))" by (simp add: arena_core_def)
  then have lo: "omap_ok (ar_freeLookup a)" "lookup_blocks (ar_freeLookup a) = set (ar_freeList a)" by (auto simp: lookup_ok_def)
  show ?thesis
  proof (cases "omap_lower ?k (ar_freeLookup a)")
    case None
    then have "\<forall>q \<in> set (ar_freeLookup a). fst q < ?k" by (simp add: omap_lower_None)
    then have "\<forall>b \<in> lookup_blocks (ar_freeLookup a). snd b < ?k" by (auto simp: lookup_blocks_def)
    with None lo(2) assms(3) show ?thesis by (simp add: MmapArena_allocate_def Let_def)
  next
    case (Some q)
    obtain s addrs where q: "q = (s, addrs)" by (cases q)
    from omap_lower_Some [OF lo(1) Some] q have s: "(s, addrs) \<in> set (ar_freeLookup a)" "?k \<le> s" by auto
    then have ne: "addrs \<noteq> []" using l by (auto simp: lookup_ok_def)
    then have "pick addrs \<in> set addrs" using assms(2) by (simp add: picks_def)
    with s(1) lo(2) have p: "(pick addrs, s) \<in> set (ar_freeList a)" by (auto simp: lookup_blocks_def)
    show ?thesis
    proof (cases "s = ?k")
      case True
      with allocate_whole [OF assms(1), of "pick addrs" ?k] p Some q assms(3) show ?thesis
        by (auto simp: MmapArena_allocate_def Let_def removeFreeBlock_def)
    next
      case False
      with s(2) have "?k < s" by simp
      from allocate_part [OF assms(1) p k this] obtain a1
        where "addFreeBlock (addu64 (pick addrs) ?k) (subu64 s ?k) (a\<lparr>ar_freeBytes := subu64 (ar_freeBytes a) ?k\<rparr>) = Inr a1"
          "arena_inv (removeFreeBlock (pick addrs) s a1) (insert (pick addrs, ?k) live)" by blast
      moreover from this(1) have "ar_address a1 = ar_address a" "ar_byteSize a1 = ar_byteSize a"
        by (auto simp: addFreeBlock_def result_simps)
      ultimately show ?thesis using False Some q p s(2) assms(3)
        by (auto simp: MmapArena_allocate_def Let_def removeFreeBlock_def)
    qed
  qed
qed

end
