(* ===== verification/Arena_Free.thy ===== *)
theory Arena_Free
  imports Arena_Inv
begin

text \<open>Giving a block back: the new free block is joined with the free blocks it touches.\<close>

section \<open>Neighbours\<close>

text \<open>The state between adding the block and joining it.\<close>

definition freed :: "mmap_arena \<Rightarrow> (nat \<times> nat) set \<Rightarrow> (nat \<times> nat) set \<Rightarrow> nat \<Rightarrow> nat \<Rightarrow> bool" where
  "freed a F live p s \<longleftrightarrow> arena_core a (insert (p, s) F) live \<and> (p, s) \<notin> F \<and> apart F"

lemma freedD:
  assumes "freed a F live p s"
  shows "tiles (ar_address a) (ar_byteSize a) (insert (p, s) F \<union> live)" "omap_ok (ar_freeList a)"
    "set (ar_freeList a) = insert (p, s) F" "lookup_ok (ar_freeLookup a) (insert (p, s) F)"
    "insert (p, s) F \<inter> live = {}" "ar_freeBytes a = (\<Sum>b \<in> insert (p, s) F. snd b)" "finite F" "(p, s) \<notin> F" "apart F"
  using assms core_finite [of a "insert (p, s) F" live] by (auto simp: freed_def arena_core_def)

lemma freed_start:
  "freed a F live p s \<Longrightarrow> b \<in> insert (p, s) F \<Longrightarrow> c \<in> insert (p, s) F \<Longrightarrow> fst b = fst c \<Longrightarrow> b = c"
  using tiles_start_unique [OF freedD(1)] by blast

lemma freed_block: "freed a F live p s \<Longrightarrow> b \<in> insert (p, s) F \<Longrightarrow> 0 < snd b \<and> fst b + snd b < 2 ^ 64"
  using core_block [of a "insert (p, s) F" live b] by (auto simp: freed_def)

lemma freed_order:
  "freed a F live p s \<Longrightarrow> b \<in> insert (p, s) F \<Longrightarrow> c \<in> insert (p, s) F \<Longrightarrow> fst b < fst c \<Longrightarrow> fst b + snd b \<le> fst c"
  using tiles_order [OF freedD(1)] by blast

lemma prev_below:
  assumes "freed a F live p s" "omap_prev p (ar_freeList a) = Some c"
  shows "c \<in> F \<and> fst c + snd c \<le> p"
proof -
  have "c \<in> insert (p, s) F" "fst c < p" using omap_prev_Some [OF freedD(2) [OF assms(1)] assms(2)] freedD(3) [OF assms(1)] by auto
  then have "c \<in> F" by auto
  with freed_order [OF assms(1), of c "(p, s)"] \<open>fst c < p\<close> show ?thesis by auto
qed

lemma prev_touching:
  assumes "freed a F live p s" "c \<in> F" "fst c + snd c = p"
  shows "omap_prev p (ar_freeList a) = Some c"
proof -
  note setList = freedD(3) [OF assms(1)] and okList = freedD(2) [OF assms(1)]
  have cp: "fst c < p" using freed_block [OF assms(1), of c] assms(2,3) by auto
  obtain d where d: "omap_prev p (ar_freeList a) = Some d"
    using omap_prev_None [of p "ar_freeList a"] setList assms(2) cp by (cases "omap_prev p (ar_freeList a)") fastforce+
  note dp = omap_prev_Some [OF okList d]
  have dF: "d \<in> insert (p, s) F" using dp setList by blast
  have "fst c \<le> fst d" using dp cp assms(2) setList by blast
  moreover have "\<not> fst c < fst d" using freed_order [OF assms(1), of c d] assms(2,3) dF dp by auto
  ultimately have "c = d" using freed_start [OF assms(1), of c d] assms(2) dF by auto
  with d show ?thesis by simp
qed

lemma next_above:
  assumes "freed a F live p s" "omap_next p (ar_freeList a) = Some c"
  shows "c \<in> F \<and> p + s \<le> fst c"
proof -
  have "c \<in> insert (p, s) F" "p < fst c" using omap_next_Some [OF freedD(2) [OF assms(1)] assms(2)] freedD(3) [OF assms(1)] by auto
  then have "c \<in> F" by auto
  with freed_order [OF assms(1), of "(p, s)" c] \<open>p < fst c\<close> show ?thesis by auto
qed

lemma next_touching:
  assumes "freed a F live p s" "c \<in> F" "p + s = fst c"
  shows "omap_next p (ar_freeList a) = Some c"
proof -
  note setList = freedD(3) [OF assms(1)] and okList = freedD(2) [OF assms(1)]
  have cp: "p < fst c" using freed_block [OF assms(1), of "(p, s)"] assms(3) by auto
  obtain d where d: "omap_next p (ar_freeList a) = Some d"
    using omap_next_None [of p "ar_freeList a"] setList assms(2) cp by (cases "omap_next p (ar_freeList a)") fastforce+
  note dp = omap_next_Some [OF okList d]
  have dF: "d \<in> insert (p, s) F" using dp setList by blast
  have "fst d \<le> fst c" using dp cp assms(2) setList by blast
  moreover have "p + s \<le> fst d" using freed_order [OF assms(1), of "(p, s)" d] dp dF by auto
  ultimately have "c = d" using freed_start [OF assms(1), of c d] assms(2,3) dF by auto
  with d show ?thesis by simp
qed

section \<open>Joining\<close>

lemma join_none:
  assumes "freed a F live p s" "\<And>c. c \<in> F \<Longrightarrow> fst c + snd c \<noteq> p" "\<And>c. c \<in> F \<Longrightarrow> p + s \<noteq> fst c"
  shows "arena_inv a live"
proof -
  have "apart (insert (p, s) F)"
    using assms(2,3) freedD(9) [OF assms(1)] freed_block [OF assms(1), of "(p, s)"] by (auto simp: apart_def)
  then show ?thesis using assms(1) freedD(3) [OF assms(1)] by (simp add: arena_inv_def freed_def)
qed

text \<open>The blocks \<open>D\<close> and the new one are replaced by the block from \<open>x\<close> of size \<open>y\<close>.\<close>

lemma joined:
  assumes "freed a F live p s" "D \<subseteq> F" "(x, y) \<notin> F - D"
    and "tiles (ar_address a) (ar_byteSize a) (insert (x, y) (F - D) \<union> live)" "(x, y) \<notin> live"
    and "y = s + (\<Sum>b \<in> D. snd b)"
    and "omap_ok (ar_freeList a')" "set (ar_freeList a') = insert (x, y) (F - D)"
    and "lookup_ok (ar_freeLookup a') (insert (x, y) (F - D))"
    and "ar_byteSize a' = ar_byteSize a" "ar_address a' = ar_address a" "ar_freeBytes a' = ar_freeBytes a"
    and "\<And>c. c \<in> F - D \<Longrightarrow> fst c + snd c \<noteq> x" "\<And>c. c \<in> F - D \<Longrightarrow> x + y \<noteq> fst c"
  shows "arena_inv a' live"
proof -
  have core: "arena_core a (insert (p, s) F) live" using assms(1) by (simp add: freed_def)
  have y: "0 < y" using freed_block [OF assms(1), of "(p, s)"] assms(6) by simp
  have "(\<Sum>b \<in> F. snd b) = (\<Sum>b \<in> F - D. snd b) + (\<Sum>b \<in> D. snd b)"
    using sum.subset_diff [OF assms(2) freedD(7) [OF assms(1)], of snd] by simp
  then have sum: "(\<Sum>b \<in> insert (x, y) (F - D). snd b) = (\<Sum>b \<in> insert (p, s) F. snd b)"
    using assms(3,6) freedD(7,8) [OF assms(1)] by simp
  have "insert (x, y) (F - D) \<inter> live = {}" using assms(5) freedD(5) [OF assms(1)] by auto
  then have "arena_core a' (insert (x, y) (F - D)) live"
    using core_update [OF core assms(10,11,7,8,9,4)] assms(12) sum freedD(6) [OF assms(1)] by simp
  moreover have "apart (insert (x, y) (F - D))"
    using freedD(9) [OF assms(1)] assms(13,14) y by (auto simp: apart_def)
  ultimately show ?thesis by (simp add: arena_inv_def assms(8))
qed

lemma drop_starts:
  assumes "freed a F live p s" "D \<subseteq> F"
  shows "{q \<in> insert (p, s) F. fst q \<noteq> p \<and> fst q \<notin> fst ` D} = F - D"
proof (rule set_eqI)
  fix q
  show "q \<in> {q \<in> insert (p, s) F. fst q \<noteq> p \<and> fst q \<notin> fst ` D} \<longleftrightarrow> q \<in> F - D"
  proof
    assume "q \<in> F - D"
    then have "fst q \<noteq> p" using freed_start [OF assms(1), of q "(p, s)"] freedD(8) [OF assms(1)] by auto
    moreover have "fst q \<noteq> fst d" if "d \<in> D" for d
      using freed_start [OF assms(1), of q d] \<open>q \<in> F - D\<close> that assms(2) by auto
    ultimately have "fst q \<noteq> p" "fst q \<notin> fst ` D" by auto
    with \<open>q \<in> F - D\<close> show "q \<in> {q \<in> insert (p, s) F. fst q \<noteq> p \<and> fst q \<notin> fst ` D}" by simp
  qed auto
qed

lemma freed_fresh:
  assumes "freed a F live p s" "b \<in> insert (p, s) F" "snd b \<noteq> y"
  shows "(fst b, y) \<notin> F" "(fst b, y) \<notin> live"
  using tiles_start_unique [OF freedD(1) [OF assms(1)], of b "(fst b, y)"] assms(2,3) by (cases b; auto)+

lemma two_blocks: "b \<in> F \<Longrightarrow> c \<in> F \<Longrightarrow> fst b \<noteq> fst c \<Longrightarrow> (\<Sum>d \<in> {b, c}. snd d) = snd b + snd c"
  by (cases "b = c") auto

lemma join_prev:
  assumes "freed a F live p s" "(pa, pb) \<in> F" "pa + pb = p" "\<And>c. c \<in> F \<Longrightarrow> p + s \<noteq> fst c"
  shows "arena_inv (mergeFree p s (Some (pa, pb)) None a) live"
proof -
  let ?D = "{(pa, pb)}"
  note fb = freed_block [OF assms(1), of "(p, s)"] freed_block [OF assms(1), of "(pa, pb)"]
  have pos: "0 < s" "0 < pb" "p + s < 2 ^ 64" using fb assms(2) by auto
  have new: "addu64 (subu64 p pa) s = pb + s"
    using assms(3) pos subu64_exact [of pa p] addu64_exact [of "p - pa" s] by auto
  define a1 where "a1 = removeFromLookup pa pb (removeFreeBlock p s a)"
  have m: "mergeFree p s (Some (pa, pb)) None a =
      a1\<lparr>ar_freeList := omap_put pa (pb + s) (ar_freeList a1), ar_freeLookup := addToLookup pa (pb + s) (ar_freeLookup a1)\<rparr>"
    by (simp add: mergeFree_def Let_def new a1_def)
  have ok1: "omap_ok (ar_freeList a1)" using freedD(2) [OF assms(1)] by (simp add: a1_def removeFreeBlock_def)
  have set1: "{q \<in> set (ar_freeList a1). fst q \<noteq> pa} = F - ?D"
    using drop_starts [OF assms(1), of ?D] assms(2) freedD(3) [OF assms(1)] by (auto simp: a1_def removeFreeBlock_def)
  have "lookup_ok (ar_freeLookup a1) (insert (p, s) F - {(p, s)} - {(pa, pb)})" unfolding a1_def removeFreeBlock_def
    by (intro removeFromLookup_ok) (simp add: freedD(4) [OF assms(1)])
  moreover have "insert (p, s) F - {(p, s)} - {(pa, pb)} = F - ?D" using freedD(8) [OF assms(1)] by auto
  ultimately have look1: "lookup_ok (ar_freeLookup a1) (F - ?D)" by simp
  have "tiles (ar_address a) (ar_byteSize a) (insert (pa, pb) (insert (pa + pb, s) (F - ?D \<union> live)))"
    using freedD(1) [OF assms(1)] assms(2,3) by (simp add: insert_absorb insert_commute Un_insert_left [symmetric] del: Un_insert_left)
  then have t: "tiles (ar_address a) (ar_byteSize a) (insert (pa, pb + s) (F - ?D) \<union> live)"
    using tiles_join [of _ _ pa pb s "F - ?D \<union> live"] freedD(5,8) [OF assms(1)] assms(2,3) by auto
  show ?thesis unfolding m
  proof (rule joined [OF assms(1), of ?D pa "pb + s"])
    show "tiles (ar_address a) (ar_byteSize a) (insert (pa, pb + s) (F - ?D) \<union> live)" by (rule t)
    show "(pa, pb + s) \<notin> F - ?D" "(pa, pb + s) \<notin> live"
      using freed_fresh [OF assms(1), of "(pa, pb)" "pb + s"] assms(2) pos by auto
    show "fst c + snd c \<noteq> pa" if "c \<in> F - ?D" for c
      using apartD [OF freedD(9) [OF assms(1)], of c "(pa, pb)"] that assms(2) by auto
    show "pa + (pb + s) \<noteq> fst c" if "c \<in> F - ?D" for c using assms(3) assms(4) [of c] that by simp
  qed (use assms(2) ok1 set1 look1 in \<open>auto simp: set_omap_put addToLookup_ok a1_def removeFreeBlock_def\<close>)
qed

lemma join_next:
  assumes "freed a F live p s" "(na, nb) \<in> F" "p + s = na" "\<And>c. c \<in> F \<Longrightarrow> fst c + snd c \<noteq> p"
  shows "arena_inv (mergeFree p s None (Some (na, nb)) a) live"
proof -
  let ?D = "{(na, nb)}"
  have pos: "0 < s" "0 < nb" "na + nb < 2 ^ 64"
    using freed_block [OF assms(1), of "(p, s)"] freed_block [OF assms(1), of "(na, nb)"] assms(2) by auto
  have new: "addu64 (subu64 na p) nb = s + nb"
    using assms(3) pos subu64_exact [of p na] addu64_exact [of "na - p" nb] by auto
  define a1 where "a1 = removeFromLookup p s (removeFreeBlock na nb a)"
  have m: "mergeFree p s None (Some (na, nb)) a =
      a1\<lparr>ar_freeList := omap_put p (s + nb) (ar_freeList a1), ar_freeLookup := addToLookup p (s + nb) (ar_freeLookup a1)\<rparr>"
    by (simp add: mergeFree_def Let_def new a1_def)
  have ok1: "omap_ok (ar_freeList a1)" using freedD(2) [OF assms(1)] by (simp add: a1_def removeFreeBlock_def)
  have set1: "{q \<in> set (ar_freeList a1). fst q \<noteq> p} = F - ?D"
    using drop_starts [OF assms(1), of ?D] assms(2) freedD(3) [OF assms(1)] by (auto simp: a1_def removeFreeBlock_def)
  have "lookup_ok (ar_freeLookup a1) (insert (p, s) F - {(na, nb)} - {(p, s)})" unfolding a1_def removeFreeBlock_def
    by (intro removeFromLookup_ok) (simp add: freedD(4) [OF assms(1)])
  moreover have "insert (p, s) F - {(na, nb)} - {(p, s)} = F - ?D" using freedD(8) [OF assms(1)] by auto
  ultimately have look1: "lookup_ok (ar_freeLookup a1) (F - ?D)" by simp
  have "tiles (ar_address a) (ar_byteSize a) (insert (p, s) (insert (p + s, nb) (F - ?D \<union> live)))"
    using freedD(1) [OF assms(1)] assms(2,3) by (simp add: insert_absorb insert_commute Un_insert_left [symmetric] del: Un_insert_left)
  then have t: "tiles (ar_address a) (ar_byteSize a) (insert (p, s + nb) (F - ?D) \<union> live)"
    using tiles_join [of _ _ p s nb "F - ?D \<union> live"] freedD(5,8) [OF assms(1)] assms(2,3) by auto
  show ?thesis unfolding m
  proof (rule joined [OF assms(1), of ?D p "s + nb"])
    show "tiles (ar_address a) (ar_byteSize a) (insert (p, s + nb) (F - ?D) \<union> live)" by (rule t)
    show "(p, s + nb) \<notin> F - ?D" "(p, s + nb) \<notin> live"
      using freed_fresh [OF assms(1), of "(p, s)" "s + nb"] pos by auto
    show "fst c + snd c \<noteq> p" if "c \<in> F - ?D" for c using assms(4) [of c] that by simp
    show "p + (s + nb) \<noteq> fst c" if "c \<in> F - ?D" for c
      using apartD [OF freedD(9) [OF assms(1)], of "(na, nb)" c] that assms(2,3) by auto
  qed (use assms(2) ok1 set1 look1 in \<open>auto simp: set_omap_put addToLookup_ok a1_def removeFreeBlock_def\<close>)
qed

lemma join_both:
  assumes "freed a F live p s" "(pa, pb) \<in> F" "pa + pb = p" "(na, nb) \<in> F" "p + s = na"
  shows "arena_inv (mergeFree p s (Some (pa, pb)) (Some (na, nb)) a) live"
proof -
  let ?D = "{(pa, pb), (na, nb)}"
  have pos: "0 < s" "0 < pb" "0 < nb" "na + nb < 2 ^ 64"
    using freed_block [OF assms(1), of "(p, s)"] freed_block [OF assms(1), of "(pa, pb)"]
      freed_block [OF assms(1), of "(na, nb)"] assms(2,4) by auto
  have new: "addu64 (subu64 na pa) nb = pb + s + nb"
    using assms(3,5) pos subu64_exact [of pa na] addu64_exact [of "na - pa" nb] by auto
  define a1 where "a1 = removeFreeBlock na nb (removeFromLookup pa pb (removeFreeBlock p s a))"
  let ?y = "pb + s + nb"
  have m: "mergeFree p s (Some (pa, pb)) (Some (na, nb)) a =
      a1\<lparr>ar_freeList := omap_put pa ?y (ar_freeList a1), ar_freeLookup := addToLookup pa ?y (ar_freeLookup a1)\<rparr>"
    by (simp add: mergeFree_def Let_def new a1_def)
  have ok1: "omap_ok (ar_freeList a1)" using freedD(2) [OF assms(1)] by (simp add: a1_def removeFreeBlock_def)
  have set1: "{q \<in> set (ar_freeList a1). fst q \<noteq> pa} = F - ?D"
    using drop_starts [OF assms(1), of ?D] assms(2,4) freedD(3) [OF assms(1)] by (auto simp: a1_def removeFreeBlock_def)
  have "lookup_ok (ar_freeLookup (removeFromLookup pa pb (removeFreeBlock p s a))) (insert (p, s) F - {(p, s)} - {(pa, pb)})"
    unfolding removeFreeBlock_def by (intro removeFromLookup_ok) (simp add: freedD(4) [OF assms(1)])
  then have "lookup_ok (ar_freeLookup a1) (insert (p, s) F - {(p, s)} - {(pa, pb)} - {(na, nb)})"
    unfolding a1_def removeFreeBlock_def [of na nb] by (intro removeFromLookup_ok) simp
  moreover have "insert (p, s) F - {(p, s)} - {(pa, pb)} - {(na, nb)} = F - ?D" using freedD(8) [OF assms(1)] by auto
  ultimately have look1: "lookup_ok (ar_freeLookup a1) (F - ?D)" by simp
  have ne: "pa \<noteq> na" "pa \<noteq> p" "na \<noteq> p" using assms(3,5) pos by auto
  let ?R = "F - ?D \<union> live"
  have nin: "(pa, pb) \<notin> ?R" "(p, s) \<notin> ?R" "(na, nb) \<notin> ?R" using freedD(5,8) [OF assms(1)] assms(2,4) by auto
  have "insert (p, s) F \<union> live = insert (pa, pb) (insert (pa + pb, s) (insert (na, nb) ?R))" using assms(2,3,4) by auto
  then have "tiles (ar_address a) (ar_byteSize a) (insert (pa, pb) (insert (pa + pb, s) (insert (na, nb) ?R)))"
    using freedD(1) [OF assms(1)] by simp
  then have "tiles (ar_address a) (ar_byteSize a) (insert (pa, pb + s) (insert (na, nb) ?R))"
    by (rule tiles_join) (use nin ne assms(3) in auto)
  moreover have "na = pa + (pb + s)" using assms(3,5) by simp
  ultimately have "tiles (ar_address a) (ar_byteSize a) (insert (pa, pb + s) (insert (pa + (pb + s), nb) ?R))" by simp
  moreover have "(pa, pb + s) \<notin> ?R" using freed_fresh [OF assms(1), of "(pa, pb)" "pb + s"] assms(2) pos by auto
  ultimately have t: "tiles (ar_address a) (ar_byteSize a) (insert (pa, ?y) (F - ?D) \<union> live)"
    using tiles_join [of _ _ pa "pb + s" nb ?R] nin(3) \<open>na = pa + (pb + s)\<close> by simp
  show ?thesis unfolding m
  proof (rule joined [OF assms(1), of ?D pa ?y])
    show "tiles (ar_address a) (ar_byteSize a) (insert (pa, ?y) (F - ?D) \<union> live)" by (rule t)
    show "(pa, ?y) \<notin> F - ?D" "(pa, ?y) \<notin> live"
      using freed_fresh [OF assms(1), of "(pa, pb)" ?y] assms(2) pos by auto
    show "fst c + snd c \<noteq> pa" if "c \<in> F - ?D" for c
      using apartD [OF freedD(9) [OF assms(1)], of c "(pa, pb)"] that assms(2) by auto
    show "pa + ?y \<noteq> fst c" if "c \<in> F - ?D" for c
      using apartD [OF freedD(9) [OF assms(1)], of "(na, nb)" c] that assms(3,4,5) by auto
    show "?y = s + (\<Sum>b \<in> ?D. snd b)" using two_blocks [OF assms(2,4)] ne(1) by simp
  qed (use assms(2,4) ok1 set1 look1 in \<open>auto simp: set_omap_put addToLookup_ok a1_def removeFreeBlock_def\<close>)
qed

section \<open>Freeing a block\<close>

lemma free_added:
  assumes "arena_inv a live" "(p, s) \<in> live"
  shows "\<exists>a1. addFreeBlock p s (a\<lparr>ar_freeBytes := addu64 (ar_freeBytes a) s\<rparr>) = Inr a1 \<and>
    freed a1 (set (ar_freeList a)) (live - {(p, s)}) p s \<and> ar_address a1 = ar_address a \<and>
    ar_byteSize a1 = ar_byteSize a \<and> p \<noteq> 0 \<and> p + s < 2 ^ 64"
proof -
  let ?F = "set (ar_freeList a)"
  have core: "arena_core a ?F live" and ap: "apart ?F" using assms(1) by (auto simp: arena_inv_def)
  have t: "tiles (ar_address a) (ar_byteSize a) (?F \<union> live)" and ok: "omap_ok (ar_freeList a)"
    and l: "lookup_ok (ar_freeLookup a) ?F" and d: "?F \<inter> live = {}" and rg: "region_ok a"
    and fb: "ar_freeBytes a = (\<Sum>b \<in> ?F. snd b)" using core by (auto simp: arena_core_def)
  have blk: "ar_address a \<le> p" "p + s < 2 ^ 64" "0 < s" using core_block [OF core, of "(p, s)"] assms(2) by auto
  have p0: "p \<noteq> 0" using blk(1) rg by (simp add: region_ok_def)
  have new: "(p, v) \<notin> ?F" for v using tiles_start_unique [OF t, of "(p, s)" "(p, v)"] assms(2) d by auto
  have "(\<Sum>b \<in> ?F. snd b) + s \<le> ar_byteSize a"
    using core_total [OF core] sum.remove [of live "(p, s)" snd] assms(2) core_finite [OF core] by simp
  then have fb': "addu64 (ar_freeBytes a) s = (\<Sum>b \<in> ?F. snd b) + s"
    using rg fb by (intro trans [OF addu64_exact]) (auto simp: region_ok_def)
  define a1 where "a1 = a\<lparr>ar_freeBytes := addu64 (ar_freeBytes a) s, ar_freeList := omap_put p s (ar_freeList a),
    ar_freeLookup := addToLookup p s (ar_freeLookup a)\<rparr>"
  have set1: "set (ar_freeList a1) = insert (p, s) ?F" using new by (auto simp: a1_def set_omap_put [OF ok])
  have "arena_core a1 (insert (p, s) ?F) (live - {(p, s)})"
  proof (rule core_update [OF core])
    have "insert (p, s) ?F \<union> (live - {(p, s)}) = ?F \<union> live" using assms(2) by auto
    then show "tiles (ar_address a) (ar_byteSize a) (insert (p, s) ?F \<union> (live - {(p, s)}))" using t by simp
    show "lookup_ok (ar_freeLookup a1) (insert (p, s) ?F)" using addToLookup_ok [OF l] by (simp add: a1_def)
  qed (use set1 ok fb' new d in \<open>auto simp: a1_def\<close>)
  then have fr: "freed a1 ?F (live - {(p, s)}) p s" using ap new by (simp add: freed_def)
  have add: "addFreeBlock p s (a\<lparr>ar_freeBytes := addu64 (ar_freeBytes a) s\<rparr>) = Inr a1"
    using new by (simp add: addFreeBlock_def omap_map_of_None a1_def)
  show ?thesis using add fr p0 blk(2) by (auto simp: a1_def)
qed

lemma free_spec:
  assumes "arena_inv a live" "(p, s) \<in> live" "0 < bytes" "roundBytes bytes = s"
  shows "\<exists>a'. MmapArena_free p bytes a = Inr a' \<and> arena_inv a' (live - {(p, s)}) \<and>
    ar_address a' = ar_address a \<and> ar_byteSize a' = ar_byteSize a"
proof -
  let ?F = "set (ar_freeList a)"
  obtain a1 where add: "addFreeBlock p s (a\<lparr>ar_freeBytes := addu64 (ar_freeBytes a) s\<rparr>) = Inr a1"
    and fr: "freed a1 ?F (live - {(p, s)}) p s" and same: "ar_address a1 = ar_address a" "ar_byteSize a1 = ar_byteSize a"
    and p0: "p \<noteq> 0" and pe: "p + s < 2 ^ 64"
    using free_added [OF assms(1,2)] by blast
  let ?prev = "omap_prev p (ar_freeList a1)" and ?next = "omap_next p (ar_freeList a1)"
  let ?mp = "if map_option (\<lambda>(addr, n). addu64 addr n) ?prev = Some p then ?prev else None"
  let ?mn = "case ?next of Some (addr, n) \<Rightarrow> if p + s = addr then Some (addr, n) else None | None \<Rightarrow> None"
  have e: "addu64 (fst c) (snd c) = fst c + snd c" if "c \<in> ?F" for c
    using freed_block [OF fr, of c] that by (simp add: addu64_exact)
  have chk: "case map_option (\<lambda>(addr, n). addu64 addr n) ?prev of None \<Rightarrow> True | Some x \<Rightarrow> x \<le> p"
    using prev_below [OF fr] e by (cases ?prev) fastforce+
  have chn: "case ?next of None \<Rightarrow> True | Some (addr, _) \<Rightarrow> p + s \<le> addr"
    using next_above [OF fr] by (cases ?next) fastforce+
  have ce: "addu64 p s = p + s" using pe by (rule addu64_exact)
  have z: "(p = 0 \<or> bytes = 0) = False" using p0 assms(3) by simp
  have run: "MmapArena_free p bytes a = Inr (mergeFree p s ?mp ?mn a1)"
    unfolding MmapArena_free_def Let_def assms(4) add bindR_simps ce z checkR_def if_False
    by (simp only: chk chn if_True)
  have mp: "?mp = Some c \<Longrightarrow> c \<in> ?F \<and> fst c + snd c = p" for c
    using prev_below [OF fr, of c] e [of c] by (cases c) (auto split: if_splits)
  have mp': "?mp = Some c" if "c \<in> ?F" "fst c + snd c = p" for c
    using prev_touching [OF fr that] e [OF that(1)] that(2) by (cases c) auto
  have mn: "?mn = Some c \<Longrightarrow> c \<in> ?F \<and> p + s = fst c" for c
    using next_above [OF fr] by (cases ?next) (auto split: if_splits)
  have mn': "?mn = Some c" if "c \<in> ?F" "p + s = fst c" for c
    using next_touching [OF fr that] that(2) by (cases c) auto
  have "arena_inv (mergeFree p s ?mp ?mn a1) (live - {(p, s)})"
  proof (cases ?mp; cases ?mn)
    assume "?mp = None" "?mn = None"
    then show ?thesis using join_none [OF fr] mp' mn' by (fastforce simp: mergeFree_def)
  next
    fix c assume c: "?mp = None" "?mn = Some c"
    then show ?thesis using join_next [OF fr, of "fst c" "snd c"] mp' mn [OF c(2)] by fastforce
  next
    fix c assume c: "?mp = Some c" "?mn = None"
    then show ?thesis using join_prev [OF fr, of "fst c" "snd c"] mn' mp [OF c(1)] by fastforce
  next
    fix c e assume c: "?mp = Some c" "?mn = Some e"
    then show ?thesis using join_both [OF fr, of "fst c" "snd c" "fst e" "snd e"] mp [OF c(1)] mn [OF c(2)] by simp
  qed
  moreover have "ar_address (mergeFree p s ?mp ?mn a1) = ar_address a" "ar_byteSize (mergeFree p s ?mp ?mn a1) = ar_byteSize a"
    by (simp_all add: mergeFree_def same removeFreeBlock_def Let_def split: option.splits prod.splits)
  ultimately show ?thesis using run by blast
qed

end
