(* ===== verification/Arena_Props.thy ===== *)
theory Arena_Props
  imports Arena_Free
begin

text \<open>
  The properties of the arena allocator: its blocks never overlap, it fails to allocate only when there is no room, a
  block that was allocated can be given back and one that is free cannot, and an arena with nothing
  allocated is whole again.
\<close>

section \<open>Runs of one arena\<close>

inductive arena_run :: "(nat list \<Rightarrow> nat) \<Rightarrow> mmap_arena \<Rightarrow> (nat \<times> nat) set \<Rightarrow> bool" for pick where
  start: "MmapArena_new capacity (Some ptr) = Inr a \<Longrightarrow> 0 < capacity \<Longrightarrow> 0 < ptr \<Longrightarrow> ptr + capacity < 2 ^ 64 \<Longrightarrow>
    arena_run pick a {}"
| allocate: "arena_run pick a live \<Longrightarrow> 0 < bytes \<Longrightarrow> bytes \<le> 2 ^ 63 \<Longrightarrow> MmapArena_allocate pick bytes a = Inr (Some p, a') \<Longrightarrow>
    arena_run pick a' (insert (p, roundBytes bytes) live)"
| free: "arena_run pick a live \<Longrightarrow> 0 < bytes \<Longrightarrow> (p, roundBytes bytes) \<in> live \<Longrightarrow> MmapArena_free p bytes a = Inr a' \<Longrightarrow>
    arena_run pick a' (live - {(p, roundBytes bytes)})"

lemma run_inv: "arena_run pick a live \<Longrightarrow> picks pick \<Longrightarrow> arena_inv a live"
proof (induction rule: arena_run.induct)
  case (start capacity ptr a)
  then have "capacity mod kMinGrainSizeBytes = 0" by (auto simp: MmapArena_new_def result_simps)
  with new_inv [OF this start(2,3,4)] start(1) show ?case by auto
next
  case (allocate a live bytes p a')
  with allocate_spec [of a live pick bytes] show ?case by auto
next
  case (free a live bytes p a')
  with free_spec [of a live p "roundBytes bytes" bytes] show ?case by auto
qed

text \<open>The consistency check of the code follows from the invariant.\<close>

lemma lookup_total:
  "omap_ok m \<Longrightarrow> \<forall>p \<in> set m. snd p \<noteq> [] \<and> distinct (snd p) \<Longrightarrow>
   finite (lookup_blocks m) \<and> (\<Sum>b \<in> lookup_blocks m. snd b) = sum_list (map (\<lambda>(bytes, addrs). bytes * length addrs) m)"
proof (induction m)
  case Nil
  then show ?case by (simp add: lookup_blocks_def)
next
  case (Cons p m)
  obtain n as where p: "p = (n, as)" by (cases p)
  have eq: "lookup_blocks (p # m) = (\<lambda>x. (x, n)) ` set as \<union> lookup_blocks m" by (auto simp: lookup_blocks_def p)
  have dis: "(\<lambda>x. (x, n)) ` set as \<inter> lookup_blocks m = {}" using Cons.prems(1) by (auto simp: lookup_blocks_def p)
  have "(\<Sum>b \<in> (\<lambda>x. (x, n)) ` set as. snd b) = n * length as"
    using Cons.prems(2) p by (simp add: sum.reindex inj_on_def distinct_card mult.commute)
  with Cons dis show ?case unfolding eq by (simp add: sum.union_disjoint p)
qed

lemma freeListErrors_none:
  assumes "arena_core a F live" "omap_ok m" "set m \<subseteq> F"
  shows "freeListErrors a (addu64 (ar_address a) (ar_byteSize a)) m = 0"
  using assms(2,3)
proof (induction m)
  case Nil
  then show ?case by simp
next
  case (Cons b m)
  obtain p s where b: "b = (p, s)" by (cases b)
  have t: "tiles (ar_address a) (ar_byteSize a) (F \<union> live)" and l: "lookup_ok (ar_freeLookup a) F" and rg: "region_ok a"
    using assms(1) by (auto simp: arena_core_def)
  have blk: "p + s \<le> ar_address a + ar_byteSize a" "p + s < 2 ^ 64" using core_block [OF assms(1), of b] Cons.prems(2) b by auto
  have mem: "p \<in> set (lookup_at s (ar_freeLookup a))"
    using l Cons.prems(2) b lookup_at_mem [of "ar_freeLookup a" p s] by (auto simp: lookup_ok_def)
  have nx: "p + s \<le> fst c" if "c \<in> set m" for c
    using tiles_order [OF t, of b c] Cons.prems that b by auto
  have ends: "addu64 p s = p + s" "addu64 (ar_address a) (ar_byteSize a) = ar_address a + ar_byteSize a"
    using blk(2) rg by (simp_all add: addu64_exact region_ok_def)
  have hd: "case m of [] \<Rightarrow> True | c # _ \<Rightarrow> p + s \<le> fst c" using nx by (cases m) simp_all
  show ?case using Cons mem blk(1) hd b ends by (cases m) auto
qed

lemma inv_consistent:
  assumes "arena_inv a live"
  shows "checkConsistency a"
proof -
  let ?F = "set (ar_freeList a)"
  have core: "arena_core a ?F live" using assms by (simp add: arena_inv_def)
  then have ok: "omap_ok (ar_freeList a)" and l: "lookup_ok (ar_freeLookup a) ?F" and rg: "region_ok a"
    and fb: "ar_freeBytes a = (\<Sum>b \<in> ?F. snd b)" by (auto simp: arena_core_def)
  have "distinct (ar_freeList a)" using ok by (auto simp: omap_ok_def strict_sorted_iff distinct_map)
  then have "sum_list (map snd (ar_freeList a)) = (\<Sum>b \<in> ?F. snd b)" by (simp add: sum_list_distinct_conv_sum_set)
  moreover have "sum_list (map (\<lambda>(bytes, addrs). bytes * length addrs) (ar_freeLookup a)) = (\<Sum>b \<in> ?F. snd b)"
    using lookup_total [of "ar_freeLookup a"] l by (simp add: lookup_ok_def)
  moreover have "(\<Sum>b \<in> ?F. snd b) < 2 ^ 64" using core_total [OF core] rg by (simp add: region_ok_def)
  moreover have "filter (\<lambda>p. snd p = []) (ar_freeLookup a) = []" using l by (auto simp: lookup_ok_def filter_empty_conv)
  ultimately show ?thesis using freeListErrors_none [OF core ok] fb by (simp add: checkConsistency_def Let_def)
qed

text \<open>
  C19. In every state that calls of \<^verbatim>\<open>allocate\<close> and \<^verbatim>\<open>free\<close> reach, the blocks handed out lie inside the arena and
  overlap neither each other nor a free block, the count of free bytes is what is not handed out, and the arena's own
  consistency check succeeds.
\<close>

theorem arena_blocks_never_overlap:
  assumes "picks pick" and "arena_run pick a live"
  shows "checkConsistency a \<and> ar_freeBytes a + (\<Sum>b \<in> live. snd b) = ar_byteSize a \<and>
    (\<forall>b \<in> live. ar_address a \<le> fst b \<and> fst b + snd b \<le> ar_address a + ar_byteSize a) \<and>
    (\<forall>b \<in> live. \<forall>c \<in> live \<union> set (ar_freeList a). b \<noteq> c \<longrightarrow> span b \<inter> span c = {})"
proof -
  have inv: "arena_inv a live" by (rule run_inv [OF assms(2,1)])
  then have core: "arena_core a (set (ar_freeList a)) live" by (simp add: arena_inv_def)
  then have t: "tiles (ar_address a) (ar_byteSize a) (set (ar_freeList a) \<union> live)"
    and fb: "ar_freeBytes a = (\<Sum>b \<in> set (ar_freeList a). snd b)" by (auto simp: arena_core_def)
  have "\<forall>b \<in> live. \<forall>c \<in> live \<union> set (ar_freeList a). b \<noteq> c \<longrightarrow> span b \<inter> span c = {}"
    using tiles_pair [OF t] by blast
  with inv_consistent [OF inv] core_total [OF core] core_block [OF core] fb show ?thesis by simp
qed

section \<open>Room for an allocation\<close>

lemma gap_in_one_block:
  assumes "arena_core a F live" "apart F" "0 < k" "{q..<q + k} \<subseteq> {ar_address a..<ar_address a + ar_byteSize a}"
    and "\<forall>b \<in> live. span b \<inter> {q..<q + k} = {}"
  shows "\<exists>b \<in> F. k \<le> snd b"
proof -
  have t: "tiles (ar_address a) (ar_byteSize a) (F \<union> live)" using assms(1) by (simp add: arena_core_def)
  then have U: "(\<Union>b \<in> F \<union> live. span b) = {ar_address a..<ar_address a + ar_byteSize a}" by (simp add: tiles_def)
  have inF: "\<exists>b \<in> F. x \<in> span b" if "x \<in> {q..<q + k}" for x
  proof -
    have "x \<in> (\<Union>b \<in> F \<union> live. span b)" using that assms(4) U by blast
    then obtain b where "b \<in> F \<union> live" "x \<in> span b" by blast
    with assms(5) that show ?thesis by blast
  qed
  obtain b where b: "b \<in> F" "q \<in> span b" using inF [of q] assms(3) by auto
  have "q + k \<le> fst b + snd b"
  proof (rule ccontr)
    assume "\<not> ?thesis"
    then have e: "fst b + snd b \<in> {q..<q + k}" using b(2) by auto
    then obtain c where c: "c \<in> F" "fst b + snd b \<in> span c" using inF by blast
    have ne: "b \<noteq> c" using c(2) by auto
    have "fst c \<noteq> fst b + snd b" using apartD [OF assms(2) b(1) c(1)] by simp
    then have "fst c < fst b + snd b" using c(2) by simp
    moreover have "\<not> fst b < fst c" using tiles_order [OF t, of b c] b(1) c(1) calculation by auto
    moreover have "\<not> fst c < fst b" using tiles_order [OF t, of c b] b c by auto
    ultimately have "fst b = fst c" by simp
    with tiles_start_unique [OF t, of b c] b(1) c(1) ne show False by simp
  qed
  then have "k \<le> snd b" using b(2) by simp
  with b(1) show ?thesis by blast
qed

text \<open>
  C20. \<^verbatim>\<open>allocate\<close> returns a block of the rounded size, at least as large as asked, inside the arena and disjoint
  from every block handed out before; it returns no block only when no interval of that size is free of
  handed out blocks, so fragmentation of the free list itself never makes it fail.
\<close>

theorem allocate_fails_only_without_room:
  assumes "picks pick" and "arena_run pick a live" and "0 < bytes" and "bytes \<le> 2 ^ 63"
  shows "(\<exists>p a'. MmapArena_allocate pick bytes a = Inr (Some p, a') \<and> bytes \<le> roundBytes bytes \<and>
      ar_address a \<le> p \<and> p + roundBytes bytes \<le> ar_address a + ar_byteSize a \<and>
      (\<forall>b \<in> live. span b \<inter> span (p, roundBytes bytes) = {})) \<or>
    (MmapArena_allocate pick bytes a = Inr (None, a) \<and>
      \<not> (\<exists>q. {q..<q + roundBytes bytes} \<subseteq> {ar_address a..<ar_address a + ar_byteSize a} \<and>
            (\<forall>b \<in> live. span b \<inter> {q..<q + roundBytes bytes} = {})))"
proof -
  let ?k = "roundBytes bytes"
  have inv: "arena_inv a live" by (rule run_inv [OF assms(2,1)])
  then have core: "arena_core a (set (ar_freeList a)) live" and ap: "apart (set (ar_freeList a))" by (auto simp: arena_inv_def)
  have k: "bytes \<le> ?k" "0 < ?k" using roundBytes_power [OF assms(3,4)] assms(3) by linarith+
  from allocate_spec [OF inv assms(1,3,4)] show ?thesis
  proof (elim disjE exE conjE)
    fix p a' s
    assume r: "MmapArena_allocate pick bytes a = Inr (Some p, a')" "arena_inv a' (insert (p, ?k) live)"
      "ar_address a' = ar_address a" "ar_byteSize a' = ar_byteSize a" "(p, s) \<in> set (ar_freeList a)" "?k \<le> s"
    have "tiles (ar_address a) (ar_byteSize a) (set (ar_freeList a) \<union> live)" "set (ar_freeList a) \<inter> live = {}"
      using core by (auto simp: arena_core_def)
    then have "span b \<inter> span (p, s) = {}" if "b \<in> live" for b
      using tiles_pair [of _ _ _ b "(p, s)"] that r(5) by (metis Un_iff disjoint_iff)
    moreover have "span (p, ?k) \<subseteq> span (p, s)" using r(6) by auto
    ultimately have "\<forall>b \<in> live. span b \<inter> span (p, ?k) = {}" by blast
    with r core_block [OF core, of "(p, s)"] k(1) show ?thesis by auto
  next
    assume r: "MmapArena_allocate pick bytes a = Inr (None, a)" "\<forall>b \<in> set (ar_freeList a). snd b < ?k"
    with gap_in_one_block [OF core ap k(2)] show ?thesis by (metis linorder_not_less)
  qed
qed

section \<open>Giving blocks back\<close>

lemma whole_again:
  assumes "arena_inv a {}"
  shows "ar_freeList a = [(ar_address a, ar_byteSize a)] \<and> MmapArena_empty a"
proof -
  let ?F = "set (ar_freeList a)"
  have core: "arena_core a ?F {}" and ap: "apart ?F" using assms by (auto simp: arena_inv_def)
  then have t: "tiles (ar_address a) (ar_byteSize a) ?F" and rg: "region_ok a" and ok: "omap_ok (ar_freeList a)"
    by (auto simp: arena_core_def)
  obtain b where b: "b \<in> ?F" "ar_byteSize a \<le> snd b"
    using gap_in_one_block [OF core ap, of "ar_byteSize a" "ar_address a"] rg by (auto simp: region_ok_def)
  with tiles_inside [OF t b(1)] have eq: "b = (ar_address a, ar_byteSize a)" by (cases b) auto
  have "c = b" if "c \<in> ?F" for c
    using tiles_disjoint [OF t that b(1), of "fst c"] tiles_inside [OF t that] eq by auto
  then have "?F = {b}" using b(1) by blast
  moreover have "distinct (ar_freeList a)" using ok by (auto simp: omap_ok_def strict_sorted_iff distinct_map)
  ultimately have l: "ar_freeList a = [b]" by (cases "ar_freeList a") (auto simp: subset_singleton_iff)
  then show ?thesis using eq core by (simp add: MmapArena_empty_def arena_core_def)
qed

text \<open>
  C21. A block that was handed out can always be given back, with the size it was asked for: no check of \<^verbatim>\<open>free\<close>
  fails. Giving back the last one leaves one free block, the whole arena: free blocks are always joined again.
\<close>

theorem free_restores_the_arena:
  assumes "picks pick" and "arena_run pick a live" and "0 < bytes" and "(p, roundBytes bytes) \<in> live"
  shows "\<exists>a'. MmapArena_free p bytes a = Inr a' \<and>
    (live = {(p, roundBytes bytes)} \<longrightarrow> ar_freeList a' = [(ar_address a, ar_byteSize a)] \<and> MmapArena_empty a')"
proof -
  from free_spec [OF run_inv [OF assms(2,1)] assms(4,3) refl] obtain a'
    where a': "MmapArena_free p bytes a = Inr a'" "arena_inv a' (live - {(p, roundBytes bytes)})"
      "ar_address a' = ar_address a" "ar_byteSize a' = ar_byteSize a" by blast
  with whole_again [of a'] show ?thesis by auto
qed

lemma overlap_is_noticed:
  assumes "arena_core a F live" "\<And>v. (p, v) \<notin> F" "b \<in> F" "span b \<inter> span (p, s) \<noteq> {}" "p + s < 2 ^ 64"
    and "omap_ok l" "set l = insert (p, s) F"
  shows "(case map_option (\<lambda>(addr, n). addu64 addr n) (omap_prev p l) of None \<Rightarrow> True | Some y \<Rightarrow> y \<le> p) = False \<or>
    (case omap_next p l of None \<Rightarrow> True | Some (addr, _) \<Rightarrow> addu64 p s \<le> addr) = False"
proof -
  have t: "tiles (ar_address a) (ar_byteSize a) (F \<union> live)" using assms(1) by (simp add: arena_core_def)
  obtain x where x: "fst b \<le> x" "x < fst b + snd b" "p \<le> x" "x < p + s" using assms(4) by auto
  have bp: "fst b \<noteq> p" using assms(2,3) by (cases b) auto
  show ?thesis
  proof (cases "fst b < p")
    case True
    then obtain d where d: "omap_prev p l = Some d"
      using omap_prev_None [of p l] assms(3,7) by (cases "omap_prev p l") fastforce+
    note dp = omap_prev_Some [OF assms(6) d]
    have dF: "d \<in> F" using dp assms(7) by auto
    have "fst b \<le> fst d" using dp True assms(3,7) by auto
    moreover have "\<not> fst b < fst d" using tiles_order [OF t, of b d] assms(3) dF dp x by auto
    ultimately have "b = d" using tiles_start_unique [OF t, of b d] assms(3) dF by auto
    moreover have "addu64 (fst d) (snd d) = fst d + snd d" using core_block [OF assms(1), of d] dF by (intro addu64_exact) simp
    ultimately show ?thesis using d x by (cases d) auto
  next
    case False
    then have pb: "p < fst b" using bp by simp
    then obtain d where d: "omap_next p l = Some d"
      using omap_next_None [of p l] assms(3,7) by (cases "omap_next p l") fastforce+
    have "fst d \<le> fst b" using omap_next_Some [OF assms(6) d] pb assms(3,7) by auto
    moreover have "addu64 p s = p + s" using assms(5) by (rule addu64_exact)
    ultimately show ?thesis using d x by (cases d) auto
  qed
qed

text \<open>
  Giving back memory that overlaps a free block, such as freeing twice, is refused.
\<close>

lemma double_free_is_refused:
  assumes "picks pick" and "arena_run pick a live" and "0 < p" and "0 < bytes" and "p + roundBytes bytes < 2 ^ 64"
    and "b \<in> set (ar_freeList a)" and "span b \<inter> span (p, roundBytes bytes) \<noteq> {}"
  shows "MmapArena_free p bytes a = Inl CheckFailed"
proof -
  let ?F = "set (ar_freeList a)" and ?s = "roundBytes bytes"
  have "arena_inv a live" by (rule run_inv [OF assms(2,1)])
  then have core: "arena_core a ?F live" and ok: "omap_ok (ar_freeList a)" by (auto simp: arena_inv_def arena_core_def)
  have z: "(p = 0 \<or> bytes = 0) = False" using assms(3,4) by simp
  show ?thesis
  proof (cases "map_of (ar_freeList a) p")
    case (Some v)
    then show ?thesis using assms(3,4) by (simp add: MmapArena_free_def addFreeBlock_def Let_def)
  next
    case None
    then have new: "(p, v) \<notin> ?F" for v by (simp add: omap_map_of_None)
    then have set1: "set (omap_put p ?s (ar_freeList a)) = insert (p, ?s) ?F" by (auto simp: set_omap_put [OF ok])
    from overlap_is_noticed [OF core new assms(6,7,5) omap_ok_put [OF ok] set1] None show ?thesis
      unfolding MmapArena_free_def Let_def z if_False addFreeBlock_def checkR_def by auto
  qed
qed

section \<open>Witnesses\<close>

lemma picks_hd: "picks hd"
  by (simp add: picks_def)

lemma example_fresh:
  "\<exists>a. arena_run hd a {} \<and> ar_freeList a = [(2 ^ 20, 2 ^ 20)] \<and> ar_address a = 2 ^ 20 \<and> ar_byteSize a = 2 ^ 20"
proof -
  obtain a where a: "MmapArena_new (2 ^ 20) (Some (2 ^ 20)) = Inr a" "ar_freeList a = [(2 ^ 20, 2 ^ 20)]"
    "ar_address a = 2 ^ 20" "ar_byteSize a = 2 ^ 20"
    using new_inv [of "2 ^ 20" "2 ^ 20"] by (auto simp: kMinGrainSizeBytes_def)
  then have "arena_run hd a {}" by (intro arena_run.start [OF a(1)]) simp_all
  with a show ?thesis by blast
qed

lemma round_1024: "roundBytes 1024 = 1024"
  using nextPowerOfTwo_power [of 10] by (simp add: roundBytes_def)

lemma example_allocated: "\<exists>a p. arena_run hd a {(p, roundBytes 1024)}"
proof -
  obtain a where a: "arena_run hd a {}" "ar_freeList a = [(2 ^ 20, 2 ^ 20)]" using example_fresh by blast
  from allocate_spec [OF run_inv [OF a(1) picks_hd] picks_hd, of 1024] a(2) round_1024 obtain p a'
    where "MmapArena_allocate hd 1024 a = Inr (Some p, a')" by auto
  with arena_run.allocate [OF a(1) _ _ this] show ?thesis by auto
qed

theorem arena_blocks_never_overlap_witness:
  "\<exists>a p. arena_run hd a {(p, roundBytes 1024)} \<and> checkConsistency a"
  using example_allocated arena_blocks_never_overlap [OF picks_hd] by blast

theorem allocate_fails_only_without_room_witness:
  "\<exists>a r a'. arena_run hd a {} \<and> MmapArena_allocate hd 1024 a = Inr (r, a')"
proof -
  obtain a where "arena_run hd a {}" using example_fresh by blast
  with allocate_fails_only_without_room [OF picks_hd this, of 1024] show ?thesis by fastforce
qed

theorem free_restores_the_arena_witness:
  "\<exists>a p a'. arena_run hd a {(p, roundBytes 1024)} \<and> MmapArena_free p 1024 a = Inr a' \<and> MmapArena_empty a'"
proof -
  obtain a p where "arena_run hd a {(p, roundBytes 1024)}" using example_allocated by blast
  with free_restores_the_arena [OF picks_hd this, of 1024 p] show ?thesis by auto
qed

lemma double_free_is_refused_witness:
  "\<exists>a. arena_run hd a {} \<and> MmapArena_free (2 ^ 20) 1024 a = Inl CheckFailed"
proof -
  obtain a where a: "arena_run hd a {}" "ar_freeList a = [(2 ^ 20, 2 ^ 20)]" using example_fresh by blast
  have "2 ^ 20 \<in> span (2 ^ 20, 2 ^ 20) \<inter> span (2 ^ 20, roundBytes 1024)" by (simp add: round_1024)
  then have "span (2 ^ 20, 2 ^ 20) \<inter> span (2 ^ 20, roundBytes 1024) \<noteq> {}" by blast
  with double_free_is_refused [OF picks_hd a(1), of "2 ^ 20" 1024 "(2 ^ 20, 2 ^ 20)"] a show ?thesis
    by (auto simp: round_1024)
qed

end
