(* ===== verification/Arena_Managed.thy ===== *)
theory Arena_Managed
  imports Arena_Props
begin

text \<open>
  \<^verbatim>\<open>ManagedMmapArenas\<close>: several arenas of one capacity, at addresses the operating system chooses. The blocks
  handed out are kept by arena (\<open>L\<close> maps an arena's address to its blocks).
\<close>

section \<open>The invariant\<close>

definition managed_inv :: "managed_arenas \<Rightarrow> (nat \<Rightarrow> (nat \<times> nat) set) \<Rightarrow> bool" where
  "managed_inv g L \<longleftrightarrow> omap_ok (mg_arenas g) \<and> mg_current g \<in> fst ` set (mg_arenas g) \<and>
     (\<forall>(k, a) \<in> set (mg_arenas g). ar_address a = k \<and> ar_byteSize a = mg_capacity g \<and> arena_inv a (L k)) \<and>
     (\<forall>p \<in> set (mg_arenas g). \<forall>q \<in> set (mg_arenas g). fst p < fst q \<longrightarrow> fst p + mg_capacity g \<le> fst q) \<and>
     (\<forall>k. k \<notin> fst ` set (mg_arenas g) \<longrightarrow> L k = {}) \<and> mg_capacity g mod kMinGrainSizeBytes = 0 \<and> 0 < mg_capacity g"

definition free_region :: "nat \<Rightarrow> managed_arenas \<Rightarrow> bool" where
  "free_region ptr g \<longleftrightarrow> 0 < ptr \<and> ptr + mg_capacity g < 2 ^ 64 \<and>
     (\<forall>(k, a) \<in> set (mg_arenas g). ptr + mg_capacity g \<le> k \<or> k + mg_capacity g \<le> ptr)"

lemma managed_arena:
  "managed_inv g L \<Longrightarrow> (k, a) \<in> set (mg_arenas g) \<Longrightarrow> ar_address a = k \<and> ar_byteSize a = mg_capacity g \<and> arena_inv a (L k)"
  unfolding managed_inv_def by fast

lemma managed_order:
  "managed_inv g L \<Longrightarrow> (k, a) \<in> set (mg_arenas g) \<Longrightarrow> (k', a') \<in> set (mg_arenas g) \<Longrightarrow> k < k' \<Longrightarrow> k + mg_capacity g \<le> k'"
proof -
  assume "managed_inv g L" "(k, a) \<in> set (mg_arenas g)" "(k', a') \<in> set (mg_arenas g)" "k < k'"
  moreover from this(1) have "\<forall>p \<in> set (mg_arenas g). \<forall>q \<in> set (mg_arenas g). fst p < fst q \<longrightarrow> fst p + mg_capacity g \<le> fst q"
    by (simp add: managed_inv_def)
  ultimately show ?thesis by fastforce
qed

lemma managed_outside: "managed_inv g L \<Longrightarrow> k \<notin> fst ` set (mg_arenas g) \<Longrightarrow> L k = {}"
  by (simp add: managed_inv_def)

lemma managed_current: "managed_inv g L \<Longrightarrow> (mg_current g, current_arena g) \<in> set (mg_arenas g)"
proof -
  assume inv: "managed_inv g L"
  then obtain a where "(mg_current g, a) \<in> set (mg_arenas g)" "omap_ok (mg_arenas g)" by (auto simp: managed_inv_def)
  then show ?thesis by (simp add: current_arena_def omap_map_of [symmetric])
qed

lemma managed_block:
  assumes "managed_inv g L" "(p, s) \<in> L k"
  shows "\<exists>a. (k, a) \<in> set (mg_arenas g) \<and> k \<le> p \<and> p + s \<le> k + mg_capacity g \<and> 0 < s \<and> p + s < 2 ^ 64 \<and> k + mg_capacity g < 2 ^ 64"
proof -
  have "k \<in> fst ` set (mg_arenas g)" using managed_outside [OF assms(1)] assms(2) by blast
  then obtain a where a: "(k, a) \<in> set (mg_arenas g)" by auto
  from managed_arena [OF assms(1) this] have "arena_core a (set (ar_freeList a)) (L k)" "ar_address a = k" "ar_byteSize a = mg_capacity g"
    by (auto simp: arena_inv_def)
  with core_block [OF this(1), of "(p, s)"] a assms(2) show ?thesis by (auto simp: arena_core_def region_ok_def)
qed

text \<open>One arena changes.\<close>

lemma managed_put:
  assumes "managed_inv g L" "(k, a) \<in> set (mg_arenas g)" "arena_inv a' B" "ar_address a' = k" "ar_byteSize a' = mg_capacity g"
  shows "managed_inv (g\<lparr>mg_arenas := omap_put k a' (mg_arenas g)\<rparr>) (L(k := B))"
proof -
  have ok: "omap_ok (mg_arenas g)" using assms(1) by (simp add: managed_inv_def)
  have s: "set (omap_put k a' (mg_arenas g)) = insert (k, a') {p \<in> set (mg_arenas g). fst p \<noteq> k}" by (rule set_omap_put [OF ok])
  have f: "fst ` set (omap_put k a' (mg_arenas g)) = fst ` set (mg_arenas g)" using assms(2) by (force simp: s image_iff)
  have "\<forall>p \<in> set (omap_put k a' (mg_arenas g)). \<forall>q \<in> set (omap_put k a' (mg_arenas g)). fst p < fst q \<longrightarrow> fst p + mg_capacity g \<le> fst q"
  proof (intro ballI impI)
    fix p q assume pq: "p \<in> set (omap_put k a' (mg_arenas g))" "q \<in> set (omap_put k a' (mg_arenas g))" "fst p < fst q"
    then have "fst p \<in> fst ` set (mg_arenas g)" "fst q \<in> fst ` set (mg_arenas g)" using f by blast+
    then obtain b c where "(fst p, b) \<in> set (mg_arenas g)" "(fst q, c) \<in> set (mg_arenas g)" by auto
    from managed_order [OF assms(1) this pq(3)] show "fst p + mg_capacity g \<le> fst q" .
  qed
  moreover have "\<forall>(x, b) \<in> set (omap_put k a' (mg_arenas g)). ar_address b = x \<and> ar_byteSize b = mg_capacity g \<and> arena_inv b ((L(k := B)) x)"
    using managed_arena [OF assms(1)] assms(3-5) by (auto simp: s)
  moreover have "\<forall>x. x \<notin> fst ` set (mg_arenas g) \<longrightarrow> (L(k := B)) x = {}"
    using managed_outside [OF assms(1)] assms(2) by force
  ultimately show ?thesis using assms(1) ok f by (simp add: managed_inv_def)
qed

text \<open>An arena is added.\<close>

lemma managed_add:
  assumes "managed_inv g L" "free_region ptr g" "arena_inv a B" "ar_address a = ptr" "ar_byteSize a = mg_capacity g"
  shows "managed_inv (g\<lparr>mg_arenas := omap_put ptr a (mg_arenas g), mg_current := ptr\<rparr>) (L(ptr := B))"
    and "length (omap_put ptr a (mg_arenas g)) = Suc (length (mg_arenas g))" and "L ptr = {}"
proof -
  have ok: "omap_ok (mg_arenas g)" and cap: "0 < mg_capacity g" using assms(1) by (simp_all add: managed_inv_def)
  have new: "ptr + mg_capacity g \<le> fst p \<or> fst p + mg_capacity g \<le> ptr" if "p \<in> set (mg_arenas g)" for p
    using assms(2) that by (cases p) (auto simp: free_region_def)
  then have ne: "fst p \<noteq> ptr" if "p \<in> set (mg_arenas g)" for p using that cap by fastforce
  then have s: "set (omap_put ptr a (mg_arenas g)) = insert (ptr, a) (set (mg_arenas g))" using set_omap_put [OF ok] by auto
  show L: "L ptr = {}" using ne by (intro managed_outside [OF assms(1)]) auto
  have "\<forall>p \<in> set (omap_put ptr a (mg_arenas g)). \<forall>q \<in> set (omap_put ptr a (mg_arenas g)). fst p < fst q \<longrightarrow> fst p + mg_capacity g \<le> fst q"
  proof (intro ballI impI)
    fix p q assume pq: "p \<in> set (omap_put ptr a (mg_arenas g))" "q \<in> set (omap_put ptr a (mg_arenas g))" "fst p < fst q"
    then show "fst p + mg_capacity g \<le> fst q"
      using managed_order [OF assms(1), of "fst p" "snd p" "fst q" "snd q"] new [of p] new [of q] unfolding s by auto
  qed
  moreover have "\<forall>(x, b) \<in> set (omap_put ptr a (mg_arenas g)). ar_address b = x \<and> ar_byteSize b = mg_capacity g \<and> arena_inv b ((L(ptr := B)) x)"
  proof (rule ballI, clarify)
    fix x b assume "(x, b) \<in> set (omap_put ptr a (mg_arenas g))"
    then consider "x = ptr" "b = a" | "(x, b) \<in> set (mg_arenas g)" unfolding s by blast
    then show "ar_address b = x \<and> ar_byteSize b = mg_capacity g \<and> arena_inv b ((L(ptr := B)) x)"
      by cases (use assms(3-5) managed_arena [OF assms(1), of x b] ne [of "(x, b)"] in simp_all)
  qed
  ultimately show "managed_inv (g\<lparr>mg_arenas := omap_put ptr a (mg_arenas g), mg_current := ptr\<rparr>) (L(ptr := B))"
    using assms(1) ok by (simp add: managed_inv_def s)
  have d: "distinct m" if "omap_ok m" for m :: "(nat, mmap_arena) omap"
    using that by (auto simp: omap_ok_def strict_sorted_iff distinct_map)
  have "(ptr, a) \<notin> set (mg_arenas g)" using ne by force
  then have "card (set (omap_put ptr a (mg_arenas g))) = Suc (card (set (mg_arenas g)))" by (simp add: s)
  then show "length (omap_put ptr a (mg_arenas g)) = Suc (length (mg_arenas g))"
    using d [OF ok] d [OF omap_ok_put [OF ok], of ptr a] by (simp add: distinct_card)
qed

text \<open>An empty arena that is not the current one is dropped.\<close>

lemma managed_drop:
  assumes "managed_inv g L" "k \<noteq> mg_current g"
  shows "managed_inv (g\<lparr>mg_arenas := omap_del k (mg_arenas g)\<rparr>) (L(k := {}))"
proof -
  have f: "fst ` {p \<in> set (mg_arenas g). fst p \<noteq> k} = fst ` set (mg_arenas g) - {k}" by force
  have "\<forall>x. x \<notin> fst ` set (mg_arenas g) - {k} \<longrightarrow> (L(k := {})) x = {}"
    using managed_outside [OF assms(1)] by simp
  moreover have "mg_current g \<in> fst ` set (mg_arenas g) - {k}" using assms by (simp add: managed_inv_def)
  ultimately show ?thesis using assms(1) f by (simp add: managed_inv_def split_def)
qed

section \<open>Operations\<close>

text \<open>An allocation goes to the current arena or to a new one, and fails only if it exceeds an arena or is empty.\<close>

lemma managed_allocate_some:
  assumes "managed_inv g L" "picks pick" "0 < bytes" "bytes \<le> 2 ^ 63" "free_region ptr g"
  shows "(\<exists>p g' k. ManagedMmapArenas_allocate pick (Some ptr) bytes g = Inr (Some p, g') \<and>
      managed_inv g' (L(k := insert (p, roundBytes bytes) (L k))) \<and> roundBytes bytes \<le> mg_capacity g \<and> mg_capacity g' = mg_capacity g) \<or>
    (\<exists>g'. ManagedMmapArenas_allocate pick (Some ptr) bytes g = Inr (None, g') \<and> managed_inv g' L \<and>
      length (mg_arenas g') = Suc (length (mg_arenas g)) \<and> mg_capacity g < roundBytes bytes \<and> mg_capacity g' = mg_capacity g)"
proof -
  let ?k = "mg_current g"
  note cur = managed_current [OF assms(1)]
  note ar = managed_arena [OF assms(1) cur]
  have "arena_inv (current_arena g) (L ?k)" using ar by simp
  from allocate_spec [OF this assms(2-4)] show ?thesis
  proof (elim disjE exE conjE)
    fix p a' s
    assume r: "MmapArena_allocate pick bytes (current_arena g) = Inr (Some p, a')" "arena_inv a' (insert (p, roundBytes bytes) (L ?k))"
      "ar_address a' = ar_address (current_arena g)" "ar_byteSize a' = ar_byteSize (current_arena g)"
      "(p, s) \<in> set (ar_freeList (current_arena g))" "roundBytes bytes \<le> s"
    have "arena_core (current_arena g) (set (ar_freeList (current_arena g))) (L ?k)" using ar by (simp add: arena_inv_def)
    from core_block [OF this, of "(p, s)"] r(5,6) ar have "roundBytes bytes \<le> mg_capacity g" by simp
    moreover have "managed_inv (g\<lparr>mg_arenas := omap_put ?k a' (mg_arenas g)\<rparr>) (L(?k := insert (p, roundBytes bytes) (L ?k)))"
      using managed_put [OF assms(1) cur r(2)] r(3,4) ar by simp
    ultimately show ?thesis using r(1)
      by (intro disjI1 exI [of _ p] exI [of _ "g\<lparr>mg_arenas := omap_put ?k a' (mg_arenas g)\<rparr>"] exI [of _ ?k])
        (simp add: ManagedMmapArenas_allocate_def result_simps)
  next
    assume none: "MmapArena_allocate pick bytes (current_arena g) = Inr (None, current_arena g)"
    obtain a where a: "MmapArena_new (mg_capacity g) (Some ptr) = Inr a" "arena_inv a {}" "ar_freeList a = [(ptr, mg_capacity g)]"
      "ar_address a = ptr" "ar_byteSize a = mg_capacity g"
      using new_inv [of "mg_capacity g" ptr] assms(1,5) by (auto simp: managed_inv_def free_region_def)
    have L: "L ptr = {}" by (rule managed_add(3) [OF assms(1,5) a(2,4,5)])
    from allocate_spec [OF a(2) assms(2-4)] show ?thesis
    proof (elim disjE exE conjE)
      fix p a' s
      assume r: "MmapArena_allocate pick bytes a = Inr (Some p, a')" "arena_inv a' {(p, roundBytes bytes)}"
        "ar_address a' = ar_address a" "ar_byteSize a' = ar_byteSize a" "(p, s) \<in> set (ar_freeList a)" "roundBytes bytes \<le> s"
      with managed_add(1) [OF assms(1,5) r(2)] a none L show ?thesis
        by (intro disjI1 exI [of _ p] exI [of _ "g\<lparr>mg_arenas := omap_put ptr a' (mg_arenas g), mg_current := ptr\<rparr>"] exI [of _ ptr])
          (simp add: ManagedMmapArenas_allocate_def result_simps)
    next
      assume "MmapArena_allocate pick bytes a = Inr (None, a)" "\<forall>b \<in> set (ar_freeList a). snd b < roundBytes bytes"
      moreover have "L(ptr := {}) = L" using L by (metis fun_upd_triv)
      ultimately show ?thesis using managed_add(1,2) [OF assms(1,5) a(2,4,5)] a none
        by (intro disjI2 exI [of _ "g\<lparr>mg_arenas := omap_put ptr a (mg_arenas g), mg_current := ptr\<rparr>"])
          (simp add: ManagedMmapArenas_allocate_def result_simps)
    qed
  qed
qed

lemma managed_allocate_zero:
  assumes "managed_inv g L" "free_region ptr g"
  shows "\<exists>g'. ManagedMmapArenas_allocate pick (Some ptr) 0 g = Inr (None, g') \<and> managed_inv g' L \<and>
      length (mg_arenas g') = Suc (length (mg_arenas g)) \<and> mg_capacity g' = mg_capacity g"
proof -
  obtain a where a: "MmapArena_new (mg_capacity g) (Some ptr) = Inr a" "arena_inv a {}" "ar_address a = ptr" "ar_byteSize a = mg_capacity g"
    using new_inv [of "mg_capacity g" ptr] assms by (auto simp: managed_inv_def free_region_def)
  have "L(ptr := {}) = L" using managed_add(3) [OF assms a(2-4)] by (metis fun_upd_triv)
  then show ?thesis using managed_add(1,2) [OF assms a(2-4)] a
    by (simp add: ManagedMmapArenas_allocate_def MmapArena_allocate_def result_simps)
qed

lemma managed_allocate_spec:
  assumes "managed_inv g L" "picks pick" "bytes \<le> 2 ^ 63" "free_region ptr g"
  shows "(\<exists>p g' k. ManagedMmapArenas_allocate pick (Some ptr) bytes g = Inr (Some p, g') \<and> 0 < bytes \<and>
      managed_inv g' (L(k := insert (p, roundBytes bytes) (L k))) \<and> roundBytes bytes \<le> mg_capacity g) \<or>
    (\<exists>g'. ManagedMmapArenas_allocate pick (Some ptr) bytes g = Inr (None, g') \<and> managed_inv g' L \<and>
      length (mg_arenas g') = Suc (length (mg_arenas g)) \<and> (0 < bytes \<longrightarrow> mg_capacity g < roundBytes bytes))"
proof (cases "bytes = 0")
  case True
  with managed_allocate_zero [OF assms(1,4)] show ?thesis by blast
next
  case False
  then have "0 < bytes" by simp
  from managed_allocate_some [OF assms(1,2) this assms(3,4)] this show ?thesis by blast
qed

text \<open>The arena that \<^verbatim>\<open>free\<close> finds for a block is the one the block came from.\<close>

lemma managed_find:
  assumes "managed_inv g L" "(p, s) \<in> L k" "(k, a) \<in> set (mg_arenas g)"
  shows "map_of (mg_arenas g) p = Some a \<and> k = p \<or> map_of (mg_arenas g) p = None \<and> omap_prev p (mg_arenas g) = Some (k, a)"
proof -
  have ok: "omap_ok (mg_arenas g)" using assms(1) by (simp add: managed_inv_def)
  have b: "k \<le> p" "p < k + mg_capacity g" using managed_block [OF assms(1,2)] by auto
  show ?thesis
  proof (cases "k = p")
    case True
    then show ?thesis using assms(3) omap_map_of [OF ok] by simp
  next
    case False
    have near: "\<not> (k < x \<and> x \<le> p)" if "(x, c) \<in> set (mg_arenas g)" for x c
      using managed_order [OF assms(1,3) that] b by auto
    have "map_of (mg_arenas g) p = None" using near [of p] b(1) False by (auto simp: omap_map_of_None)
    moreover have "omap_prev p (mg_arenas g) \<noteq> None"
      using assms(3) b(1) False omap_prev_None [of p "mg_arenas g"] by (metis fst_conv le_antisym)
    then obtain y c where q: "omap_prev p (mg_arenas g) = Some (y, c)" by auto
    note qq = omap_prev_Some [OF ok q]
    have "y = k" using qq near [of y c] assms(3) b(1) False by fastforce
    moreover have "c = a" using qq \<open>y = k\<close> omap_unique [OF ok] assms(3) by blast
    ultimately show ?thesis using q by simp
  qed
qed

lemma managed_free_spec:
  assumes "managed_inv g L" "(p, roundBytes bytes) \<in> L k" "0 < bytes" "bytes \<le> 2 ^ 63"
  shows "\<exists>g'. ManagedMmapArenas_free p bytes g = Inr g' \<and> managed_inv g' (L(k := L k - {(p, roundBytes bytes)})) \<and>
    mg_capacity g' = mg_capacity g"
proof -
  let ?B = "L k - {(p, roundBytes bytes)}"
  from managed_block [OF assms(1,2)] obtain a where a: "(k, a) \<in> set (mg_arenas g)" "k \<le> p"
    "p + roundBytes bytes \<le> k + mg_capacity g" "p + roundBytes bytes < 2 ^ 64" "k + mg_capacity g < 2 ^ 64" by blast
  note ar = managed_arena [OF assms(1) a(1)]
  then have "arena_inv a (L k)" by simp
  from free_spec [OF this assms(2,3) refl] ar obtain a' where a': "MmapArena_free p bytes a = Inr a'" "arena_inv a' ?B"
    "ar_address a' = k" "ar_byteSize a' = mg_capacity g" by auto
  have "bytes \<le> roundBytes bytes" using roundBytes_power [OF assms(3,4)] by simp
  then have chk: "addu64 p bytes \<le> addu64 k (mg_capacity g)" using a(3-5) addu64_exact [of p bytes] addu64_exact [of k "mg_capacity g"] by simp
  define g' where "g' = (if MmapArena_empty a' \<and> k \<noteq> mg_current g then g\<lparr>mg_arenas := omap_del k (mg_arenas g)\<rparr>
    else g\<lparr>mg_arenas := omap_put k a' (mg_arenas g)\<rparr>)"
  have "ManagedMmapArenas_free p bytes g = Inr g'"
    using managed_find [OF assms(1,2) a(1)] a(1) a'(1) chk by (auto simp: ManagedMmapArenas_free_def result_simps g'_def)
  moreover have "managed_inv g' (L(k := ?B))"
  proof (cases "MmapArena_empty a' \<and> k \<noteq> mg_current g")
    case True
    have core: "arena_core a' (set (ar_freeList a')) ?B" using a'(2) by (simp add: arena_inv_def)
    moreover have "ar_freeBytes a' = (\<Sum>b \<in> set (ar_freeList a'). snd b)" using core by (simp add: arena_core_def)
    then have "(\<Sum>b \<in> ?B. snd b) = 0" using core_total [OF core] True by (simp add: MmapArena_empty_def)
    ultimately have B: "?B = {}" using core_finite [OF core] core_block [OF core] by (force simp: sum_eq_0_iff)
    from True managed_drop [OF assms(1)] show ?thesis unfolding B by (simp add: g'_def)
  next
    case False
    then have "g' = g\<lparr>mg_arenas := omap_put k a' (mg_arenas g)\<rparr>" unfolding g'_def by (rule if_not_P)
    with managed_put [OF assms(1) a(1) a'(2-4)] show ?thesis by (simp only:)
  qed
  moreover have "mg_capacity g' = mg_capacity g" by (simp add: g'_def)
  ultimately show ?thesis by blast
qed

section \<open>Runs\<close>

text \<open>
  Every sequence of calls. The operating system maps an arena where none of the others is: \<open>free_region\<close>.
\<close>

inductive managed_run :: "(nat list \<Rightarrow> nat) \<Rightarrow> managed_arenas \<Rightarrow> (nat \<times> nat) set \<Rightarrow> bool" for pick where
  start: "ManagedMmapArenas_new capacity (Some ptr) = Inr g \<Longrightarrow> 0 < capacity \<Longrightarrow> 0 < ptr \<Longrightarrow> ptr + capacity < 2 ^ 64 \<Longrightarrow>
    managed_run pick g {}"
| allocate: "managed_run pick g live \<Longrightarrow> bytes \<le> 2 ^ 63 \<Longrightarrow> free_region ptr g \<Longrightarrow>
    ManagedMmapArenas_allocate pick (Some ptr) bytes g = Inr (r, g') \<Longrightarrow>
    managed_run pick g' (case r of None \<Rightarrow> live | Some p \<Rightarrow> insert (p, roundBytes bytes) live)"
| free: "managed_run pick g live \<Longrightarrow> 0 < bytes \<Longrightarrow> bytes \<le> 2 ^ 63 \<Longrightarrow> (p, roundBytes bytes) \<in> live \<Longrightarrow>
    ManagedMmapArenas_free p bytes g = Inr g' \<Longrightarrow> managed_run pick g' (live - {(p, roundBytes bytes)})"

lemma managed_separate:
  assumes "managed_inv g L" "(p, s) \<in> L k" "(q, t) \<in> L k'" "(p, s) \<noteq> (q, t) \<or> k \<noteq> k'"
  shows "span (p, s) \<inter> span (q, t) = {}"
proof (cases "k = k'")
  case True
  obtain a where "(k, a) \<in> set (mg_arenas g)" using managed_block [OF assms(1,2)] by blast
  from managed_arena [OF assms(1) this] have t: "tiles k (mg_capacity g) (set (ar_freeList a) \<union> L k)"
    by (auto simp: arena_inv_def arena_core_def)
  then show ?thesis using tiles_pair [OF t, of "(p, s)" "(q, t)"] assms(2-4) True by auto
next
  case False
  obtain a b where a: "(k, a) \<in> set (mg_arenas g)" "k \<le> p" "p + s \<le> k + mg_capacity g"
    and b: "(k', b) \<in> set (mg_arenas g)" "k' \<le> q" "q + t \<le> k' + mg_capacity g"
    using managed_block [OF assms(1,2)] managed_block [OF assms(1,3)] by blast
  show ?thesis
    using False managed_order [OF assms(1) a(1) b(1)] managed_order [OF assms(1) b(1) a(1)] a b by (cases "k < k'") (auto simp: span_def)
qed

lemma UN_upd: "(\<Union>x. (L(k := B)) x) = B \<union> (\<Union>x \<in> - {k}. L x)"
proof -
  have "(\<Union>x. (L(k := B)) x) = (L(k := B)) k \<union> (\<Union>x \<in> - {k}. (L(k := B)) x)" by blast
  also have "(\<Union>x \<in> - {k}. (L(k := B)) x) = (\<Union>x \<in> - {k}. L x)" by (rule SUP_cong) simp_all
  finally show ?thesis by simp
qed

lemma UN_remove:
  assumes "\<And>x. x \<noteq> k \<Longrightarrow> b \<notin> L x"
  shows "(\<Union>x. L x) - {b} = (\<Union>x. (L(k := L k - {b})) x)"
proof -
  have "(\<Union>x. L x) = L k \<union> (\<Union>x \<in> - {k}. L x)" using UN_upd [of L k "L k"] by simp
  moreover have "b \<notin> (\<Union>x \<in> - {k}. L x)" using assms by blast
  ultimately show ?thesis unfolding UN_upd by blast
qed

lemma managed_run_inv: "managed_run pick g live \<Longrightarrow> picks pick \<Longrightarrow> \<exists>L. managed_inv g L \<and> live = (\<Union>k. L k)"
proof (induction rule: managed_run.induct)
  case (start capacity ptr g)
  then have m: "capacity mod kMinGrainSizeBytes = 0"
    by (auto simp: ManagedMmapArenas_new_def MmapArena_new_def result_simps split: if_splits)
  from new_inv [OF this start(2-4)] obtain a where a: "MmapArena_new capacity (Some ptr) = Inr a" "arena_inv a {}"
    "ar_address a = ptr" "ar_byteSize a = capacity" by blast
  with start(1) have "g = \<lparr>mg_capacity = capacity, mg_arenas = [(ptr, a)], mg_current = ptr\<rparr>"
    by (simp add: ManagedMmapArenas_new_def result_simps)
  then have "managed_inv g (\<lambda>_. {})" using a m start(2) by (simp add: managed_inv_def)
  then show ?case by (intro exI [of _ "\<lambda>_. {}"]) simp
next
  case (allocate g live bytes ptr r g')
  then obtain L where L: "managed_inv g L" "live = (\<Union>k. L k)" by blast
  from managed_allocate_spec [OF L(1) allocate.prems allocate.hyps(2,3)] allocate.hyps(4) show ?case
  proof (elim disjE exE conjE)
    fix p h k
    let ?L = "L(k := insert (p, roundBytes bytes) (L k))"
    assume "ManagedMmapArenas_allocate pick (Some ptr) bytes g = Inr (Some p, h)" "managed_inv h ?L"
    moreover have "insert (p, roundBytes bytes) live = (\<Union>x. ?L x)" unfolding L(2) by (auto split: if_splits)
    moreover have "r = Some p" "g' = h" using calculation(1) allocate.hyps(4) by simp_all
    ultimately show ?case by (metis option.simps(5))
  next
    fix h
    assume "ManagedMmapArenas_allocate pick (Some ptr) bytes g = Inr (None, h)" "managed_inv h L"
    with allocate.hyps(4) L(2) show ?case by (intro exI [of _ L]) simp
  qed
next
  case (free g live bytes p g')
  then obtain L where L: "managed_inv g L" "live = (\<Union>k. L k)" by blast
  with free.hyps obtain k where k: "(p, roundBytes bytes) \<in> L k" by blast
  from managed_free_spec [OF L(1) k free.hyps(2,3)] free.hyps(5) have inv: "managed_inv g' (L(k := L k - {(p, roundBytes bytes)}))" by simp
  have "(p, roundBytes bytes) \<notin> L x" if "x \<noteq> k" for x
  proof
    assume x: "(p, roundBytes bytes) \<in> L x"
    with managed_separate [OF L(1) k x] that managed_block [OF L(1) k] show False by fastforce
  qed
  then have "live - {(p, roundBytes bytes)} = (\<Union>x. (L(k := L k - {(p, roundBytes bytes)})) x)"
    unfolding L(2) by (rule UN_remove)
  with inv show ?case by blast
qed

text \<open>
  C23. Over any sequence of calls to \<^verbatim>\<open>ManagedMmapArenas\<close> with requests of at most \<open>2 ^ 63\<close> bytes, no two blocks handed
  out overlap, also when they come from different arenas, and every one of them can be given back: the
  arena it came from is found, and no check fails.
\<close>

theorem managed_free_never_fails:
  assumes "picks pick" and "managed_run pick g live"
  shows "(\<forall>b \<in> live. \<forall>c \<in> live. b \<noteq> c \<longrightarrow> span b \<inter> span c = {}) \<and>
    (\<forall>p bytes. 0 < bytes \<longrightarrow> bytes \<le> 2 ^ 63 \<longrightarrow> (p, roundBytes bytes) \<in> live \<longrightarrow> (\<exists>g'. ManagedMmapArenas_free p bytes g = Inr g'))"
proof -
  obtain L where L: "managed_inv g L" "live = (\<Union>k. L k)" using managed_run_inv [OF assms(2,1)] by blast
  have "span b \<inter> span c = {}" if "b \<in> live" "c \<in> live" "b \<noteq> c" for b c
    using managed_separate [OF L(1), of "fst b" "snd b" _ "fst c" "snd c"] that unfolding L(2) by auto
  moreover have "\<exists>g'. ManagedMmapArenas_free p bytes g = Inr g'" if "0 < bytes" "bytes \<le> 2 ^ 63" "(p, roundBytes bytes) \<in> live" for p bytes
    using managed_free_spec [OF L(1) _ that(1,2)] that(3) unfolding L(2) by blast
  ultimately show ?thesis by blast
qed

text \<open>
  C24. For a request of at most \<open>2 ^ 63\<close> bytes, \<^verbatim>\<open>ManagedMmapArenas::allocate\<close> returns no block exactly when it is empty
  or its rounded size exceeds the capacity of one arena. In both cases it has mapped one more
  arena, which it keeps.
\<close>

theorem managed_allocate_grows:
  assumes "picks pick" and "managed_run pick g live" and "bytes \<le> 2 ^ 63" and "free_region ptr g"
  shows "\<exists>r g'. ManagedMmapArenas_allocate pick (Some ptr) bytes g = Inr (r, g') \<and>
    (r = None \<longleftrightarrow> bytes = 0 \<or> mg_capacity g < roundBytes bytes) \<and>
    (r = None \<longrightarrow> length (mg_arenas g') = Suc (length (mg_arenas g)))"
proof -
  obtain L where "managed_inv g L" using managed_run_inv [OF assms(2,1)] by blast
  from managed_allocate_spec [OF this assms(1,3,4)] show ?thesis by fastforce
qed

section \<open>Witnesses\<close>

lemma example_managed:
  "\<exists>g. managed_run hd g {} \<and> mg_capacity g = 2 ^ 20 \<and> free_region (2 ^ 30) g"
proof -
  obtain a where a: "MmapArena_new (2 ^ 20) (Some (2 ^ 20)) = Inr a" "ar_address a = 2 ^ 20"
    using new_inv [of "2 ^ 20" "2 ^ 20"] by (auto simp: kMinGrainSizeBytes_def)
  define g where "g = \<lparr>mg_capacity = 2 ^ 20, mg_arenas = [(2 ^ 20, a)], mg_current = 2 ^ 20\<rparr>"
  have "ManagedMmapArenas_new (2 ^ 20) (Some (2 ^ 20)) = Inr g"
    using a by (simp add: ManagedMmapArenas_new_def result_simps g_def)
  then have "managed_run hd g {}" by (rule managed_run.start) simp_all
  then show ?thesis by (intro exI [of _ g]) (simp add: g_def free_region_def)
qed

lemma example_managed_block: "\<exists>g p. managed_run hd g {(p, roundBytes 1024)}"
proof -
  obtain g where g: "managed_run hd g {}" "mg_capacity g = 2 ^ 20" "free_region (2 ^ 30) g" using example_managed by blast
  obtain L where "managed_inv g L" using managed_run_inv [OF g(1) picks_hd] by blast
  from managed_allocate_spec [OF this picks_hd _ g(3), of 1024] g(2) round_1024 obtain p g'
    where "ManagedMmapArenas_allocate hd (Some (2 ^ 30)) 1024 g = Inr (Some p, g')" by auto
  from managed_run.allocate [OF g(1) _ g(3) this] show ?thesis by auto
qed

theorem managed_free_never_fails_witness:
  "\<exists>g p g'. managed_run hd g {(p, roundBytes 1024)} \<and> ManagedMmapArenas_free p 1024 g = Inr g'"
proof -
  obtain g p where run: "managed_run hd g {(p, roundBytes 1024)}" using example_managed_block by blast
  have "0 < (1024 :: nat)" "(1024 :: nat) \<le> 2 ^ 63" "(p, roundBytes 1024) \<in> {(p, roundBytes 1024)}" by simp_all
  then have "\<exists>g'. ManagedMmapArenas_free p 1024 g = Inr g'"
    using conjunct2 [OF managed_free_never_fails [OF picks_hd run], rule_format, of 1024 p] by blast
  with run show ?thesis by blast
qed

theorem managed_allocate_grows_witness:
  "\<exists>g r g' h. managed_run hd g {} \<and> ManagedMmapArenas_allocate hd (Some (2 ^ 30)) 1024 g = Inr (r, g') \<and> r \<noteq> None \<and>
    ManagedMmapArenas_allocate hd (Some (2 ^ 30)) 0 g = Inr (None, h) \<and> length (mg_arenas h) = Suc (length (mg_arenas g))"
proof -
  obtain g where g: "managed_run hd g {}" "mg_capacity g = 2 ^ 20" "free_region (2 ^ 30) g" using example_managed by blast
  from managed_allocate_grows [OF picks_hd g(1) _ g(3), of 1024] managed_allocate_grows [OF picks_hd g(1) _ g(3), of 0] g
  show ?thesis by (auto simp: round_1024)
qed

end
