(* ===== verification/Coding.thy ===== *)
theory Coding
  imports Bolt_Prelude "HOL-Library.Word"
begin

text \<open>
  Variable-length integers and zig-zag coding of \<^verbatim>\<open>bolt/common/encode/Coding.h\<close>, on the 128-bit integers of
  \<^verbatim>\<open>UInt128.h\<close> and the byte sources of \<^verbatim>\<open>bolt/common/strings/ByteStream.h\<close>. Unsigned integers are words of
  their width. A pointer into a buffer that is read or written and advanced is the list of the bytes after it; a
  failing \<^verbatim>\<open>CHECK\<close> is \<open>CheckFailed\<close> and reading past the end is \<open>UndefinedBehaviour\<close>.
\<close>

unbundle bit_operations_syntax

type_synonym byte = "8 word"

section \<open>128-bit integers\<close>

record uint128 =
  u_hi :: "64 word"
  u_lo :: "64 word"

definition UInt128 :: "64 word \<Rightarrow> uint128" where
  "UInt128 lo = \<lparr>u_hi = 0, u_lo = lo\<rparr>"

definition UInt128_or :: "uint128 \<Rightarrow> uint128 \<Rightarrow> uint128" where
  "UInt128_or a b = \<lparr>u_hi = u_hi a OR u_hi b, u_lo = u_lo a OR u_lo b\<rparr>"

definition UInt128_and :: "uint128 \<Rightarrow> uint128 \<Rightarrow> uint128" where
  "UInt128_and a b = \<lparr>u_hi = u_hi a AND u_hi b, u_lo = u_lo a AND u_lo b\<rparr>"

definition UInt128_not :: "uint128 \<Rightarrow> uint128" where
  "UInt128_not a = \<lparr>u_hi = NOT (u_hi a), u_lo = NOT (u_lo a)\<rparr>"

text \<open>
  The shifts are defined for distances below 128: from there on, the source shifts a 64-bit integer by 64 or more,
  which is undefined. The callers that shift by a variable distance have that case.
\<close>

definition UInt128_shl :: "uint128 \<Rightarrow> nat \<Rightarrow> uint128" where
  "UInt128_shl a n =
     (if n \<ge> 64 then \<lparr>u_hi = push_bit (n - 64) (u_lo a), u_lo = 0\<rparr>
      else if n > 0 then \<lparr>u_hi = push_bit n (u_hi a) OR drop_bit (64 - n) (u_lo a), u_lo = push_bit n (u_lo a)\<rparr>
      else a)"

definition UInt128_shr :: "uint128 \<Rightarrow> nat \<Rightarrow> uint128" where
  "UInt128_shr a n =
     (if n \<ge> 64 then \<lparr>u_hi = 0, u_lo = drop_bit (n - 64) (u_hi a)\<rparr>
      else if n > 0 then \<lparr>u_hi = drop_bit n (u_hi a), u_lo = drop_bit n (u_lo a) OR push_bit (64 - n) (u_hi a)\<rparr>
      else a)"

text \<open>The 128-bit word that a pair of 64-bit words stands for.\<close>

definition word128 :: "uint128 \<Rightarrow> 128 word" where
  "word128 a = word_cat (u_hi a) (u_lo a)"

lemma bit_word128: "bit (word128 a) n \<longleftrightarrow> (if n < 64 then bit (u_lo a) n else n < 128 \<and> bit (u_hi a) (n - 64))"
  by (auto simp: word128_def bit_word_cat_iff)

lemma word128_inject: "word128 a = word128 b \<longleftrightarrow> a = b"
proof
  assume eq: "word128 a = word128 b"
  have "u_lo a = u_lo b"
  proof (rule bit_word_eqI)
    fix n assume "n < LENGTH(64)"
    then show "bit (u_lo a) n = bit (u_lo b) n" using bit_word128 [of a n] bit_word128 [of b n] eq by simp
  qed
  moreover have "u_hi a = u_hi b"
  proof (rule bit_word_eqI)
    fix n assume "n < LENGTH(64)"
    then show "bit (u_hi a) n = bit (u_hi b) n" using bit_word128 [of a "n + 64"] bit_word128 [of b "n + 64"] eq by simp
  qed
  ultimately show "a = b" by simp
qed simp

lemma word128_or: "word128 (UInt128_or a b) = word128 a OR word128 b"
  by (rule bit_word_eqI) (simp add: bit_word128 UInt128_or_def bit_or_iff)

lemma word128_and: "word128 (UInt128_and a b) = word128 a AND word128 b"
  by (rule bit_word_eqI) (simp add: bit_word128 UInt128_and_def bit_and_iff)

lemma word128_not: "word128 (UInt128_not a) = NOT (word128 a)"
  by (rule bit_word_eqI) (auto simp: bit_word128 UInt128_not_def bit_not_iff)

lemma word128_of: "word128 (UInt128 lo) = ucast lo"
  by (rule bit_word_eqI) (auto simp: bit_word128 UInt128_def bit_unsigned_iff dest: bit_imp_le_length)

lemma word128_shl: "n < 128 \<Longrightarrow> word128 (UInt128_shl a n) = push_bit n (word128 a)"
  by (rule bit_word_eqI)
    (auto simp: bit_word128 UInt128_shl_def bit_push_bit_iff bit_drop_bit_eq bit_or_iff add.commute [of 64] dest: bit_imp_le_length)

lemma word128_shr: "n < 128 \<Longrightarrow> word128 (UInt128_shr a n) = drop_bit n (word128 a)"
  by (rule bit_word_eqI)
    (auto simp: bit_word128 UInt128_shr_def bit_push_bit_iff bit_drop_bit_eq bit_or_iff add.commute [of n] dest: bit_imp_le_length)

section \<open>Byte sources\<close>

text \<open>
  The interface \<^verbatim>\<open>ByteSource\<close>: \<open>next\<close> returns a chunk, or none at the end. \<^verbatim>\<open>StringByteSource\<close> implements it
  on a string.
\<close>

record 's byte_source =
  bs_next :: "'s \<Rightarrow> (byte list \<times> 's) option"
  bs_backUp :: "nat \<Rightarrow> 's \<Rightarrow> 's result"

record string_source =
  ss_str :: "byte list"
  ss_offset :: nat
  ss_maxBytes :: nat

definition StringByteSource_new :: "byte list \<Rightarrow> nat option \<Rightarrow> string_source" where
  "StringByteSource_new str maxBytes =
     \<lparr>ss_str = str, ss_offset = 0, ss_maxBytes = (case maxBytes of None \<Rightarrow> length str | Some n \<Rightarrow> n)\<rparr>"

definition StringByteSource_next :: "string_source \<Rightarrow> (byte list \<times> string_source) option" where
  "StringByteSource_next s =
     (if ss_offset s = length (ss_str s) then None
      else let len = min (length (ss_str s) - ss_offset s) (ss_maxBytes s) in
        Some (take len (drop (ss_offset s) (ss_str s)), s\<lparr>ss_offset := ss_offset s + len\<rparr>))"

definition StringByteSource_backUp :: "nat \<Rightarrow> string_source \<Rightarrow> string_source result" where
  "StringByteSource_backUp numBytes s =
     checkR (numBytes \<le> ss_maxBytes s) (checkR (numBytes \<le> ss_offset s) (Inr (s\<lparr>ss_offset := ss_offset s - numBytes\<rparr>)))"

definition StringByteSource_methods :: "string_source byte_source" where
  "StringByteSource_methods = \<lparr>bs_next = StringByteSource_next, bs_backUp = StringByteSource_backUp\<rparr>"

section \<open>Varint\<close>

definition kMaxSize32 :: nat where "kMaxSize32 = 5"
definition kMaxSize64 :: nat where "kMaxSize64 = 10"
definition kMaxSize128 :: nat where "kMaxSize128 = 19"

definition Varint_shift :: "64 word \<Rightarrow> 64 word \<Rightarrow> nat \<Rightarrow> uint128 result" where
  "Varint_shift a b bBits =
     (if bBits \<ge> 128 then Inl UndefinedBehaviour
      else Inr (UInt128_or (UInt128_shl (UInt128 a) bBits) (UInt128 b)))"

definition Varint_unshift :: "uint128 \<Rightarrow> nat \<Rightarrow> (64 word \<times> 64 word) result" where
  "Varint_unshift val bBits =
     (if bBits \<ge> 64 then Inl UndefinedBehaviour
      else Inr (u_lo (UInt128_shr val bBits), u_lo val AND (push_bit bBits 1 - 1)))"

lemma shift7_less [termination_simp]: "128 \<le> val \<Longrightarrow> unat (drop_bit 7 val) < unat val" for val :: "64 word"
proof -
  assume "128 \<le> val"
  then have "128 \<le> unat val" by (simp add: word_le_nat_alt)
  moreover have "unat (drop_bit 7 val) = unat val div 128" by (simp only: unat_drop_bit_eq) (simp add: drop_bit_eq_div)
  ultimately show ?thesis by simp
qed

function Varint_size :: "64 word \<Rightarrow> nat" where
  "Varint_size val = (if val \<ge> 128 then Suc (Varint_size (drop_bit 7 val)) else 1)"
  by pat_completeness auto

termination Varint_size
  by (relation "measure unat") (auto simp: termination_simp)

function Varint_encode :: "64 word \<Rightarrow> byte list" where
  "Varint_encode val =
     (if val \<ge> 128 then (0x80 OR (ucast val AND 0x7f)) # Varint_encode (drop_bit 7 val)
      else [ucast val])"
  by pat_completeness auto

termination Varint_encode
  by (relation "measure unat") (auto simp: termination_simp)

declare Varint_size.simps [simp del] Varint_encode.simps [simp del]

text \<open>The loops on 128-bit integers test \<^verbatim>\<open>val.hi() != 0 || val.lo() >= 128\<close>.\<close>

lemma unat_word128: "unat (word128 a) = unat (u_hi a) * 2 ^ 64 + unat (u_lo a)"
proof -
  have b: "unat (u_hi a) < 2 ^ 64" "unat (u_lo a) < 2 ^ 64" using unsigned_less [of "u_hi a"] unsigned_less [of "u_lo a"] by simp_all
  then have s: "unat (u_hi a) * 2 ^ 64 + unat (u_lo a) < 2 ^ 128" by simp
  have "word128 a = push_bit 64 (ucast (u_hi a)) + ucast (u_lo a)" by (simp add: word128_def word_cat_eq)
  also have "\<dots> = of_nat (unat (u_hi a) * 2 ^ 64 + unat (u_lo a))" by (simp add: push_bit_eq_mult)
  finally have "unat (word128 a) = (unat (u_hi a) * 2 ^ 64 + unat (u_lo a)) mod 2 ^ LENGTH(128)" by (simp only: unat_of_nat)
  with s show ?thesis by simp
qed

lemma word128_ge: "128 \<le> word128 val \<longleftrightarrow> u_hi val \<noteq> 0 \<or> u_lo val \<ge> 128"
proof -
  have "u_hi val = 0 \<longleftrightarrow> unat (u_hi val) = 0" by (simp add: unat_eq_0)
  then show ?thesis by (auto simp: word_le_nat_alt unat_word128)
qed

lemma shift7_less128: "u_hi val \<noteq> 0 \<or> u_lo val \<ge> 128 \<Longrightarrow> unat (word128 (UInt128_shr val 7)) < unat (word128 val)"
proof -
  assume "u_hi val \<noteq> 0 \<or> u_lo val \<ge> 128"
  then have "128 \<le> unat (word128 val)" by (simp only: word128_ge [symmetric]) (simp add: word_le_nat_alt)
  moreover have "unat (drop_bit 7 (word128 val)) = unat (word128 val) div 128"
    by (simp only: unat_drop_bit_eq) (simp add: drop_bit_eq_div)
  ultimately show ?thesis by (simp add: word128_shr)
qed

function Varint_size128 :: "uint128 \<Rightarrow> nat" where
  "Varint_size128 val = (if u_hi val \<noteq> 0 \<or> u_lo val \<ge> 128 then Suc (Varint_size128 (UInt128_shr val 7)) else 1)"
  by pat_completeness auto

termination Varint_size128
  by (relation "measure (unat o word128)") (use shift7_less128 in \<open>auto simp del: unat_word128\<close>)

function Varint_encode128 :: "uint128 \<Rightarrow> byte list" where
  "Varint_encode128 val =
     (if u_hi val \<noteq> 0 \<or> u_lo val \<ge> 128 then
        (0x80 OR (ucast (u_lo val) AND 0x7f)) # Varint_encode128 (UInt128_shr val 7)
      else [ucast (u_lo val)])"
  by pat_completeness auto

termination Varint_encode128
  by (relation "measure (unat o word128)") (use shift7_less128 in \<open>auto simp del: unat_word128\<close>)

declare Varint_size128.simps [simp del] Varint_encode128.simps [simp del]

text \<open>\<^verbatim>\<open>SByteSink\<close> appends to a string.\<close>

definition SByteSink_append :: "byte list \<Rightarrow> byte list \<Rightarrow> byte list" where
  "SByteSink_append s str = str @ s"

definition encodeToByteSink :: "64 word \<Rightarrow> byte list \<Rightarrow> byte list" where
  "encodeToByteSink val sink = SByteSink_append (Varint_encode val) sink"

definition encode128ToByteSink :: "uint128 \<Rightarrow> byte list \<Rightarrow> byte list" where
  "encode128ToByteSink val sink = SByteSink_append (Varint_encode128 val) sink"

definition canDecode :: "byte list \<Rightarrow> bool" where
  "canDecode src = list_ex (\<lambda>v. NOT v AND 0x80 \<noteq> 0) (take kMaxSize64 src)"

text \<open>
  The fast path reads at most ten bytes in ten copies of one step; the model numbers the steps by \<open>i\<close>. The signed byte
  is negative when its top bit is set. The distances are 0, 7, \<dots>, 56 and 63.
\<close>

fun decodeFast :: "nat \<Rightarrow> nat \<Rightarrow> 64 word \<Rightarrow> byte list \<Rightarrow> (64 word \<times> byte list) result" where
  "decodeFast 0 i x p = Inl CheckFailed"
| "decodeFast (Suc steps) i x p =
     (case p of
        [] \<Rightarrow> Inl UndefinedBehaviour
      | b # p \<Rightarrow>
          let x = x OR push_bit (7 * i) (ucast (b AND 0x7f)) in
          if sint b \<ge> 0 then Inr (x, p) else decodeFast steps (Suc i) x p)"

fun decodeSlow :: "nat \<Rightarrow> 64 word \<Rightarrow> nat \<Rightarrow> byte list \<Rightarrow> (64 word \<times> byte list) result" where
  "decodeSlow max_size val shift [] = Inl UndefinedBehaviour"
| "decodeSlow max_size val shift (b # p) =
     (if b AND 0x80 \<noteq> 0 then
        checkR (max_size > 1)
          (decodeSlow (max_size - 1) (val OR push_bit shift (ucast (b AND 0x7f))) (shift + 7) p)
      else Inr (val OR push_bit shift (ucast b), p))"

definition Varint_decode :: "byte list \<Rightarrow> nat \<Rightarrow> (64 word \<times> byte list) result" where
  "Varint_decode src max_size =
     (if max_size \<ge> kMaxSize64 then decodeFast 10 0 0 src else decodeSlow max_size 0 0 src)"

fun decode128Loop :: "nat \<Rightarrow> uint128 \<Rightarrow> nat \<Rightarrow> byte list \<Rightarrow> (uint128 \<times> byte list) result" where
  "decode128Loop max_size val shift [] = Inl UndefinedBehaviour"
| "decode128Loop max_size val shift (b # p) =
     (if b AND 0x80 \<noteq> 0 then
        checkR (max_size > 1)
          (if shift \<ge> 128 then Inl UndefinedBehaviour
           else decode128Loop (max_size - 1) (UInt128_or val (UInt128_shl (UInt128 (ucast (b AND 0x7f))) shift)) (shift + 7) p)
      else if shift \<ge> 128 then Inl UndefinedBehaviour
      else Inr (UInt128_or val (UInt128_shl (UInt128 (ucast b)) shift), p))"

definition Varint_decode128 :: "byte list \<Rightarrow> nat \<Rightarrow> (uint128 \<times> byte list) result" where
  "Varint_decode128 src max_size =
     decode128Loop (if max_size > kMaxSize128 then kMaxSize128 else max_size) (UInt128 0) 0 src"

definition decodePiece :: "byte list \<Rightarrow> (64 word \<times> byte list) result" where
  "decodePiece data = Varint_decode data (length data)"

definition decode128Piece :: "byte list \<Rightarrow> (uint128 \<times> byte list) result" where
  "decode128Piece data = Varint_decode128 data (length data)"

text \<open>
  Reading from a byte source: \<open>remaining\<close> is the 32-bit count of the bytes that remain of the current chunk, \<open>p\<close> the bytes
  at the pointer. The size of a chunk is narrowed to 32 bits; the check that it is positive is only made in debug
  builds. Decrementing the smallest count and reading past the chunk are undefined behaviour. A count handed to \<^verbatim>\<open>backUp\<close> is
  converted to 64 bits without sign.
\<close>

definition nextChunk :: "'s byte_source \<Rightarrow> int \<Rightarrow> byte list \<Rightarrow> 's \<Rightarrow> (int \<times> byte list \<times> 's) result" where
  "nextChunk M remaining p src =
     (if remaining = 0 then
        case bs_next M src of
          None \<Rightarrow> Inl CheckFailed
        | Some (chunk, src) \<Rightarrow> Inr (to_int32 (int (length chunk)), chunk, src)
      else Inr (remaining, p, src))"

definition backUpRemaining :: "'s byte_source \<Rightarrow> int \<Rightarrow> 's \<Rightarrow> 's result" where
  "backUpRemaining M remaining src = (if remaining \<noteq> 0 then bs_backUp M (nat (remaining mod 2 ^ 64)) src else Inr src)"

function sourceLoop ::
    "'s byte_source \<Rightarrow> nat \<Rightarrow> 64 word \<Rightarrow> nat \<Rightarrow> int \<Rightarrow> byte list \<Rightarrow> 's \<Rightarrow> (64 word \<times> int \<times> 's) result" where
  "sourceLoop M max_size val shift remaining p src =
     (case nextChunk M remaining p src of
        Inl e \<Rightarrow> Inl e
      | Inr (remaining, [], src) \<Rightarrow> Inl UndefinedBehaviour
      | Inr (remaining, b # p, src) \<Rightarrow>
          if remaining = int32_min then Inl UndefinedBehaviour
          else if b AND 0x80 \<noteq> 0 then
            if max_size > 1
            then sourceLoop M (max_size - 1) (val OR push_bit shift (ucast (b AND 0x7f))) (shift + 7) (remaining - 1) p src
            else Inl CheckFailed
          else Inr (val OR push_bit shift (ucast b), remaining - 1, src))"
  by pat_completeness auto

termination sourceLoop
  by (relation "measure (\<lambda>(M, max_size, val, shift, remaining, p, src). max_size)") auto

declare sourceLoop.simps [simp del]

definition decodeFromByteSource :: "'s byte_source \<Rightarrow> 's \<Rightarrow> (64 word \<times> 's) result" where
  "decodeFromByteSource M src =
     bindR (sourceLoop M kMaxSize64 0 0 0 [] src) (\<lambda>(val, remaining, src).
     bindR (backUpRemaining M remaining src) (\<lambda>src. Inr (val, src)))"

function sourceLoop128 ::
    "'s byte_source \<Rightarrow> nat \<Rightarrow> uint128 \<Rightarrow> nat \<Rightarrow> int \<Rightarrow> byte list \<Rightarrow> 's \<Rightarrow> (uint128 \<times> int \<times> 's) result" where
  "sourceLoop128 M max_size val shift remaining p src =
     (case nextChunk M remaining p src of
        Inl e \<Rightarrow> Inl e
      | Inr (remaining, [], src) \<Rightarrow> Inl UndefinedBehaviour
      | Inr (remaining, b # p, src) \<Rightarrow>
          if remaining = int32_min then Inl UndefinedBehaviour
          else if b AND 0x80 \<noteq> 0 then
            if max_size > 1 then
              if shift \<ge> 128 then Inl UndefinedBehaviour
              else sourceLoop128 M (max_size - 1)
                     (UInt128_or val (UInt128_shl (UInt128 (ucast (b AND 0x7f))) shift)) (shift + 7) (remaining - 1) p src
            else Inl CheckFailed
          else if shift \<ge> 128 then Inl UndefinedBehaviour
          else Inr (UInt128_or val (UInt128_shl (UInt128 (ucast b)) shift), remaining - 1, src))"
  by pat_completeness auto

termination sourceLoop128
  by (relation "measure (\<lambda>(M, max_size, val, shift, remaining, p, src). max_size)") auto

declare sourceLoop128.simps [simp del]

definition decode128FromByteSource :: "'s byte_source \<Rightarrow> 's \<Rightarrow> (uint128 \<times> 's) result" where
  "decode128FromByteSource M src =
     bindR (sourceLoop128 M kMaxSize128 (UInt128 0) 0 0 [] src) (\<lambda>(val, remaining, src).
     bindR (backUpRemaining M remaining src) (\<lambda>src. Inr (val, src)))"

section \<open>Zig-zag coding\<close>

text \<open>Signed integers are words in two's complement; \<^verbatim>\<open>>>\<close> of a signed integer keeps the sign.\<close>

definition ZigZag_encode :: "64 word \<Rightarrow> 64 word" where
  "ZigZag_encode val = push_bit 1 val XOR signed_drop_bit 63 val"

definition ZigZag_encodeInt128 :: "128 word \<Rightarrow> 128 word" where
  "ZigZag_encodeInt128 val = push_bit 1 val XOR signed_drop_bit 127 val"

definition ZigZag_decode :: "'a::len word \<Rightarrow> 'a word" where
  "ZigZag_decode val = drop_bit 1 val XOR - (val AND 1)"

end
