(* ===== verification/Coding_Props.thy ===== *)
theory Coding_Props
  imports Coding
begin

text \<open>
  What variable-length coding promises: what was encoded is decoded, whichever of the decoders reads it, the sizes are
  least and bounded, and \<^verbatim>\<open>canDecode\<close> tells exactly when decoding succeeds. Both widths are related to one code
  on natural numbers, \<open>venc\<close>, and to one loop on words of any length, \<open>vloop\<close>.
\<close>

section \<open>The code\<close>

fun venc :: "nat \<Rightarrow> byte list" where
  "venc n = (if n \<ge> 128 then (0x80 OR (of_nat n AND 0x7f)) # venc (n div 128) else [of_nat n])"

declare venc.simps [simp del]

lemma Varint_encode_venc: "Varint_encode v = venc (unat v)"
proof (induction v rule: Varint_encode.induct)
  case (1 v)
  have "unat (drop_bit 7 v) = unat v div 128" by (simp only: unat_drop_bit_eq) (simp add: drop_bit_eq_div)
  with 1 show ?case
    by (subst Varint_encode.simps, subst venc.simps) (simp add: word_le_nat_alt)
qed

lemma Varint_encode128_venc: "Varint_encode128 u = venc (unat (word128 u))"
proof (induction u rule: Varint_encode128.induct)
  case (1 u)
  have d: "unat (word128 (UInt128_shr u 7)) = unat (word128 u) div 128"
    by (simp only: word128_shr unat_drop_bit_eq) (simp add: drop_bit_eq_div)
  have g: "(u_hi u \<noteq> 0 \<or> u_lo u \<ge> 128) = (128 \<le> unat (word128 u))"
    by (simp only: word128_ge [symmetric]) (simp add: word_le_nat_alt)
  have "bit (ucast (u_lo u) :: byte) k = bit (ucast (word128 u) :: byte) k" if "k < 8" for k
    using that by (simp add: bit_unsigned_iff bit_word128)
  then have lo: "(ucast (u_lo u) :: byte) = of_nat (unat (word128 u))"
    using bit_word_eqI [of "ucast (u_lo u) :: byte" "ucast (word128 u)"] by simp
  show ?case
  proof (cases "128 \<le> unat (word128 u)")
    case True
    with 1 g show ?thesis by (subst Varint_encode128.simps, subst venc.simps) (simp only: lo d if_True)
  next
    case False
    with g show ?thesis by (subst Varint_encode128.simps, subst venc.simps) (simp only: lo if_False)
  qed
qed

lemma Varint_size_venc: "Varint_size v = length (venc (unat v))"
proof (induction v rule: Varint_size.induct)
  case (1 v)
  have "unat (drop_bit 7 v) = unat v div 128" by (simp only: unat_drop_bit_eq) (simp add: drop_bit_eq_div)
  with 1 show ?case
    by (subst Varint_size.simps, subst venc.simps) (simp add: word_le_nat_alt)
qed

lemma Varint_size128_venc: "Varint_size128 u = length (venc (unat (word128 u)))"
proof (induction u rule: Varint_size128.induct)
  case (1 u)
  have d: "unat (word128 (UInt128_shr u 7)) = unat (word128 u) div 128"
    by (simp only: word128_shr unat_drop_bit_eq) (simp add: drop_bit_eq_div)
  have g: "(u_hi u \<noteq> 0 \<or> u_lo u \<ge> 128) = (128 \<le> unat (word128 u))"
    by (simp only: word128_ge [symmetric]) (simp add: word_le_nat_alt)
  show ?case
  proof (cases "128 \<le> unat (word128 u)")
    case True
    with 1 g show ?thesis by (subst Varint_size128.simps, subst venc.simps) (simp only: d if_True list.size)
  next
    case False
    with g show ?thesis by (subst Varint_size128.simps, subst venc.simps) (simp only: if_False list.size)
  qed
qed

lemma venc_length: "1 \<le> k \<Longrightarrow> length (venc n) \<le> k \<longleftrightarrow> n < 128 ^ k"
proof (induction n arbitrary: k rule: venc.induct)
  case (1 n)
  obtain j where k: "k = Suc j" using 1(2) by (cases k) auto
  show ?case
  proof (cases "n \<ge> 128")
    case True
    have "length (venc (n div 128)) \<le> j \<longleftrightarrow> n div 128 < 128 ^ j"
    proof (cases "1 \<le> j")
      case False
      then have "j = 0" by simp
      moreover have "0 < length (venc (n div 128))" by (subst venc.simps) simp
      ultimately show ?thesis using True by simp
    qed (use 1(1) True in blast)
    moreover have "n div 128 < 128 ^ j \<longleftrightarrow> n < 128 ^ k" unfolding k by (simp add: div_less_iff_less_mult mult.commute)
    ultimately show ?thesis using True k by (subst venc.simps) simp
  next
    case False
    then have "n < 128 ^ k" unfolding k by (simp add: less_le_trans [of n 128])
    with False 1(2) show ?thesis by (subst venc.simps) simp
  qed
qed

section \<open>The loop\<close>

fun vloop :: "nat \<Rightarrow> 'a::len word \<Rightarrow> nat \<Rightarrow> byte list \<Rightarrow> ('a word \<times> byte list) result" where
  "vloop max_size val shift [] = Inl UndefinedBehaviour"
| "vloop max_size val shift (b # p) =
     (if b AND 0x80 \<noteq> 0 then
        checkR (max_size > 1) (vloop (max_size - 1) (val OR push_bit shift (ucast (b AND 0x7f))) (shift + 7) p)
      else Inr (val OR push_bit shift (ucast b), p))"

lemma decodeSlow_vloop: "decodeSlow max_size val shift p = vloop max_size val shift p"
  by (induction max_size val shift p rule: decodeSlow.induct) (auto simp: checkR_def)

lemma top_bit: "b AND 0x80 \<noteq> 0 \<longleftrightarrow> bit b 7" for b :: byte
  using and_exp_eq_0_iff_not_bit [of b 7] by simp

lemma sint_top: "0 \<le> sint b \<longleftrightarrow> \<not> bit b 7" for b :: byte
  using bit_last_iff [of b] by (simp add: not_less)

lemma low_bits: "\<not> bit b 7 \<Longrightarrow> b AND 0x7f = b" for b :: byte
proof -
  assume "\<not> bit b 7"
  then have "bit (b AND mask 7) k = bit b k" if "k < 8" for k
    using that by (cases "k = 7") (auto simp: bit_and_iff bit_mask_iff)
  then have "b AND mask 7 = b" by (intro bit_word_eqI) simp
  then show ?thesis by (simp add: mask_eq_exp_minus_1)
qed

lemma decodeFast_vloop: "decodeFast (Suc k) i x p = vloop (Suc k) x (7 * i) p"
proof (induction k arbitrary: i x p)
  case 0
  then show ?case by (cases p) (auto simp: Let_def top_bit sint_top low_bits)
next
  case (Suc k)
  show ?case
  proof (cases p)
    case Nil
    then show ?thesis by simp
  next
    case (Cons b q)
    have "decodeFast (Suc (Suc k)) i x p =
        (let x = x OR push_bit (7 * i) (ucast (b AND 0x7f)) in if sint b \<ge> 0 then Inr (x, q) else decodeFast (Suc k) (Suc i) x q)"
      using Cons by simp
    then show ?thesis using Suc [of "Suc i"] Cons by (simp add: Let_def top_bit sint_top low_bits add.commute)
  qed
qed

lemma seven_mask: "(0x7f :: byte) = mask 7"
  by (simp add: mask_eq_exp_minus_1)

lemma head_bits:
  "bit (0x80 OR (of_nat n AND 0x7f) :: byte) 7"
  "(0x80 OR (of_nat n AND 0x7f)) AND 0x7f = (of_nat n AND 0x7f :: byte)"
proof -
  have e: "bit (0x80 :: byte) k \<longleftrightarrow> k = 7" for k using bit_exp_iff [where 'a = byte, of 7 k] by auto
  have i: "bit (0x80 :: int) k \<longleftrightarrow> k = 7" for k using bit_exp_iff [where 'a = int, of 7 k] by auto
  show "bit (0x80 OR (of_nat n AND 0x7f) :: byte) 7" by (simp add: bit_or_iff e)
  show "(0x80 OR (of_nat n AND 0x7f)) AND 0x7f = (of_nat n AND 0x7f :: byte)"
    unfolding seven_mask by (rule bit_word_eqI) (auto simp: bit_or_iff bit_and_iff e i bit_mask_iff)
qed

lemma low_seven: "ucast (of_nat n AND 0x7f :: byte) = (take_bit 7 (of_nat n) :: 'a::len word)"
  unfolding seven_mask
  by (rule bit_word_eqI) (auto simp: bit_unsigned_iff bit_and_iff bit_mask_iff bit_take_bit_iff bit_of_nat_iff)

lemma of_nat_split: "push_bit s (take_bit 7 (of_nat n)) OR push_bit (s + 7) (of_nat (n div 128)) = (push_bit s (of_nat n) :: 'a::len word)"
proof -
  have d: "n div 128 = drop_bit 7 n" by (simp add: drop_bit_eq_div)
  show ?thesis unfolding d
  proof (rule bit_word_eqI)
    fix k
    have "7 + (k - (s + 7)) = k - s" if "s + 7 \<le> k" using that by simp
    then show "bit (push_bit s (take_bit 7 (of_nat n)) OR push_bit (s + 7) (of_nat (drop_bit 7 n)) :: 'a word) k = bit (push_bit s (of_nat n) :: 'a word) k"
      by (cases "s + 7 \<le> k") (auto simp: bit_or_iff bit_push_bit_iff bit_take_bit_iff bit_of_nat_iff bit_drop_bit_eq)
  qed
qed

lemma vloop_venc:
  "length (venc n) \<le> max_size \<Longrightarrow> vloop max_size val s (venc n @ rest) = Inr (val OR push_bit s (of_nat n :: 'a::len word), rest)"
proof (induction n arbitrary: max_size val s rule: venc.induct)
  case (1 n)
  show ?case
  proof (cases "n \<ge> 128")
    case True
    then have e: "venc n = (0x80 OR (of_nat n AND 0x7f)) # venc (n div 128)" by (subst venc.simps) simp
    have "0 < length (venc (n div 128))" by (subst venc.simps) simp
    moreover have "Suc (length (venc (n div 128))) \<le> max_size" using 1(2) e by simp
    ultimately have m: "max_size > 1" "length (venc (n div 128)) \<le> max_size - 1" by linarith+
    show ?thesis
      unfolding e using m(1) 1(1) [OF True m(2)]
      by (simp add: top_bit head_bits low_seven or.assoc of_nat_split)
  next
    case False
    then have e: "venc n = [of_nat n]" by (subst venc.simps) simp
    have "\<not> bit n 7" using False by (simp add: bit_iff_odd_drop_bit drop_bit_eq_div)
    then have nb: "\<not> bit (of_nat n :: byte) 7" by (simp add: bit_of_nat_iff)
    have "take_bit 7 n = n" using False by (simp add: take_bit_eq_mod)
    then have "(take_bit 7 (of_nat n) :: 'a word) = of_nat n" by (metis of_nat_take_bit)
    with low_seven [of n, where 'a = 'a] low_bits [OF nb] have "(ucast (of_nat n :: byte) :: 'a word) = of_nat n" by simp
    with nb show ?thesis unfolding e by (simp add: top_bit)
  qed
qed

definition lift128 :: "(uint128 \<times> byte list) result \<Rightarrow> (128 word \<times> byte list) result" where
  "lift128 r = (case r of Inl e \<Rightarrow> Inl e | Inr (u, p) \<Rightarrow> Inr (word128 u, p))"

lemma lift128_simps [simp]: "lift128 (Inl e) = Inl e" "lift128 (Inr (u, p)) = Inr (word128 u, p)"
  by (simp_all add: lift128_def)

lemma decode128Loop_vloop:
  "shift + 7 * (max_size - 1) < 128 \<Longrightarrow>
   lift128 (decode128Loop max_size val shift p) = vloop max_size (word128 val) shift p"
proof (induction max_size val shift p rule: decode128Loop.induct)
  case (1 max_size val shift)
  then show ?case by simp
next
  case (2 max_size val shift b p)
  have u: "ucast (ucast c :: 64 word) = (ucast c :: 128 word)" for c :: byte
    by (rule bit_word_eqI) (auto simp: bit_unsigned_iff dest: bit_imp_le_length)
  have IH: "bit b 7 \<Longrightarrow> max_size > 1 \<Longrightarrow>
      lift128 (decode128Loop (max_size - 1) (UInt128_or val (UInt128_shl (UInt128 (ucast (b AND 0x7f))) shift)) (shift + 7) p) =
      vloop (max_size - 1) (word128 val OR push_bit shift (ucast (b AND 0x7f))) (shift + 7) p"
  proof -
    assume b: "bit b 7" "max_size > 1"
    then have s: "shift + 7 + 7 * (max_size - 1 - 1) < 128" "shift < 128" using 2(2) by linarith+
    from 2(1) [OF _ _ s(1)] s(2) b(1) show ?thesis by (simp add: top_bit word128_or word128_shl word128_of u)
  qed
  then show ?case using 2(2) by (auto simp: checkR_def top_bit word128_or word128_shl word128_of u)
qed

lemma Varint_decode_vloop: "Varint_decode src max_size = vloop (min max_size kMaxSize64) 0 0 src"
proof -
  have "decodeFast 10 0 0 src = vloop 10 0 0 src" using decodeFast_vloop [of 9 0 0 src] by (simp del: decodeFast.simps)
  then show ?thesis by (simp add: Varint_decode_def kMaxSize64_def decodeSlow_vloop min_def)
qed

lemma Varint_decode128_vloop:
  "lift128 (Varint_decode128 src max_size) = vloop (min max_size kMaxSize128) 0 0 src"
proof -
  have z: "word128 (UInt128 0) = 0" by (simp add: word128_of)
  have m: "(if max_size > kMaxSize128 then kMaxSize128 else max_size) = min max_size kMaxSize128" by simp
  have "0 + 7 * (min max_size kMaxSize128 - 1) < 128" by (simp add: kMaxSize128_def)
  from decode128Loop_vloop [OF this, of "UInt128 0" src] show ?thesis unfolding Varint_decode128_def m z .
qed

lemma venc64_length: "length (venc (unat v)) \<le> kMaxSize64" for v :: "64 word"
  using unsigned_less [of v, where 'a = nat] by (simp add: venc_length kMaxSize64_def)

lemma venc128_length: "length (venc (unat v)) \<le> kMaxSize128" for v :: "128 word"
  using unsigned_less [of v, where 'a = nat] by (simp add: venc_length kMaxSize128_def)

section \<open>Round trips\<close>

text \<open>
  C25. What \<^verbatim>\<open>Varint::encode\<close> and \<^verbatim>\<open>encode128\<close> write is read back by \<^verbatim>\<open>decode\<close> and \<^verbatim>\<open>decode128\<close>, whatever
  follows it: the decoders return the value and stop right after it, on the fast path and on the slow one.
\<close>

theorem varint_round_trip:
  "decodePiece (Varint_encode v @ rest) = Inr (v, rest) \<and> decode128Piece (Varint_encode128 u @ rest) = Inr (u, rest)"
proof
  have "length (venc (unat v)) \<le> min (length (venc (unat v) @ rest)) kMaxSize64" using venc64_length by simp
  from vloop_venc [where 'a = 64, OF this, of 0 0 rest] show "decodePiece (Varint_encode v @ rest) = Inr (v, rest)"
    unfolding decodePiece_def Varint_encode_venc Varint_decode_vloop by simp
  have "length (venc (unat (word128 u))) \<le> min (length (venc (unat (word128 u)) @ rest)) kMaxSize128" using venc128_length by simp
  from vloop_venc [where 'a = 128, OF this, of 0 0 rest]
  have "lift128 (decode128Piece (Varint_encode128 u @ rest)) = Inr (word128 u, rest)"
    unfolding decode128Piece_def Varint_encode128_venc Varint_decode128_vloop by simp
  then show "decode128Piece (Varint_encode128 u @ rest) = Inr (u, rest)"
    by (cases "decode128Piece (Varint_encode128 u @ rest)") (auto simp: word128_inject)
qed

section \<open>When decoding succeeds\<close>

lemma vloop_total:
  "1 \<le> max_size \<Longrightarrow> (\<exists>r. vloop max_size val shift p = Inr r) \<longleftrightarrow> list_ex (\<lambda>b. \<not> bit b 7) (take max_size p)"
proof (induction max_size val shift p rule: vloop.induct)
  case (1 max_size val shift)
  then show ?case by simp
next
  case (2 max_size val shift b p)
  obtain m where m: "max_size = Suc m" using 2(2) by (cases max_size) auto
  show ?case
  proof (cases "bit b 7 \<and> 1 \<le> m")
    case True
    with 2(1) m show ?thesis by (simp add: top_bit)
  next
    case False
    then show ?thesis using m by (cases m) (auto simp: top_bit)
  qed
qed

lemma not_top: "NOT b AND 0x80 \<noteq> 0 \<longleftrightarrow> \<not> bit b 7" for b :: byte
  unfolding top_bit by (simp add: bit_not_iff)

text \<open>
  C26. \<^verbatim>\<open>canDecode\<close> tells exactly whether \<^verbatim>\<open>decode\<close> returns a value, with no failing check and no read past the end.
\<close>

theorem canDecode_iff_decodes: "canDecode src \<longleftrightarrow> (\<exists>val rest. decodePiece src = Inr (val, rest))"
proof (cases src)
  case Nil
  then show ?thesis by (simp add: canDecode_def decodePiece_def Varint_decode_vloop)
next
  case (Cons b p)
  then have "1 \<le> min (length src) kMaxSize64" by (simp add: kMaxSize64_def)
  moreover have "take (min (length src) kMaxSize64) src = take kMaxSize64 src" by (simp add: min_def)
  ultimately show ?thesis
    using vloop_total [of "min (length src) kMaxSize64" "0 :: 64 word" 0 src]
    by (simp add: canDecode_def decodePiece_def Varint_decode_vloop not_top)
qed

text \<open>
  C27. \<^verbatim>\<open>Varint::size\<close> is the number of bytes \<^verbatim>\<open>encode\<close> writes, the least number of groups of seven bits that hold
  the value, and at most \<^verbatim>\<open>kMaxSize32\<close>, \<^verbatim>\<open>kMaxSize64\<close> and \<^verbatim>\<open>kMaxSize128\<close> for values of those widths.
\<close>

theorem varint_sizes:
  "Varint_size v = length (Varint_encode v) \<and> Varint_size v \<le> kMaxSize64 \<and> (unat v < 2 ^ 32 \<longrightarrow> Varint_size v \<le> kMaxSize32) \<and>
   (\<forall>k. 1 \<le> k \<longrightarrow> Varint_size v \<le> k \<longleftrightarrow> unat v < 2 ^ (7 * k)) \<and>
   Varint_size128 u = length (Varint_encode128 u) \<and> Varint_size128 u \<le> kMaxSize128 \<and>
   (\<forall>k. 1 \<le> k \<longrightarrow> Varint_size128 u \<le> k \<longleftrightarrow> unat (word128 u) < 2 ^ (7 * k))"
proof -
  have p: "(128 :: nat) ^ k = 2 ^ (7 * k)" for k by (simp add: power_mult)
  have "unat v < 128 ^ 5" if "unat v < 2 ^ 32" using that by simp
  then show ?thesis
    using venc64_length [of v] venc128_length [of "word128 u"] venc_length [of 5 "unat v"]
    by (simp add: Varint_size_venc Varint_encode_venc Varint_size128_venc Varint_encode128_venc venc_length p kMaxSize32_def del: power_mult)
qed

theorem varint_sizes_witness: "Varint_size 300 = 2"
proof -
  have "1 \<le> (2 :: nat)" "1 \<le> (1 :: nat)" by simp_all
  then have "Varint_size 300 \<le> 2" "\<not> Varint_size 300 \<le> 1" using varint_sizes [of 300 "UInt128 0"] by auto
  then show ?thesis by simp
qed

section \<open>Byte sources\<close>

text \<open>
  What the documentation of \<^verbatim>\<open>ByteSource\<close> promises: chunks are not empty and together are the bytes that are left,
  and bytes of the last chunk can be pushed back. The decoders rely on chunks of less than 2 GiB besides.
\<close>

locale byte_source_laws =
  fixes M :: "'s byte_source" and left :: "'s \<Rightarrow> byte list" and ok :: "'s \<Rightarrow> bool"
  assumes next_None: "ok s \<Longrightarrow> bs_next M s = None \<longleftrightarrow> left s = []"
    and next_Some: "ok s \<Longrightarrow> bs_next M s = Some (c, s') \<Longrightarrow> ok s' \<and> c \<noteq> [] \<and> left s = c @ left s'"
    and next_small: "ok s \<Longrightarrow> bs_next M s = Some (c, s') \<Longrightarrow> length c < 2 ^ 31"
    and backUp: "ok s \<Longrightarrow> bs_next M s = Some (c, s') \<Longrightarrow> c = d @ p \<Longrightarrow>
      \<exists>s''. bs_backUp M (length p) s' = Inr s'' \<and> ok s'' \<and> left s'' = p @ left s'"
begin

definition current :: "byte list \<Rightarrow> 's \<Rightarrow> bool" where
  "current p s \<longleftrightarrow> ok s \<and> (p = [] \<or> (\<exists>s0 d. ok s0 \<and> bs_next M s0 = Some (d @ p, s)))"

lemma current_small: "current p s \<Longrightarrow> length p < 2 ^ 31"
  using next_small by (fastforce simp: current_def)

lemma fetch:
  assumes "current p s" "p @ left s = b # bs"
  shows "\<exists>q s'. nextChunk M (int (length p)) p s = Inr (int (length (b # q)), b # q, s') \<and> current q s' \<and> q @ left s' = bs"
proof (cases "p = []")
  case True
  then have ok: "ok s" and l: "left s = b # bs" using assms by (simp_all add: current_def)
  then obtain c s' where n: "bs_next M s = Some (c, s')" using next_None [of s] by (cases "bs_next M s") auto
  note c = next_Some [OF ok n]
  with l obtain q where q: "c = b # q" "bs = q @ left s'" by (cases c) auto
  have "bs_next M s = Some ([b] @ q, s')" using n q(1) by simp
  with ok c have "current q s'" unfolding current_def by blast
  moreover have "to_int32 (int (length (b # q))) = int (length (b # q))"
    using next_small [OF ok n] q(1) by (intro to_int32_id) (simp_all add: int64_defs)
  ultimately show ?thesis using True n q by (simp add: nextChunk_def int64_defs)
next
  case False
  then obtain q where q: "p = b # q" "bs = q @ left s" using assms(2) by (cases p) auto
  with False assms(1) obtain s0 d where "ok s0" "bs_next M s0 = Some ((d @ [b]) @ q, s)" "ok s" by (auto simp: current_def)
  then have "current q s" unfolding current_def by blast
  with False q show ?thesis by (simp add: nextChunk_def int64_defs)
qed

lemma push_back:
  assumes "current q s"
  shows "\<exists>s'. backUpRemaining M (int (length q)) s = Inr s' \<and> ok s' \<and> left s' = q @ left s"
proof (cases "q = []")
  case True
  with assms show ?thesis by (simp add: backUpRemaining_def current_def)
next
  case False
  with assms obtain s0 d where b: "ok s0" "bs_next M s0 = Some (d @ q, s)" by (auto simp: current_def)
  have "int (length q) mod 2 ^ 64 = int (length q)" using current_small [OF assms] by (intro mod_pos_pos_trivial) simp_all
  with backUp [OF b refl] False show ?thesis by (simp add: backUpRemaining_def)
qed

lemma sourceLoop_vloop:
  "current p s \<Longrightarrow> vloop max_size val shift (p @ left s) = Inr (v, rest) \<Longrightarrow>
   \<exists>q s'. sourceLoop M max_size val shift (int (length p)) p s = Inr (v, int (length q), s') \<and> current q s' \<and> q @ left s' = rest"
proof (induction max_size arbitrary: val shift p s rule: less_induct)
  case (less max_size)
  from less(3) obtain b bs where bs: "p @ left s = b # bs" by (cases "p @ left s") auto
  from fetch [OF less(2) this] obtain q s' where f: "nextChunk M (int (length p)) p s = Inr (int (length (b # q)), b # q, s')"
    "current q s'" "q @ left s' = bs" by blast
  have rem: "int (length (b # q)) - 1 = int (length q)" by simp
  note r = less(3) [unfolded bs]
  show ?case
  proof (cases "b AND 0x80 \<noteq> 0")
    case True
    with r have m: "max_size > 1"
      and v: "vloop (max_size - 1) (val OR push_bit shift (ucast (b AND 0x7f))) (shift + 7) (q @ left s') = Inr (v, rest)"
      using f(3) by (auto simp: checkR_def split: if_splits)
    have lt: "max_size - 1 < max_size" using m by simp
    from less(1) [OF lt f(2) v] show ?thesis using True m by (subst sourceLoop.simps) (simp add: f(1) rem int64_defs)
  next
    case False
    with r f show ?thesis by (subst sourceLoop.simps) (auto simp: f(1) rem int64_defs)
  qed
qed

lemma decodeFromByteSource_vloop:
  assumes "ok s" "vloop kMaxSize64 0 0 (left s) = Inr (v, rest)"
  shows "\<exists>s'. decodeFromByteSource M s = Inr (v, s') \<and> ok s' \<and> left s' = rest"
proof -
  have "current [] s" using assms(1) by (simp add: current_def)
  from sourceLoop_vloop [OF this] assms(2) obtain q s' where r: "sourceLoop M kMaxSize64 0 0 0 [] s = Inr (v, int (length q), s')"
    "current q s'" "q @ left s' = rest" by fastforce
  from push_back [OF r(2)] r(1,3) show ?thesis by (auto simp: decodeFromByteSource_def)
qed

lemma sourceLoop128_vloop:
  "current p s \<Longrightarrow> shift + 7 * (max_size - 1) < 128 \<Longrightarrow> vloop max_size (word128 val) shift (p @ left s) = Inr (word128 v, rest) \<Longrightarrow>
   \<exists>q s'. sourceLoop128 M max_size val shift (int (length p)) p s = Inr (v, int (length q), s') \<and> current q s' \<and> q @ left s' = rest"
proof (induction max_size arbitrary: val shift p s rule: less_induct)
  case (less max_size)
  from less(4) obtain b bs where bs: "p @ left s = b # bs" by (cases "p @ left s") auto
  from fetch [OF less(2) this] obtain q s' where f: "nextChunk M (int (length p)) p s = Inr (int (length (b # q)), b # q, s')"
    "current q s'" "q @ left s' = bs" by blast
  have rem: "int (length (b # q)) - 1 = int (length q)" by simp
  note r = less(4) [unfolded bs]
  have u: "ucast (ucast c :: 64 word) = (ucast c :: 128 word)" for c :: byte
    by (rule bit_word_eqI) (auto simp: bit_unsigned_iff dest: bit_imp_le_length)
  have s: "shift < 128" using less(3) by simp
  have w: "word128 (UInt128_or val (UInt128_shl (UInt128 (ucast c)) shift)) = word128 val OR push_bit shift (ucast c)" for c :: byte
    using s by (simp add: word128_or word128_shl word128_of u)
  show ?case
  proof (cases "b AND 0x80 \<noteq> 0")
    case True
    with r have m: "max_size > 1"
      and v: "vloop (max_size - 1) (word128 (UInt128_or val (UInt128_shl (UInt128 (ucast (b AND 0x7f))) shift))) (shift + 7) (q @ left s') = Inr (word128 v, rest)"
      using f(3) by (auto simp: checkR_def w split: if_splits)
    have lt: "max_size - 1 < max_size" "shift + 7 + 7 * (max_size - 1 - 1) < 128" using m less(3) by simp_all
    from less(1) [OF lt(1) f(2) lt(2) v] show ?thesis using True m s by (subst sourceLoop128.simps) (simp add: f(1) rem int64_defs)
  next
    case False
    with r f(3) have "v = UInt128_or val (UInt128_shl (UInt128 (ucast b)) shift)" "rest = q @ left s'"
      by (auto simp: w [symmetric] word128_inject)
    with False s f show ?thesis by (subst sourceLoop128.simps) (auto simp: f(1) rem int64_defs)
  qed
qed

lemma decode128FromByteSource_vloop:
  assumes "ok s" "vloop kMaxSize128 0 0 (left s) = Inr (word128 v, rest)"
  shows "\<exists>s'. decode128FromByteSource M s = Inr (v, s') \<and> ok s' \<and> left s' = rest"
proof -
  have "current [] s" using assms(1) by (simp add: current_def)
  moreover have "0 + 7 * (kMaxSize128 - 1) < 128" by (simp add: kMaxSize128_def)
  moreover have "vloop kMaxSize128 (word128 (UInt128 0)) 0 ([] @ left s) = Inr (word128 v, rest)"
    using assms(2) by (simp add: word128_of)
  ultimately obtain q s' where r: "sourceLoop128 M kMaxSize128 (UInt128 0) 0 0 [] s = Inr (v, int (length q), s')"
    "current q s'" "q @ left s' = rest" using sourceLoop128_vloop [of "[]" s 0 kMaxSize128 "UInt128 0" v rest] by auto
  from push_back [OF r(2)] r(1,3) show ?thesis by (auto simp: decode128FromByteSource_def)
qed

end

definition source_left :: "string_source \<Rightarrow> byte list" where
  "source_left s = drop (ss_offset s) (ss_str s)"

definition source_ok :: "string_source \<Rightarrow> bool" where
  "source_ok s \<longleftrightarrow> ss_offset s \<le> length (ss_str s) \<and> (ss_str s = [] \<or> 0 < ss_maxBytes s) \<and>
     min (length (ss_str s)) (ss_maxBytes s) < 2 ^ 31"

interpretation string_source: byte_source_laws StringByteSource_methods source_left source_ok
proof
  fix s c s' and d p :: "byte list"
  assume ok: "source_ok s"
  show "(bs_next StringByteSource_methods s = None) = (source_left s = [])"
    using ok by (auto simp: StringByteSource_methods_def StringByteSource_next_def source_left_def source_ok_def Let_def)
  assume n: "bs_next StringByteSource_methods s = Some (c, s')"
  define len where "len = min (length (ss_str s) - ss_offset s) (ss_maxBytes s)"
  from n have ne: "ss_offset s \<noteq> length (ss_str s)" and c: "c = take len (drop (ss_offset s) (ss_str s))"
    and s': "s' = s\<lparr>ss_offset := ss_offset s + len\<rparr>"
    by (auto simp: StringByteSource_methods_def StringByteSource_next_def Let_def len_def split: if_splits)
  have l: "0 < len" "ss_offset s + len \<le> length (ss_str s)" "length c = len"
    using ok ne by (auto simp: source_ok_def len_def c)
  then show "source_ok s' \<and> c \<noteq> [] \<and> source_left s = c @ source_left s'"
    using ok by (auto simp: source_ok_def source_left_def s' c add.commute simp flip: drop_drop)
  show "length c < 2 ^ 31" using ok l(3) by (auto simp: source_ok_def len_def)
  assume cdp: "c = d @ p"
  then have p: "length p \<le> len" "d = take (len - length p) c" "p = drop (len - length p) c" using l(3) by auto
  have "drop (ss_offset s + len - length p) (ss_str s) = p @ drop (ss_offset s + len) (ss_str s)"
  proof -
    have "c @ drop (ss_offset s + len) (ss_str s) = drop (ss_offset s) (ss_str s)"
      unfolding c by (metis append_take_drop_id drop_drop add.commute)
    then have "drop (ss_offset s) (ss_str s) = d @ p @ drop (ss_offset s + len) (ss_str s)" by (simp add: cdp)
    then have "drop (length d) (drop (ss_offset s) (ss_str s)) = p @ drop (ss_offset s + len) (ss_str s)" by simp
    moreover have "length d + ss_offset s = ss_offset s + len - length p" using l(3) cdp by simp
    ultimately show ?thesis by simp
  qed
  moreover have "length p \<le> ss_maxBytes s" using p(1) by (simp add: len_def)
  ultimately show "\<exists>s''. bs_backUp StringByteSource_methods (length p) s' = Inr s'' \<and> source_ok s'' \<and> source_left s'' = p @ source_left s'"
    using p(1) l ok by (auto simp: StringByteSource_methods_def StringByteSource_backUp_def s' source_ok_def source_left_def)
qed

text \<open>
  C28. An integer that was written can be read back from a \<^verbatim>\<open>StringByteSource\<close>, in chunks of any positive size: the
  decoders return the value, and leave the source right after it by pushing back the rest of the last chunk. The chunks
  have less than 2 GiB (the chunk limit, or the whole string, is that small): the decoders count the bytes of a chunk in
  32 bits.
\<close>

theorem byte_source_round_trip:
  assumes "0 < maxBytes" and "min (length rest + kMaxSize128) maxBytes < 2 ^ 31"
  shows "(\<exists>s. decodeFromByteSource StringByteSource_methods (StringByteSource_new (Varint_encode v @ rest) (Some maxBytes)) = Inr (v, s) \<and>
      source_left s = rest) \<and>
    (\<exists>s. decode128FromByteSource StringByteSource_methods (StringByteSource_new (Varint_encode128 u @ rest) (Some maxBytes)) = Inr (u, s) \<and>
      source_left s = rest)"
proof -
  have ok: "source_ok (StringByteSource_new str (Some maxBytes))" "source_left (StringByteSource_new str (Some maxBytes)) = str"
    if "length str \<le> length rest + kMaxSize128" for str
    using assms that by (auto simp: source_ok_def source_left_def StringByteSource_new_def)
  have l: "length (Varint_encode v @ rest) \<le> length rest + kMaxSize128" "length (Varint_encode128 u @ rest) \<le> length rest + kMaxSize128"
    unfolding Varint_encode_venc Varint_encode128_venc using venc64_length [of v] venc128_length [of "word128 u"]
    by (simp_all add: kMaxSize64_def kMaxSize128_def)
  have "vloop kMaxSize64 0 0 (Varint_encode v @ rest) = Inr (v, rest)"
    unfolding Varint_encode_venc using vloop_venc [where 'a = 64, OF venc64_length, of 0 0 v rest] by simp
  moreover have "vloop kMaxSize128 0 0 (Varint_encode128 u @ rest) = Inr (word128 u, rest)"
    unfolding Varint_encode128_venc using vloop_venc [where 'a = 128, OF venc128_length, of 0 0 "word128 u" rest] by simp
  ultimately show ?thesis
    using string_source.decodeFromByteSource_vloop [OF ok(1) [OF l(1)], unfolded ok(2) [OF l(1)]]
      string_source.decode128FromByteSource_vloop [OF ok(1) [OF l(2)], unfolded ok(2) [OF l(2)]] by blast
qed

theorem byte_source_round_trip_witness:
  "\<exists>s. decodeFromByteSource StringByteSource_methods (StringByteSource_new (Varint_encode 300 @ [7]) (Some 1)) = Inr (300, s) \<and> source_left s = [7]"
  using byte_source_round_trip [of 1 "[7]" 300 "UInt128 0"] by simp

text \<open>The bound is needed: between 2 and 4 GiB in one chunk even a one-byte integer is not read, because the negative count fails the
  check of \<^verbatim>\<open>backUp\<close>.\<close>

lemma large_chunk_fails:
  assumes "2 ^ 31 < length str" "length str < 2 ^ 32" "str = b # bs" "b AND 0x80 = 0"
  shows "decodeFromByteSource StringByteSource_methods (StringByteSource_new str None) = Inl CheckFailed"
proof -
  let ?n = "int (length str) - 2 ^ 32"
  let ?s = "StringByteSource_new str None"
  have n: "to_int32 (int (length str)) = ?n"
  proof -
    have "(int (length str) + 2147483648) mod 4294967296 = int (length str) + 2147483648 - 4294967296"
      using assms(1,2) by (intro int_mod_pos_eq [of _ _ 1]) simp_all
    then show ?thesis by (simp add: to_int32_def)
  qed
  have c: "bs_next StringByteSource_methods ?s = Some (str, ?s\<lparr>ss_offset := length str\<rparr>)"
    using assms(3) by (simp add: StringByteSource_methods_def StringByteSource_next_def StringByteSource_new_def)
  have "sourceLoop StringByteSource_methods kMaxSize64 0 0 0 [] ?s = Inr (ucast b, ?n - 1, ?s\<lparr>ss_offset := length str\<rparr>)"
  proof -
    have "nextChunk StringByteSource_methods 0 [] ?s = Inr (?n, b # bs, ?s\<lparr>ss_offset := length str\<rparr>)"
      unfolding nextChunk_def c using n assms(3) by simp
    then show ?thesis using assms(1,4) by (subst sourceLoop.simps) (simp add: int64_defs)
  qed
  moreover have "(?n - 1) mod 2 ^ 64 = ?n - 1 + 2 ^ 64"
    using assms(1,2) by (intro int_mod_pos_eq [of _ _ "- 1"]) simp_all
  then have "nat ((?n - 1) mod 2 ^ 64) > length str" using assms(1,2) by simp
  then have "backUpRemaining StringByteSource_methods (?n - 1) (?s\<lparr>ss_offset := length str\<rparr>) = Inl CheckFailed"
    using assms(1,2) by (simp add: backUpRemaining_def StringByteSource_methods_def StringByteSource_backUp_def StringByteSource_new_def)
  ultimately show ?thesis by (simp add: decodeFromByteSource_def)
qed

section \<open>Zig-zag coding\<close>

lemma sign_fill: "signed_drop_bit (LENGTH('a) - 1) v = (if bit v (LENGTH('a) - 1) then - 1 else 0)" for v :: "'a::len word"
proof (rule bit_word_eqI)
  fix n assume "n < LENGTH('a)"
  then show "bit (signed_drop_bit (LENGTH('a) - 1) v) n = bit (if bit v (LENGTH('a) - 1) then - 1 else 0 :: 'a word) n"
    by (cases "n = 0") (auto simp: bit_signed_drop_bit_iff)
qed

lemma zigzag_bits:
  "bit (push_bit 1 v XOR signed_drop_bit (LENGTH('a) - 1) v) n \<longleftrightarrow>
   n < LENGTH('a) \<and> ((0 < n \<and> bit v (n - 1)) \<noteq> bit v (LENGTH('a) - 1))" for v :: "'a::len word"
  unfolding sign_fill bit_xor_iff bit_push_bit_iff by (auto simp: Suc_le_eq dest: bit_imp_le_length)

lemma ZigZag_decode_bits:
  "bit (ZigZag_decode w) n \<longleftrightarrow> n < LENGTH('a) \<and> (bit w (n + 1) \<noteq> bit w 0)" for w :: "'a::len word"
proof -
  have "- (w AND 1) = (if bit w 0 then - 1 else 0)" by (simp add: and_one_eq bit_0 odd_iff_mod_2_eq_one)
  then show ?thesis by (auto simp: ZigZag_decode_def bit_xor_iff bit_drop_bit_eq dest: bit_imp_le_length)
qed

lemma zigzag_inverse:
  fixes v w :: "'a::len word"
  shows "ZigZag_decode (push_bit 1 v XOR signed_drop_bit (LENGTH('a) - 1) v) = v"
    and "push_bit 1 (ZigZag_decode w) XOR signed_drop_bit (LENGTH('a) - 1) (ZigZag_decode w) = w"
proof -
  show "ZigZag_decode (push_bit 1 v XOR signed_drop_bit (LENGTH('a) - 1) v) = v"
  proof (rule bit_word_eqI)
    fix n assume n: "n < LENGTH('a)"
    show "bit (ZigZag_decode (push_bit 1 v XOR signed_drop_bit (LENGTH('a) - 1) v)) n = bit v n"
      unfolding ZigZag_decode_bits zigzag_bits using n by (cases "n = LENGTH('a) - 1") auto
  qed
  show "push_bit 1 (ZigZag_decode w) XOR signed_drop_bit (LENGTH('a) - 1) (ZigZag_decode w) = w"
  proof (rule bit_word_eqI)
    fix n assume n: "n < LENGTH('a)"
    have "\<not> bit w (LENGTH('a))" using bit_imp_le_length [of w "LENGTH('a)"] by auto
    then show "bit (push_bit 1 (ZigZag_decode w) XOR signed_drop_bit (LENGTH('a) - 1) (ZigZag_decode w)) n = bit w n"
      unfolding ZigZag_decode_bits zigzag_bits using n by (cases n) auto
  qed
qed

lemma ZigZag_encode_value: "uint (ZigZag_encode v) = (if 0 \<le> sint v then 2 * sint v else - 2 * sint v - 1)"
proof -
  let ?s = "sint v"
  have b: "- (2 ^ 63) \<le> ?s" "?s < 2 ^ 63" using sint_ge [of v] sint_lt [of v] by simp_all
  have sg: "bit v 63 \<longleftrightarrow> ?s < 0" using bit_last_iff [of v] by simp
  have v: "push_bit 1 v = word_of_int (2 * ?s)" by (simp add: push_bit_eq_mult)
  have "signed_drop_bit 63 v = (if ?s < 0 then - 1 else 0)" using sign_fill [of v] sg by simp
  then have "ZigZag_encode v = word_of_int (if 0 \<le> ?s then 2 * ?s else - 2 * ?s - 1)"
    unfolding ZigZag_encode_def v by (simp add: not_eq_complement)
  moreover have "(if 0 \<le> ?s then 2 * ?s else - 2 * ?s - 1) \<in> {0..<2 ^ 64}" using b by auto
  ultimately show ?thesis by (simp add: uint_word_of_int)
qed

text \<open>
  C29. Zig-zag coding is a bijection: decoding inverts encoding and encoding inverts decoding, on 64 and on 128 bits. It
  maps 0, -1, 1, -2, \<dots> to 0, 1, 2, 3, \<dots>: \<open>2 x\<close> for \<open>x\<close> not negative and \<open>- 2 x - 1\<close> otherwise.
\<close>

theorem zigzag_bijection:
  "ZigZag_decode (ZigZag_encode v) = v \<and> ZigZag_encode (ZigZag_decode w) = w \<and>
   ZigZag_decode (ZigZag_encodeInt128 x) = x \<and> ZigZag_encodeInt128 (ZigZag_decode y) = y \<and>
   uint (ZigZag_encode v) = (if 0 \<le> sint v then 2 * sint v else - 2 * sint v - 1)"
  using zigzag_inverse(1) [of v] zigzag_inverse(2) [of w] zigzag_inverse(1) [of x] zigzag_inverse(2) [of y] ZigZag_encode_value [of v]
  by (simp add: ZigZag_encode_def ZigZag_encodeInt128_def)

section \<open>128-bit integers\<close>

text \<open>
  C30. \<^verbatim>\<open>UInt128\<close> refines 128-bit words: its operators on a pair of 64-bit words are the operations on the word that the
  pair stands for, for all shift distances that are defined; and \<^verbatim>\<open>unshift\<close> takes apart what \<^verbatim>\<open>shift\<close> packed.
\<close>

theorem uint128_refines_words:
  "word128 (UInt128_or a b) = word128 a OR word128 b \<and> word128 (UInt128_and a b) = word128 a AND word128 b \<and>
   word128 (UInt128_not a) = NOT (word128 a) \<and>
   (\<forall>n < 128. word128 (UInt128_shl a n) = push_bit n (word128 a) \<and> word128 (UInt128_shr a n) = drop_bit n (word128 a)) \<and>
   (\<forall>x y n. n < 64 \<longrightarrow> unat y < 2 ^ n \<longrightarrow> bindR (Varint_shift x y n) (\<lambda>val. Varint_unshift val n) = Inr (x, y))"
proof -
  have "u_lo (UInt128_shr (UInt128_or (UInt128_shl (UInt128 x) n) (UInt128 y)) n) = x \<and>
      u_lo (UInt128_or (UInt128_shl (UInt128 x) n) (UInt128 y)) AND (push_bit n 1 - 1) = y"
    if n: "n < 64" and y: "unat y < 2 ^ n" for x y and n :: nat
  proof -
    let ?u = "UInt128_or (UInt128_shl (UInt128 x) n) (UInt128 y)"
    have t: "take_bit n (unat y) = unat y" using y by (simp add: take_bit_eq_mod)
    have high: "\<not> bit y k" if "n \<le> k" for k
      using that bit_take_bit_iff [of n "unat y" k] by (simp add: t bit_unsigned_iff)
    have w: "word128 ?u = push_bit n (ucast x) OR ucast y" using n by (simp add: word128_or word128_shl word128_of)
    have "bit (u_lo (UInt128_shr ?u n)) k = bit x k" if k: "k < 64" for k
    proof -
      have "bit (u_lo (UInt128_shr ?u n)) k = bit (word128 (UInt128_shr ?u n)) k" using k by (simp add: bit_word128)
      also have "\<dots> = bit (push_bit n (ucast x) OR ucast y :: 128 word) (n + k)" using n by (simp add: word128_shr w bit_or_iff bit_drop_bit_eq)
      also have "\<dots> = bit x k" using n k high [of "n + k"] by (auto simp: bit_or_iff bit_push_bit_iff bit_unsigned_iff)
      finally show ?thesis .
    qed
    moreover have "bit (u_lo ?u AND mask n) k = bit y k" if k: "k < 64" for k
    proof -
      have "bit (u_lo ?u) k = bit (word128 ?u) k" using k by (simp add: bit_word128)
      then show ?thesis using k high [of k] by (cases "k < n") (auto simp: w bit_and_iff bit_mask_iff bit_or_iff bit_push_bit_iff bit_unsigned_iff)
    qed
    ultimately show ?thesis by (auto intro!: bit_word_eqI simp: mask_eq_exp_minus_1 push_bit_eq_mult)
  qed
  then show ?thesis
    by (simp add: word128_or word128_and word128_not word128_shl word128_shr Varint_shift_def Varint_unshift_def)
qed

theorem uint128_refines_words_witness:
  "word128 (UInt128_shl (UInt128 1) 100) = push_bit 100 (word128 (UInt128 1)) \<and>
   bindR (Varint_shift 5 3 2) (\<lambda>val. Varint_unshift val 2) = Inr (5, 3)"
proof -
  have "(100 :: nat) < 128" "(2 :: nat) < 64" "unat (3 :: 64 word) < 2 ^ 2" by simp_all
  with uint128_refines_words [of "UInt128 1" "UInt128 0"] show ?thesis by blast
qed

end
