(* ===== verification/Base64.thy ===== *)
theory Base64
  imports Coding
begin

text \<open>
  Base64 of \<^verbatim>\<open>bolt/common/encode/Base64.cpp\<close>: the standard and the URL alphabet with and without padding, and the
  MIME variant with line breaks. Characters and bytes are 8-bit words, sizes are natural numbers. What is
  written through an output pointer is the list of the bytes written; \<open>writeTo\<close> puts it into a buffer of a given
  size and fails when it does not fit. \<^verbatim>\<open>Base64Exception\<close> is an error of its own.
\<close>

section \<open>Alphabets\<close>

definition kBase64Pad :: byte where "kBase64Pad = of_char (CHR ''='')"

definition kBase64Charset :: "byte list" where
  "kBase64Charset = map of_char
     ''ABCDEFGHIJKLMNOPQRSTUVWXYZabcdefghijklmnopqrstuvwxyz0123456789+/''"

definition kBase64UrlCharset :: "byte list" where
  "kBase64UrlCharset = map of_char
     ''ABCDEFGHIJKLMNOPQRSTUVWXYZabcdefghijklmnopqrstuvwxyz0123456789-_''"

definition kBase64ReverseIndexTable :: "byte list" where
  "kBase64ReverseIndexTable = [
     255, 255, 255, 255, 255, 255, 255, 255, 255, 255, 255, 255, 255, 255, 255, 255,
    255, 255, 255, 255, 255, 255, 255, 255, 255, 255, 255, 255, 255, 255, 255, 255,
    255, 255, 255, 255, 255, 255, 255, 255, 255, 255, 255, 62, 255, 255, 255, 63,
    52, 53, 54, 55, 56, 57, 58, 59, 60, 61, 255, 255, 255, 255, 255, 255,
    255, 0, 1, 2, 3, 4, 5, 6, 7, 8, 9, 10, 11, 12, 13, 14,
    15, 16, 17, 18, 19, 20, 21, 22, 23, 24, 25, 255, 255, 255, 255, 255,
    255, 26, 27, 28, 29, 30, 31, 32, 33, 34, 35, 36, 37, 38, 39, 40,
    41, 42, 43, 44, 45, 46, 47, 48, 49, 50, 51, 255, 255, 255, 255, 255,
    255, 255, 255, 255, 255, 255, 255, 255, 255, 255, 255, 255, 255, 255, 255, 255,
    255, 255, 255, 255, 255, 255, 255, 255, 255, 255, 255, 255, 255, 255, 255, 255,
    255, 255, 255, 255, 255, 255, 255, 255, 255, 255, 255, 255, 255, 255, 255, 255,
    255, 255, 255, 255, 255, 255, 255, 255, 255, 255, 255, 255, 255, 255, 255, 255,
    255, 255, 255, 255, 255, 255, 255, 255, 255, 255, 255, 255, 255, 255, 255, 255,
    255, 255, 255, 255, 255, 255, 255, 255, 255, 255, 255, 255, 255, 255, 255, 255,
    255, 255, 255, 255, 255, 255, 255, 255, 255, 255, 255, 255, 255, 255, 255, 255,
    255, 255, 255, 255, 255, 255, 255, 255, 255, 255, 255, 255, 255, 255, 255, 255]"

definition kBase64UrlReverseIndexTable :: "byte list" where
  "kBase64UrlReverseIndexTable = [
     255, 255, 255, 255, 255, 255, 255, 255, 255, 255, 255, 255, 255, 255, 255, 255,
    255, 255, 255, 255, 255, 255, 255, 255, 255, 255, 255, 255, 255, 255, 255, 255,
    255, 255, 255, 255, 255, 255, 255, 255, 255, 255, 255, 62, 255, 62, 255, 63,
    52, 53, 54, 55, 56, 57, 58, 59, 60, 61, 255, 255, 255, 255, 255, 255,
    255, 0, 1, 2, 3, 4, 5, 6, 7, 8, 9, 10, 11, 12, 13, 14,
    15, 16, 17, 18, 19, 20, 21, 22, 23, 24, 25, 255, 255, 255, 255, 63,
    255, 26, 27, 28, 29, 30, 31, 32, 33, 34, 35, 36, 37, 38, 39, 40,
    41, 42, 43, 44, 45, 46, 47, 48, 49, 50, 51, 255, 255, 255, 255, 255,
    255, 255, 255, 255, 255, 255, 255, 255, 255, 255, 255, 255, 255, 255, 255, 255,
    255, 255, 255, 255, 255, 255, 255, 255, 255, 255, 255, 255, 255, 255, 255, 255,
    255, 255, 255, 255, 255, 255, 255, 255, 255, 255, 255, 255, 255, 255, 255, 255,
    255, 255, 255, 255, 255, 255, 255, 255, 255, 255, 255, 255, 255, 255, 255, 255,
    255, 255, 255, 255, 255, 255, 255, 255, 255, 255, 255, 255, 255, 255, 255, 255,
    255, 255, 255, 255, 255, 255, 255, 255, 255, 255, 255, 255, 255, 255, 255, 255,
    255, 255, 255, 255, 255, 255, 255, 255, 255, 255, 255, 255, 255, 255, 255, 255,
    255, 255, 255, 255, 255, 255, 255, 255, 255, 255, 255, 255, 255, 255, 255, 255]"

text \<open>The checks that the source makes at compile time.\<close>

fun checkForwardIndex :: "nat \<Rightarrow> byte list \<Rightarrow> byte list \<Rightarrow> bool" where
  "checkForwardIndex idx charset table \<longleftrightarrow>
     table ! unat (charset ! idx) = of_nat idx \<and> (if idx > 0 then checkForwardIndex (idx - 1) charset table else True)"

function constCharsetContains :: "byte list \<Rightarrow> nat \<Rightarrow> byte \<Rightarrow> bool" where
  "constCharsetContains charset idx c \<longleftrightarrow>
     (if idx < length charset then charset ! idx = c \<or> constCharsetContains charset (idx + 1) c else False)"
  by pat_completeness auto

termination constCharsetContains
  by (relation "measure (\<lambda>(charset, idx, c). length charset - idx)") auto

fun checkReverseIndex :: "nat \<Rightarrow> byte list \<Rightarrow> byte list \<Rightarrow> bool" where
  "checkReverseIndex idx charset table \<longleftrightarrow>
     (if table ! idx = 255 then \<not> constCharsetContains charset 0 (of_nat idx) else charset ! unat (table ! idx) = of_nat idx) \<and>
     (if idx > 0 then checkReverseIndex (idx - 1) charset table else True)"

declare checkForwardIndex.simps [simp del] constCharsetContains.simps [simp del] checkReverseIndex.simps [simp del]

lemma static_asserts:
  "checkForwardIndex 63 kBase64Charset kBase64ReverseIndexTable"
  "checkForwardIndex 63 kBase64UrlCharset kBase64UrlReverseIndexTable"
  by code_simp+

section \<open>Encoding\<close>

text \<open>Writing \<open>out\<close> to the start of a buffer of \<open>sz\<close> bytes that \<^verbatim>\<open>resize\<close> filled with zeros.\<close>

definition writeTo :: "nat \<Rightarrow> byte list \<Rightarrow> byte list result" where
  "writeTo sz out =
     (if length out \<le> sz then Inr (out @ replicate (sz - length out) 0) else Inl UndefinedBehaviour)"

definition calculateEncodedSize :: "nat \<Rightarrow> bool \<Rightarrow> nat" where
  "calculateEncodedSize sz withPadding =
     (if sz = 0 then 0
      else let encodedSize = ((sz + 2) div 3) * 4 in
        if \<not> withPadding then encodedSize - (3 - sz mod 3) mod 3 else encodedSize)"

text \<open>\<^verbatim>\<open>charset[(curr >> n) & 0x3f]\<close>\<close>

definition charAt :: "byte list \<Rightarrow> 32 word \<Rightarrow> nat \<Rightarrow> byte" where
  "charAt charset cur n = charset ! unat (drop_bit n cur AND 0x3f)"

fun encodeImpl :: "byte list \<Rightarrow> byte list \<Rightarrow> bool \<Rightarrow> byte list" where
  "encodeImpl (a # b # c # rest) charset include_pad =
     (let cur = push_bit 16 (ucast a) OR push_bit 8 (ucast b) OR ucast c in
      charAt charset cur 18 # charAt charset cur 12 # charAt charset cur 6 # charAt charset cur 0 #
      encodeImpl rest charset include_pad)"
| "encodeImpl [a, b] charset include_pad =
     (let cur = push_bit 16 (ucast a); first = charAt charset cur 18; cur = cur OR push_bit 8 (ucast b) in
      first # charAt charset cur 12 # charAt charset cur 6 # (if include_pad then [kBase64Pad] else []))"
| "encodeImpl [a] charset include_pad =
     (let cur = push_bit 16 (ucast a) in
      charAt charset cur 18 # charAt charset cur 12 # (if include_pad then [kBase64Pad, kBase64Pad] else []))"
| "encodeImpl [] charset include_pad = []"

definition encodeString :: "byte list \<Rightarrow> byte list \<Rightarrow> bool \<Rightarrow> byte list result" where
  "encodeString data charset include_pad =
     writeTo (calculateEncodedSize (length data) include_pad) (encodeImpl data charset include_pad)"

definition Base64_encode :: "byte list \<Rightarrow> byte list result" where
  "Base64_encode text = encodeString text kBase64Charset True"

definition Base64_encodeUrl :: "byte list \<Rightarrow> byte list result" where
  "Base64_encodeUrl text = encodeString text kBase64UrlCharset False"

definition encodeAppend :: "byte list \<Rightarrow> byte list \<Rightarrow> byte list result" where
  "encodeAppend text out =
     bindR (writeTo (calculateEncodedSize (length text) True) (encodeImpl text kBase64Charset True)) (\<lambda>e. Inr (out @ e))"

section \<open>Decoding\<close>

definition Base64ReverseLookup :: "byte \<Rightarrow> byte list \<Rightarrow> byte result" where
  "Base64ReverseLookup p reverse_lookup =
     (let cur = reverse_lookup ! unat p in if cur \<ge> 0x40 then Inl Base64Exception else Inr cur)"

definition countPadding :: "byte list \<Rightarrow> nat" where
  "countPadding src =
     (if src ! (length src - 1) \<noteq> kBase64Pad then 0 else if src ! (length src - 2) \<noteq> kBase64Pad then 1 else 2)"

text \<open>The decoded size, and the size of the input without its padding.\<close>

definition calculateDecodedSize :: "byte list \<Rightarrow> bool \<Rightarrow> (nat \<times> nat) result" where
  "calculateDecodedSize data withPadding =
     (let sz = length data; needed = (sz div 4) * 3 in
      if sz = 0 then Inr (0, sz)
      else if withPadding then
        if sz mod 4 \<noteq> 0 then Inl Base64Exception
        else let padding = countPadding data in Inr (needed - padding, sz - padding)
      else let extra = sz mod 4 in
        if extra \<noteq> 0 then
          if extra = 1 then Inl Base64Exception else Inr (needed + extra - 1, sz)
        else let padding = countPadding data in Inr (needed - padding, sz - padding))"

text \<open>The groups of four characters, and the last one of two to four.\<close>

definition byteAt :: "32 word \<Rightarrow> nat \<Rightarrow> byte" where
  "byteAt lst n = ucast (drop_bit n lst AND 0xff)"

fun decodeGroups :: "byte list \<Rightarrow> byte list \<Rightarrow> byte list result" where
  "decodeGroups (a # b # c # d # e # src) table =
     bindR (Base64ReverseLookup a table) (\<lambda>a. bindR (Base64ReverseLookup b table) (\<lambda>b.
     bindR (Base64ReverseLookup c table) (\<lambda>c. bindR (Base64ReverseLookup d table) (\<lambda>d.
       let lst = push_bit 18 (ucast a) OR push_bit 12 (ucast b) OR push_bit 6 (ucast c) OR ucast d in
       bindR (decodeGroups (e # src) table) (\<lambda>dst.
         Inr (byteAt lst 16 # byteAt lst 8 # byteAt lst 0 # dst))))))"
| "decodeGroups (a # b # rest) table =
     bindR (Base64ReverseLookup a table) (\<lambda>a. bindR (Base64ReverseLookup b table) (\<lambda>b.
       let lst = push_bit 18 (ucast a) OR push_bit 12 (ucast b); dst0 = byteAt lst 16 in
       case rest of
         [] \<Rightarrow> Inr [dst0]
       | c # rest \<Rightarrow>
           bindR (Base64ReverseLookup c table) (\<lambda>c.
             let lst = lst OR push_bit 6 (ucast c); dst1 = byteAt lst 8 in
             case rest of
               [] \<Rightarrow> Inr [dst0, dst1]
             | d # _ \<Rightarrow>
                 bindR (Base64ReverseLookup d table) (\<lambda>d.
                   let lst = lst OR ucast d in Inr [dst0, dst1, byteAt lst 0]))))"
| "decodeGroups src table = Inl UndefinedBehaviour"

definition decodeImpl :: "byte list \<Rightarrow> nat \<Rightarrow> byte list \<Rightarrow> bool \<Rightarrow> (nat \<times> byte list) result" where
  "decodeImpl src dst_len table include_pad =
     (if src = [] then Inr (0, [])
      else bindR (calculateDecodedSize src include_pad) (\<lambda>(needed, src_len).
        if dst_len < needed then Inl Base64Exception
        else bindR (decodeGroups (take src_len src) table) (\<lambda>dst. Inr (needed, dst))))"

text \<open>
  The decoders that return a string receive the length as a 32-bit integer, which wraps; the conversion of a negative
  size to an unsigned one gives a size that no string has, except for the last few, where the quotient is zero: there
  the length of the input is rejected, or (for -4) the padding is looked for outside the input.
\<close>

definition decodePayload :: "byte list \<Rightarrow> int \<Rightarrow> byte list \<Rightarrow> bool \<Rightarrow> byte list result" where
  "decodePayload src out_len table include_pad =
     bindR (decodeImpl src (nat out_len) table include_pad) (\<lambda>(needed, dst).
       bindR (writeTo (nat out_len) dst) (\<lambda>output. Inr (take needed output)))"

definition Base64_decode :: "byte list \<Rightarrow> byte list result" where
  "Base64_decode encoded =
     (let second = to_int32 (int (length encoded)) in
      if second \<le> - 4 then Inl LengthError
      else if second < 0 then Inl Base64Exception
      else decodePayload (take (nat second) encoded) (second div 4 * 3) kBase64ReverseIndexTable True)"

definition Base64_decodeUrl :: "byte list \<Rightarrow> byte list result" where
  "Base64_decodeUrl encoded =
     (let second = to_int32 (int (length encoded)) in
      if second + 3 > int32_max then Inl UndefinedBehaviour
      else if second + 3 \<le> - 4 then Inl LengthError
      else if second = - 4 then Inl UndefinedBehaviour
      else if second < 0 then Inl Base64Exception
      else decodePayload (take (nat second) encoded) ((second + 3) div 4 * 3) kBase64UrlReverseIndexTable False)"

section \<open>MIME\<close>

definition kMaxLineLength :: nat where "kMaxLineLength = 76"
definition kNewline :: "byte list" where "kNewline = [13, 10]"

text \<open>
  The loop of \<^verbatim>\<open>decodeMime\<close> over the input: the accumulator, the next shift, what was written and the input
  that is left after the padding.
\<close>

fun mimeLoop :: "32 word \<Rightarrow> int \<Rightarrow> byte list \<Rightarrow> (32 word \<times> int \<times> byte list \<times> byte list) result" where
  "mimeLoop accumulator bitsNeeded [] = Inr (accumulator, bitsNeeded, [], [])"
| "mimeLoop accumulator bitsNeeded (c # input) =
     (let val = kBase64ReverseIndexTable ! unat c in
      if c = kBase64Pad then
        if bitsNeeded = 18 then Inl UserError
        else if bitsNeeded = 6 then
          (case input of
             [] \<Rightarrow> Inl UserError
           | d # input \<Rightarrow> if d \<noteq> kBase64Pad then Inl UserError else Inr (accumulator, bitsNeeded, [], input))
        else Inr (accumulator, bitsNeeded, [], input)
      else if val \<ge> 0x40 then mimeLoop accumulator bitsNeeded input
      else let accumulator = accumulator OR push_bit (nat bitsNeeded) (ucast val); bitsNeeded = bitsNeeded - 6 in
        if bitsNeeded < 0 then
          bindR (mimeLoop 0 18 input) (\<lambda>(acc, bits, out, rest).
            Inr (acc, bits, byteAt accumulator 16 # byteAt accumulator 8 # byteAt accumulator 0 # out, rest))
        else mimeLoop accumulator bitsNeeded input)"

definition decodeMime :: "byte list \<Rightarrow> byte list result" where
  "decodeMime input =
     (if input = [] then Inr []
      else bindR (mimeLoop 0 18 input) (\<lambda>(accumulator, bitsNeeded, out, rest).
        bindR (if bitsNeeded = 0 then Inr (out @ [byteAt accumulator 16, byteAt accumulator 8])
               else if bitsNeeded = 6 then Inr (out @ [byteAt accumulator 16])
               else if bitsNeeded = 12 then Inl UserError
               else Inr out) (\<lambda>out.
          if list_ex (\<lambda>c. kBase64ReverseIndexTable ! unat c < 0x40) rest then Inl UserError else Inr out)))"

text \<open>The number of characters of the alphabet before the padding.\<close>

fun mimeChars :: "nat \<Rightarrow> byte list \<Rightarrow> nat" where
  "mimeChars decodedSize [] = decodedSize"
| "mimeChars decodedSize (c # input) =
     (if c = kBase64Pad then decodedSize - length (c # input)
      else if kBase64ReverseIndexTable ! unat c \<ge> 0x40 then mimeChars (decodedSize - 1) input
      else mimeChars decodedSize input)"

definition calculateMimeDecodedSize :: "byte list \<Rightarrow> nat result" where
  "calculateMimeDecodedSize input =
     (if input = [] then Inr 0
      else if length input < 2 then
        if kBase64ReverseIndexTable ! unat (input ! 0) \<ge> 0x40 then Inr 0 else Inl UserError
      else
        let decodedSize = mimeChars (length input) input;
            paddings = (if decodedSize mod 4 \<noteq> 0 then 4 - decodedSize mod 4 else 0)
        in Inr (3 * ((decodedSize + 3) div 4) - paddings))"

fun encodeTriples :: "byte list \<Rightarrow> byte list" where
  "encodeTriples (b0 # b1 # b2 # rest) =
     (let trio = push_bit 16 (ucast b0) OR push_bit 8 (ucast b1) OR ucast b2 in
      charAt kBase64Charset trio 18 # charAt kBase64Charset trio 12 # charAt kBase64Charset trio 6 #
      charAt kBase64Charset trio 0 # encodeTriples rest)"
| "encodeTriples _ = []"

function encodeMime :: "byte list \<Rightarrow> byte list" where
  "encodeMime input =
     (if length input \<ge> 3 then
        let bytesPerLine = (kMaxLineLength div 4) * 3;
            chunk = min bytesPerLine ((length input div 3) * 3)
        in encodeTriples (take chunk input) @
           (if chunk = bytesPerLine \<and> length input - chunk > 0 then kNewline else []) @
           encodeMime (drop chunk input)
      else
        case input of
          [] \<Rightarrow> []
        | [b0] \<Rightarrow> [kBase64Charset ! unat (drop_bit 2 b0), kBase64Charset ! unat (push_bit 4 (b0 AND 0x03)), kBase64Pad, kBase64Pad]
        | b0 # b1 # _ \<Rightarrow>
            [kBase64Charset ! unat (drop_bit 2 b0),
             kBase64Charset ! unat (push_bit 4 (b0 AND 0x03) OR drop_bit 4 b1),
             kBase64Charset ! unat (push_bit 2 (b1 AND 0x0f)), kBase64Pad])"
  by pat_completeness auto

termination encodeMime
  by (relation "measure length") (auto simp: kMaxLineLength_def)

declare encodeMime.simps [simp del]

definition calculateMimeEncodedSize :: "nat \<Rightarrow> nat" where
  "calculateMimeEncodedSize inputSize =
     (if inputSize = 0 then 0
      else let encodedSize = calculateEncodedSize inputSize True in
        encodedSize + (encodedSize - 1) div kMaxLineLength * length kNewline)"

end
