(* ===== verification/Base64_Props.thy ===== *)
theory Base64_Props
  imports Base64
begin

text \<open>
  Base64: what was encoded is decoded, for both alphabets and for MIME; the decoders accept exactly the strings of the
  format and compute exact sizes. The lemmas on one alphabet are proved once, for any charset and reverse table
  that agree.
\<close>

section \<open>Groups of six bits\<close>

definition six :: "32 word \<Rightarrow> nat \<Rightarrow> byte" where
  "six cur n = ucast (drop_bit n cur AND 0x3f)"

lemma mask_six: "(0x3f :: 32 word) = mask 6" "(0xff :: 32 word) = mask 8"
  by (simp_all add: mask_eq_exp_minus_1)

lemma bit_six: "bit (six cur n) k \<longleftrightarrow> k < 6 \<and> bit cur (n + k)"
  unfolding six_def mask_six by (auto simp: bit_unsigned_iff bit_and_iff bit_mask_iff bit_drop_bit_eq)

lemma bit_place: "bit (push_bit n (ucast (six cur n)) :: 32 word) j \<longleftrightarrow> n \<le> j \<and> j < n + 6 \<and> bit cur j"
  by (auto simp: bit_push_bit_iff bit_unsigned_iff bit_six dest: bit_imp_le_length)

lemma bit_place0: "bit (ucast (six cur 0) :: 32 word) j \<longleftrightarrow> j < 6 \<and> bit cur j"
  by (auto simp: bit_unsigned_iff bit_six dest: bit_imp_le_length)

lemma bit_byteAt: "bit (byteAt w n) k \<longleftrightarrow> k < 8 \<and> bit w (n + k)"
  unfolding byteAt_def mask_six by (auto simp: bit_unsigned_iff bit_and_iff bit_mask_iff bit_drop_bit_eq)

lemma byteAt_cong: "(\<And>k. k < 8 \<Longrightarrow> bit v (n + k) = bit w (n + k)) \<Longrightarrow> byteAt v n = byteAt w n"
  by (rule bit_word_eqI) (simp add: bit_byteAt)

lemma six_cong: "(\<And>k. k < 6 \<Longrightarrow> bit v (n + k) = bit w (n + k)) \<Longrightarrow> six v n = six w n"
  by (rule bit_word_eqI) (auto simp: bit_six)

lemma six_less: "unat (drop_bit n cur AND 0x3f) < 64" for cur :: "32 word"
proof -
  have "unat (take_bit 6 (drop_bit n cur)) = take_bit 6 (unat (drop_bit n cur))" by (simp only: unsigned_take_bit_eq)
  also have "\<dots> < 2 ^ 6" by (rule take_bit_nat_less_exp)
  finally show ?thesis unfolding mask_six by (simp only: take_bit_eq_mask) simp
qed

text \<open>The bytes of a group of three.\<close>

lemma byte_bit: "k \<ge> 8 \<Longrightarrow> \<not> bit (b :: byte) k"
  using bit_imp_le_length [of b k] by auto

lemma group_bytes:
  "byteAt (push_bit 16 (ucast a) OR push_bit 8 (ucast b) OR ucast c) 16 = a"
  "byteAt (push_bit 16 (ucast a) OR push_bit 8 (ucast b) OR ucast c) 8 = b"
  "byteAt (push_bit 16 (ucast a) OR push_bit 8 (ucast b) OR ucast c) 0 = c"
  "byteAt (push_bit 16 (ucast a) OR push_bit 8 (ucast b)) 16 = a"
  "byteAt (push_bit 16 (ucast a) OR push_bit 8 (ucast b)) 8 = b"
  "byteAt (push_bit 16 (ucast a)) 16 = a"
  by (rule bit_word_eqI, simp add: bit_byteAt bit_or_iff bit_push_bit_iff bit_unsigned_iff byte_bit)+

lemma triples_induct [case_names three nil one two]:
  fixes data :: "byte list"
  assumes "\<And>a b c rest. P rest \<Longrightarrow> P (a # b # c # rest)" and "P []" and "\<And>a. P [a]" and "\<And>a b. P [a, b]"
  shows "P data"
  by (induction data rule: encodeTriples.induct) (use assms in blast)+

section \<open>Sizes\<close>

lemma enc_size_step: "calculateEncodedSize (Suc (Suc (Suc n))) pd = calculateEncodedSize n pd + 4"
proof (cases "n = 0")
  case False
  have "(Suc (Suc (Suc n)) + 2) div 3 = (n + 2) div 3 + 1" "Suc (Suc (Suc n)) mod 3 = n mod 3" by presburger+
  moreover have "(3 - n mod 3) mod 3 \<le> (n + 2) div 3 * 4"
  proof -
    have "(3 - n mod 3) mod 3 < 3" by simp
    moreover have "1 \<le> (n + 2) div 3" using False div_le_mono [of 3 "n + 2" 3] by simp
    ultimately show ?thesis by linarith
  qed
  ultimately show ?thesis using False by (cases pd) (simp_all add: calculateEncodedSize_def Let_def add.commute)
qed (simp add: calculateEncodedSize_def Let_def)

lemma encode_length: "length (encodeImpl data cs pd) = calculateEncodedSize (length data) pd"
  by (induction data cs pd rule: encodeImpl.induct) (auto simp: Let_def enc_size_step, simp_all add: calculateEncodedSize_def)

definition padBytes :: "byte list \<Rightarrow> nat" where
  "padBytes data = (3 - length data mod 3) mod 3"

lemma encode_padded: "encodeImpl data cs True = encodeImpl data cs False @ replicate (padBytes data) kBase64Pad"
proof (induction data rule: encodeTriples.induct)
  case (1 a b c rest)
  have "padBytes (a # b # c # rest) = padBytes rest" by (simp add: padBytes_def)
  with 1 show ?case by (simp add: Let_def)
qed (simp_all add: padBytes_def Let_def numeral_2_eq_2)

lemma padBytes_size: "(length data + 2) div 3 * 3 - padBytes data = length data" "padBytes data \<le> 2"
proof -
  define q r where "q = length data div 3" and "r = length data mod 3"
  have n: "length data = 3 * q + r" by (simp add: q_def r_def)
  have "r = 0 \<or> r = 1 \<or> r = 2" unfolding r_def by auto
  moreover have "(3 * q + r + 2) div 3 = q + (r + 2) div 3" by simp
  ultimately show "(length data + 2) div 3 * 3 - padBytes data = length data"
    unfolding padBytes_def r_def [symmetric] unfolding n by (elim disjE) simp_all
  show "padBytes data \<le> 2" using mod_less_divisor [of 3 "3 - length data mod 3"] unfolding padBytes_def by linarith
qed

lemma unpadded_length:
  "length (encodeImpl data cs False) = 4 * (length data div 3) + (if length data mod 3 = 0 then 0 else length data mod 3 + 1)"
proof (induction data rule: encodeTriples.induct)
  case (1 a b c rest)
  have "length (a # b # c # rest) div 3 = length rest div 3 + 1" "length (a # b # c # rest) mod 3 = length rest mod 3" by simp_all
  with 1 show ?case by (simp add: Let_def del: length_Cons)
qed (simp_all add: Let_def)

lemma countPadding_append:
  assumes "xs \<noteq> []" "last xs \<noteq> kBase64Pad" "k \<le> 2"
  shows "countPadding (xs @ replicate k kBase64Pad) = k"
proof -
  have l: "xs ! (length xs - 1) \<noteq> kBase64Pad" using assms(1,2) by (simp add: last_conv_nth)
  from assms(3) consider "k = 0" | "k = 1" | "k = 2" by linarith
  then show ?thesis
    using l assms(1) by cases (auto simp: countPadding_def nth_append numeral_2_eq_2)
qed

section \<open>One alphabet\<close>

lemma checkForwardIndex_all: "checkForwardIndex n charset table \<Longrightarrow> i \<le> n \<Longrightarrow> table ! unat (charset ! i) = of_nat i"
proof (induction n arbitrary: i)
  case 0
  then show ?case by (simp add: checkForwardIndex.simps [of 0])
next
  case (Suc n)
  then show ?case by (cases "i = Suc n") (auto simp: checkForwardIndex.simps [of "Suc n"])
qed

locale alphabet =
  fixes charset table :: "byte list"
  assumes forward: "i < 64 \<Longrightarrow> table ! unat (charset ! i) = of_nat i"
    and pad: "table ! unat kBase64Pad \<ge> 0x40"
begin

lemma table_char: "table ! unat (charAt charset cur n) = six cur n"
  using forward [OF six_less [of n cur]] by (simp add: charAt_def six_def)

lemma six_small: "\<not> six cur n \<ge> 0x40"
proof -
  have "unat (six cur n) < 64"
    using six_less [of n cur] by (simp add: six_def unsigned_ucast_eq take_bit_eq_mod)
  then show ?thesis by (simp add: word_le_nat_alt)
qed

lemma lookup_char: "Base64ReverseLookup (charAt charset cur n) table = Inr (six cur n)"
  using six_small by (simp add: Base64ReverseLookup_def table_char)

lemma char_not_pad: "charAt charset cur n \<noteq> kBase64Pad"
  using table_char [of cur n] six_small [of cur n] pad by metis

text \<open>What decoding rebuilds from the characters of a group agrees with the group where it matters.\<close>

lemma rebuild:
  "byteAt (push_bit 18 (ucast (six cur 18)) OR push_bit 12 (ucast (six cur 12)) OR push_bit 6 (ucast (six cur 6)) OR ucast (six cur 0)) 16 = byteAt cur 16"
  "byteAt (push_bit 18 (ucast (six cur 18)) OR push_bit 12 (ucast (six cur 12)) OR push_bit 6 (ucast (six cur 6)) OR ucast (six cur 0)) 8 = byteAt cur 8"
  "byteAt (push_bit 18 (ucast (six cur 18)) OR push_bit 12 (ucast (six cur 12)) OR push_bit 6 (ucast (six cur 6)) OR ucast (six cur 0)) 0 = byteAt cur 0"
  "byteAt (push_bit 18 (ucast (six cur 18)) OR push_bit 12 (ucast (six cur 12)) OR push_bit 6 (ucast (six cur 6))) 8 = byteAt cur 8"
  "byteAt (push_bit 18 (ucast (six cur 18)) OR push_bit 12 (ucast (six cur 12))) 16 = byteAt cur 16"
  "byteAt (push_bit 18 (ucast (six cur 18)) OR push_bit 12 (ucast (six cur 12)) OR push_bit 6 (ucast (six cur 6))) 16 = byteAt cur 16"
  by (rule byteAt_cong, auto simp: bit_or_iff bit_place bit_place0)+

lemma unat_six: "unat (six cur n) = unat (drop_bit n cur AND 0x3f)"
  using six_less [of n cur] by (simp add: six_def unsigned_ucast_eq take_bit_eq_mod)

lemma six_prefix: "six (push_bit 16 (ucast a) OR push_bit 8 (ucast b)) 18 = six (push_bit 16 (ucast a)) 18" for a b :: byte
proof (rule six_cong)
  fix k
  show "bit (push_bit 16 (ucast a) OR push_bit 8 (ucast b) :: 32 word) (18 + k) = bit (push_bit 16 (ucast a) :: 32 word) (18 + k)"
    using byte_bit [of "10 + k" b] by (auto simp: bit_or_iff bit_push_bit_iff bit_unsigned_iff)
qed

lemma char_prefix: "charAt charset (push_bit 16 (ucast a)) 18 = charAt charset (push_bit 16 (ucast a) OR push_bit 8 (ucast b)) 18" for a b :: byte
proof -
  have "unat (six (push_bit 16 (ucast a)) 18) = unat (six (push_bit 16 (ucast a) OR push_bit 8 (ucast b)) 18)" by (simp only: six_prefix)
  then show ?thesis by (simp only: charAt_def unat_six)
qed

lemma encode_nonempty: "data \<noteq> [] \<Longrightarrow> \<exists>e src. encodeImpl data charset False = e # src"
  by (cases "(data, charset, False)" rule: encodeImpl.cases) (auto simp: Let_def)

lemma decode_encode: "data \<noteq> [] \<Longrightarrow> decodeGroups (encodeImpl data charset False) table = Inr data"
proof (induction data rule: triples_induct)
  case (three a b c rest)
  show ?case
  proof (cases "rest = []")
    case True
    then show ?thesis by (simp add: Let_def lookup_char rebuild group_bytes or.assoc)
  next
    case False
    then obtain e src where e: "encodeImpl rest charset False = e # src" using encode_nonempty by blast
    with three False have "decodeGroups (e # src) table = Inr rest" by simp
    with e show ?thesis by (simp add: Let_def lookup_char rebuild group_bytes or.assoc)
  qed
next
  case (one a)
  then show ?case by (simp add: Let_def lookup_char rebuild group_bytes)
next
  case (two a b)
  then show ?case by (simp add: Let_def char_prefix [of a b] lookup_char rebuild group_bytes or.assoc)
qed simp

lemma last_not_pad: "data \<noteq> [] \<Longrightarrow> last (encodeImpl data charset False) \<noteq> kBase64Pad"
proof (induction data rule: encodeTriples.induct)
  case (1 a b c rest)
  show ?case
  proof (cases "rest = []")
    case True
    then show ?thesis by (simp add: Let_def char_not_pad)
  next
    case False
    then obtain e src where "encodeImpl rest charset False = e # src" using encode_nonempty by blast
    with 1 False show ?thesis by (simp add: Let_def)
  qed
qed (simp_all add: Let_def char_not_pad)

lemma count_padded:
  "data \<noteq> [] \<Longrightarrow> countPadding (encodeImpl data charset True) = padBytes data \<and> countPadding (encodeImpl data charset False) = 0"
proof -
  assume ne: "data \<noteq> []"
  then have "encodeImpl data charset False \<noteq> []" using encode_nonempty [of data] by auto
  from countPadding_append [OF this last_not_pad [OF ne], of "padBytes data"] countPadding_append [OF this last_not_pad [OF ne], of 0]
  show ?thesis using padBytes_size(2) [of data] by (simp add: encode_padded)
qed

lemma decode_padded:
  assumes "length data \<le> dst_len"
  shows "decodeImpl (encodeImpl data charset True) dst_len table True = Inr (length data, data)"
proof (cases "data = []")
  case False
  let ?src = "encodeImpl data charset True"
  have ne: "?src \<noteq> []" using False encode_nonempty [of data] encode_padded [of data charset] by auto
  have l: "length ?src = 4 * ((length data + 2) div 3)" using False by (simp add: encode_length calculateEncodedSize_def)
  have "calculateDecodedSize ?src True = Inr (length data, length ?src - padBytes data)"
    using ne count_padded [OF False] l padBytes_size [of data] by (auto simp: calculateDecodedSize_def Let_def)
  moreover have "take (length ?src - padBytes data) ?src = encodeImpl data charset False" by (simp add: encode_padded)
  ultimately show ?thesis using ne assms decode_encode [OF False] by (simp add: decodeImpl_def)
qed (simp add: decodeImpl_def)

lemma decode_unpadded:
  assumes "length data \<le> dst_len"
  shows "decodeImpl (encodeImpl data charset False) dst_len table False = Inr (length data, data)"
proof (cases "data = []")
  case False
  let ?src = "encodeImpl data charset False"
  have ne: "?src \<noteq> []" using False encode_nonempty [of data] by auto
  have "calculateDecodedSize ?src False = Inr (length data, length ?src)"
  proof -
    define q r where "q = length data div 3" and "r = length data mod 3"
    have r: "r < 3" and n: "length data = 3 * q + r" by (simp_all add: q_def r_def)
    have l: "length ?src = 4 * q + (if r = 0 then 0 else r + 1)" unfolding q_def r_def by (rule unpadded_length)
    then have "length ?src div 4 = q" "length ?src mod 4 = (if r = 0 then 0 else r + 1)" using r by simp_all
    then show ?thesis using ne count_padded [OF False] r n l by (auto simp: calculateDecodedSize_def Let_def)
  qed
  then show ?thesis using ne assms decode_encode [OF False] by (simp add: decodeImpl_def)
qed (simp add: decodeImpl_def)

end

interpretation standard: alphabet kBase64Charset kBase64ReverseIndexTable
proof
  show "kBase64ReverseIndexTable ! unat (kBase64Charset ! i) = of_nat i" if "i < 64" for i
    by (rule checkForwardIndex_all [OF static_asserts(1)]) (use that in simp)
  show "kBase64ReverseIndexTable ! unat kBase64Pad \<ge> 0x40" by code_simp
qed

interpretation url: alphabet kBase64UrlCharset kBase64UrlReverseIndexTable
proof
  show "kBase64UrlReverseIndexTable ! unat (kBase64UrlCharset ! i) = of_nat i" if "i < 64" for i
    by (rule checkForwardIndex_all [OF static_asserts(2)]) (use that in simp)
  show "kBase64UrlReverseIndexTable ! unat kBase64Pad \<ge> 0x40" by code_simp
qed

section \<open>Round trips\<close>

lemma encodeString_ok: "encodeString data cs pd = Inr (encodeImpl data cs pd)"
  by (simp add: encodeString_def writeTo_def encode_length)

lemma payload_ok:
  assumes "decodeImpl src (nat out_len) table pd = Inr (length data, data)" "length data \<le> nat out_len"
  shows "decodePayload src out_len table pd = Inr data"
  using assms by (simp add: decodePayload_def writeTo_def)

lemma encoded_room: "length data \<le> nat (int (calculateEncodedSize (length data) True) div 4 * 3)"
  "length data \<le> nat ((int (length (encodeImpl data cs False)) + 3) div 4 * 3)"
proof -
  have "length data \<le> (length data + 2) div 3 * 3" by presburger
  then show "length data \<le> nat (int (calculateEncodedSize (length data) True) div 4 * 3)"
    by (simp add: calculateEncodedSize_def nat_mult_distrib)
  define q r where "q = length data div 3" and "r = length data mod 3"
  have r: "r < 3" and n: "length data = 3 * q + r" by (simp_all add: q_def r_def)
  have l: "length (encodeImpl data cs False) = 4 * q + (if r = 0 then 0 else r + 1)" unfolding q_def r_def by (rule unpadded_length)
  have "(int (length (encodeImpl data cs False)) + 3) div 4 * 3 = int ((length (encodeImpl data cs False) + 3) div 4 * 3)"
    by (simp add: zdiv_int)
  moreover have "r = 0 \<or> r = 1 \<or> r = 2" using r by auto
  then have "length data \<le> (length (encodeImpl data cs False) + 3) div 4 * 3" unfolding l n by (elim disjE) simp_all
  ultimately show "length data \<le> nat ((int (length (encodeImpl data cs False)) + 3) div 4 * 3)" by simp
qed

text \<open>
  C31. What \<^verbatim>\<open>Base64::encode\<close> returns decodes to the data, and so does what \<^verbatim>\<open>encodeUrl\<close> returns, for data whose
  encoding has a length that a 32-bit integer holds. Encoding writes exactly as many characters as
  \<^verbatim>\<open>calculateEncodedSize\<close> reserves, and decoding stays within its buffer.
\<close>

theorem base64_round_trip:
  assumes "calculateEncodedSize (length data) True \<le> 2147483644"
  shows "bindR (Base64_encode data) Base64_decode = Inr data \<and> bindR (Base64_encodeUrl data) Base64_decodeUrl = Inr data"
proof
  let ?e = "encodeImpl data kBase64Charset True" and ?u = "encodeImpl data kBase64UrlCharset False"
  have l: "length ?e = calculateEncodedSize (length data) True" by (rule encode_length)
  have t: "to_int32 (int (length ?e)) = int (length ?e)" using assms l by (intro to_int32_id) (simp_all add: int64_defs)
  have "decodePayload ?e (int (length ?e) div 4 * 3) kBase64ReverseIndexTable True = Inr data"
    using encoded_room(1) [of data] unfolding l [symmetric] by (intro payload_ok standard.decode_padded)
  then show "bindR (Base64_encode data) Base64_decode = Inr data"
    by (simp add: Base64_encode_def encodeString_ok Base64_decode_def Let_def t)
  have m: "length ?u \<le> calculateEncodedSize (length data) True" by (simp add: encode_length calculateEncodedSize_def Let_def)
  then have t': "to_int32 (int (length ?u)) = int (length ?u)" using assms by (intro to_int32_id) (simp_all add: int64_defs)
  have "decodePayload ?u ((int (length ?u) + 3) div 4 * 3) kBase64UrlReverseIndexTable False = Inr data"
    using encoded_room(2) [of data kBase64UrlCharset] by (intro payload_ok url.decode_unpadded)
  then show "bindR (Base64_encodeUrl data) Base64_decodeUrl = Inr data"
    using m assms by (simp add: Base64_encodeUrl_def encodeString_ok Base64_decodeUrl_def Let_def t' int64_defs)
qed

theorem base64_round_trip_witness: "bindR (Base64_encode [1, 2, 250, 7]) Base64_decode = Inr [1, 2, 250, 7]"
  using base64_round_trip [of "[1, 2, 250, 7]"] by (simp add: calculateEncodedSize_def)

section \<open>What is decoded\<close>

lemma charset_values:
  "kBase64Charset = [65, 66, 67, 68, 69, 70, 71, 72, 73, 74, 75, 76, 77, 78, 79, 80, 81, 82, 83, 84, 85, 86, 87, 88, 89, 90,
     97, 98, 99, 100, 101, 102, 103, 104, 105, 106, 107, 108, 109, 110, 111, 112, 113, 114, 115, 116, 117, 118, 119, 120,
     121, 122, 48, 49, 50, 51, 52, 53, 54, 55, 56, 57, 43, 47]"
  by (simp add: kBase64Charset_def)

fun revOk :: "byte \<Rightarrow> byte list \<Rightarrow> bool" where
  "revOk i [] = True"
| "revOk i (t # ts) = ((t \<ge> 0x40 \<or> kBase64Charset ! unat t = i) \<and> revOk (i + 1) ts)"

lemma revOk_nth: "revOk i ts \<Longrightarrow> k < length ts \<Longrightarrow> ts ! k \<ge> 0x40 \<or> kBase64Charset ! unat (ts ! k) = i + of_nat k"
proof (induction i ts arbitrary: k rule: revOk.induct)
  case (2 i t ts)
  then show ?case by (cases k) (auto simp: ac_simps)
qed simp

lemma standard_reverse: "kBase64ReverseIndexTable ! unat p < 0x40 \<longleftrightarrow> p \<in> set kBase64Charset"
proof
  have len: "length kBase64ReverseIndexTable = 256" "length kBase64Charset = 64"
    by (simp_all add: kBase64ReverseIndexTable_def kBase64Charset_def)
  have all: "revOk 0 kBase64ReverseIndexTable" by (simp add: kBase64ReverseIndexTable_def charset_values)
  have i: "unat p < 256" using unsigned_less [of p, where 'a = nat] by simp
  then have or: "kBase64ReverseIndexTable ! unat p \<ge> 0x40 \<or> kBase64Charset ! unat (kBase64ReverseIndexTable ! unat p) = p"
    using revOk_nth [OF all, of "unat p"] len by simp
  show "p \<in> set kBase64Charset" if "kBase64ReverseIndexTable ! unat p < 0x40"
  proof -
    have "unat (kBase64ReverseIndexTable ! unat p) < length kBase64Charset" using that len by (simp add: word_less_nat_alt)
    from nth_mem [OF this] or that show ?thesis by (simp add: not_le [symmetric])
  qed
  show "kBase64ReverseIndexTable ! unat p < 0x40" if "p \<in> set kBase64Charset"
  proof -
    from that obtain j where "j < 64" "p = kBase64Charset ! j" using len by (auto simp: in_set_conv_nth)
    with standard.forward [of j] show ?thesis by (simp add: word_less_nat_alt unat_of_nat take_bit_eq_mod)
  qed
qed

lemma lookup_cases:
  "Base64ReverseLookup p table = (if table ! unat p < 0x40 then Inr (table ! unat p) else Inl Base64Exception)"
  by (simp add: Base64ReverseLookup_def Let_def not_le [symmetric])

lemma decodeGroups_cases:
  "2 \<le> length src \<Longrightarrow> length src mod 4 \<noteq> 1 \<Longrightarrow>
   if \<forall>p \<in> set src. table ! unat p < 0x40 then \<exists>dst. decodeGroups src table = Inr dst \<and> length dst = length src * 3 div 4
   else decodeGroups src table = Inl Base64Exception"
proof (induction src table rule: decodeGroups.induct)
  case (1 a b c d e src table)
  have "length (a # b # c # d # e # src) = length (e # src) + 4" by simp
  then have "length (e # src) mod 4 \<noteq> 1" using 1(3) by (metis mod_add_self2)
  moreover have "2 \<le> length (e # src)" using 1(3) by (cases src) simp_all
  moreover note 1(1) [OF refl]
  ultimately have "if \<forall>p \<in> set (e # src). table ! unat p < 0x40
      then \<exists>dst. decodeGroups (e # src) table = Inr dst \<and> length dst = length (e # src) * 3 div 4
      else decodeGroups (e # src) table = Inl Base64Exception"
    by blast
  then show ?case by (auto simp: lookup_cases Let_def split: if_splits)
qed (auto simp: lookup_cases Let_def split: list.splits if_splits)

lemma trimmed_size:
  fixes p q :: nat
  assumes "1 \<le> q" "p \<le> 2"
  shows "2 \<le> 4 * q - p \<and> (4 * q - p) mod 4 \<noteq> 1 \<and> (4 * q - p) * 3 div 4 = q * 3 - p"
proof -
  obtain j where j: "q = Suc j" using assms(1) by (cases q) auto
  have "p = 0 \<or> p = 1 \<or> p = 2" using assms(2) by auto
  moreover have "(4 * j + 3) mod 4 = 3" "(4 * j + 2) mod 4 = 2" "(4 * j + 3) * 3 div 4 = 3 * j + 2" "(4 * j + 2) * 3 div 4 = 3 * j + 1"
    by presburger+
  ultimately show ?thesis unfolding j by (elim disjE) (simp_all add: add.commute)
qed

text \<open>
  C32. \<^verbatim>\<open>Base64::decode\<close> accepts exactly the strings whose length is a multiple of four and that consist of characters
  of the alphabet before their padding; it returns three bytes for four characters, less the padding. Every other
  string of a length that a 32-bit integer holds is refused by a \<^verbatim>\<open>Base64Exception\<close>: nothing is read or
  written out of bounds.
\<close>

theorem base64_decode_accepts:
  assumes "src \<noteq> []" and "int (length src) \<le> int32_max"
  shows "if length src mod 4 = 0 \<and> set (take (length src - countPadding src) src) \<subseteq> set kBase64Charset
    then \<exists>out. Base64_decode src = Inr out \<and> length out = length src div 4 * 3 - countPadding src
    else Base64_decode src = Inl Base64Exception"
proof -
  let ?p = "countPadding src" and ?t = kBase64ReverseIndexTable
  have s: "to_int32 (int (length src)) = int (length src)" using assms(2) by (intro to_int32_id) (simp_all add: int64_defs)
  have o: "nat (int (length src) div 4 * 3) = length src div 4 * 3" by (simp add: nat_mult_distrib nat_div_distrib)
  have p: "?p \<le> 2" by (simp add: countPadding_def)
  have d: "Base64_decode src = decodePayload src (int (length src) div 4 * 3) ?t True"
    using s by (simp add: Base64_decode_def Let_def)
  show ?thesis
  proof (cases "length src mod 4 = 0")
    case False
    then show ?thesis using assms(1) d by (simp add: decodePayload_def decodeImpl_def calculateDecodedSize_def Let_def)
  next
    case True
    then obtain q where q: "length src = 4 * q" by auto
    then have q1: "1 \<le> q" using assms(1) by (cases q) auto
    let ?g = "take (length src - ?p) src"
    have lg: "length ?g = 4 * q - ?p" using q by simp
    have "2 \<le> length ?g" "length ?g mod 4 \<noteq> 1" and len: "length ?g * 3 div 4 = q * 3 - ?p"
      unfolding lg using trimmed_size [OF q1 p] by simp_all
    moreover have iff: "(set ?g \<subseteq> set kBase64Charset) = (\<forall>p \<in> set ?g. ?t ! unat p < 0x40)" by (auto simp: standard_reverse)
    ultimately have g: "if set ?g \<subseteq> set kBase64Charset then \<exists>dst. decodeGroups ?g ?t = Inr dst \<and> length dst = q * 3 - ?p
        else decodeGroups ?g ?t = Inl Base64Exception" using decodeGroups_cases [of ?g ?t] unfolding iff by metis
    have c: "calculateDecodedSize src True = Inr (q * 3 - ?p, length src - ?p)"
      using assms(1) q by (simp add: calculateDecodedSize_def Let_def)
    have r: "decodeImpl src (q * 3) ?t True = bindR (decodeGroups ?g ?t) (\<lambda>dst. Inr (q * 3 - ?p, dst))"
      using assms(1) by (simp add: decodeImpl_def c)
    show ?thesis using g d r o True q
      by (auto simp: decodePayload_def writeTo_def split: if_splits)
  qed
qed

theorem base64_decode_accepts_witness: "\<exists>out. Base64_decode [90, 109, 57, 61] = Inr out \<and> length out = 2"
proof -
  have "countPadding [90, 109, 57, 61] = 1" by (simp add: countPadding_def kBase64Pad_def)
  then show ?thesis using base64_decode_accepts [of "[90, 109, 57, 61]"] by (simp add: charset_values int64_defs)
qed

section \<open>MIME\<close>

declare mimeLoop.simps(2) [simp del]

definition prependOut ::
    "byte list \<Rightarrow> (32 word \<times> int \<times> byte list \<times> byte list) result \<Rightarrow> (32 word \<times> int \<times> byte list \<times> byte list) result" where
  "prependOut xs r = bindR r (\<lambda>(acc, bits, out, rest). Inr (acc, bits, xs @ out, rest))"

lemma prependOut_append: "prependOut xs (prependOut ys r) = prependOut (xs @ ys) r"
  by (cases r) (auto simp: prependOut_def)

lemma prependOut_Nil [simp]: "prependOut [] r = r"
  by (cases r) (auto simp: prependOut_def)

lemma mime_char:
  "mimeLoop acc n (charAt kBase64Charset cur k # rest) =
     (let acc = acc OR push_bit (nat n) (ucast (six cur k)) in
      if n < 6 then prependOut [byteAt acc 16, byteAt acc 8, byteAt acc 0] (mimeLoop 0 18 rest) else mimeLoop acc (n - 6) rest)"
  using standard.char_not_pad [of cur k] standard.six_small [of cur k]
  by (simp add: mimeLoop.simps(2) Let_def standard.table_char prependOut_def)

lemma mime_triples:
  "3 dvd length xs \<Longrightarrow> mimeLoop 0 18 (encodeTriples xs @ rest) = prependOut xs (mimeLoop 0 18 rest)"
proof (induction xs rule: encodeTriples.induct)
  case (1 a b c xs)
  have "length (a # b # c # xs) = length xs + 3" by simp
  then have "3 dvd length xs" using 1(2) by (metis dvd_add_triv_right_iff)
  with 1 show ?case
    by (simp add: Let_def mime_char standard.rebuild group_bytes or.assoc prependOut_append)
qed (simp_all add: dvd_eq_mod_eq_0)

lemma mime_newline: "mimeLoop acc n (kNewline @ rest) = mimeLoop acc n rest"
proof -
  have "kBase64ReverseIndexTable ! 13 = 255" "kBase64ReverseIndexTable ! 10 = 255" by (simp_all add: kBase64ReverseIndexTable_def)
  then show ?thesis by (simp add: mimeLoop.simps(2) kNewline_def kBase64Pad_def Let_def)
qed

lemma charAt_six: "charAt cs cur n = cs ! unat (six cur n)"
  by (simp only: charAt_def standard.unat_six)

lemma six_bytes:
  fixes a b :: byte
  shows "six (push_bit 16 (ucast a)) 18 = drop_bit 2 a" and "six (push_bit 16 (ucast a)) 12 = push_bit 4 (a AND 0x03)"
    and "six (push_bit 16 (ucast a) OR push_bit 8 (ucast b)) 12 = push_bit 4 (a AND 0x03) OR drop_bit 4 b"
    and "six (push_bit 16 (ucast a) OR push_bit 8 (ucast b)) 6 = push_bit 2 (b AND 0x0f)"
proof -
  have m: "(0x03 :: byte) = mask 2" "(0x0f :: byte) = mask 4" by (simp_all add: mask_eq_exp_minus_1)
  note bits = bit_six bit_or_iff bit_push_bit_iff bit_unsigned_iff bit_and_iff bit_mask_iff bit_drop_bit_eq
  show "six (push_bit 16 (ucast a)) 18 = drop_bit 2 a"
  proof (rule bit_word_eqI)
    fix n show "bit (six (push_bit 16 (ucast a)) 18) n = bit (drop_bit 2 a) n"
      using byte_bit [of "2 + n" a] by (cases "n < 6") (auto simp: bits)
  qed
  show "six (push_bit 16 (ucast a)) 12 = push_bit 4 (a AND 0x03)" unfolding m by (rule bit_word_eqI) (auto simp: bits)
  show "six (push_bit 16 (ucast a) OR push_bit 8 (ucast b)) 12 = push_bit 4 (a AND 0x03) OR drop_bit 4 b"
    unfolding m
  proof (rule bit_word_eqI)
    fix n show "bit (six (push_bit 16 (ucast a) OR push_bit 8 (ucast b)) 12) n = bit (push_bit 4 (a AND mask 2) OR drop_bit 4 b) n"
      using byte_bit [of "4 + n" b] by (cases "n < 4") (auto simp: bits)
  qed
  show "six (push_bit 16 (ucast a) OR push_bit 8 (ucast b)) 6 = push_bit 2 (b AND 0x0f)"
    unfolding m by (rule bit_word_eqI) (auto simp: bits)
qed

lemma encodeMime_short: "length input < 3 \<Longrightarrow> encodeMime input = encodeImpl input kBase64Charset True"
proof -
  assume s: "length input < 3"
  then consider "input = []" | a where "input = [a]" | a b where "input = [a, b]"
    by (cases "(input, kBase64Charset, True)" rule: encodeImpl.cases) auto
  then show ?thesis
  proof cases
    case (3 a b)
    then show ?thesis by (subst encodeMime.simps) (simp add: Let_def standard.char_prefix [of a b] charAt_six six_bytes standard.six_prefix)
  qed (subst encodeMime.simps, simp add: Let_def charAt_six six_bytes)+
qed

lemma encodeMime_long:
  assumes "length input \<ge> 3"
  defines "chunk \<equiv> min 57 (length input div 3 * 3)"
  shows "encodeMime input = encodeTriples (take chunk input) @ (if chunk = 57 \<and> length input - chunk > 0 then kNewline else []) @ encodeMime (drop chunk input)"
    and "3 dvd chunk" and "0 < chunk" and "chunk \<le> length input" and "chunk \<noteq> 57 \<Longrightarrow> chunk = length input div 3 * 3"
proof -
  show "encodeMime input = encodeTriples (take chunk input) @ (if chunk = 57 \<and> length input - chunk > 0 then kNewline else []) @ encodeMime (drop chunk input)"
    using assms(1) unfolding chunk_def by (subst encodeMime.simps) (simp add: kMaxLineLength_def Let_def)
  show "3 dvd chunk" by (simp add: chunk_def min_def)
  have "1 \<le> length input div 3" using assms(1) div_le_mono [of 3 "length input" 3] by simp
  then show "0 < chunk" by (simp add: chunk_def)
  show "chunk \<le> length input" by (simp add: chunk_def min.coboundedI2)
  show "chunk = length input div 3 * 3" if "chunk \<noteq> 57" using that by (auto simp: chunk_def min_def)
qed

lemma mime_lines:
  "mimeLoop 0 18 (encodeMime bs) =
   prependOut (take (length bs div 3 * 3) bs) (mimeLoop 0 18 (encodeImpl (drop (length bs div 3 * 3) bs) kBase64Charset True))"
proof (induction bs rule: length_induct)
  case (1 bs)
  show ?case
  proof (cases "length bs \<ge> 3")
    case False
    then show ?thesis by (simp add: encodeMime_short)
  next
    case True
    define c m where "c = min 57 (length bs div 3 * 3)" and "m = length bs div 3 * 3"
    note e = encodeMime_long [OF True, folded c_def]
    have cm: "c \<le> m" by (simp add: c_def m_def)
    have rest: "(length bs - c) div 3 * 3 = m - c"
    proof -
      from e(2) obtain j where j: "c = 3 * j" by (auto elim: dvdE)
      have "length bs - 3 * j = 3 * (length bs div 3 - j) + length bs mod 3" using cm j mod_mult_div_eq [of 3 "length bs"]
        by (simp add: diff_mult_distrib2 m_def)
      then have "(length bs - 3 * j) div 3 = length bs div 3 - j" by simp
      then show ?thesis unfolding j by (simp add: diff_mult_distrib m_def)
    qed
    have "3 dvd length (take c bs)" using e(2,4) by simp
    then have step: "mimeLoop 0 18 (encodeMime bs) = prependOut (take c bs) (mimeLoop 0 18 (encodeMime (drop c bs)))"
      by (subst e(1)) (simp add: mime_triples mime_newline)
    have "length (drop c bs) < length bs" using e(3) True by simp
    with 1 have "mimeLoop 0 18 (encodeMime (drop c bs)) =
        prependOut (take (length (drop c bs) div 3 * 3) (drop c bs))
          (mimeLoop 0 18 (encodeImpl (drop (length (drop c bs) div 3 * 3) (drop c bs)) kBase64Charset True))" by blast
    moreover have "take c bs @ take (m - c) (drop c bs) = take m bs" using cm by (metis le_add_diff_inverse take_add)
    ultimately show ?thesis unfolding step using cm by (simp add: rest prependOut_append m_def [symmetric])
  qed
qed

lemma mime_tail:
  assumes "length tail < 3"
  shows "\<exists>acc bits. mimeLoop 0 18 (encodeImpl tail kBase64Charset True) = Inr (acc, bits, [], []) \<and>
    (bits = 18 \<and> tail = [] \<or> bits = 6 \<and> tail = [byteAt acc 16] \<or> bits = 0 \<and> tail = [byteAt acc 16, byteAt acc 8])"
proof -
  consider "tail = []" | a where "tail = [a]" | a b where "tail = [a, b]"
    using assms by (cases "(tail, kBase64Charset, True)" rule: encodeImpl.cases) auto
  then show ?thesis
  proof cases
    case (2 a)
    then show ?thesis by (simp add: Let_def mime_char mimeLoop.simps(2) [of _ _ kBase64Pad] standard.rebuild group_bytes)
  next
    case (3 a b)
    then show ?thesis
      by (simp add: Let_def standard.char_prefix [of a b] mime_char mimeLoop.simps(2) [of _ _ kBase64Pad] standard.rebuild group_bytes or.assoc)
  qed simp
qed

lemma decode_encodeMime: "decodeMime (encodeMime bs) = Inr bs"
proof -
  let ?m = "length bs div 3 * 3"
  have "length (drop ?m bs) < 3" by (simp add: minus_div_mult_eq_mod)
  from mime_tail [OF this] obtain acc bits where t: "mimeLoop 0 18 (encodeImpl (drop ?m bs) kBase64Charset True) = Inr (acc, bits, [], [])"
    "bits = 18 \<and> drop ?m bs = [] \<or> bits = 6 \<and> drop ?m bs = [byteAt acc 16] \<or> bits = 0 \<and> drop ?m bs = [byteAt acc 16, byteAt acc 8]" by blast
  have l: "mimeLoop 0 18 (encodeMime bs) = Inr (acc, bits, take ?m bs, [])" using mime_lines [of bs] t(1) by (simp add: prependOut_def)
  have e: "take ?m bs @ drop ?m bs = bs" by simp
  show ?thesis
  proof (cases "encodeMime bs = []")
    case True
    then have "bits = 18" "take ?m bs = []" using l by simp_all
    with t(2) e have "bs = []" by auto
    with True show ?thesis by (simp add: decodeMime_def)
  next
    case False
    from t(2) show ?thesis
    proof (elim disjE conjE)
      assume "bits = 18" "drop ?m bs = []"
      with e l False show ?thesis by (simp add: decodeMime_def)
    next
      assume "bits = 6" "drop ?m bs = [byteAt acc 16]"
      moreover from this e have "take ?m bs @ [byteAt acc 16] = bs" by simp
      ultimately show ?thesis using l False by (simp add: decodeMime_def)
    next
      assume "bits = 0" "drop ?m bs = [byteAt acc 16, byteAt acc 8]"
      moreover from this e have "take ?m bs @ [byteAt acc 16, byteAt acc 8] = bs" by simp
      ultimately show ?thesis using l False by (simp add: decodeMime_def)
    qed
  qed
qed

lemma triples_length: "3 dvd length xs \<Longrightarrow> length (encodeTriples xs) = length xs div 3 * 4"
proof (induction xs rule: encodeTriples.induct)
  case (1 a b c xs)
  have l: "length (a # b # c # xs) = length xs + 3" by simp
  then have "3 dvd length xs" using 1(2) by (metis dvd_add_triv_right_iff)
  with 1 show ?case unfolding l by (simp add: Let_def)
qed (simp_all add: dvd_eq_mod_eq_0)

lemma mime_length: "length (encodeMime bs) = (length bs + 2) div 3 * 4 + 2 * ((length bs - 1) div 57)"
proof (induction bs rule: length_induct)
  case (1 bs)
  show ?case
  proof (cases "length bs \<ge> 3")
    case False
    then have "(length bs - 1) div 57 = 0" by simp
    with False show ?thesis by (simp add: encodeMime_short encode_length calculateEncodedSize_def)
  next
    case True
    define c where "c = min 57 (length bs div 3 * 3)"
    note e = encodeMime_long [OF True, folded c_def]
    have IH: "length (encodeMime (drop c bs)) = (length bs - c + 2) div 3 * 4 + 2 * ((length bs - c - 1) div 57)"
      using 1 e(3) True by simp
    have tr: "length (encodeTriples (take c bs)) = c div 3 * 4" using e(2,4) by (simp add: triples_length min_def)
    show ?thesis
    proof (cases "c = 57")
      case True
      then obtain n where n: "length bs = n + 57" using e(4) by (metis add.commute le_Suc_ex)
      have "(n + 57 + 2) div 3 = (n + 2) div 3 + 19" by presburger
      moreover have "(n + 57 - 1) div 57 = (if n = 0 then 0 else (n - 1) div 57 + 1)" by (cases n) auto
      ultimately show ?thesis using True IH tr n by (subst e(1)) (simp add: kNewline_def)
    next
      case False
      then have c: "c = length bs div 3 * 3" by (rule e(5))
      have c57: "c < 57" using False by (simp add: c_def min_def split: if_splits)
      define q r where "q = length bs div 3" and "r = length bs mod 3"
      have n: "length bs = 3 * q + r" "r < 3" by (simp_all add: q_def r_def)
      have cq: "c = 3 * q" "q < 19" using c c57 by (simp_all add: q_def)
      have "(3 * q + r + 2) div 3 = q + (r + 2) div 3" by simp
      moreover have "(3 * q + r - 1) div 57 = 0" "(r - 1) div 57 = 0" using cq(2) n(2) by simp_all
      ultimately show ?thesis using False IH tr unfolding n(1) cq(1) by (subst e(1)) (simp add: cq n)
    qed
  qed
qed

lemma mime_encoded_size: "length (encodeMime bs) = calculateMimeEncodedSize (length bs)"
proof (cases "bs = []")
  case True
  then show ?thesis by (simp add: mime_length calculateMimeEncodedSize_def)
next
  case False
  define n where "n = length bs - 1"
  have l: "length bs = n + 1" using False by (simp add: n_def)
  have "(n + 1 + 2) div 3 = n div 3 + 1" by presburger
  moreover have "((n div 3 + 1) * 4 - 1) div 76 = n div 3 div 19"
  proof -
    have "((n div 3 + 1) * 4 - 1) div 76 = ((n div 3 + 1) * 4 - 1) div 4 div 19" using div_mult2_eq [of "(n div 3 + 1) * 4 - 1" 4 19] by simp
    also have "((n div 3 + 1) * 4 - 1) div 4 = n div 3" by presburger
    finally show ?thesis .
  qed
  moreover have "n div 3 div 19 = n div 57" by (simp add: div_mult2_eq [symmetric])
  ultimately show ?thesis
    by (simp add: mime_length calculateMimeEncodedSize_def calculateEncodedSize_def kMaxLineLength_def kNewline_def l Let_def)
qed

fun alphaChars :: "byte list \<Rightarrow> nat" where
  "alphaChars [] = 0"
| "alphaChars (c # input) =
     (if c = kBase64Pad then 0
      else (if kBase64ReverseIndexTable ! unat c \<ge> 0x40 then 0 else 1) + alphaChars input)"

lemma alphaChars_le: "alphaChars input \<le> length input"
  by (induction input) auto

lemma mimeChars_alpha: "length input \<le> d \<Longrightarrow> mimeChars d input = d - length input + alphaChars input"
  by (induction d input rule: mimeChars.induct) (auto simp: Suc_diff_le alphaChars_le)

lemma mimeLoop_count:
  "mimeLoop acc (18 - 6 * int k) input = Inr (acc', bits, out, rest) \<Longrightarrow> k < 4 \<Longrightarrow>
   length out = 3 * ((k + alphaChars input) div 4) \<and> bits = 18 - 6 * int ((k + alphaChars input) mod 4)"
proof (induction input arbitrary: acc k out acc' bits rest)
  case Nil
  then show ?case by simp
next
  case (Cons c input)
  let ?v = "kBase64ReverseIndexTable ! unat c"
  consider "c = kBase64Pad" | "c \<noteq> kBase64Pad" "?v \<ge> 0x40" | "c \<noteq> kBase64Pad" "\<not> ?v \<ge> 0x40" "k = 3" | "c \<noteq> kBase64Pad" "\<not> ?v \<ge> 0x40" "k < 3"
    using Cons.prems(2) by linarith
  then show ?case
  proof cases
    case 1
    with Cons.prems show ?thesis by (auto simp: mimeLoop.simps(2) Let_def split: if_splits list.splits)
  next
    case 2
    with Cons show ?thesis by (simp add: mimeLoop.simps(2) Let_def)
  next
    case 3
    define acc2 where "acc2 = acc OR push_bit 0 (ucast ?v :: 32 word)"
    from 3 Cons.prems(1) obtain out2 where o: "mimeLoop 0 (18 - 6 * int 0) input = Inr (acc', bits, out2, rest)"
      "out = byteAt acc2 16 # byteAt acc2 8 # byteAt acc2 0 # out2"
      by (auto simp: mimeLoop.simps(2) Let_def bindR_Inr_iff acc2_def)
    moreover have "(4 + alphaChars input) div 4 = alphaChars input div 4 + 1" by simp
    ultimately show ?thesis using Cons.IH [OF o(1)] 3 by simp
  next
    case 4
    have "18 - 6 * int (Suc k) = 18 - 6 * int k - 6" "\<not> 18 - 6 * int k - 6 < 0" using 4(3) by simp_all
    with 4 Cons.prems(1) have "mimeLoop (acc OR push_bit (nat (18 - 6 * int k)) (ucast ?v)) (18 - 6 * int (Suc k)) input = Inr (acc', bits, out, rest)"
      by (simp add: mimeLoop.simps(2) Let_def)
    from Cons.IH [OF this] 4 show ?thesis by simp
  qed
qed

lemma mime_size_exact: "decodeMime src = Inr out \<Longrightarrow> calculateMimeDecodedSize src = Inr (length out)"
proof (cases "src = []")
  case False
  assume d: "decodeMime src = Inr out"
  let ?n = "alphaChars src"
  from d False obtain acc bits o1 rest where l: "mimeLoop 0 18 src = Inr (acc, bits, o1, rest)" by (auto simp: decodeMime_def bindR_Inr_iff)
  from mimeLoop_count [of 0 0 src] l have c: "length o1 = 3 * (?n div 4)" "bits = 18 - 6 * int (?n mod 4)" by auto
  have "?n mod 4 = 0 \<or> ?n mod 4 = 1 \<or> ?n mod 4 = 2 \<or> ?n mod 4 = 3" by auto
  then have out: "?n mod 4 \<noteq> 1 \<and> length out = 3 * (?n div 4) + (if ?n mod 4 = 0 then 0 else ?n mod 4 - 1)"
    using d False l c by (elim disjE) (auto simp: decodeMime_def split: if_splits)
  show ?thesis
  proof (cases "length src < 2")
    case True
    with False obtain x where x: "src = [x]" by (cases src) auto
    then have "?n = 0" using out by (auto split: if_splits)
    with x out have "kBase64ReverseIndexTable ! unat x \<ge> 0x40" "length out = 0"
      using standard.pad by (auto split: if_splits)
    with x show ?thesis by (simp add: calculateMimeDecodedSize_def)
  next
    case False2: False
    define q r where "q = ?n div 4" and "r = ?n mod 4"
    have n: "?n = 4 * q + r" "r < 4" by (simp_all add: q_def r_def)
    have "3 * ((4 * q + r + 3) div 4) - (if r \<noteq> 0 then 4 - r else 0) = 3 * q + (if r = 0 then 0 else r - 1)" if "r \<noteq> 1"
    proof -
      have "r = 0 \<or> r = 2 \<or> r = 3" using n(2) that by auto
      moreover have "(4 * q + 5) div 4 = q + 1" "(4 * q + 6) div 4 = q + 1" "(4 * q + 3) div 4 = q" by presburger+
      ultimately show ?thesis by (elim disjE) (simp_all add: add.assoc)
    qed
    moreover have "r \<noteq> 1" "length out = 3 * q + (if r = 0 then 0 else r - 1)" using out by (simp_all add: q_def r_def)
    moreover have "mimeChars (length src) src = ?n" using mimeChars_alpha [of src "length src"] by simp
    then have "calculateMimeDecodedSize src = Inr (3 * ((?n + 3) div 4) - (if ?n mod 4 \<noteq> 0 then 4 - ?n mod 4 else 0))"
      unfolding calculateMimeDecodedSize_def Let_def using False False2 by simp
    then have "calculateMimeDecodedSize src = Inr (3 * ((4 * q + r + 3) div 4) - (if r \<noteq> 0 then 4 - r else 0))"
      unfolding r_def [symmetric] unfolding n(1) .
    ultimately show ?thesis by simp
  qed
qed (simp add: decodeMime_def calculateMimeDecodedSize_def)

text \<open>
  C33. What \<^verbatim>\<open>Base64::encodeMime\<close> writes has exactly the size that \<^verbatim>\<open>calculateMimeEncodedSize\<close> reserves, line breaks
  included, and \<^verbatim>\<open>decodeMime\<close> decodes it to the data. Whatever \<^verbatim>\<open>decodeMime\<close> accepts, it writes exactly the number
  of bytes that \<^verbatim>\<open>calculateMimeDecodedSize\<close> reserves.
\<close>

theorem mime_round_trip:
  "decodeMime (encodeMime data) = Inr data \<and> length (encodeMime data) = calculateMimeEncodedSize (length data) \<and>
   (\<forall>src out. decodeMime src = Inr out \<longrightarrow> calculateMimeDecodedSize src = Inr (length out))"
  using decode_encodeMime mime_encoded_size mime_size_exact by blast

theorem mime_round_trip_witness: "calculateMimeDecodedSize (encodeMime [1, 2, 3, 4]) = Inr 4"
proof -
  have "decodeMime (encodeMime [1, 2, 3, 4]) = Inr [1, 2, 3, 4]" using mime_round_trip by blast
  then have "calculateMimeDecodedSize (encodeMime [1, 2, 3, 4]) = Inr (length [1, 2, 3, 4 :: byte])" using mime_round_trip by blast
  then show ?thesis by simp
qed

end
