(* ===== verification/Output_Buffer.thy ===== *)
theory Output_Buffer
  imports Bolt_Prelude
begin

text \<open>
  The output buffer of a task, \<^verbatim>\<open>bolt/exec/OutputBuffer.cpp\<close>: producers enqueue pages, consumers fetch them by
  sequence number and acknowledge them. Each public operation runs under the buffer's mutex and is one function on the
  state; the callbacks it invokes after releasing the mutex, the producers it resumes and the task it informs are the
  events it returns. A null pointer is \<open>None\<close>: in a queue it is the end marker.

  A page is held by shared pointers, so its identity matters: \<open>pg_id\<close>. The state holds all pointers to it but those
  in the list of freed pages, so \<^verbatim>\<open>use_count\<close> is computed from the state. Callbacks and promises are
  numbers; whether a consumer is active when its check is called is an argument, \<open>alive\<close>. An operation includes the
  destruction of its list of freed pages, which the code does after releasing the mutex; \<open>Output_Race\<close> is about
  operations that overlap there. An operation that fails has no successor state. The average buffering time is not
  modelled.

  Sizes, counts and sequence numbers are natural numbers or integers without a width, and their ranges are not checked: the
  byte and row counts have 64 bits in the code, the numbers of drivers 32. The model differs from the code when one of
  them overflows, which takes \<open>2 ^ 63\<close> bytes that went through one buffer or \<open>2 ^ 32\<close> drivers, or a limit of
  more than \<open>2 ^ 64 div 90\<close> bytes, for which the product in \<^verbatim>\<open>continueSize_\<close> wraps around.
\<close>

section \<open>Pages and the shared queue\<close>

record page =
  pg_id :: nat
  pg_size :: nat
  pg_numRows :: "int option"

type_synonym pages = "page option list"

definition ArbitraryBuffer_empty :: "pages \<Rightarrow> bool" where
  "ArbitraryBuffer_empty pages \<longleftrightarrow> pages = [] \<or> pages = [None]"

definition hasNoMoreData :: "pages \<Rightarrow> bool" where
  "hasNoMoreData pages \<longleftrightarrow> pages \<noteq> [] \<and> last pages = None"

definition ArbitraryBuffer_noMoreData :: "pages \<Rightarrow> pages" where
  "ArbitraryBuffer_noMoreData pages = (if pages \<noteq> [] \<and> last pages = None then pages else pages @ [None])"

definition ArbitraryBuffer_enqueue :: "page \<Rightarrow> pages \<Rightarrow> pages result" where
  "ArbitraryBuffer_enqueue page pages = checkR (\<not> hasNoMoreData pages) (Inr (pages @ [Some page]))"

text \<open>The pages taken and the pages left.\<close>

fun getPagesLoop :: "nat \<Rightarrow> nat \<Rightarrow> pages \<Rightarrow> (pages \<times> pages) result" where
  "getPagesLoop bytesRemoved maxBytes [] = Inr ([], [])"
| "getPagesLoop bytesRemoved maxBytes (front # rest) =
     (if bytesRemoved < maxBytes then
        case front of
          None \<Rightarrow> checkR (rest = []) (Inr ([None], front # rest))
        | Some p \<Rightarrow> bindR (getPagesLoop (bytesRemoved + pg_size p) maxBytes rest) (\<lambda>(taken, left). Inr (front # taken, left))
      else Inr ([], front # rest))"

definition getPages :: "nat \<Rightarrow> pages \<Rightarrow> (pages \<times> pages) result" where
  "getPages maxBytes pages = checkR (maxBytes > 0) (getPagesLoop 0 maxBytes pages)"

section \<open>One destination\<close>

record dest_stats =
  st_finished :: bool
  st_bytesBuffered :: int
  st_rowsBuffered :: int
  st_pagesBuffered :: int
  st_bytesSent :: int
  st_rowsSent :: int
  st_pagesSent :: int

definition dest_stats0 :: dest_stats where
  "dest_stats0 = \<lparr>st_finished = False, st_bytesBuffered = 0, st_rowsBuffered = 0, st_pagesBuffered = 0,
     st_bytesSent = 0, st_rowsSent = 0, st_pagesSent = 0\<rparr>"

definition recordEnqueue :: "page \<Rightarrow> dest_stats \<Rightarrow> dest_stats result" where
  "recordEnqueue data st =
     (case pg_numRows data of
        None \<Rightarrow> Inl CheckFailed
      | Some numRows \<Rightarrow>
          Inr (st\<lparr>st_bytesBuffered := st_bytesBuffered st + int (pg_size data),
                  st_rowsBuffered := st_rowsBuffered st + numRows,
                  st_pagesBuffered := st_pagesBuffered st + 1\<rparr>))"

definition recordAcknowledge :: "page \<Rightarrow> dest_stats \<Rightarrow> dest_stats result" where
  "recordAcknowledge data st =
     (case pg_numRows data of
        None \<Rightarrow> Inl CheckFailed
      | Some numRows \<Rightarrow>
          Inr (st\<lparr>st_bytesBuffered := st_bytesBuffered st - int (pg_size data),
                  st_rowsBuffered := st_rowsBuffered st - numRows,
                  st_pagesBuffered := st_pagesBuffered st - 1,
                  st_bytesSent := st_bytesSent st + int (pg_size data),
                  st_rowsSent := st_rowsSent st + numRows,
                  st_pagesSent := st_pagesSent st + 1\<rparr>))"

record dest =
  db_data :: pages
  db_sequence :: int
  db_notify :: "nat option"
  db_aliveCheck :: "nat option"
  db_notifySequence :: int
  db_notifyMaxBytes :: nat
  db_stats :: dest_stats

definition DestinationBuffer_new :: dest where
  "DestinationBuffer_new = \<lparr>db_data = [], db_sequence = 0, db_notify = None, db_aliveCheck = None,
     db_notifySequence = 0, db_notifyMaxBytes = 0, db_stats = dest_stats0\<rparr>"

text \<open>A call of \<^verbatim>\<open>DataAvailable::notify\<close> with a callback.\<close>

datatype event =
    Notify nat pages int
  | Resume "nat list"
  | AllOutputConsumed

definition DestinationBuffer_enqueue :: "page option \<Rightarrow> dest \<Rightarrow> dest result" where
  "DestinationBuffer_enqueue data d =
     (if data = None \<and> db_data d \<noteq> [] \<and> last (db_data d) = None then Inr d
      else bindR (case data of None \<Rightarrow> Inr (db_stats d) | Some p \<Rightarrow> recordEnqueue p (db_stats d)) (\<lambda>st.
        Inr (d\<lparr>db_stats := st, db_data := db_data d @ [data]\<rparr>)))"

definition clearNotify :: "dest \<Rightarrow> dest" where
  "clearNotify d = d\<lparr>db_notify := None, db_aliveCheck := None, db_notifySequence := 0, db_notifyMaxBytes := 0\<rparr>"

fun enqueueAll :: "pages \<Rightarrow> dest \<Rightarrow> dest result" where
  "enqueueAll [] d = Inr d"
| "enqueueAll (page # pages) d = bindR (DestinationBuffer_enqueue page d) (enqueueAll pages)"

definition loadData :: "pages \<Rightarrow> nat \<Rightarrow> dest \<Rightarrow> (pages \<times> dest) result" where
  "loadData buffer maxBytes d =
     bindR (getPages maxBytes buffer) (\<lambda>(taken, left). bindR (enqueueAll taken d) (\<lambda>d. Inr (left, d)))"

definition maybeLoadData :: "(nat \<Rightarrow> bool) \<Rightarrow> pages \<Rightarrow> dest \<Rightarrow> (pages \<times> dest) result" where
  "maybeLoadData alive buffer d =
     checkR (\<not> ArbitraryBuffer_empty buffer \<or> hasNoMoreData buffer)
       (if db_notify d = None then Inr (buffer, d)
        else if (case db_aliveCheck d of None \<Rightarrow> False | Some c \<Rightarrow> \<not> alive c) then Inr (buffer, clearNotify d)
        else checkR (db_notifyMaxBytes d > 0) (loadData buffer (db_notifyMaxBytes d) d))"

text \<open>The loop that collects the result: the bytes collected so far, and the data that is left.\<close>

fun resultLoop :: "nat \<Rightarrow> nat \<Rightarrow> pages \<Rightarrow> pages result" where
  "resultLoop maxBytes resultBytes [] = Inr []"
| "resultLoop maxBytes resultBytes (None # rest) = checkR (rest = []) (Inr [None])"
| "resultLoop maxBytes resultBytes (Some p # rest) =
     (let resultBytes = resultBytes + pg_size p in
      if resultBytes \<ge> maxBytes then Inr [Some p]
      else bindR (resultLoop maxBytes resultBytes rest) (\<lambda>result. Inr (Some p # result)))"

definition DestinationBuffer_getData ::
    "nat \<Rightarrow> int \<Rightarrow> nat option \<Rightarrow> nat option \<Rightarrow> pages option \<Rightarrow> dest \<Rightarrow> (pages \<times> pages option \<times> dest) result" where
  "DestinationBuffer_getData maxBytes sequence notify activeCheck arbitraryBuffer d =
     checkR (sequence \<ge> db_sequence d)
       (bindR (case arbitraryBuffer of
                 None \<Rightarrow> Inr (None, d)
               | Some buffer \<Rightarrow> bindR (loadData buffer maxBytes d) (\<lambda>(buffer, d). Inr (Some buffer, d)))
          (\<lambda>(arbitraryBuffer, d).
             if sequence - db_sequence d > int (length (db_data d)) then
               Inr ([], arbitraryBuffer,
                 d\<lparr>db_notify := notify, db_aliveCheck := activeCheck,
                   db_notifySequence := min (db_notifySequence d) sequence, db_notifyMaxBytes := maxBytes\<rparr>)
             else if sequence - db_sequence d = int (length (db_data d)) then
               Inr ([], arbitraryBuffer,
                 d\<lparr>db_notify := notify, db_aliveCheck := activeCheck, db_notifySequence := sequence,
                   db_notifyMaxBytes := maxBytes\<rparr>)
             else bindR (resultLoop maxBytes 0 (drop (nat (sequence - db_sequence d)) (db_data d))) (\<lambda>result.
               Inr (result, arbitraryBuffer, d))))"

definition getAndClearNotify :: "dest \<Rightarrow> (event list \<times> dest) result" where
  "getAndClearNotify d =
     (case db_notify d of
        None \<Rightarrow> checkR (db_aliveCheck d = None) (Inr ([], d))
      | Some callback \<Rightarrow>
          bindR (DestinationBuffer_getData (db_notifyMaxBytes d) (db_notifySequence d) None None None d) (\<lambda>(data, _, d').
            Inr ([Notify callback data (db_notifySequence d)], clearNotify d')))"

definition DestinationBuffer_finish :: "dest \<Rightarrow> dest result" where
  "DestinationBuffer_finish d =
     checkR (db_notify d = None) (checkR (db_data d = []) (Inr (d\<lparr>db_stats := (db_stats d)\<lparr>st_finished := True\<rparr>\<rparr>)))"

text \<open>The loop of \<^verbatim>\<open>acknowledge\<close> and \<^verbatim>\<open>deleteResults\<close> over the first \<open>n\<close> entries.\<close>

fun freeLoop :: "nat \<Rightarrow> pages \<Rightarrow> dest_stats \<Rightarrow> (page list \<times> dest_stats) result" where
  "freeLoop 0 data st = Inr ([], st)"
| "freeLoop (Suc n) [] st = Inl UndefinedBehaviour"
| "freeLoop (Suc n) (None # rest) st = checkR (rest = []) (Inr ([], st))"
| "freeLoop (Suc n) (Some p # rest) st =
     bindR (recordAcknowledge p st) (\<lambda>st. bindR (freeLoop n rest st) (\<lambda>(freed, st). Inr (p # freed, st)))"

definition DestinationBuffer_acknowledge :: "int \<Rightarrow> dest \<Rightarrow> (page list \<times> dest) result" where
  "DestinationBuffer_acknowledge sequence d =
     (let numDeleted = sequence - db_sequence d in
      if numDeleted \<le> 0 then Inr ([], d)
      else checkR (numDeleted \<le> int (length (db_data d)))
        (bindR (freeLoop (nat numDeleted) (db_data d) (db_stats d)) (\<lambda>(freed, st).
          Inr (freed, d\<lparr>db_data := drop (nat numDeleted) (db_data d), db_sequence := db_sequence d + numDeleted,
                        db_stats := st\<rparr>))))"

definition DestinationBuffer_deleteResults :: "dest \<Rightarrow> (page list \<times> dest) result" where
  "DestinationBuffer_deleteResults d =
     bindR (freeLoop (length (db_data d)) (db_data d) (db_stats d)) (\<lambda>(freed, st).
       Inr (freed, d\<lparr>db_data := [], db_stats := st\<rparr>))"

section \<open>The output buffer\<close>

datatype output_kind = kPartitioned | kBroadcast | kArbitrary

record output_buffer =
  ob_kind :: output_kind
  ob_maxSize :: nat
  ob_continueSize :: nat
  ob_arbitraryBuffer :: "pages option"
  ob_numDrivers :: nat
  ob_noMoreBuffers :: bool
  ob_dataToBroadcast :: "page list"
  ob_bufferedBytes :: int
  ob_bufferedPages :: int
  ob_numOutputBytes :: nat
  ob_numOutputRows :: int
  ob_numOutputPages :: nat
  ob_promises :: "nat list"
  ob_nextArbitraryLoadBufferIndex :: nat
  ob_buffers :: "dest option list"
  ob_finishedBufferStats :: "dest_stats list"
  ob_numFinished :: nat
  ob_numFinalAcknowledges :: nat
  ob_atEnd :: bool
  ob_isMorselDriven :: bool
  ob_numFinishedPushBasedDriverSchedulers :: nat
  ob_numPushBasedDriverSchedulers :: nat

definition kContinuePct :: nat where "kContinuePct = 90"

definition OutputBuffer_new :: "output_kind \<Rightarrow> nat \<Rightarrow> nat \<Rightarrow> nat \<Rightarrow> output_buffer" where
  "OutputBuffer_new kind maxOutputBufferSize numDestinations numDrivers =
     \<lparr>ob_kind = kind, ob_maxSize = maxOutputBufferSize, ob_continueSize = (maxOutputBufferSize * kContinuePct) div 100,
      ob_arbitraryBuffer = (if kind = kArbitrary then Some [] else None), ob_numDrivers = numDrivers,
      ob_noMoreBuffers = False, ob_dataToBroadcast = [], ob_bufferedBytes = 0, ob_bufferedPages = 0,
      ob_numOutputBytes = 0, ob_numOutputRows = 0, ob_numOutputPages = 0, ob_promises = [],
      ob_nextArbitraryLoadBufferIndex = 0, ob_buffers = replicate numDestinations (Some DestinationBuffer_new),
      ob_finishedBufferStats = replicate numDestinations dest_stats0, ob_numFinished = 0, ob_numFinalAcknowledges = 0,
      ob_atEnd = False, ob_isMorselDriven = False, ob_numFinishedPushBasedDriverSchedulers = 0,
      ob_numPushBasedDriverSchedulers = numDrivers\<rparr>"

text \<open>\<^verbatim>\<open>use_count\<close>: the pointers to a page that the state holds.\<close>

definition buffers_pages :: "dest option list \<Rightarrow> page list" where
  "buffers_pages bs = concat (map (\<lambda>b. case b of None \<Rightarrow> [] | Some d \<Rightarrow> List.map_filter (\<lambda>x. x) (db_data d)) bs)"

definition held_pages :: "output_buffer \<Rightarrow> page list" where
  "held_pages ob = buffers_pages (ob_buffers ob) @ ob_dataToBroadcast ob @
     (case ob_arbitraryBuffer ob of None \<Rightarrow> [] | Some pages \<Rightarrow> List.map_filter (\<lambda>x. x) pages)"

definition updateStatsWithEnqueuedPageLocked :: "nat \<Rightarrow> int \<Rightarrow> output_buffer \<Rightarrow> output_buffer" where
  "updateStatsWithEnqueuedPageLocked pageBytes pageRows ob =
     ob\<lparr>ob_bufferedBytes := ob_bufferedBytes ob + int pageBytes, ob_bufferedPages := ob_bufferedPages ob + 1,
        ob_numOutputPages := ob_numOutputPages ob + 1, ob_numOutputRows := ob_numOutputRows ob + pageRows,
        ob_numOutputBytes := ob_numOutputBytes ob + pageBytes\<rparr>"

definition updateStatsWithFreedPagesLocked :: "nat \<Rightarrow> nat \<Rightarrow> output_buffer \<Rightarrow> output_buffer result" where
  "updateStatsWithFreedPagesLocked numPages pageBytes ob =
     (let bytes = ob_bufferedBytes ob - int pageBytes; pages = ob_bufferedPages ob - int numPages in
      checkR (bytes \<ge> 0) (checkR (pages \<ge> 0) (Inr (ob\<lparr>ob_bufferedBytes := bytes, ob_bufferedPages := pages\<rparr>))))"

text \<open>The promises to fulfil are returned.\<close>

definition updateAfterAcknowledgeLocked ::
    "page list \<Rightarrow> (page \<Rightarrow> nat) \<Rightarrow> output_buffer \<Rightarrow> (nat list \<times> output_buffer) result" where
  "updateAfterAcknowledgeLocked freed use_count ob =
     (let last_uses = filter (\<lambda>free. use_count free = 1) freed;
          freedPages = length last_uses; freedBytes = sum_list (map pg_size last_uses)
      in if freedPages = 0 then Inr ([], ob)
         else checkR (freedBytes > 0)
           (bindR (updateStatsWithFreedPagesLocked freedPages freedBytes ob) (\<lambda>ob.
             if ob_bufferedBytes ob < int (ob_continueSize ob) then Inr (ob_promises ob, ob\<lparr>ob_promises := []\<rparr>)
             else Inr ([], ob))))"

definition releaseAfterAcknowledge :: "nat list \<Rightarrow> event list" where
  "releaseAfterAcknowledge promises = (if promises = [] then [] else [Resume promises])"

definition isFinishedLocked :: "output_buffer \<Rightarrow> bool" where
  "isFinishedLocked ob \<longleftrightarrow>
     (if ob_kind ob = kBroadcast \<and> \<not> ob_noMoreBuffers ob then False else list_all (\<lambda>b. b = None) (ob_buffers ob))"

text \<open>New destinations of a broadcast receive everything that was produced.\<close>

definition newDestination :: "output_buffer \<Rightarrow> dest result" where
  "newDestination ob =
     (if ob_kind ob = kBroadcast then
        bindR (enqueueAll (map Some (ob_dataToBroadcast ob)) DestinationBuffer_new) (\<lambda>d.
          if ob_atEnd ob then DestinationBuffer_enqueue None d else Inr d)
      else Inr DestinationBuffer_new)"

definition addOutputBuffersLocked :: "nat \<Rightarrow> output_buffer \<Rightarrow> output_buffer result" where
  "addOutputBuffersLocked numBuffers ob =
     checkR (\<not> ob_noMoreBuffers ob) (checkR (ob_kind ob \<noteq> kPartitioned)
       (bindR (mapR (\<lambda>_. newDestination ob) [length (ob_buffers ob)..<numBuffers]) (\<lambda>new.
         Inr (ob\<lparr>ob_buffers := ob_buffers ob @ map Some new,
                 ob_finishedBufferStats :=
                   take numBuffers (ob_finishedBufferStats ob) @
                   replicate (numBuffers - length (ob_finishedBufferStats ob)) dest_stats0\<rparr>))))"

text \<open>A loop over the buffers that are left, which collects events.\<close>

fun forBuffers ::
    "('s \<Rightarrow> dest \<Rightarrow> ('s \<times> event list \<times> dest) result) \<Rightarrow> 's \<Rightarrow> dest option list \<Rightarrow> ('s \<times> event list \<times> dest option list) result" where
  "forBuffers f s [] = Inr (s, [], [])"
| "forBuffers f s (None # bs) = bindR (forBuffers f s bs) (\<lambda>(s, evs, bs). Inr (s, evs, None # bs))"
| "forBuffers f s (Some d # bs) =
     bindR (f s d) (\<lambda>(s, ev, d). bindR (forBuffers f s bs) (\<lambda>(s, evs, bs). Inr (s, ev @ evs, Some d # bs)))"

definition enqueueAndNotify :: "page option \<Rightarrow> dest \<Rightarrow> (event list \<times> dest) result" where
  "enqueueAndNotify data d = bindR (DestinationBuffer_enqueue data d) getAndClearNotify"

definition loadAndNotify :: "(nat \<Rightarrow> bool) \<Rightarrow> pages \<Rightarrow> dest \<Rightarrow> (pages \<times> event list \<times> dest) result" where
  "loadAndNotify alive buffer d =
     bindR (maybeLoadData alive buffer d) (\<lambda>(buffer, d). bindR (getAndClearNotify d) (\<lambda>(ev, d). Inr (buffer, ev, d)))"

definition enqueueBroadcastOutputLocked :: "page \<Rightarrow> output_buffer \<Rightarrow> (event list \<times> output_buffer) result" where
  "enqueueBroadcastOutputLocked data ob =
     checkR (ob_arbitraryBuffer ob = None)
       (bindR (forBuffers (\<lambda>_ d. bindR (enqueueAndNotify (Some data) d) (\<lambda>(ev, d). Inr ((), ev, d))) () (ob_buffers ob))
          (\<lambda>(_, evs, bs).
             Inr (evs, ob\<lparr>ob_buffers := bs,
                          ob_dataToBroadcast := ob_dataToBroadcast ob @ (if ob_noMoreBuffers ob then [] else [data])\<rparr>)))"

text \<open>The round over the destinations, from \<open>bufferId\<close> on, that load from the shared queue.\<close>

fun arbitraryLoop ::
    "(nat \<Rightarrow> bool) \<Rightarrow> nat \<Rightarrow> nat \<Rightarrow> pages \<Rightarrow> output_buffer \<Rightarrow> (event list \<times> output_buffer) result" where
  "arbitraryLoop alive 0 bufferId buffer ob = Inr ([], ob\<lparr>ob_arbitraryBuffer := Some buffer\<rparr>)"
| "arbitraryLoop alive (Suc n) bufferId buffer ob =
     (if ArbitraryBuffer_empty buffer
      then Inr ([], ob\<lparr>ob_arbitraryBuffer := Some buffer, ob_nextArbitraryLoadBufferIndex := bufferId\<rparr>)
      else let next = (bufferId + 1) mod length (ob_buffers ob) in
        case ob_buffers ob ! bufferId of
          None \<Rightarrow> arbitraryLoop alive n next buffer ob
        | Some d \<Rightarrow>
            bindR (loadAndNotify alive buffer d) (\<lambda>(buffer, ev, d).
              bindR (arbitraryLoop alive n next buffer (ob\<lparr>ob_buffers := (ob_buffers ob)[bufferId := Some d]\<rparr>)) (\<lambda>(evs, ob).
                Inr (ev @ evs, ob))))"

definition enqueueArbitraryOutputLocked ::
    "(nat \<Rightarrow> bool) \<Rightarrow> page \<Rightarrow> output_buffer \<Rightarrow> (event list \<times> output_buffer) result" where
  "enqueueArbitraryOutputLocked alive data ob =
     (case ob_arbitraryBuffer ob of
        None \<Rightarrow> Inl UndefinedBehaviour
      | Some buffer \<Rightarrow>
          checkR (\<not> hasNoMoreData buffer)
            (bindR (ArbitraryBuffer_enqueue data buffer) (\<lambda>buffer.
              checkR (ob_nextArbitraryLoadBufferIndex ob < length (ob_buffers ob))
                (arbitraryLoop alive (length (ob_buffers ob)) (ob_nextArbitraryLoadBufferIndex ob) buffer ob))))"

definition enqueuePartitionedOutputLocked :: "nat \<Rightarrow> page \<Rightarrow> output_buffer \<Rightarrow> (event list \<times> output_buffer) result" where
  "enqueuePartitionedOutputLocked destination data ob =
     checkR (ob_arbitraryBuffer ob = None) (checkR (destination < length (ob_buffers ob))
       (case ob_buffers ob ! destination of
          Some d \<Rightarrow>
            bindR (enqueueAndNotify (Some data) d) (\<lambda>(ev, d).
              Inr (ev, ob\<lparr>ob_buffers := (ob_buffers ob)[destination := Some d]\<rparr>))
        | None \<Rightarrow> bindR (updateStatsWithFreedPagesLocked 1 (pg_size data) ob) (\<lambda>ob. Inr ([], ob))))"

text \<open>\<open>future\<close> is the promise to use when the producer is to be blocked, if it can be.\<close>

definition OutputBuffer_enqueue ::
    "bool \<Rightarrow> (nat \<Rightarrow> bool) \<Rightarrow> nat \<Rightarrow> page \<Rightarrow> nat option \<Rightarrow> output_buffer \<Rightarrow> (bool \<times> event list \<times> output_buffer) result" where
  "OutputBuffer_enqueue isRunning alive destination data future ob =
     checkR isRunning (checkR (destination < length (ob_buffers ob))
       (case pg_numRows data of
          None \<Rightarrow> Inl BadOptionalAccess
        | Some rows \<Rightarrow>
            let ob = updateStatsWithEnqueuedPageLocked (pg_size data) rows ob in
            bindR (case ob_kind ob of
                     kBroadcast \<Rightarrow> checkR (destination = 0) (enqueueBroadcastOutputLocked data ob)
                   | kArbitrary \<Rightarrow> checkR (destination = 0) (enqueueArbitraryOutputLocked alive data ob)
                   | kPartitioned \<Rightarrow> enqueuePartitionedOutputLocked destination data ob) (\<lambda>(evs, ob).
              case future of
                Some promise \<Rightarrow>
                  if ob_bufferedBytes ob > int (ob_maxSize ob)
                  then Inr (True, evs, ob\<lparr>ob_promises := ob_promises ob @ [promise]\<rparr>)
                  else Inr (False, evs, ob)
              | None \<Rightarrow> Inr (False, evs, ob))))"

text \<open>When all drivers have finished, the end marker goes to every destination.\<close>

definition checkIfDone :: "(nat \<Rightarrow> bool) \<Rightarrow> bool \<Rightarrow> output_buffer \<Rightarrow> (event list \<times> output_buffer) result" where
  "checkIfDone alive oneDriverFinished ob =
     (let ob = (if oneDriverFinished then ob\<lparr>ob_numFinished := ob_numFinished ob + 1\<rparr> else ob) in
      checkR (if ob_isMorselDriven ob
              then ob_numFinishedPushBasedDriverSchedulers ob \<le> ob_numPushBasedDriverSchedulers ob
              else ob_numFinished ob \<le> ob_numDrivers ob)
        (let ob = ob\<lparr>ob_atEnd :=
               (if ob_isMorselDriven ob
                then ob_numFinishedPushBasedDriverSchedulers ob = ob_numPushBasedDriverSchedulers ob \<and>
                     ob_numFinished ob = ob_numDrivers ob
                else ob_numFinished ob = ob_numDrivers ob)\<rparr>
         in if \<not> ob_atEnd ob then Inr ([], ob)
            else if ob_kind ob = kArbitrary then
              (case ob_arbitraryBuffer ob of
                 None \<Rightarrow> Inl UndefinedBehaviour
               | Some buffer \<Rightarrow>
                   bindR (forBuffers (loadAndNotify alive) (ArbitraryBuffer_noMoreData buffer) (ob_buffers ob)) (\<lambda>(buffer, evs, bs).
                     Inr (evs, ob\<lparr>ob_arbitraryBuffer := Some buffer, ob_buffers := bs\<rparr>)))
            else
              bindR (forBuffers (\<lambda>_ d. bindR (enqueueAndNotify None d) (\<lambda>(ev, d). Inr ((), ev, d))) () (ob_buffers ob))
                (\<lambda>(_, evs, bs). Inr (evs, ob\<lparr>ob_buffers := bs\<rparr>))))"

definition OutputBuffer_noMoreData :: "(nat \<Rightarrow> bool) \<Rightarrow> output_buffer \<Rightarrow> (event list \<times> output_buffer) result" where
  "OutputBuffer_noMoreData alive ob = checkIfDone alive True ob"

definition noMoreDrivers :: "(nat \<Rightarrow> bool) \<Rightarrow> output_buffer \<Rightarrow> (event list \<times> output_buffer) result" where
  "noMoreDrivers alive ob = checkIfDone alive False ob"

definition updateNumDrivers :: "(nat \<Rightarrow> bool) \<Rightarrow> nat \<Rightarrow> output_buffer \<Rightarrow> (event list \<times> output_buffer) result" where
  "updateNumDrivers alive newNumDrivers ob =
     (let ob = ob\<lparr>ob_numDrivers := newNumDrivers\<rparr> in
      if (if ob_isMorselDriven ob
          then ob_numFinishedPushBasedDriverSchedulers ob = ob_numPushBasedDriverSchedulers ob \<and>
               ob_numDrivers ob = ob_numFinished ob
          else ob_numDrivers ob = ob_numFinished ob)
      then noMoreDrivers alive ob else Inr ([], ob))"

definition updateOutputBuffers :: "nat \<Rightarrow> bool \<Rightarrow> output_buffer \<Rightarrow> (event list \<times> output_buffer) result" where
  "updateOutputBuffers numBuffers noMoreBuffers ob =
     (if ob_kind ob = kPartitioned then
        checkR (length (ob_buffers ob) = numBuffers) (checkR noMoreBuffers (Inr ([], ob\<lparr>ob_noMoreBuffers := True\<rparr>)))
      else bindR (if numBuffers > length (ob_buffers ob) then addOutputBuffersLocked numBuffers ob else Inr ob) (\<lambda>ob.
        if \<not> noMoreBuffers then Inr ([], ob)
        else let ob = ob\<lparr>ob_noMoreBuffers := True\<rparr>; finished = isFinishedLocked ob in
          bindR (updateAfterAcknowledgeLocked (ob_dataToBroadcast ob) (count_list (held_pages ob)) ob) (\<lambda>(promises, ob).
            Inr (releaseAfterAcknowledge promises @ (if finished then [AllOutputConsumed] else []),
                 ob\<lparr>ob_dataToBroadcast := []\<rparr>))))"

definition OutputBuffer_acknowledge :: "nat \<Rightarrow> int \<Rightarrow> output_buffer \<Rightarrow> (event list \<times> output_buffer) result" where
  "OutputBuffer_acknowledge destination sequence ob =
     checkR (destination < length (ob_buffers ob))
       (case ob_buffers ob ! destination of
          None \<Rightarrow> Inr ([], ob)
        | Some d \<Rightarrow>
            bindR (DestinationBuffer_acknowledge sequence d) (\<lambda>(freed, d).
              let ob = ob\<lparr>ob_buffers := (ob_buffers ob)[destination := Some d]\<rparr> in
              bindR (updateAfterAcknowledgeLocked freed (count_list (freed @ held_pages ob)) ob) (\<lambda>(promises, ob).
                Inr (releaseAfterAcknowledge promises, ob))))"

definition OutputBuffer_deleteResults :: "nat \<Rightarrow> output_buffer \<Rightarrow> (bool \<times> event list \<times> output_buffer) result" where
  "OutputBuffer_deleteResults destination ob =
     checkR (destination < length (ob_buffers ob))
       (case ob_buffers ob ! destination of
          None \<Rightarrow> Inr (False, [], ob)
        | Some d \<Rightarrow>
            bindR (DestinationBuffer_deleteResults d) (\<lambda>(freed, d).
            bindR (getAndClearNotify d) (\<lambda>(dataAvailable, d).
            bindR (DestinationBuffer_finish d) (\<lambda>d.
              checkR (destination < length (ob_finishedBufferStats ob))
                (let ob = ob\<lparr>ob_finishedBufferStats := (ob_finishedBufferStats ob)[destination := db_stats d],
                             ob_buffers := (ob_buffers ob)[destination := None],
                             ob_numFinalAcknowledges := ob_numFinalAcknowledges ob + 1\<rparr>;
                     finished = isFinishedLocked ob
                 in bindR (updateAfterAcknowledgeLocked freed (count_list (freed @ held_pages ob)) ob) (\<lambda>(promises, ob).
                      Inr (finished,
                           dataAvailable @ releaseAfterAcknowledge promises @ (if finished then [AllOutputConsumed] else []),
                           ob)))))))"

definition OutputBuffer_getData ::
    "nat \<Rightarrow> nat \<Rightarrow> int \<Rightarrow> nat \<Rightarrow> nat option \<Rightarrow> output_buffer \<Rightarrow> (event list \<times> output_buffer) result" where
  "OutputBuffer_getData destination maxBytes sequence notify activeCheck ob =
     bindR (if ob_kind ob \<noteq> kPartitioned \<and> destination \<ge> length (ob_buffers ob)
            then addOutputBuffersLocked (destination + 1) ob else Inr ob) (\<lambda>ob.
       checkR (destination < length (ob_buffers ob))
         (case ob_buffers ob ! destination of
            None \<Rightarrow> Inl CheckFailed
          | Some d \<Rightarrow>
              bindR (DestinationBuffer_acknowledge sequence d) (\<lambda>(freed, d).
                let ob = ob\<lparr>ob_buffers := (ob_buffers ob)[destination := Some d]\<rparr> in
                bindR (updateAfterAcknowledgeLocked freed (count_list (freed @ held_pages ob)) ob) (\<lambda>(promises, ob).
                bindR (DestinationBuffer_getData maxBytes sequence (Some notify) activeCheck (ob_arbitraryBuffer ob) d)
                  (\<lambda>(data, arbitraryBuffer, d).
                     Inr (releaseAfterAcknowledge promises @ (if data = [] then [] else [Notify notify data sequence]),
                          ob\<lparr>ob_buffers := (ob_buffers ob)[destination := Some d],
                             ob_arbitraryBuffer := arbitraryBuffer\<rparr>))))))"

definition OutputBuffer_terminate :: "bool \<Rightarrow> output_buffer \<Rightarrow> (event list \<times> output_buffer) result" where
  "OutputBuffer_terminate isRunning ob =
     checkR (\<not> isRunning) (Inr (releaseAfterAcknowledge (ob_promises ob), ob\<lparr>ob_promises := []\<rparr>))"

definition addFinishedPushBasedDriverSchedulers :: "output_buffer \<Rightarrow> output_buffer result" where
  "addFinishedPushBasedDriverSchedulers ob =
     checkR (ob_isMorselDriven ob)
       (Inr (ob\<lparr>ob_numFinishedPushBasedDriverSchedulers := ob_numFinishedPushBasedDriverSchedulers ob + 1\<rparr>))"

definition setMorselDriven :: "output_buffer \<Rightarrow> output_buffer" where
  "setMorselDriven ob = ob\<lparr>ob_isMorselDriven := True\<rparr>"

end
