(* ===== verification/Output_Dest.thy ===== *)
theory Output_Dest
  imports Output_Buffer
begin

text \<open>
  One destination: its buffer holds what is left of a stream of pages, from its sequence number on. The lemmas describe
  each operation on a destination that is related to a stream.
\<close>

section \<open>Streams\<close>

text \<open>A stream is the pages in order, and the end marker once the producers are done.\<close>

definition stream :: "page list \<Rightarrow> bool \<Rightarrow> pages" where
  "stream ps ended = map Some ps @ (if ended then [None] else [])"

definition page_ok :: "page \<Rightarrow> bool" where
  "page_ok p \<longleftrightarrow> 0 < pg_size p \<and> pg_numRows p \<noteq> None"

definition pages_of :: "pages \<Rightarrow> page list" where
  "pages_of xs = List.map_filter (\<lambda>x. x) xs"

lemma pages_of_simps [simp]:
  "pages_of [] = []" "pages_of (None # xs) = pages_of xs" "pages_of (Some p # xs) = p # pages_of xs"
  "pages_of (xs @ ys) = pages_of xs @ pages_of ys" "pages_of (map Some ps) = ps"
  by (simp_all add: pages_of_def map_filter_simps) (simp_all add: List.map_filter_def comp_def)

lemma pages_of_stream [simp]: "pages_of (stream ps e) = ps"
  by (simp add: stream_def)

text \<open>What is left of a stream is again one.\<close>

definition tail_ok :: "pages \<Rightarrow> bool" where
  "tail_ok xs \<longleftrightarrow> (\<exists>ps e. xs = stream ps e \<and> list_all page_ok ps)"

lemma tail_ok_stream: "list_all page_ok ps \<Longrightarrow> tail_ok (stream ps e)"
  by (auto simp: tail_ok_def)

lemma tail_ok_Nil [simp]: "tail_ok []"
  unfolding tail_ok_def stream_def by (rule exI [of _ "[]"], rule exI [of _ False]) simp

lemma tail_ok_Cons_Some: "tail_ok (Some p # xs) \<longleftrightarrow> page_ok p \<and> tail_ok xs"
proof
  assume "tail_ok (Some p # xs)"
  then obtain ps e where s: "Some p # xs = stream ps e" "list_all page_ok ps" by (auto simp: tail_ok_def)
  then obtain qs where "ps = p # qs" "xs = stream qs e" by (cases ps) (auto simp: stream_def split: if_splits)
  with s(2) show "page_ok p \<and> tail_ok xs" by (auto simp: tail_ok_def)
next
  assume "page_ok p \<and> tail_ok xs"
  then obtain ps e where "page_ok p" "xs = stream ps e" "list_all page_ok ps" by (auto simp: tail_ok_def)
  then show "tail_ok (Some p # xs)" unfolding tail_ok_def by (intro exI [of _ "p # ps"] exI [of _ e]) (simp add: stream_def)
qed

lemma tail_ok_Cons_None: "tail_ok (None # xs) \<longleftrightarrow> xs = []"
proof
  assume "tail_ok (None # xs)"
  then obtain ps e where s: "None # xs = stream ps e" by (auto simp: tail_ok_def)
  then show "xs = []" by (cases ps) (auto simp: stream_def split: if_splits)
next
  assume "xs = []"
  then show "tail_ok (None # xs)" unfolding tail_ok_def by (intro exI [of _ "[]"] exI [of _ True]) (simp add: stream_def)
qed

lemma tail_ok_drop: "tail_ok xs \<Longrightarrow> tail_ok (drop n xs)"
proof (induction xs arbitrary: n)
  case (Cons x xs)
  then show ?case by (cases n; cases x) (auto simp: tail_ok_Cons_Some tail_ok_Cons_None)
qed simp

section \<open>The loops\<close>

definition total_bytes :: "page list \<Rightarrow> nat" where
  "total_bytes ps = sum_list (map pg_size ps)"

lemma total_bytes_simps [simp]: "total_bytes [] = 0" "total_bytes (p # ps) = pg_size p + total_bytes ps" "total_bytes (ps @ qs) = total_bytes ps + total_bytes qs"
  by (simp_all add: total_bytes_def)

definition stats_ok :: "dest_stats \<Rightarrow> page list \<Rightarrow> bool" where
  "stats_ok st ps \<longleftrightarrow> st_bytesBuffered st = int (total_bytes ps) \<and> st_pagesBuffered st = int (length ps)"

lemma freeLoop_ok:
  "tail_ok data \<Longrightarrow> n \<le> length data \<Longrightarrow> stats_ok st (pages_of data) \<Longrightarrow>
   \<exists>st'. freeLoop n data st = Inr (pages_of (take n data), st') \<and> stats_ok st' (pages_of (drop n data)) \<and> st_finished st' = st_finished st"
proof (induction n data st rule: freeLoop.induct)
  case (4 n p rest st)
  then obtain rows where r: "pg_numRows p = Some rows" by (auto simp: tail_ok_Cons_Some page_ok_def)
  define st1 where "st1 = st\<lparr>st_bytesBuffered := st_bytesBuffered st - int (pg_size p), st_rowsBuffered := st_rowsBuffered st - rows,
    st_pagesBuffered := st_pagesBuffered st - 1, st_bytesSent := st_bytesSent st + int (pg_size p),
    st_rowsSent := st_rowsSent st + rows, st_pagesSent := st_pagesSent st + 1\<rparr>"
  have a: "recordAcknowledge p st = Inr st1" by (simp add: recordAcknowledge_def r st1_def)
  have "stats_ok st1 (pages_of rest)" using 4(4) by (simp add: stats_ok_def st1_def)
  with 4 a obtain st' where "freeLoop n rest st1 = Inr (pages_of (take n rest), st')" "stats_ok st' (pages_of (drop n rest))"
    "st_finished st' = st_finished st1" by (auto simp: tail_ok_Cons_Some)
  with a show ?case by (simp add: st1_def)
qed (auto simp: tail_ok_Cons_None)

text \<open>A limit of no bytes lets one page pass, as a limit of one byte does.\<close>

lemma resultLoop_none: "tail_ok data \<Longrightarrow> resultLoop maxBytes n data = resultLoop (max 1 maxBytes) n data"
  by (cases maxBytes; cases data; cases "hd data") (auto simp: tail_ok_Cons_Some page_ok_def Let_def)

lemma resultLoop_ok:
  assumes "tail_ok data" "data \<noteq> []" "0 < maxBytes"
  shows "\<exists>result rest. resultLoop maxBytes n data = Inr result \<and> data = result @ rest \<and> result \<noteq> [] \<and>
    (n < maxBytes \<longrightarrow> n + total_bytes (pages_of (butlast result)) < maxBytes) \<and>
    (rest = [] \<or> maxBytes \<le> n + total_bytes (pages_of result))"
  using assms
proof (induction maxBytes n data rule: resultLoop.induct)
  case (2 maxBytes n rest)
  then show ?case by (simp add: tail_ok_Cons_None)
next
  case (3 maxBytes n p rest)
  let ?n = "n + pg_size p"
  show ?case
  proof (cases "?n \<ge> maxBytes \<or> rest = []")
    case True
    then show ?thesis by (auto simp: Let_def)
  next
    case False
    with 3 obtain result left where r: "resultLoop maxBytes ?n rest = Inr result" "rest = result @ left" "result \<noteq> []"
      "?n < maxBytes \<longrightarrow> ?n + total_bytes (pages_of (butlast result)) < maxBytes" "left = [] \<or> maxBytes \<le> ?n + total_bytes (pages_of result)"
      by (auto simp: tail_ok_Cons_Some)
    have b: "butlast (Some p # result) = Some p # butlast result" using r(3) by simp
    show ?thesis
      by (rule exI [of _ "Some p # result"], rule exI [of _ left]) (use False r b in \<open>auto simp: Let_def ac_simps\<close>)
  qed
qed simp

section \<open>A destination and its stream\<close>

definition dest_ok :: "dest \<Rightarrow> pages \<Rightarrow> bool" where
  "dest_ok d s \<longleftrightarrow> tail_ok s \<and> 0 \<le> db_sequence d \<and> nat (db_sequence d) \<le> length s \<and> db_data d = drop (nat (db_sequence d)) s \<and>
     stats_ok (db_stats d) (pages_of (db_data d)) \<and> \<not> st_finished (db_stats d) \<and>
     (if db_notify d = None then db_aliveCheck d = None
      else db_data d = [] \<and> db_notifySequence d = db_sequence d)"

lemma dest_okD:
  assumes "dest_ok d s"
  shows "tail_ok s" "0 \<le> db_sequence d" "nat (db_sequence d) \<le> length s" "db_data d = drop (nat (db_sequence d)) s"
    "stats_ok (db_stats d) (pages_of (db_data d))" "tail_ok (db_data d)"
  using assms tail_ok_drop by (auto simp: dest_ok_def)

lemma dest_new_ok: "dest_ok DestinationBuffer_new []"
  by (simp add: dest_ok_def DestinationBuffer_new_def stats_ok_def dest_stats0_def)

lemma open_last: "tail_ok (s @ [x]) \<Longrightarrow> s \<noteq> [] \<Longrightarrow> last s \<noteq> None"
proof (induction s)
  case (Cons y s)
  then show ?case by (cases y) (auto simp: tail_ok_Cons_None tail_ok_Cons_Some)
qed simp

lemma enqueue_ok:
  assumes "dest_ok d s" "tail_ok (s @ [x])"
  shows "\<exists>st. DestinationBuffer_enqueue x d = Inr (d\<lparr>db_stats := st, db_data := db_data d @ [x]\<rparr>) \<and>
    stats_ok st (pages_of (db_data d @ [x])) \<and> st_finished st = st_finished (db_stats d)"
proof -
  note d = dest_okD [OF assms(1)]
  have nl: "\<not> (x = None \<and> db_data d \<noteq> [] \<and> last (db_data d) = None)"
  proof
    assume a: "x = None \<and> db_data d \<noteq> [] \<and> last (db_data d) = None"
    then have "nat (db_sequence d) < length s" using d(4) by simp
    then have "last (db_data d) = last s" "s \<noteq> []" using d(4) by auto
    then show False using open_last [OF assms(2)] a by simp
  qed
  show ?thesis
  proof (cases x)
    case None
    then show ?thesis using nl d(5) by (intro exI [of _ "db_stats d"]) (auto simp: DestinationBuffer_enqueue_def)
  next
    case (Some p)
    have "page_ok p" using assms(2) Some tail_ok_drop [of "s @ [x]" "length s"] by (simp add: tail_ok_Cons_Some)
    then obtain rows where "pg_numRows p = Some rows" by (auto simp: page_ok_def)
    then show ?thesis using Some d(5) by (auto simp: DestinationBuffer_enqueue_def recordEnqueue_def stats_ok_def)
  qed
qed

lemma clearNotify_simps [simp]:
  "db_data (clearNotify d) = db_data d" "db_sequence (clearNotify d) = db_sequence d" "db_notify (clearNotify d) = None"
  "db_aliveCheck (clearNotify d) = None" "db_stats (clearNotify d) = db_stats d"
  by (simp_all add: clearNotify_def)

text \<open>What a waiting consumer receives when \<open>x\<close> arrives.\<close>

definition wakeup :: "dest \<Rightarrow> page option \<Rightarrow> event list" where
  "wakeup d x = (case db_notify d of None \<Rightarrow> [] | Some callback \<Rightarrow> [Notify callback [x] (db_sequence d)])"

lemma enqueueAndNotify_ok:
  assumes "dest_ok d s" "tail_ok (s @ [x])"
  shows "\<exists>d'. enqueueAndNotify x d = Inr (wakeup d x, d') \<and> dest_ok d' (s @ [x]) \<and> db_sequence d' = db_sequence d \<and> db_notify d' = None"
proof -
  obtain st where e: "DestinationBuffer_enqueue x d = Inr (d\<lparr>db_stats := st, db_data := db_data d @ [x]\<rparr>)"
    "stats_ok st (pages_of (db_data d @ [x]))" "st_finished st = st_finished (db_stats d)" using enqueue_ok [OF assms] by blast
  let ?d = "d\<lparr>db_stats := st, db_data := db_data d @ [x]\<rparr>"
  note d = dest_okD [OF assms(1)]
  have data: "db_data d @ [x] = drop (nat (db_sequence d)) (s @ [x])" using d(3,4) by simp
  show ?thesis
  proof (cases "db_notify d")
    case None
    then have "dest_ok ?d (s @ [x])" using assms d e(2,3) data by (simp add: dest_ok_def)
    moreover have "getAndClearNotify ?d = Inr ([], ?d)" using None assms(1) by (simp add: getAndClearNotify_def dest_ok_def)
    ultimately show ?thesis using None e(1) by (auto simp: enqueueAndNotify_def wakeup_def)
  next
    case (Some cb)
    then have w: "db_data d = []" "db_notifySequence d = db_sequence d" using assms(1) by (auto simp: dest_ok_def)
    have "resultLoop (db_notifyMaxBytes d) 0 [x] = Inr [x]" by (cases x) (auto simp: Let_def)
    then have "getAndClearNotify ?d = Inr ([Notify cb [x] (db_sequence d)], clearNotify ?d)"
      using Some w by (simp add: getAndClearNotify_def DestinationBuffer_getData_def)
    moreover have "dest_ok (clearNotify ?d) (s @ [x])" using assms d e(2,3) data by (simp add: dest_ok_def)
    ultimately show ?thesis using Some e(1) by (auto simp: enqueueAndNotify_def wakeup_def)
  qed
qed

lemma acknowledge_ok:
  assumes "dest_ok d s"
  shows "if q \<le> db_sequence d then DestinationBuffer_acknowledge q d = Inr ([], d)
    else if q \<le> int (length s) then
      (\<exists>d'. DestinationBuffer_acknowledge q d = Inr (pages_of (take (nat (q - db_sequence d)) (db_data d)), d') \<and> dest_ok d' s \<and>
        db_sequence d' = q \<and> db_notify d' = None)
    else DestinationBuffer_acknowledge q d = Inl CheckFailed"
proof -
  note d = dest_okD [OF assms]
  let ?n = "nat (q - db_sequence d)"
  have l: "int (length (db_data d)) = int (length s) - db_sequence d" using d(2-4) by simp
  show ?thesis
  proof (cases "db_sequence d < q \<and> q \<le> int (length s)")
    case True
    then have n: "?n \<le> length (db_data d)" "0 < ?n" using l d(2) by linarith+
    obtain st where f: "freeLoop ?n (db_data d) (db_stats d) = Inr (pages_of (take ?n (db_data d)), st)"
      "stats_ok st (pages_of (drop ?n (db_data d)))" "st_finished st = st_finished (db_stats d)"
      using freeLoop_ok [OF d(6) n(1) d(5)] by blast
    let ?d = "d\<lparr>db_data := drop ?n (db_data d), db_sequence := q, db_stats := st\<rparr>"
    have "db_notify d = None" using assms n by (auto simp: dest_ok_def split: if_splits)
    moreover have "drop ?n (db_data d) = drop (nat q) s"
    proof -
      have "?n + nat (db_sequence d) = nat q" using True d(2) by linarith
      then show ?thesis unfolding d(4) drop_drop by simp
    qed
    moreover have "nat q \<le> length s" "0 \<le> q" using True d(2) by linarith+
    ultimately have "dest_ok ?d s" using assms f(2,3) True d(2) by (simp add: dest_ok_def)
    then show ?thesis using True f(1) l \<open>db_notify d = None\<close> by (auto simp: DestinationBuffer_acknowledge_def Let_def)
  next
    case False
    then show ?thesis using l by (auto simp: DestinationBuffer_acknowledge_def Let_def)
  qed
qed

lemma delete_ok:
  assumes "dest_ok d s"
  shows "\<exists>d1 ev d2 d3. DestinationBuffer_deleteResults d = Inr (pages_of (db_data d), d1) \<and> getAndClearNotify d1 = Inr (ev, d2) \<and>
    DestinationBuffer_finish d2 = Inr d3 \<and> stats_ok (db_stats d3) [] \<and>
    ev = (case db_notify d of None \<Rightarrow> [] | Some callback \<Rightarrow> [Notify callback [] (db_sequence d)])"
proof -
  note d = dest_okD [OF assms]
  obtain st where f: "freeLoop (length (db_data d)) (db_data d) (db_stats d) = Inr (pages_of (db_data d), st)" "stats_ok st []"
    using freeLoop_ok [OF d(6) order_refl d(5)] by auto
  let ?d = "d\<lparr>db_data := [], db_stats := st\<rparr>"
  have del: "DestinationBuffer_deleteResults d = Inr (pages_of (db_data d), ?d)" using f by (simp add: DestinationBuffer_deleteResults_def)
  show ?thesis
  proof (cases "db_notify d")
    case None
    then have "getAndClearNotify ?d = Inr ([], ?d)" using assms by (simp add: getAndClearNotify_def dest_ok_def)
    with None del f(2) show ?thesis by (auto simp: DestinationBuffer_finish_def stats_ok_def)
  next
    case (Some cb)
    then have "db_notifySequence d = db_sequence d" using assms by (auto simp: dest_ok_def)
    then have "getAndClearNotify ?d = Inr ([Notify cb [] (db_sequence d)],
        clearNotify (?d\<lparr>db_notify := None, db_aliveCheck := None, db_notifySequence := db_sequence d, db_notifyMaxBytes := db_notifyMaxBytes d\<rparr>))"
      using Some by (simp add: getAndClearNotify_def DestinationBuffer_getData_def)
    with Some del f(2) show ?thesis by (auto simp: DestinationBuffer_finish_def stats_ok_def)
  qed
qed

text \<open>What is added to a destination wakes its consumer without a failure, also when the stream has ended.\<close>

lemma enqueueAndNotify_total:
  assumes "dest_ok d s" "\<forall>p. x = Some p \<longrightarrow> pg_numRows p \<noteq> None"
  shows "\<exists>r. enqueueAndNotify x d = Inr r"
proof -
  obtain d' where e: "DestinationBuffer_enqueue x d = Inr d'" "db_notify d' = db_notify d" "db_aliveCheck d' = db_aliveCheck d"
    "db_notifySequence d' = db_notifySequence d" "db_sequence d' = db_sequence d" "db_data d = [] \<Longrightarrow> db_data d' = [x]"
  proof (cases x)
    case None
    then show ?thesis using that [of d] that [of "d\<lparr>db_data := db_data d @ [None]\<rparr>"]
      by (cases "db_data d \<noteq> [] \<and> last (db_data d) = None") (auto simp: DestinationBuffer_enqueue_def)
  next
    case (Some p)
    with assms(2) obtain rows where "pg_numRows p = Some rows" by auto
    with Some that show ?thesis by (auto simp: DestinationBuffer_enqueue_def recordEnqueue_def)
  qed
  show ?thesis
  proof (cases "db_notify d")
    case None
    then show ?thesis using e assms(1) by (simp add: enqueueAndNotify_def getAndClearNotify_def dest_ok_def)
  next
    case (Some cb)
    then have "db_data d' = [x]" "db_notifySequence d' = db_sequence d'" using e assms(1) by (auto simp: dest_ok_def)
    moreover have "\<exists>r. resultLoop m 0 [x] = Inr r" for m by (cases x) (auto simp: Let_def)
    ultimately show ?thesis using e(1,2) Some
      by (force simp: enqueueAndNotify_def getAndClearNotify_def DestinationBuffer_getData_def bindR_Inr_iff)
  qed
qed

text \<open>A fetch at the sequence number of the buffer.\<close>

lemma getData_ok:
  assumes "dest_ok d s" "q = db_sequence d"
  shows "(db_data d = [] \<and>
      (\<exists>d'. DestinationBuffer_getData maxBytes q (Some notify) check None d = Inr ([], None, d') \<and> dest_ok d' s \<and>
         db_sequence d' = q \<and> db_notify d' = Some notify \<and> db_data d' = [])) \<or>
    (\<exists>data rest. DestinationBuffer_getData maxBytes q (Some notify) check None d = Inr (data, None, d) \<and> db_data d = data @ rest \<and>
       data \<noteq> [] \<and> total_bytes (pages_of (butlast data)) < max 1 maxBytes \<and> (rest = [] \<or> max 1 maxBytes \<le> total_bytes (pages_of data)))"
proof (cases "db_data d = []")
  case True
  let ?d = "d\<lparr>db_notify := Some notify, db_aliveCheck := check, db_notifySequence := q, db_notifyMaxBytes := maxBytes\<rparr>"
  have "DestinationBuffer_getData maxBytes q (Some notify) check None d = Inr ([], None, ?d)"
    using True assms(2) by (simp add: DestinationBuffer_getData_def)
  moreover have "dest_ok ?d s" using assms True by (simp add: dest_ok_def)
  ultimately show ?thesis using True assms(2) by auto
next
  case False
  have pos: "0 < max 1 maxBytes" by simp
  from resultLoop_ok [OF dest_okD(6) [OF assms(1)] False pos, of 0] obtain data rest
    where r: "resultLoop (max 1 maxBytes) 0 (db_data d) = Inr data" "db_data d = data @ rest" "data \<noteq> []"
      "total_bytes (pages_of (butlast data)) < max 1 maxBytes" "rest = [] \<or> max 1 maxBytes \<le> total_bytes (pages_of data)"
    unfolding add_0 using pos by blast
  have "DestinationBuffer_getData maxBytes q (Some notify) check None d = Inr (data, None, d)"
    using False assms(2) r(1) resultLoop_none [OF dest_okD(6) [OF assms(1)], of maxBytes 0] by (simp add: DestinationBuffer_getData_def)
  with r show ?thesis by blast
qed

lemma enqueue_quiet_ok:
  assumes "dest_ok d s" "tail_ok (s @ [x])" "db_notify d = None"
  shows "\<exists>d'. DestinationBuffer_enqueue x d = Inr d' \<and> dest_ok d' (s @ [x]) \<and> db_sequence d' = db_sequence d \<and> db_notify d' = None"
proof -
  obtain st where e: "DestinationBuffer_enqueue x d = Inr (d\<lparr>db_stats := st, db_data := db_data d @ [x]\<rparr>)"
    "stats_ok st (pages_of (db_data d @ [x]))" "st_finished st = st_finished (db_stats d)" using enqueue_ok [OF assms(1,2)] by blast
  have "db_data d @ [x] = drop (nat (db_sequence d)) (s @ [x])" using dest_okD(3,4) [OF assms(1)] by simp
  then show ?thesis using assms e by (simp add: dest_ok_def)
qed

lemma tail_ok_append: "tail_ok (s @ xs) \<Longrightarrow> tail_ok s"
proof (induction s)
  case (Cons x s)
  then show ?case by (cases x) (auto simp: tail_ok_Cons_Some tail_ok_Cons_None)
qed simp

lemma enqueueAll_ok:
  "dest_ok d s \<Longrightarrow> tail_ok (s @ xs) \<Longrightarrow> db_notify d = None \<Longrightarrow>
   \<exists>d'. enqueueAll xs d = Inr d' \<and> dest_ok d' (s @ xs) \<and> db_sequence d' = db_sequence d \<and> db_notify d' = None"
proof (induction xs arbitrary: d s)
  case (Cons x xs)
  have "tail_ok (s @ [x])" using tail_ok_append [of "s @ [x]" xs] Cons(3) by simp
  then obtain d1 where d1: "DestinationBuffer_enqueue x d = Inr d1" "dest_ok d1 (s @ [x])" "db_sequence d1 = db_sequence d" "db_notify d1 = None"
    using enqueue_quiet_ok Cons(2,4) by blast
  with Cons(1) [OF d1(2)] Cons(3) show ?case by simp
qed simp

end
