(* ===== verification/Output_Inv.thy ===== *)
theory Output_Inv
  imports Output_Dest
begin

text \<open>
  The output buffer as its producers and consumers use it, for the partitioned and the broadcast kind: the log of the
  pages that were enqueued, the streams of the destinations, and what every operation keeps of them.
\<close>

section \<open>The log and the invariant\<close>

type_synonym log = "(nat \<times> page) list"

definition pages_for :: "output_kind \<Rightarrow> log \<Rightarrow> nat \<Rightarrow> page list" where
  "pages_for kind lg destination = map snd (if kind = kPartitioned then filter (\<lambda>e. fst e = destination) lg else lg)"

definition dest_stream :: "output_buffer \<Rightarrow> log \<Rightarrow> nat \<Rightarrow> pages" where
  "dest_stream ob lg destination = stream (pages_for (ob_kind ob) lg destination) (ob_atEnd ob)"

definition log_ok :: "log \<Rightarrow> bool" where
  "log_ok lg \<longleftrightarrow> distinct (map snd lg) \<and> list_all page_ok (map snd lg)"

definition dests_ok :: "(nat \<Rightarrow> pages) \<Rightarrow> dest option list \<Rightarrow> bool" where
  "dests_ok S bs \<longleftrightarrow> (\<forall>i<length bs. \<forall>d. bs ! i = Some d \<longrightarrow> dest_ok d (S i))"

definition counts_ok :: "output_buffer \<Rightarrow> bool" where
  "counts_ok ob \<longleftrightarrow> ob_bufferedBytes ob = int (sum pg_size (set (held_pages ob))) \<and>
     ob_bufferedPages ob = int (card (set (held_pages ob)))"

text \<open>
  A broadcast that is finished has no destination left and gets none any more. Pages that are enqueued then are counted but
  held for nobody.
\<close>

definition finished_broadcast :: "output_buffer \<Rightarrow> bool" where
  "finished_broadcast ob \<longleftrightarrow> ob_kind ob = kBroadcast \<and> isFinishedLocked ob"

definition counted :: "output_buffer \<Rightarrow> log \<Rightarrow> bool" where
  "counted ob lg \<longleftrightarrow>
     (if finished_broadcast ob then
        \<exists>n\<le>length lg. ob_bufferedBytes ob = int (total_bytes (map snd (drop n lg))) \<and> ob_bufferedPages ob = int (length (drop n lg))
      else counts_ok ob)"

definition promises_ok :: "output_buffer \<Rightarrow> bool" where
  "promises_ok ob \<longleftrightarrow> (ob_promises ob \<noteq> [] \<longrightarrow> int (ob_continueSize ob) \<le> ob_bufferedBytes ob)"

definition ob_inv :: "output_buffer \<Rightarrow> log \<Rightarrow> bool" where
  "ob_inv ob lg \<longleftrightarrow> ob_kind ob \<noteq> kArbitrary \<and> ob_arbitraryBuffer ob = None \<and> log_ok lg \<and>
     dests_ok (dest_stream ob lg) (ob_buffers ob) \<and>
     ob_dataToBroadcast ob = (if ob_kind ob = kBroadcast \<and> \<not> ob_noMoreBuffers ob then map snd lg else []) \<and>
     counted ob lg \<and> promises_ok ob \<and> length (ob_finishedBufferStats ob) = length (ob_buffers ob) \<and>
     ob_continueSize ob \<le> ob_maxSize ob \<and> (ob_atEnd ob \<longrightarrow> ob_numFinished ob = ob_numDrivers ob) \<and>
     ob_numOutputPages ob = length lg \<and> ob_numOutputBytes ob = total_bytes (map snd lg)"

lemma ob_invD:
  assumes "ob_inv ob lg"
  shows "ob_kind ob \<noteq> kArbitrary" "ob_arbitraryBuffer ob = None" "finished_broadcast ob \<Longrightarrow> ob_dataToBroadcast ob = []" "log_ok lg"
    "dests_ok (dest_stream ob lg) (ob_buffers ob)"
    "ob_dataToBroadcast ob = (if ob_kind ob = kBroadcast \<and> \<not> ob_noMoreBuffers ob then map snd lg else [])"
    "counted ob lg" "promises_ok ob" "length (ob_finishedBufferStats ob) = length (ob_buffers ob)"
    "ob_continueSize ob \<le> ob_maxSize ob" "ob_atEnd ob \<longrightarrow> ob_numFinished ob = ob_numDrivers ob"
    "ob_numOutputPages ob = length lg" "ob_numOutputBytes ob = total_bytes (map snd lg)"
  using assms by (simp_all add: ob_inv_def finished_broadcast_def isFinishedLocked_def split: if_splits)

lemma dests_okD: "dests_ok S bs \<Longrightarrow> i < length bs \<Longrightarrow> bs ! i = Some d \<Longrightarrow> dest_ok d (S i)"
  by (simp add: dests_ok_def)

lemma dests_ok_update: "dests_ok S bs \<Longrightarrow> (\<And>d. b = Some d \<Longrightarrow> dest_ok d (S i)) \<Longrightarrow> dests_ok S (bs[i := b])"
  by (cases "i < length bs") (auto simp: dests_ok_def nth_list_update split: if_splits)

lemma pages_for_log: "log_ok lg \<Longrightarrow> distinct (pages_for k lg i) \<and> list_all page_ok (pages_for k lg i) \<and> set (pages_for k lg i) \<subseteq> snd ` set lg"
  by (auto simp: log_ok_def pages_for_def list_all_iff distinct_map inj_on_def)

lemma dest_stream_ok: "log_ok lg \<Longrightarrow> tail_ok (dest_stream ob lg i)"
  unfolding dest_stream_def using pages_for_log by (intro tail_ok_stream) blast

lemma dest_stream_cong: "ob_kind ob' = ob_kind ob \<Longrightarrow> ob_atEnd ob' = ob_atEnd ob \<Longrightarrow> dest_stream ob' = dest_stream ob"
  by (simp add: dest_stream_def fun_eq_iff)

section \<open>The pages that are held\<close>

definition dest_pages :: "dest option \<Rightarrow> page list" where
  "dest_pages b = (case b of None \<Rightarrow> [] | Some d \<Rightarrow> pages_of (db_data d))"

lemma dest_pages_simps [simp]: "dest_pages None = []" "dest_pages (Some d) = pages_of (db_data d)"
  by (simp_all add: dest_pages_def)

lemma buffers_pages_conv: "buffers_pages bs = concat (map dest_pages bs)"
proof -
  have "(case b of None \<Rightarrow> [] | Some d \<Rightarrow> List.map_filter (\<lambda>x. x) (db_data d)) = dest_pages b" for b
    by (cases b) (simp_all add: pages_of_def)
  then show ?thesis by (simp add: buffers_pages_def)
qed

lemma in_buffers_pages: "p \<in> set (buffers_pages bs) \<longleftrightarrow> (\<exists>i<length bs. p \<in> set (dest_pages (bs ! i)))"
proof -
  have "p \<in> set (buffers_pages bs) \<longleftrightarrow> (\<exists>b\<in>set bs. p \<in> set (dest_pages b))" by (simp add: buffers_pages_conv)
  also have "\<dots> \<longleftrightarrow> (\<exists>i<length bs. p \<in> set (dest_pages (bs ! i)))" by (metis in_set_conv_nth)
  finally show ?thesis .
qed

lemma buffers_pages_update:
  assumes "i < length bs" "set (dest_pages (bs ! i)) = F \<union> set (dest_pages b)"
  shows "set (buffers_pages bs) = F \<union> set (buffers_pages (bs[i := b]))"
proof -
  have "bs = take i bs @ bs ! i # drop (Suc i) bs" using assms(1) by (rule id_take_nth_drop)
  then have "set (buffers_pages bs) = set (buffers_pages (take i bs)) \<union> set (dest_pages (bs ! i)) \<union> set (buffers_pages (drop (Suc i) bs))"
    by (metis (no_types, lifting) Un_assoc buffers_pages_conv concat.simps(2) concat_append list.simps(9) map_append set_append)
  moreover have "set (buffers_pages (bs[i := b])) =
      set (buffers_pages (take i bs)) \<union> set (dest_pages b) \<union> set (buffers_pages (drop (Suc i) bs))"
    using assms(1) by (auto simp: buffers_pages_conv upd_conv_take_nth_drop)
  ultimately show ?thesis using assms(2) by auto
qed

lemma held_pages_conv: "ob_arbitraryBuffer ob = None \<Longrightarrow> held_pages ob = buffers_pages (ob_buffers ob) @ ob_dataToBroadcast ob"
  by (simp add: held_pages_def)

lemma held_in_log:
  assumes "ob_inv ob lg" "p \<in> set (held_pages ob)"
  shows "p \<in> snd ` set lg"
proof (cases "p \<in> set (ob_dataToBroadcast ob)")
  case True
  then show ?thesis using ob_invD(6) [OF assms(1)] by (auto split: if_splits)
next
  case False
  then obtain i where i: "i < length (ob_buffers ob)" "p \<in> set (dest_pages (ob_buffers ob ! i))"
    using assms(2) ob_invD(2) [OF assms(1)] by (auto simp: held_pages_conv in_buffers_pages)
  then obtain d where d: "ob_buffers ob ! i = Some d" by (cases "ob_buffers ob ! i") auto
  have "db_data d = drop (nat (db_sequence d)) (dest_stream ob lg i)"
    using dests_okD [OF ob_invD(5) [OF assms(1)] i(1) d] by (rule dest_okD)
  then have "p \<in> set (pages_of (drop (nat (db_sequence d)) (dest_stream ob lg i)))" using i d by simp
  moreover have "set (pages_of (drop n xs)) \<subseteq> set (pages_of xs)" for n xs
    using pages_of_simps(4) [of "take n xs" "drop n xs"] by (metis Un_upper2 append_take_drop_id set_append)
  ultimately have "p \<in> set (pages_for (ob_kind ob) lg i)" unfolding dest_stream_def using pages_of_stream by (metis subsetD)
  then show ?thesis using pages_for_log [OF ob_invD(4) [OF assms(1)]] by blast
qed

lemma counted_counts: "counted ob lg \<Longrightarrow> \<not> finished_broadcast ob \<Longrightarrow> counts_ok ob"
  by (simp add: counted_def)

lemma finished_holds_nothing:
  assumes "finished_broadcast ob" "ob_arbitraryBuffer ob = None" "ob_dataToBroadcast ob = []"
  shows "held_pages ob = []"
proof -
  have "list_all (\<lambda>b. b = None) (ob_buffers ob)" using assms(1) by (auto simp: finished_broadcast_def isFinishedLocked_def split: if_splits)
  then have "concat (map dest_pages (ob_buffers ob)) = []" by (auto simp: list_all_iff)
  then show ?thesis using assms(2,3) by (simp add: held_pages_conv buffers_pages_conv)
qed

lemma counts_counted:
  assumes "counts_ok ob" "ob_arbitraryBuffer ob = None" "finished_broadcast ob \<Longrightarrow> ob_dataToBroadcast ob = []"
  shows "counted ob lg"
proof (cases "finished_broadcast ob")
  case True
  then show ?thesis using finished_holds_nothing [OF True assms(2,3)] assms(1) by (auto simp: counted_def counts_ok_def intro!: exI [of _ "length lg"])
qed (use assms(1) in \<open>simp add: counted_def\<close>)

lemma counted_cong:
  assumes "counted ob lg" "finished_broadcast ob' = finished_broadcast ob" "ob_bufferedBytes ob' = ob_bufferedBytes ob"
    "ob_bufferedPages ob' = ob_bufferedPages ob" "set (held_pages ob') = set (held_pages ob)"
  shows "counted ob' lg"
  using assms by (cases "finished_broadcast ob") (simp_all add: counted_def counts_ok_def)

lemma counted_nonneg: "counted ob lg \<Longrightarrow> 0 \<le> ob_bufferedBytes ob \<and> 0 \<le> ob_bufferedPages ob"
  by (auto simp: counted_def counts_ok_def sum_nonneg split: if_splits)

lemma live_unfinished: "i < length (ob_buffers ob) \<Longrightarrow> ob_buffers ob ! i = Some d \<Longrightarrow> \<not> finished_broadcast ob"
  by (auto simp: finished_broadcast_def isFinishedLocked_def list_all_length split: if_splits)

section \<open>Freeing pages\<close>

lemma count_list_distinct: "distinct xs \<Longrightarrow> p \<in> set xs \<Longrightarrow> count_list xs p = 1"
  by (induction xs) auto

lemma count_last_use: "distinct freed \<Longrightarrow> p \<in> set freed \<Longrightarrow> count_list (freed @ h) p = 1 \<longleftrightarrow> p \<notin> set h"
  by (simp add: count_list_distinct count_list_0_iff)

text \<open>Pages that left a queue: the counts are those of the pages still held, and producers resume below the limit.\<close>

lemma update_after_ok:
  assumes "distinct freed" "list_all page_ok freed" "\<And>p. use_count p = count_list (freed @ h) p"
    "ob_bufferedBytes ob = int (sum pg_size (set freed \<union> set h))" "ob_bufferedPages ob = int (card (set freed \<union> set h))"
  shows "\<exists>promises. updateAfterAcknowledgeLocked freed use_count ob =
    Inr (promises, ob\<lparr>ob_bufferedBytes := int (sum pg_size (set h)), ob_bufferedPages := int (card (set h)),
           ob_promises := if promises = [] then ob_promises ob else []\<rparr>) \<and>
    (promises = [] \<or> promises = ob_promises ob) \<and>
    (set freed \<subseteq> set h \<or> int (sum pg_size (set h)) \<ge> int (ob_continueSize ob) \<or> promises = ob_promises ob)"
proof -
  let ?F = "filter (\<lambda>p. p \<notin> set h) freed"
  have F: "filter (\<lambda>p. use_count p = 1) freed = ?F" by (intro filter_cong refl) (metis assms(1,3) count_last_use)
  have dF: "distinct ?F" using assms(1) by simp
  have split: "set freed \<union> set h = set ?F \<union> set h" "set ?F \<inter> set h = {}" by auto
  have bytes: "ob_bufferedBytes ob - int (sum_list (map pg_size ?F)) = int (sum pg_size (set h))"
    unfolding assms(4) split(1) sum_list_distinct_conv_sum_set [OF dF] using split(2) by (subst sum.union_disjoint) auto
  have pages: "ob_bufferedPages ob - int (length ?F) = int (card (set h))"
    unfolding assms(5) split(1) distinct_card [OF dF, symmetric] using split(2) by (subst card_Un_disjoint) auto
  show ?thesis
  proof (cases "?F = []")
    case True
    have "updateAfterAcknowledgeLocked freed use_count ob = Inr ([], ob)"
      unfolding updateAfterAcknowledgeLocked_def Let_def F using True by simp
    moreover have "set freed \<subseteq> set h" using True by (auto simp: filter_empty_conv)
    ultimately show ?thesis using bytes pages True by auto
  next
    case False
    then obtain p where p: "p \<in> set ?F" using hd_in_set by blast
    then have "0 < pg_size p" using assms(2) by (auto simp: list_all_iff page_ok_def)
    then have pos: "0 < sum_list (map pg_size ?F)" using p member_le_sum_list [of "pg_size p" "map pg_size ?F"] by auto
    let ?ob = "ob\<lparr>ob_bufferedBytes := int (sum pg_size (set h)), ob_bufferedPages := int (card (set h))\<rparr>"
    have "updateStatsWithFreedPagesLocked (length ?F) (sum_list (map pg_size ?F)) ob = Inr ?ob"
      unfolding updateStatsWithFreedPagesLocked_def Let_def bytes pages by (simp add: sum_nonneg)
    then have "updateAfterAcknowledgeLocked freed use_count ob =
        (if int (sum pg_size (set h)) < int (ob_continueSize ob) then Inr (ob_promises ob, ?ob\<lparr>ob_promises := []\<rparr>) else Inr ([], ?ob))"
      unfolding updateAfterAcknowledgeLocked_def Let_def F using False pos by simp
    then show ?thesis by (cases "ob_promises ob = []") auto
  qed
qed

lemma free_ok:
  assumes "ob_inv ob lg" "i < length (ob_buffers ob)" "ob_buffers ob ! i = Some d"
    "pages_of (db_data d) = freed @ dest_pages b" "\<And>d'. b = Some d' \<Longrightarrow> dest_ok d' (dest_stream ob lg i)"
    "length stats = length (ob_finishedBufferStats ob)"
    "ob1 = ob\<lparr>ob_buffers := (ob_buffers ob)[i := b], ob_finishedBufferStats := stats, ob_numFinalAcknowledges := n\<rparr>"
  shows "\<exists>promises ob2. updateAfterAcknowledgeLocked freed (count_list (freed @ held_pages ob1)) ob1 = Inr (promises, ob2) \<and>
    ob_inv ob2 lg \<and> ob2 = ob1\<lparr>ob_bufferedBytes := ob_bufferedBytes ob2, ob_bufferedPages := ob_bufferedPages ob2,
      ob_promises := ob_promises ob2\<rparr> \<and> promises @ ob_promises ob2 = ob_promises ob"
proof -
  note inv = ob_invD [OF assms(1)]
  note sel = assms(7)
  have d: "dest_ok d (dest_stream ob lg i)" using inv(5) assms(2,3) by (rule dests_okD)
  have dp: "distinct (pages_of (db_data d)) \<and> list_all page_ok (pages_of (db_data d))"
  proof -
    let ?s = "dest_stream ob lg i" and ?n = "nat (db_sequence d)"
    have "pages_of ?s = pages_of (take ?n ?s) @ pages_of (db_data d)"
      unfolding dest_okD(4) [OF d] pages_of_simps(4) [symmetric] append_take_drop_id ..
    then have "pages_for (ob_kind ob) lg i = pages_of (take ?n ?s) @ pages_of (db_data d)" by (simp add: dest_stream_def)
    then show ?thesis using pages_for_log [OF inv(4), of "ob_kind ob" i] by auto
  qed
  then have f: "distinct freed" "list_all page_ok freed" unfolding assms(4) by auto
  have h: "set (held_pages ob) = set freed \<union> set (held_pages ob1)"
    using buffers_pages_update [of i "ob_buffers ob" "set freed" b] assms(2,3,4) inv(2) by (simp add: sel held_pages_conv Un_assoc)
  let ?h = "held_pages ob1"
  have co: "counts_ok ob" using counted_counts [OF inv(7) live_unfinished [OF assms(2,3)]] .
  then have c: "ob_bufferedBytes ob1 = int (sum pg_size (set freed \<union> set ?h))" "ob_bufferedPages ob1 = int (card (set freed \<union> set ?h))"
    unfolding counts_ok_def h by (simp_all add: sel)
  obtain promises where u: "updateAfterAcknowledgeLocked freed (count_list (freed @ ?h)) ob1 =
      Inr (promises, ob1\<lparr>ob_bufferedBytes := int (sum pg_size (set ?h)), ob_bufferedPages := int (card (set ?h)),
             ob_promises := if promises = [] then ob_promises ob1 else []\<rparr>)"
    "promises = [] \<or> promises = ob_promises ob1"
    "set freed \<subseteq> set ?h \<or> int (sum pg_size (set ?h)) \<ge> int (ob_continueSize ob1) \<or> promises = ob_promises ob1"
    using update_after_ok [OF f refl c] by blast
  let ?ob2 = "ob1\<lparr>ob_bufferedBytes := int (sum pg_size (set ?h)), ob_bufferedPages := int (card (set ?h)),
             ob_promises := if promises = [] then ob_promises ob1 else []\<rparr>"
  have ds: "dest_stream ?ob2 = dest_stream ob" by (rule dest_stream_cong) (simp_all add: sel)
  have "dests_ok (dest_stream ob lg) ((ob_buffers ob)[i := b])" using dests_ok_update [OF inv(5) assms(5)] .
  moreover have "counts_ok ?ob2" using inv(2) by (simp add: counts_ok_def held_pages_def sel)
  then have "counted ?ob2 lg"
    by (rule counts_counted) (use inv(2,6) in \<open>auto simp: sel finished_broadcast_def isFinishedLocked_def split: if_splits\<close>)
  moreover have "promises_ok ?ob2"
  proof (cases "set freed \<subseteq> set ?h")
    case True
    then have "set (held_pages ob) = set ?h" using h by auto
    then show ?thesis using co inv(8) by (simp add: promises_ok_def counts_ok_def sel)
  next
    case False
    then show ?thesis using u(3) by (auto simp: promises_ok_def)
  qed
  ultimately have "ob_inv ?ob2 lg" unfolding ob_inv_def ds using inv assms(6) by (simp add: sel)
  moreover have "promises @ ob_promises ?ob2 = ob_promises ob" using u(2) by (auto simp: sel)
  ultimately show ?thesis using u(1) by (intro exI conjI) (assumption | simp)+
qed

section \<open>The operations of consumers\<close>

abbreviation live :: "output_buffer \<Rightarrow> nat \<Rightarrow> dest \<Rightarrow> bool" where
  "live ob i d \<equiv> i < length (ob_buffers ob) \<and> ob_buffers ob ! i = Some d"

text \<open>What an acknowledgement keeps of the state.\<close>

definition after_ack :: "output_buffer \<Rightarrow> nat \<Rightarrow> dest option \<Rightarrow> output_buffer \<Rightarrow> bool" where
  "after_ack ob i b ob' \<longleftrightarrow> ob_buffers ob' = (ob_buffers ob)[i := b] \<and> ob_kind ob' = ob_kind ob \<and> ob_atEnd ob' = ob_atEnd ob \<and>
     ob_arbitraryBuffer ob' = ob_arbitraryBuffer ob"

lemma ack_ok:
  assumes "ob_inv ob lg" "live ob i d" "q \<le> int (length (dest_stream ob lg i))"
  shows "\<exists>freed d' promises ob'. DestinationBuffer_acknowledge q d = Inr (freed, d') \<and>
    (let ob1 = ob\<lparr>ob_buffers := (ob_buffers ob)[i := Some d']\<rparr> in
     updateAfterAcknowledgeLocked freed (count_list (freed @ held_pages ob1)) ob1 = Inr (promises, ob')) \<and>
    ob_inv ob' lg \<and> after_ack ob i (Some d') ob' \<and> dest_ok d' (dest_stream ob lg i) \<and> db_sequence d' = max q (db_sequence d) \<and>
    promises @ ob_promises ob' = ob_promises ob"
proof -
  have d: "dest_ok d (dest_stream ob lg i)" using ob_invD(5) [OF assms(1)] assms(2) by (blast intro: dests_okD)
  obtain freed d' where a: "DestinationBuffer_acknowledge q d = Inr (freed, d')" "dest_ok d' (dest_stream ob lg i)"
    "db_sequence d' = max q (db_sequence d)" "pages_of (db_data d) = freed @ pages_of (db_data d')"
  proof (cases "q \<le> db_sequence d")
    case True
    then show ?thesis using acknowledge_ok [OF d, of q] d that [of "[]" d] by simp
  next
    case False
    let ?n = "nat (q - db_sequence d)"
    from False acknowledge_ok [OF d, of q] assms(3) obtain d' where
      a: "DestinationBuffer_acknowledge q d = Inr (pages_of (take ?n (db_data d)), d')" "dest_ok d' (dest_stream ob lg i)" "db_sequence d' = q"
      by auto
    have "nat q = ?n + nat (db_sequence d)" using False dest_okD(2) [OF d] by linarith
    then have "db_data d' = drop ?n (db_data d)" using dest_okD(4) [OF a(2)] dest_okD(4) [OF d] a(3) by simp
    then have "pages_of (db_data d) = pages_of (take ?n (db_data d)) @ pages_of (db_data d')" by (metis append_take_drop_id pages_of_simps(4))
    with a False show ?thesis by (intro that) auto
  qed
  let ?ob1 = "ob\<lparr>ob_buffers := (ob_buffers ob)[i := Some d']\<rparr>"
  have e: "?ob1 = ob\<lparr>ob_buffers := (ob_buffers ob)[i := Some d'], ob_finishedBufferStats := ob_finishedBufferStats ob,
      ob_numFinalAcknowledges := ob_numFinalAcknowledges ob\<rparr>" by simp
  have p: "pages_of (db_data d) = freed @ dest_pages (Some d')" using a(4) by simp
  obtain promises ob' where u: "updateAfterAcknowledgeLocked freed (count_list (freed @ held_pages ?ob1)) ?ob1 = Inr (promises, ob')"
    "ob_inv ob' lg" "ob' = ?ob1\<lparr>ob_bufferedBytes := ob_bufferedBytes ob', ob_bufferedPages := ob_bufferedPages ob', ob_promises := ob_promises ob'\<rparr>"
    "promises @ ob_promises ob' = ob_promises ob"
    using free_ok [OF assms(1) _ _ p _ refl e] assms(2) a(2) by blast
  have "after_ack ob i (Some d') ob'" unfolding after_ack_def by (subst (1 2 3 4) u(3)) simp
  with a u show ?thesis unfolding Let_def by blast
qed

lemma OutputBuffer_acknowledge_ok:
  assumes "ob_inv ob lg" "live ob i d" "q \<le> int (length (dest_stream ob lg i))"
  shows "\<exists>evs ob'. OutputBuffer_acknowledge i q ob = Inr (evs, ob') \<and> ob_inv ob' lg"
proof -
  from ack_ok [OF assms] obtain freed d' promises ob' where a: "DestinationBuffer_acknowledge q d = Inr (freed, d')"
    "let ob1 = ob\<lparr>ob_buffers := (ob_buffers ob)[i := Some d']\<rparr> in
     updateAfterAcknowledgeLocked freed (count_list (freed @ held_pages ob1)) ob1 = Inr (promises, ob')" "ob_inv ob' lg" by blast
  then show ?thesis using assms(2) by (auto simp: OutputBuffer_acknowledge_def Let_def simp del: count_list_append)
qed

lemma acknowledge_beyond:
  assumes "ob_inv ob lg" "live ob i d" "\<not> q \<le> int (length (dest_stream ob lg i))"
  shows "DestinationBuffer_acknowledge q d = Inl CheckFailed"
proof -
  have d: "dest_ok d (dest_stream ob lg i)" using ob_invD(5) [OF assms(1)] assms(2) by (blast intro: dests_okD)
  then have "\<not> q \<le> db_sequence d" using assms(3) dest_okD(2,3) [OF d] by linarith
  with acknowledge_ok [OF d, of q] assms(3) show ?thesis by simp
qed

lemma OutputBuffer_acknowledge_inv:
  assumes "ob_inv ob lg" "OutputBuffer_acknowledge i q ob = Inr (evs, ob')"
  shows "ob_inv ob' lg"
proof (cases "\<exists>d. live ob i d")
  case True
  then obtain d where l: "live ob i d" by blast
  then have "DestinationBuffer_acknowledge q d \<noteq> Inl CheckFailed" using assms(2) by (auto simp: OutputBuffer_acknowledge_def)
  then have "q \<le> int (length (dest_stream ob lg i))" using acknowledge_beyond [OF assms(1) l] by blast
  from OutputBuffer_acknowledge_ok [OF assms(1) l this] assms(2) show ?thesis by auto
next
  case False
  then have "ob' = ob" using assms(2) by (auto simp: OutputBuffer_acknowledge_def bindR_Inr_iff checkR_def split: option.splits if_splits)
  then show ?thesis using assms(1) by simp
qed

lemma OutputBuffer_deleteResults_ok:
  assumes "ob_inv ob lg" "live ob i d"
  shows "\<exists>finished evs ob'. OutputBuffer_deleteResults i ob = Inr (finished, evs, ob') \<and> ob_inv ob' lg \<and> ob_buffers ob' = (ob_buffers ob)[i := None] \<and>
    (\<forall>callback. db_notify d = Some callback \<longrightarrow> Notify callback [] (db_sequence d) \<in> set evs)"
proof -
  have d: "dest_ok d (dest_stream ob lg i)" using ob_invD(5) [OF assms(1)] assms(2) by (blast intro: dests_okD)
  obtain d1 ev d2 d3 where del: "DestinationBuffer_deleteResults d = Inr (pages_of (db_data d), d1)" "getAndClearNotify d1 = Inr (ev, d2)"
    "DestinationBuffer_finish d2 = Inr d3" "ev = (case db_notify d of None \<Rightarrow> [] | Some callback \<Rightarrow> [Notify callback [] (db_sequence d)])"
    using delete_ok [OF d] by blast
  let ?ob1 = "ob\<lparr>ob_finishedBufferStats := (ob_finishedBufferStats ob)[i := db_stats d3], ob_buffers := (ob_buffers ob)[i := None],
     ob_numFinalAcknowledges := ob_numFinalAcknowledges ob + 1\<rparr>"
  let ?freed = "pages_of (db_data d)"
  have p: "pages_of (db_data d) = ?freed @ dest_pages None" by simp
  have "\<exists>promises ob'. updateAfterAcknowledgeLocked ?freed (count_list (?freed @ held_pages ?ob1)) ?ob1 = Inr (promises, ob') \<and> ob_inv ob' lg \<and>
    ob' = ?ob1\<lparr>ob_bufferedBytes := ob_bufferedBytes ob', ob_bufferedPages := ob_bufferedPages ob', ob_promises := ob_promises ob'\<rparr> \<and>
    promises @ ob_promises ob' = ob_promises ob"
    by (rule free_ok [where stats = "(ob_finishedBufferStats ob)[i := db_stats d3]" and n = "ob_numFinalAcknowledges ob + 1", OF assms(1) _ _ p])
      (use assms(2) in auto)
  then obtain promises ob' where u: "updateAfterAcknowledgeLocked ?freed (count_list (?freed @ held_pages ?ob1)) ?ob1 = Inr (promises, ob')"
    "ob_inv ob' lg" "ob' = ?ob1\<lparr>ob_bufferedBytes := ob_bufferedBytes ob', ob_bufferedPages := ob_bufferedPages ob', ob_promises := ob_promises ob'\<rparr>"
    by blast
  have b: "ob_buffers ob' = (ob_buffers ob)[i := None]" by (subst u(3)) simp
  have "i < length (ob_finishedBufferStats ob)" using assms ob_invD(9) by metis
  then have "OutputBuffer_deleteResults i ob = Inr (isFinishedLocked ?ob1, ev @ releaseAfterAcknowledge promises @
      (if isFinishedLocked ?ob1 then [AllOutputConsumed] else []), ob')"
    using assms(2) del(1-3) u(1) unfolding OutputBuffer_deleteResults_def Let_def by (simp del: count_list_append)
  with u(2) b del(4) show ?thesis by auto
qed

text \<open>A destination that is added to a broadcast reads it from the start.\<close>

lemma newDestination_ok:
  assumes "ob_inv ob lg" "ob_kind ob = kBroadcast" "\<not> ob_noMoreBuffers ob"
  shows "\<exists>d. newDestination ob = Inr d \<and> dest_ok d (dest_stream ob lg i) \<and> db_sequence d = 0 \<and> db_notify d = None"
proof -
  note inv = ob_invD [OF assms(1)]
  have b: "ob_dataToBroadcast ob = map snd lg" using inv(6) assms(2,3) by simp
  have s: "dest_stream ob lg i = map Some (map snd lg) @ (if ob_atEnd ob then [None] else [])"
    using assms(2) by (simp add: dest_stream_def stream_def pages_for_def)
  have t: "tail_ok (dest_stream ob lg i)" using inv(4) by (rule dest_stream_ok)
  have "tail_ok (map Some (map snd lg))" using tail_ok_append t unfolding s by blast
  then obtain d where d: "enqueueAll (map Some (map snd lg)) DestinationBuffer_new = Inr d" "dest_ok d (map Some (map snd lg))"
    "db_sequence d = 0" "db_notify d = None"
    using enqueueAll_ok [OF dest_new_ok, of "map Some (map snd lg)"] by (auto simp: DestinationBuffer_new_def)
  show ?thesis
  proof (cases "ob_atEnd ob")
    case True
    then have "tail_ok (map Some (map snd lg) @ [None])" using t s by simp
    from enqueue_quiet_ok [OF d(2) this d(4)] True d(1,3) s b assms(2) show ?thesis by (auto simp: newDestination_def)
  next
    case False
    then show ?thesis using d s b assms(2) by (simp add: newDestination_def)
  qed
qed

lemma addOutputBuffersLocked_ok:
  assumes "ob_inv ob lg" "ob_kind ob = kBroadcast" "\<not> ob_noMoreBuffers ob" "length (ob_buffers ob) < n"
  shows "\<exists>ob'. addOutputBuffersLocked n ob = Inr ob' \<and> ob_inv ob' lg \<and> length (ob_buffers ob') = n \<and> dest_stream ob' = dest_stream ob \<and>
    ob_kind ob' = kBroadcast \<and> ob_noMoreBuffers ob' = ob_noMoreBuffers ob \<and> ob_promises ob' = ob_promises ob \<and>
    (\<forall>i<length (ob_buffers ob). ob_buffers ob' ! i = ob_buffers ob ! i) \<and>
    (\<forall>i<n. length (ob_buffers ob) \<le> i \<longrightarrow> (\<exists>d. ob_buffers ob' ! i = Some d \<and> db_sequence d = 0))"
proof -
  note inv = ob_invD [OF assms(1)]
  obtain d where d: "newDestination ob = Inr d" "db_sequence d = 0" using newDestination_ok [OF assms(1-3)] by blast
  have dok: "dest_ok d (dest_stream ob lg i)" for i using newDestination_ok [OF assms(1-3), of i] d by auto
  have m: "mapR (\<lambda>_. Inr d :: dest result) xs = Inr (map (\<lambda>_. d) xs)" for xs :: "nat list" by (induction xs) simp_all
  let ?new = "replicate (n - length (ob_buffers ob)) d"
  let ?stats = "take n (ob_finishedBufferStats ob) @ replicate (n - length (ob_finishedBufferStats ob)) dest_stats0"
  let ?ob = "ob\<lparr>ob_buffers := ob_buffers ob @ map Some ?new, ob_finishedBufferStats := ?stats\<rparr>"
  have a: "addOutputBuffersLocked n ob = Inr ?ob"
    using assms(2-4) d(1) by (simp add: addOutputBuffersLocked_def m map_replicate_const)
  have ds: "dest_stream ?ob = dest_stream ob" by (rule dest_stream_cong) simp_all
  have dests: "dests_ok (dest_stream ob lg) (ob_buffers ob @ map Some ?new)"
    using inv(5) dok by (auto simp: dests_ok_def nth_append)
  have "set (pages_of (db_data d)) \<subseteq> set (ob_dataToBroadcast ob)"
  proof -
    have "db_data d = dest_stream ob lg 0" using dest_okD(4) [OF dok] d(2) by simp
    then show ?thesis using inv(6) assms(2,3) by (simp add: dest_stream_def pages_for_def)
  qed
  then have "set (buffers_pages (map Some ?new)) \<subseteq> set (ob_dataToBroadcast ob)" by (auto simp: buffers_pages_conv)
  then have "set (held_pages ?ob) = set (held_pages ob)" using inv(2) by (auto simp: held_pages_conv buffers_pages_conv)
  then have "counted ?ob lg"
    by (intro counted_cong [OF inv(7)]) (use assms(3) in \<open>simp_all add: finished_broadcast_def isFinishedLocked_def\<close>)
  then have "ob_inv ?ob lg" unfolding ob_inv_def ds using inv dests assms(4) by (simp add: promises_ok_def)
  with a ds d(2) assms(2,4) show ?thesis by (auto simp: nth_append)
qed

text \<open>What a fetch returns: a piece of the stream from the sequence number on, or nothing and the consumer waits.\<close>

definition fetched :: "nat \<Rightarrow> pages \<Rightarrow> pages \<Rightarrow> bool" where
  "fetched maxBytes left data \<longleftrightarrow> (left = [] \<longleftrightarrow> data = []) \<and> take (length data) left = data \<and>
     (data \<noteq> [] \<longrightarrow> total_bytes (pages_of (butlast data)) < maxBytes) \<and> (data = left \<or> maxBytes \<le> total_bytes (pages_of data))"

lemma replace_dest_inv:
  assumes "ob_inv ob lg" "live ob i d" "dest_ok d' (dest_stream ob lg i)" "db_data d' = db_data d"
  shows "ob_inv (ob\<lparr>ob_buffers := (ob_buffers ob)[i := Some d'], ob_arbitraryBuffer := None\<rparr>) lg" (is "ob_inv ?ob lg")
proof -
  note inv = ob_invD [OF assms(1)]
  have ds: "dest_stream ?ob = dest_stream ob" by (rule dest_stream_cong) simp_all
  have "set (buffers_pages (ob_buffers ob)) = {} \<union> set (buffers_pages ((ob_buffers ob)[i := Some d']))"
    by (rule buffers_pages_update) (use assms(2,4) in auto)
  then have "set (held_pages ?ob) = set (held_pages ob)" using inv(2) by (simp add: held_pages_conv)
  moreover have "\<not> finished_broadcast ob" "\<not> finished_broadcast ?ob" using live_unfinished [of i ob] live_unfinished [of i ?ob] assms(2) by auto
  ultimately have "counted ?ob lg" by (intro counted_cong [OF inv(7)]) simp_all
  moreover have "dests_ok (dest_stream ob lg) ((ob_buffers ob)[i := Some d'])" using dests_ok_update [OF inv(5)] assms(3) by blast
  ultimately show ?thesis unfolding ob_inv_def ds using inv by (simp add: promises_ok_def)
qed

lemma getData_live:
  assumes "ob_inv ob lg" "live ob i d" "db_sequence d \<le> q" "q \<le> int (length (dest_stream ob lg i))"
  shows "\<exists>promises data ob' d'. OutputBuffer_getData i maxBytes q notify check ob =
      Inr (releaseAfterAcknowledge promises @ (if data = [] then [] else [Notify notify data q]), ob') \<and>
    ob_inv ob' lg \<and> fetched (max 1 maxBytes) (drop (nat q) (dest_stream ob lg i)) data \<and> live ob' i d' \<and> db_sequence d' = q \<and>
    (data = [] \<longrightarrow> db_notify d' = Some notify) \<and> promises @ ob_promises ob' = ob_promises ob \<and>
    ob_kind ob' = ob_kind ob \<and> ob_atEnd ob' = ob_atEnd ob"
proof -
  let ?s = "dest_stream ob lg i"
  obtain freed d1 promises ob1 where a: "DestinationBuffer_acknowledge q d = Inr (freed, d1)"
    "let ob' = ob\<lparr>ob_buffers := (ob_buffers ob)[i := Some d1]\<rparr> in
     updateAfterAcknowledgeLocked freed (count_list (freed @ held_pages ob')) ob' = Inr (promises, ob1)"
    "ob_inv ob1 lg" "after_ack ob i (Some d1) ob1" "dest_ok d1 ?s" "db_sequence d1 = q" "promises @ ob_promises ob1 = ob_promises ob"
    using ack_ok [OF assms(1,2,4)] unfolding max_absorb1 [OF assms(3)] by blast
  have b1: "live ob1 i d1" "ob_arbitraryBuffer ob1 = None" using a(4) assms(2) ob_invD(2) [OF a(3)] by (auto simp: after_ack_def)
  have ds: "dest_stream ob1 = dest_stream ob" using a(4) by (intro dest_stream_cong) (auto simp: after_ack_def)
  have left: "db_data d1 = drop (nat q) ?s" using dest_okD(4) [OF a(5)] a(6) by simp
  obtain data d2 where g: "DestinationBuffer_getData maxBytes q (Some notify) check None d1 = Inr (data, None, d2)" "dest_ok d2 ?s"
    "db_data d2 = db_data d1" "fetched (max 1 maxBytes) (db_data d1) data" "db_sequence d2 = q" "data = [] \<longrightarrow> db_notify d2 = Some notify"
    using getData_ok [OF a(5) a(6) [symmetric], of maxBytes notify check]
  proof (elim disjE)
    assume "db_data d1 = [] \<and> (\<exists>d'. DestinationBuffer_getData maxBytes q (Some notify) check None d1 = Inr ([], None, d') \<and>
      dest_ok d' ?s \<and> db_sequence d' = q \<and> db_notify d' = Some notify \<and> db_data d' = [])"
    then show thesis using that [of "[]"] by (auto simp: fetched_def)
  next
    assume "\<exists>data rest. DestinationBuffer_getData maxBytes q (Some notify) check None d1 = Inr (data, None, d1) \<and> db_data d1 = data @ rest \<and>
      data \<noteq> [] \<and> total_bytes (pages_of (butlast data)) < max 1 maxBytes \<and> (rest = [] \<or> max 1 maxBytes \<le> total_bytes (pages_of data))"
    then obtain data rest where r: "DestinationBuffer_getData maxBytes q (Some notify) check None d1 = Inr (data, None, d1)"
      "db_data d1 = data @ rest" "data \<noteq> []" "total_bytes (pages_of (butlast data)) < max 1 maxBytes" "rest = [] \<or> max 1 maxBytes \<le> total_bytes (pages_of data)"
      by blast
    then have "fetched (max 1 maxBytes) (db_data d1) data" by (auto simp: fetched_def)
    with r show thesis using that [of data d1] a(5,6) by blast
  qed
  let ?ob = "ob1\<lparr>ob_buffers := (ob_buffers ob1)[i := Some d2], ob_arbitraryBuffer := None\<rparr>"
  have "ob_inv ?ob lg" using replace_dest_inv [OF a(3) b1(1)] g(2,3) ds by simp
  moreover have "OutputBuffer_getData i maxBytes q notify check ob =
      Inr (releaseAfterAcknowledge promises @ (if data = [] then [] else [Notify notify data q]), ?ob)"
    using assms(2) a(1,2) b1(2) g(1) by (simp add: OutputBuffer_getData_def Let_def del: count_list_append)
  moreover have "live ?ob i d2" using b1(1) by simp
  moreover have "fetched (max 1 maxBytes) (drop (nat q) ?s) data" using g(4) left by simp
  moreover have "promises @ ob_promises ?ob = ob_promises ob" using a(7) by simp
  moreover have "ob_kind ?ob = ob_kind ob" "ob_atEnd ?ob = ob_atEnd ob" using a(4) by (simp_all add: after_ack_def)
  ultimately show ?thesis using g(5,6) by blast
qed

lemma getData_grows:
  assumes "ob_inv ob lg" "ob_kind ob = kBroadcast" "\<not> ob_noMoreBuffers ob" "length (ob_buffers ob) \<le> i"
  shows "\<exists>ob1 d. addOutputBuffersLocked (i + 1) ob = Inr ob1 \<and> ob_inv ob1 lg \<and> dest_stream ob1 = dest_stream ob \<and> live ob1 i d \<and>
    db_sequence d = 0 \<and> ob_promises ob1 = ob_promises ob \<and>
    OutputBuffer_getData i maxBytes q notify check ob = OutputBuffer_getData i maxBytes q notify check ob1"
proof -
  have "length (ob_buffers ob) < i + 1" using assms(4) by simp
  from addOutputBuffersLocked_ok [OF assms(1-3) this] obtain ob1 where o: "addOutputBuffersLocked (i + 1) ob = Inr ob1" "ob_inv ob1 lg"
    "length (ob_buffers ob1) = i + 1" "dest_stream ob1 = dest_stream ob" "ob_promises ob1 = ob_promises ob"
    "\<exists>d. ob_buffers ob1 ! i = Some d \<and> db_sequence d = 0" using assms(4) by auto
  have "OutputBuffer_getData i maxBytes q notify check ob = OutputBuffer_getData i maxBytes q notify check ob1"
    using assms(2,4) o(1,3) by (simp add: OutputBuffer_getData_def)
  with o show ?thesis by auto
qed

lemma OutputBuffer_getData_inv:
  assumes "ob_inv ob lg" "OutputBuffer_getData i maxBytes q notify check ob = Inr (evs, ob')"
  shows "ob_inv ob' lg"
proof -
  have key: "ob_inv ob' lg" if o: "ob_inv ob1 lg" "i < length (ob_buffers ob1)"
    "OutputBuffer_getData i maxBytes q notify check ob1 = Inr (evs, ob')" for ob1
  proof -
    obtain d where l: "live ob1 i d" using o(2,3) by (auto simp: OutputBuffer_getData_def split: option.splits)
    have "q \<le> int (length (dest_stream ob1 lg i))"
      using acknowledge_beyond [OF o(1) l] o(2,3) l by (fastforce simp: OutputBuffer_getData_def)
    moreover have "db_sequence d \<le> q"
    proof (rule ccontr)
      assume n: "\<not> db_sequence d \<le> q"
      have "dest_ok d (dest_stream ob1 lg i)" using ob_invD(5) [OF o(1)] l by (blast intro: dests_okD)
      with acknowledge_ok [of d _ q] n have "DestinationBuffer_acknowledge q d = Inr ([], d)" by force
      then show False using o(2,3) l n
        by (auto simp: OutputBuffer_getData_def updateAfterAcknowledgeLocked_def DestinationBuffer_getData_def)
    qed
    ultimately show ?thesis using getData_live [OF o(1) l, of q maxBytes notify check] o(3) by auto
  qed
  show ?thesis
  proof (cases "i < length (ob_buffers ob)")
    case True
    with key assms show ?thesis by blast
  next
    case False
    then have k: "ob_kind ob = kBroadcast" "\<not> ob_noMoreBuffers ob"
      using assms(2) ob_invD(1) [OF assms(1)] by (cases "ob_kind ob"; auto simp: OutputBuffer_getData_def addOutputBuffersLocked_def bindR_Inr_iff checkR_def split: if_splits)+
    from getData_grows [OF assms(1) k, of i maxBytes q notify check] False assms(2) key show ?thesis by auto
  qed
qed

end
