(* ===== verification/Output_Run.thy ===== *)
theory Output_Run
  imports Output_Inv
begin

text \<open>
  The operations of producers and of the task on the output buffer, and the runs: any sequence of calls that the
  protocol of the buffer allows.
\<close>

section \<open>The operations of producers\<close>

definition wakeups :: "dest option list \<Rightarrow> page option \<Rightarrow> event list" where
  "wakeups bs x = concat (map (\<lambda>b. case b of None \<Rightarrow> [] | Some d \<Rightarrow> wakeup d x) bs)"

text \<open>The destinations after \<open>x\<close> was added to each of them.\<close>

definition extended :: "page option \<Rightarrow> dest option \<Rightarrow> dest option \<Rightarrow> bool" where
  "extended x b b' \<longleftrightarrow> (case b of None \<Rightarrow> b' = None
     | Some d \<Rightarrow> \<exists>d'. b' = Some d' \<and> db_sequence d' = db_sequence d \<and> db_notify d' = None \<and> db_data d' = db_data d @ [x])"

lemma wakeups_simps [simp]: "wakeups [] x = []" "wakeups (None # bs) x = wakeups bs x" "wakeups (Some d # bs) x = wakeup d x @ wakeups bs x"
  by (simp_all add: wakeups_def)

lemma extended_None [simp]: "extended x None None"
  by (simp add: extended_def)

abbreviation enqueue_each :: "page option \<Rightarrow> unit \<Rightarrow> dest \<Rightarrow> (unit \<times> event list \<times> dest) result" where
  "enqueue_each x \<equiv> \<lambda>_ d. bindR (enqueueAndNotify x d) (\<lambda>e. Inr ((), e))"

lemma each_conv: "(\<lambda>(ev, d). Inr ((), ev, d)) = (\<lambda>e. Inr ((), e))"
  by auto

lemma enqueueAndNotify_extends:
  assumes "dest_ok d s" "tail_ok (s @ [x])"
  shows "\<exists>d'. enqueueAndNotify x d = Inr (wakeup d x, d') \<and> dest_ok d' (s @ [x]) \<and> extended x (Some d) (Some d')"
proof -
  obtain d' where d': "enqueueAndNotify x d = Inr (wakeup d x, d')" "dest_ok d' (s @ [x])" "db_sequence d' = db_sequence d" "db_notify d' = None"
    using enqueueAndNotify_ok [OF assms] by blast
  have "db_data d' = db_data d @ [x]" using dest_okD(4) [OF d'(2)] dest_okD(3,4) [OF assms(1)] d'(3) by simp
  with d' show ?thesis by (auto simp: extended_def)
qed

lemma forBuffers_ok:
  "dests_ok S bs \<Longrightarrow> (\<forall>i<length bs. tail_ok (S i @ [x])) \<Longrightarrow>
   \<exists>bs'. forBuffers (enqueue_each x) () bs = Inr ((), wakeups bs x, bs') \<and> dests_ok (\<lambda>i. S i @ [x]) bs' \<and> list_all2 (extended x) bs bs'"
proof (induction bs arbitrary: S)
  case Nil
  then show ?case by (simp add: wakeups_def dests_ok_def)
next
  case (Cons b bs)
  have "dests_ok (\<lambda>i. S (Suc i)) bs" "\<forall>i<length bs. tail_ok (S (Suc i) @ [x])" using Cons(2,3) by (auto simp: dests_ok_def)
  from Cons(1) [OF this] obtain bs' where IH: "forBuffers (enqueue_each x) () bs = Inr ((), wakeups bs x, bs')"
    "dests_ok (\<lambda>i. S (Suc i) @ [x]) bs'" "list_all2 (extended x) bs bs'" by blast
  have cons: "dests_ok (\<lambda>i. S i @ [x]) (c # bs')" if "\<And>d. c = Some d \<Longrightarrow> dest_ok d (S 0 @ [x])" for c
    using IH(2) that by (auto simp: dests_ok_def nth_Cons split: nat.splits)
  show ?case
  proof (cases b)
    case None
    then show ?thesis using IH cons [of None] by (intro exI [of _ "None # bs'"]) simp
  next
    case (Some d)
    have "dest_ok d (S 0)" using Cons(2) Some by (auto simp: dests_ok_def)
    from enqueueAndNotify_extends [OF this, of x] Cons(3) obtain d' where
      "enqueueAndNotify x d = Inr (wakeup d x, d')" "dest_ok d' (S 0 @ [x])" "extended x (Some d) (Some d')" by auto
    then show ?thesis using Some IH cons [of "Some d'"] by (intro exI [of _ "Some d' # bs'"]) simp
  qed
qed

lemma extended_pages: "extended x b b' \<Longrightarrow> set (dest_pages b') = set (dest_pages b) \<union> (if b = None then {} else set (pages_of [x]))"
  by (cases b) (auto simp: extended_def)

lemma extended_buffers_pages:
  "list_all2 (extended x) bs bs' \<Longrightarrow>
   set (buffers_pages bs') = set (buffers_pages bs) \<union> (if list_all (\<lambda>b. b = None) bs then {} else set (pages_of [x]))"
proof (induction rule: list_all2_induct)
  case (Cons b bs b' bs')
  then show ?case using extended_pages [OF Cons(1)] by (auto simp: buffers_pages_conv)
qed (simp add: buffers_pages_conv)

lemma extended_none: "list_all2 (extended x) bs bs' \<Longrightarrow> list_all (\<lambda>b. b = None) bs' = list_all (\<lambda>b. b = None) bs"
  by (induction rule: list_all2_induct) (auto simp: extended_def split: option.splits)

lemma forBuffers_total:
  "(\<And>d. Some d \<in> set bs \<Longrightarrow> \<exists>e. enqueueAndNotify x d = Inr e) \<Longrightarrow> \<exists>r. forBuffers (enqueue_each x) () bs = Inr r"
proof (induction bs)
  case (Cons b bs)
  then obtain r where r: "forBuffers (enqueue_each x) () bs = Inr r" by auto
  show ?case
  proof (cases b)
    case (Some d)
    then have "\<exists>e. enqueueAndNotify x d = Inr e" using Cons(2) by simp
    then obtain e where "enqueueAndNotify x d = Inr e" ..
    then show ?thesis using r Some by (cases e) (simp add: split_beta)
  qed (use r in \<open>simp add: split_beta\<close>)
qed simp

text \<open>The end of the streams. Drivers of a task that runs in morsels are not counted strictly, but their schedulers are.\<close>

definition count_valid :: "output_buffer \<Rightarrow> nat \<Rightarrow> bool" where
  "count_valid ob n \<longleftrightarrow>
     (if ob_isMorselDriven ob then ob_numFinishedPushBasedDriverSchedulers ob \<le> ob_numPushBasedDriverSchedulers ob else n \<le> ob_numDrivers ob)"

definition all_finished :: "output_buffer \<Rightarrow> nat \<Rightarrow> bool" where
  "all_finished ob n \<longleftrightarrow> n = ob_numDrivers ob \<and>
     (ob_isMorselDriven ob \<longrightarrow> ob_numFinishedPushBasedDriverSchedulers ob = ob_numPushBasedDriverSchedulers ob)"

lemma all_finished_valid: "all_finished ob n \<Longrightarrow> count_valid ob n"
  by (simp add: all_finished_def count_valid_def)

lemma checkIfDone_not:
  assumes "n = ob_numFinished ob + (if one then 1 else 0)" "\<not> all_finished ob n"
  shows "checkIfDone alive one ob = checkR (count_valid ob n) (Inr ([], ob\<lparr>ob_numFinished := n, ob_atEnd := False\<rparr>))"
  using assms by (cases one) (auto simp: checkIfDone_def Let_def checkR_def count_valid_def all_finished_def)

lemma checkIfDone_all:
  assumes "n = ob_numFinished ob + (if one then 1 else 0)" "all_finished ob n" "ob_kind ob \<noteq> kArbitrary"
  shows "checkIfDone alive one ob = bindR (forBuffers (enqueue_each None) () (ob_buffers ob))
    (\<lambda>(_, evs, bs). Inr (evs, ob\<lparr>ob_numFinished := n, ob_atEnd := True, ob_buffers := bs\<rparr>))"
proof -
  have "(if one then ob\<lparr>ob_numFinished := ob_numFinished ob + 1\<rparr> else ob) = ob\<lparr>ob_numFinished := n\<rparr>" using assms(1) by simp
  then show ?thesis using assms(2,3) unfolding checkIfDone_def by (simp add: Let_def all_finished_def each_conv)
qed

lemma stream_end: "stream ps False @ [None] = stream ps True" and stream_page: "stream ps False @ [Some p] = stream (ps @ [p]) False"
  by (simp_all add: stream_def)

lemma checkIfDone_ok:
  assumes "ob_inv ob lg" "\<not> ob_atEnd ob" "n = ob_numFinished ob + (if one then 1 else 0)" "count_valid ob n"
  shows "\<exists>ob'. checkIfDone alive one ob = Inr (if all_finished ob n then wakeups (ob_buffers ob) None else [], ob') \<and> ob_inv ob' lg \<and>
    (ob_atEnd ob' \<longleftrightarrow> all_finished ob n)"
proof -
  note inv = ob_invD [OF assms(1)]
  show ?thesis
  proof (cases "all_finished ob n")
    case False
    let ?ob = "ob\<lparr>ob_numFinished := n, ob_atEnd := False\<rparr>"
    have c: "checkIfDone alive one ob = Inr ([], ?ob)" using checkIfDone_not [OF assms(3) False] assms(4) by simp
    have ds: "dest_stream ?ob = dest_stream ob" by (rule dest_stream_cong) (use assms(2) in simp_all)
    have "counted ?ob lg" by (rule counted_cong [OF inv(7)]) (simp_all add: held_pages_def finished_broadcast_def isFinishedLocked_def)
    then have "ob_inv ?ob lg" unfolding ob_inv_def ds using inv by (simp add: promises_ok_def)
    with c False show ?thesis by auto
  next
    case True
    have ds: "dest_stream ob lg i @ [None] = stream (pages_for (ob_kind ob) lg i) True" for i
      using assms(2) by (simp add: dest_stream_def stream_end)
    have "tail_ok (dest_stream ob lg i @ [None])" for i unfolding ds using pages_for_log [OF inv(4)] by (intro tail_ok_stream) blast
    with forBuffers_ok [OF inv(5), of None] obtain bs where f: "forBuffers (enqueue_each None) () (ob_buffers ob) = Inr ((), wakeups (ob_buffers ob) None, bs)"
      "dests_ok (\<lambda>i. dest_stream ob lg i @ [None]) bs" "list_all2 (extended None) (ob_buffers ob) bs" by blast
    let ?ob = "ob\<lparr>ob_numFinished := n, ob_atEnd := True, ob_buffers := bs\<rparr>"
    have c: "checkIfDone alive one ob = Inr (wakeups (ob_buffers ob) None, ?ob)" using checkIfDone_all [OF assms(3) True inv(1)] f(1) by simp
    have "set (held_pages ?ob) = set (held_pages ob)" using extended_buffers_pages [OF f(3)] inv(2) by (simp add: held_pages_conv)
    then have "counted ?ob lg"
      by (intro counted_cong [OF inv(7)]) (simp_all add: finished_broadcast_def isFinishedLocked_def extended_none [OF f(3)])
    moreover have "dests_ok (dest_stream ?ob lg) bs" using f(2) unfolding ds by (simp add: dests_ok_def dest_stream_def)
    ultimately have "ob_inv ?ob lg" unfolding ob_inv_def using inv True list_all2_lengthD [OF f(3)]
      by (simp add: promises_ok_def all_finished_def)
    with c True show ?thesis by auto
  qed
qed

text \<open>A page of its own is logged for its destination.\<close>

lemma log_ok_snoc: "log_ok lg \<Longrightarrow> page_ok p \<Longrightarrow> p \<notin> snd ` set lg \<Longrightarrow> log_ok (lg @ [(i, p)])"
  by (auto simp: log_ok_def)

lemma pages_for_snoc: "pages_for k (lg @ [(i, p)]) j = pages_for k lg j @ (if k = kPartitioned \<and> i \<noteq> j then [] else [p])"
  by (auto simp: pages_for_def)

lemma dest_stream_snoc:
  "\<not> ob_atEnd ob \<Longrightarrow> dest_stream ob (lg @ [(i, p)]) j = dest_stream ob lg j @ (if ob_kind ob = kPartitioned \<and> i \<noteq> j then [] else [Some p])"
  by (simp add: dest_stream_def pages_for_snoc stream_page)

text \<open>The state with the page counted and, where there is a place for it, held.\<close>

definition enqueued :: "page \<Rightarrow> bool \<Rightarrow> dest option list \<Rightarrow> output_buffer \<Rightarrow> output_buffer" where
  "enqueued p kept bs ob = (updateStatsWithEnqueuedPageLocked (pg_size p) (the (pg_numRows p)) ob)
     \<lparr>ob_bufferedBytes := ob_bufferedBytes ob + (if kept then int (pg_size p) else 0),
      ob_bufferedPages := ob_bufferedPages ob + (if kept then 1 else 0), ob_buffers := bs,
      ob_dataToBroadcast := ob_dataToBroadcast ob @ (if ob_kind ob = kBroadcast \<and> \<not> ob_noMoreBuffers ob then [p] else [])\<rparr>"

lemma enqueued_inv:
  assumes "ob_inv ob lg" "\<not> ob_atEnd ob" "page_ok p" "p \<notin> snd ` set lg"
    "dests_ok (dest_stream ob (lg @ [(i, p)])) bs" "length bs = length (ob_buffers ob)"
    "counted (enqueued p kept bs ob) (lg @ [(i, p)])"
  shows "ob_inv (enqueued p kept bs ob) (lg @ [(i, p)])" (is "ob_inv ?ob ?lg")
proof -
  note inv = ob_invD [OF assms(1)]
  note e = enqueued_def updateStatsWithEnqueuedPageLocked_def
  have ds: "dest_stream ?ob = dest_stream ob" by (rule dest_stream_cong) (simp_all add: e)
  have "promises_ok ?ob" using inv(8) by (auto simp: promises_ok_def e)
  then show ?thesis unfolding ob_inv_def ds
    using inv log_ok_snoc [OF inv(4) assms(3,4), of i] assms(2,5-7) by (simp add: e)
qed

lemma enqueued_counted:
  assumes "ob_inv ob lg" "p \<notin> snd ` set lg" "\<not> finished_broadcast ob"
    "set (buffers_pages bs) \<union> (if ob_kind ob = kBroadcast \<and> \<not> ob_noMoreBuffers ob then {p} else {}) =
     set (buffers_pages (ob_buffers ob)) \<union> (if kept then {p} else {})"
  shows "counted (enqueued p kept bs ob) lg'" (is "counted ?ob lg'")
proof (rule counts_counted)
  note inv = ob_invD [OF assms(1)]
  note e = enqueued_def updateStatsWithEnqueuedPageLocked_def
  have new: "p \<notin> set (held_pages ob)" using held_in_log [OF assms(1)] assms(2) by blast
  have "set (held_pages ?ob) = set (held_pages ob) \<union> (if kept then {p} else {})"
    using assms(4) inv(2) by (auto simp: held_pages_conv e split: if_splits)
  then show "counts_ok ?ob" using counted_counts [OF inv(7) assms(3)] new by (auto simp: counts_ok_def e)
  show "ob_arbitraryBuffer ?ob = None" using inv(2) by (simp add: e)
  show "ob_dataToBroadcast ?ob = []" if "finished_broadcast ?ob"
    using that inv(6) by (auto simp: e finished_broadcast_def isFinishedLocked_def split: if_splits)
qed

lemma enqueued_finished:
  assumes "counted ob lg" "finished_broadcast ob" "list_all (\<lambda>b. b = None) bs"
  shows "counted (enqueued p True bs ob) (lg @ [(i, p)])"
proof -
  have "finished_broadcast (enqueued p True bs ob)" using assms(2,3)
    by (auto simp: enqueued_def updateStatsWithEnqueuedPageLocked_def finished_broadcast_def isFinishedLocked_def split: if_splits)
  moreover obtain n where "n \<le> length lg" "ob_bufferedBytes ob = int (total_bytes (map snd (drop n lg)))"
    "ob_bufferedPages ob = int (length (drop n lg))" using assms(1,2) by (auto simp: counted_def)
  ultimately show ?thesis
    by (auto simp: counted_def enqueued_def updateStatsWithEnqueuedPageLocked_def total_bytes_def intro!: exI [of _ n])
qed

text \<open>A producer that is blocked hands over its promise.\<close>

definition blockProducer :: "nat option \<Rightarrow> output_buffer \<Rightarrow> bool \<times> output_buffer" where
  "blockProducer future ob = (case future of
     Some promise \<Rightarrow> if ob_bufferedBytes ob > int (ob_maxSize ob) then (True, ob\<lparr>ob_promises := ob_promises ob @ [promise]\<rparr>) else (False, ob)
   | None \<Rightarrow> (False, ob))"

lemma blockProducer_inv: "ob_inv ob lg \<Longrightarrow> ob_inv (snd (blockProducer future ob)) lg"
proof -
  assume a: "ob_inv ob lg"
  note inv = ob_invD [OF a]
  have "ob_inv (ob\<lparr>ob_promises := qs\<rparr>) lg" (is "ob_inv ?ob lg") if "ob_bufferedBytes ob > int (ob_maxSize ob)" for qs
  proof -
    have ds: "dest_stream ?ob = dest_stream ob" by (rule dest_stream_cong) simp_all
    have "counted ?ob lg" by (rule counted_cong [OF inv(7)]) (simp_all add: held_pages_def finished_broadcast_def isFinishedLocked_def)
    then show ?thesis unfolding ob_inv_def ds using inv that by (simp add: promises_ok_def)
  qed
  with a show ?thesis by (auto simp: blockProducer_def split: option.splits)
qed

lemma enqueue_broadcast:
  assumes "ob_inv ob lg" "\<not> ob_atEnd ob" "page_ok p" "p \<notin> snd ` set lg" "ob_kind ob = kBroadcast" "0 < length (ob_buffers ob)"
  shows "\<exists>ob1. OutputBuffer_enqueue True alive 0 p future ob =
      Inr (fst (blockProducer future ob1), wakeups (ob_buffers ob) (Some p), snd (blockProducer future ob1)) \<and>
    ob_inv ob1 (lg @ [(0, p)]) \<and> ob_maxSize ob1 = ob_maxSize ob \<and> ob_promises ob1 = ob_promises ob"
proof -
  note inv = ob_invD [OF assms(1)]
  obtain rows where r: "pg_numRows p = Some rows" using assms(3) by (auto simp: page_ok_def)
  have "tail_ok (dest_stream ob lg i @ [Some p])" for i
    using dest_stream_ok [OF log_ok_snoc [OF inv(4) assms(3,4)], of ob 0 i] assms(2,5) by (simp add: dest_stream_snoc)
  with forBuffers_ok [OF inv(5), of "Some p"] obtain bs where
    f: "forBuffers (enqueue_each (Some p)) () (ob_buffers ob) = Inr ((), wakeups (ob_buffers ob) (Some p), bs)"
    "dests_ok (\<lambda>i. dest_stream ob lg i @ [Some p]) bs" "list_all2 (extended (Some p)) (ob_buffers ob) bs" by blast
  let ?ob = "enqueued p True bs ob"
  have "dests_ok (dest_stream ob (lg @ [(0, p)])) bs" using f(2) assms(2,5) by (simp add: dests_ok_def dest_stream_snoc)
  moreover have "counted ?ob (lg @ [(0, p)])"
  proof (cases "finished_broadcast ob")
    case True
    then have "list_all (\<lambda>b. b = None) bs" using extended_none [OF f(3)] by (auto simp: finished_broadcast_def isFinishedLocked_def split: if_splits)
    then show ?thesis by (rule enqueued_finished [OF inv(7) True])
  next
    case False
    then show ?thesis
      by (intro enqueued_counted [OF assms(1,4) False])
        (use extended_buffers_pages [OF f(3)] assms(5) in \<open>auto simp: finished_broadcast_def isFinishedLocked_def split: if_splits\<close>)
  qed
  ultimately have "ob_inv ?ob (lg @ [(0, p)])" using list_all2_lengthD [OF f(3)] by (intro enqueued_inv assms) simp_all
  moreover have "OutputBuffer_enqueue True alive 0 p future ob =
      Inr (fst (blockProducer future ?ob), wakeups (ob_buffers ob) (Some p), snd (blockProducer future ?ob))"
    using assms(5,6) r inv(2) f(1) unfolding OutputBuffer_enqueue_def enqueueBroadcastOutputLocked_def Let_def each_conv
    by (auto simp: updateStatsWithEnqueuedPageLocked_def enqueued_def blockProducer_def split: option.splits)
  ultimately show ?thesis by (auto simp: enqueued_def updateStatsWithEnqueuedPageLocked_def)
qed

lemma enqueue_partitioned:
  assumes "ob_inv ob lg" "\<not> ob_atEnd ob" "page_ok p" "p \<notin> snd ` set lg" "ob_kind ob = kPartitioned" "i < length (ob_buffers ob)"
  shows "\<exists>ob1. OutputBuffer_enqueue True alive i p future ob =
      Inr (fst (blockProducer future ob1), wakeups [ob_buffers ob ! i] (Some p), snd (blockProducer future ob1)) \<and>
    ob_inv ob1 (lg @ [(i, p)]) \<and> ob_maxSize ob1 = ob_maxSize ob \<and> ob_promises ob1 = ob_promises ob"
proof -
  note inv = ob_invD [OF assms(1)]
  obtain rows where r: "pg_numRows p = Some rows" using assms(3) by (auto simp: page_ok_def)
  have nf: "\<not> finished_broadcast ob" using assms(5) by (simp add: finished_broadcast_def)
  show ?thesis
  proof (cases "ob_buffers ob ! i")
    case None
    let ?ob = "enqueued p False (ob_buffers ob) ob"
    have "dests_ok (dest_stream ob (lg @ [(i, p)])) (ob_buffers ob)"
      using inv(5) None assms(2,5) by (auto simp: dests_ok_def dest_stream_snoc)
    then have "ob_inv ?ob (lg @ [(i, p)])" using assms(5) by (intro enqueued_inv enqueued_counted [OF assms(1,4) nf] assms) simp_all
    moreover have "0 \<le> ob_bufferedBytes ob" "0 \<le> ob_bufferedPages ob" using counted_nonneg [OF inv(7)] by simp_all
    then have "OutputBuffer_enqueue True alive i p future ob =
        Inr (fst (blockProducer future ?ob), wakeups [ob_buffers ob ! i] (Some p), snd (blockProducer future ?ob))"
      using assms(5,6) r inv(2) None unfolding OutputBuffer_enqueue_def enqueuePartitionedOutputLocked_def Let_def
      by (auto simp: updateStatsWithEnqueuedPageLocked_def updateStatsWithFreedPagesLocked_def enqueued_def blockProducer_def
          split: option.splits)
    ultimately show ?thesis by (auto simp: enqueued_def updateStatsWithEnqueuedPageLocked_def)
  next
    case (Some d)
    have "dest_ok d (dest_stream ob lg i)" using inv(5) assms(6) Some by (rule dests_okD)
    moreover have "tail_ok (dest_stream ob lg i @ [Some p])"
      using dest_stream_ok [OF log_ok_snoc [OF inv(4) assms(3,4)], of ob i i] assms(2) by (simp add: dest_stream_snoc)
    ultimately obtain d' where d': "enqueueAndNotify (Some p) d = Inr (wakeup d (Some p), d')"
      "dest_ok d' (dest_stream ob lg i @ [Some p])" "extended (Some p) (Some d) (Some d')" using enqueueAndNotify_extends by blast
    let ?bs = "(ob_buffers ob)[i := Some d']" let ?ob = "enqueued p True ?bs ob"
    have "dests_ok (dest_stream ob (lg @ [(i, p)])) ?bs"
      using inv(5) d'(2) assms(2,5,6) by (auto simp: dests_ok_def dest_stream_snoc nth_list_update split: if_splits)
    moreover have "set (buffers_pages ?bs) = set (buffers_pages (ob_buffers ob)) \<union> {p}"
    proof -
      have "set (buffers_pages ?bs) = {p} \<union> set (buffers_pages (?bs[i := Some d]))"
        by (rule buffers_pages_update) (use assms(6) extended_pages [OF d'(3)] in auto)
      moreover have "?bs[i := Some d] = ob_buffers ob" using Some assms(6) by (metis list_update_id list_update_overwrite)
      ultimately show ?thesis by auto
    qed
    ultimately have "ob_inv ?ob (lg @ [(i, p)])" using assms(5) by (intro enqueued_inv enqueued_counted [OF assms(1,4) nf] assms) simp_all
    moreover have "OutputBuffer_enqueue True alive i p future ob =
        Inr (fst (blockProducer future ?ob), wakeups [ob_buffers ob ! i] (Some p), snd (blockProducer future ?ob))"
      using assms(5,6) r inv(2) Some d'(1) unfolding OutputBuffer_enqueue_def enqueuePartitionedOutputLocked_def Let_def
      by (auto simp: updateStatsWithEnqueuedPageLocked_def enqueued_def blockProducer_def split: option.splits)
    ultimately show ?thesis by (auto simp: enqueued_def updateStatsWithEnqueuedPageLocked_def)
  qed
qed

text \<open>The protocol of a producer: its driver has not finished, and the page is its own, is not empty and has a row count.\<close>

definition may_enqueue :: "output_buffer \<Rightarrow> log \<Rightarrow> page \<Rightarrow> bool" where
  "may_enqueue ob lg p \<longleftrightarrow> \<not> ob_atEnd ob \<and> page_ok p \<and> p \<notin> snd ` set lg"

text \<open>The destinations that a page for \<open>i\<close> goes to.\<close>

definition targets :: "output_buffer \<Rightarrow> nat \<Rightarrow> dest option list" where
  "targets ob i = (if ob_kind ob = kBroadcast then ob_buffers ob else [ob_buffers ob ! i])"

lemma OutputBuffer_enqueue_ok:
  assumes "ob_inv ob lg" "may_enqueue ob lg p" "i < length (ob_buffers ob)" "ob_kind ob = kBroadcast \<longrightarrow> i = 0"
  shows "\<exists>ob1. OutputBuffer_enqueue True alive i p future ob =
      Inr (fst (blockProducer future ob1), wakeups (targets ob i) (Some p), snd (blockProducer future ob1)) \<and>
    ob_inv ob1 (lg @ [(i, p)]) \<and> ob_maxSize ob1 = ob_maxSize ob \<and> ob_promises ob1 = ob_promises ob"
proof (cases "ob_kind ob = kBroadcast")
  case True
  then show ?thesis using enqueue_broadcast [OF assms(1), of p] assms(2-4) unfolding may_enqueue_def targets_def by auto
next
  case False
  then have "ob_kind ob = kPartitioned" using ob_invD(1) [OF assms(1)] output_kind.exhaust by blast
  then show ?thesis using enqueue_partitioned [OF assms(1), of p] assms(2,3) unfolding may_enqueue_def targets_def by auto
qed

lemma OutputBuffer_enqueue_inv:
  assumes "ob_inv ob lg" "may_enqueue ob lg p" "OutputBuffer_enqueue run alive i p future ob = Inr (blocked, evs, ob')"
  shows "ob_inv ob' (lg @ [(i, p)])"
proof -
  have g: "run" "i < length (ob_buffers ob)" using assms(3) by (auto simp: OutputBuffer_enqueue_def checkR_def split: if_splits)
  moreover have "ob_kind ob = kBroadcast \<longrightarrow> i = 0"
    using assms(3) g by (auto simp: OutputBuffer_enqueue_def updateStatsWithEnqueuedPageLocked_def bindR_Inr_iff checkR_def
        split: option.splits if_splits)
  ultimately obtain ob1 where "OutputBuffer_enqueue True alive i p future ob =
      Inr (fst (blockProducer future ob1), wakeups (targets ob i) (Some p), snd (blockProducer future ob1))"
    "ob_inv ob1 (lg @ [(i, p)])" using OutputBuffer_enqueue_ok [OF assms(1,2)] by blast
  then show ?thesis using assms(3) g(1) blockProducer_inv by auto
qed

section \<open>The operations of the task\<close>

lemma checkIfDone_inv:
  assumes "ob_inv ob lg" "one \<and> \<not> ob_isMorselDriven ob \<or> \<not> ob_atEnd ob" "checkIfDone alive one ob = Inr (evs, ob')"
  shows "ob_inv ob' lg"
proof -
  define n where "n = ob_numFinished ob + (if one then 1 else 0)"
  have n: "count_valid ob n"
  proof (rule ccontr)
    assume "\<not> count_valid ob n"
    then show False using checkIfDone_not [OF n_def, of alive] all_finished_valid [of ob n] assms(3) by auto
  qed
  moreover have "\<not> ob_atEnd ob" using assms(2) n ob_invD(11) [OF assms(1)] by (auto simp: n_def count_valid_def split: if_splits)
  ultimately show ?thesis using checkIfDone_ok [OF assms(1) _ n_def, of alive] assms(3) by auto
qed

text \<open>Changes of the configuration that no stream, queue or count depends on.\<close>

lemma config_inv:
  assumes "ob_inv ob lg" "ob_atEnd ob \<Longrightarrow> n = ob_numDrivers ob"
  shows "ob_inv (ob\<lparr>ob_numDrivers := n, ob_isMorselDriven := morsel, ob_numFinishedPushBasedDriverSchedulers := k\<rparr>) lg" (is "ob_inv ?ob lg")
proof -
  note inv = ob_invD [OF assms(1)]
  have ds: "dest_stream ?ob = dest_stream ob" by (rule dest_stream_cong) simp_all
  have "counted ?ob lg" by (rule counted_cong [OF inv(7)]) (simp_all add: held_pages_def finished_broadcast_def isFinishedLocked_def)
  then show ?thesis unfolding ob_inv_def ds using inv assms(2) by (simp add: promises_ok_def)
qed

lemma numDrivers_inv:
  assumes "ob_inv ob lg" "\<not> ob_atEnd ob"
  shows "ob_inv (ob\<lparr>ob_numDrivers := n\<rparr>) lg"
proof -
  have "ob\<lparr>ob_numDrivers := n\<rparr> = ob\<lparr>ob_numDrivers := n, ob_isMorselDriven := ob_isMorselDriven ob,
      ob_numFinishedPushBasedDriverSchedulers := ob_numFinishedPushBasedDriverSchedulers ob\<rparr>" by simp
  then show ?thesis using config_inv [OF assms(1), of n] assms(2) by metis
qed

lemma setMorselDriven_inv: "ob_inv ob lg \<Longrightarrow> ob_inv (setMorselDriven ob) lg"
  using config_inv [of ob lg "ob_numDrivers ob" "ob_numFinishedPushBasedDriverSchedulers ob" True] by (simp add: setMorselDriven_def)

lemma finishedSchedulers_inv:
  "ob_inv ob lg \<Longrightarrow> addFinishedPushBasedDriverSchedulers ob = Inr ob' \<Longrightarrow> ob_inv ob' lg"
  using config_inv [of ob lg "ob_numDrivers ob" _ "ob_isMorselDriven ob"]
  by (auto simp: addFinishedPushBasedDriverSchedulers_def checkR_def split: if_splits)

lemma updateNumDrivers_conv:
  "updateNumDrivers alive n ob = (if all_finished (ob\<lparr>ob_numDrivers := n\<rparr>) (ob_numFinished ob)
     then checkIfDone alive False (ob\<lparr>ob_numDrivers := n\<rparr>) else Inr ([], ob\<lparr>ob_numDrivers := n\<rparr>))"
  by (auto simp: updateNumDrivers_def noMoreDrivers_def all_finished_def Let_def)

lemma updateNumDrivers_inv:
  assumes "ob_inv ob lg" "\<not> ob_atEnd ob" "updateNumDrivers alive n ob = Inr (evs, ob')"
  shows "ob_inv ob' lg"
  using assms(2,3) numDrivers_inv [OF assms(1,2), of n] checkIfDone_inv [of "ob\<lparr>ob_numDrivers := n\<rparr>" lg False]
  by (auto simp: updateNumDrivers_conv split: if_splits)

text \<open>No more destinations: a broadcast forgets the pages it kept for new ones.\<close>

lemma noMoreBuffers_open:
  assumes "ob_inv ob lg" "ob_kind ob = kBroadcast" "\<not> finished_broadcast ob"
  shows "\<exists>promises ob'. (let ob1 = ob\<lparr>ob_noMoreBuffers := True\<rparr> in
      updateAfterAcknowledgeLocked (ob_dataToBroadcast ob1) (count_list (held_pages ob1)) ob1 = Inr (promises, ob')) \<and>
    ob_inv (ob'\<lparr>ob_dataToBroadcast := []\<rparr>) lg \<and> promises @ ob_promises ob' = ob_promises ob"
proof -
  note inv = ob_invD [OF assms(1)] and co = counted_counts [OF ob_invD(7) [OF assms(1)] assms(3)]
  let ?ob1 = "ob\<lparr>ob_noMoreBuffers := True\<rparr>" and ?T = "ob_dataToBroadcast ob" and ?h = "buffers_pages (ob_buffers ob)"
  have T: "distinct ?T" "list_all page_ok ?T" using inv(4,6) by (simp_all add: log_ok_def)
  have held: "held_pages ?ob1 = ?h @ ?T" "held_pages ob = ?h @ ?T" using inv(2) by (simp_all add: held_pages_conv)
  have u: "count_list (held_pages ?ob1) p = count_list (?T @ ?h) p" for p by (simp add: held)
  have c: "ob_bufferedBytes ?ob1 = int (sum pg_size (set ?T \<union> set ?h))" "ob_bufferedPages ?ob1 = int (card (set ?T \<union> set ?h))"
    using co by (simp_all add: counts_ok_def held Un_commute)
  obtain promises where up: "updateAfterAcknowledgeLocked ?T (count_list (held_pages ?ob1)) ?ob1 =
      Inr (promises, ?ob1\<lparr>ob_bufferedBytes := int (sum pg_size (set ?h)), ob_bufferedPages := int (card (set ?h)),
             ob_promises := if promises = [] then ob_promises ?ob1 else []\<rparr>)"
    "promises = [] \<or> promises = ob_promises ?ob1"
    "set ?T \<subseteq> set ?h \<or> int (sum pg_size (set ?h)) \<ge> int (ob_continueSize ?ob1) \<or> promises = ob_promises ?ob1"
    using update_after_ok [OF T u c] by blast
  define ob' where "ob' = ?ob1\<lparr>ob_bufferedBytes := int (sum pg_size (set ?h)), ob_bufferedPages := int (card (set ?h)),
             ob_promises := if promises = [] then ob_promises ?ob1 else []\<rparr>"
  let ?ob = "ob'\<lparr>ob_dataToBroadcast := []\<rparr>"
  have ds: "dest_stream ?ob = dest_stream ob" by (rule dest_stream_cong) (simp_all add: ob'_def)
  have "counts_ok ?ob" using inv(2) by (simp add: counts_ok_def held_pages_conv ob'_def)
  then have "counted ?ob lg" by (rule counts_counted) (use inv(2) in \<open>simp_all add: ob'_def\<close>)
  moreover have "promises_ok ?ob"
  proof (cases "set ?T \<subseteq> set ?h")
    case True
    then have "set (held_pages ob) = set ?h" by (auto simp: held)
    then show ?thesis using co inv(8) by (simp add: promises_ok_def counts_ok_def ob'_def)
  next
    case False
    then show ?thesis using up(3) by (auto simp: promises_ok_def ob'_def)
  qed
  ultimately have "ob_inv ?ob lg" unfolding ob_inv_def ds using inv by (simp add: ob'_def)
  moreover have "promises @ ob_promises ob' = ob_promises ob" using up(2) by (auto simp: ob'_def)
  ultimately show ?thesis using up(1) unfolding Let_def ob'_def [symmetric] by (intro exI [of _ promises] exI [of _ ob']) simp
qed

lemma noMoreBuffers_ok:
  assumes "ob_inv ob lg" "ob_kind ob = kBroadcast"
  shows "\<exists>promises ob'. (let ob1 = ob\<lparr>ob_noMoreBuffers := True\<rparr> in
      updateAfterAcknowledgeLocked (ob_dataToBroadcast ob1) (count_list (held_pages ob1)) ob1 = Inr (promises, ob')) \<and>
    ob_inv (ob'\<lparr>ob_dataToBroadcast := []\<rparr>) lg \<and> promises @ ob_promises ob' = ob_promises ob"
proof (cases "finished_broadcast ob")
  case True
  then have "ob_noMoreBuffers ob" "ob_dataToBroadcast ob = []" using ob_invD(3) [OF assms(1)]
    by (auto simp: finished_broadcast_def isFinishedLocked_def split: if_splits)
  then have eq: "ob\<lparr>ob_noMoreBuffers := True\<rparr> = ob" "ob\<lparr>ob_dataToBroadcast := []\<rparr> = ob" by (cases ob; simp)+
  have "updateAfterAcknowledgeLocked (ob_dataToBroadcast ob) (count_list (held_pages ob)) ob = Inr ([], ob)"
    using \<open>ob_dataToBroadcast ob = []\<close> by (simp add: updateAfterAcknowledgeLocked_def)
  then show ?thesis unfolding Let_def eq(1) by (intro exI [of _ "[]"] exI [of _ ob]) (use assms(1) eq(2) in simp)
qed (rule noMoreBuffers_open [OF assms])

lemma updateOutputBuffers_ok:
  assumes "ob_inv ob lg"
    "if ob_kind ob = kPartitioned then n = length (ob_buffers ob) \<and> noMore else n \<le> length (ob_buffers ob) \<or> \<not> ob_noMoreBuffers ob"
  shows "\<exists>evs ob'. updateOutputBuffers n noMore ob = Inr (evs, ob') \<and> ob_inv ob' lg"
proof (cases "ob_kind ob = kPartitioned")
  case True
  let ?ob = "ob\<lparr>ob_noMoreBuffers := True\<rparr>"
  have ds: "dest_stream ?ob = dest_stream ob" by (rule dest_stream_cong) simp_all
  have "counted ?ob lg" by (rule counted_cong [OF ob_invD(7) [OF assms(1)]]) (use True in \<open>simp_all add: held_pages_def finished_broadcast_def\<close>)
  then have "ob_inv ?ob lg" unfolding ob_inv_def ds using ob_invD [OF assms(1)] True by (simp add: promises_ok_def)
  with True assms(2) show ?thesis by (simp add: updateOutputBuffers_def)
next
  case False
  then have k: "ob_kind ob = kBroadcast" using ob_invD(1) [OF assms(1)] output_kind.exhaust by blast
  obtain ob1 where o: "(if n > length (ob_buffers ob) then addOutputBuffersLocked n ob else Inr ob) = Inr ob1" "ob_inv ob1 lg" "ob_kind ob1 = kBroadcast"
  proof (cases "n > length (ob_buffers ob)")
    case True
    then show ?thesis using addOutputBuffersLocked_ok [OF assms(1) k] assms(2) k that by auto
  qed (use assms(1) k that in auto)
  from noMoreBuffers_ok [OF o(2,3)] obtain promises ob' where
    "updateAfterAcknowledgeLocked (ob_dataToBroadcast ob1) (count_list (held_pages (ob1\<lparr>ob_noMoreBuffers := True\<rparr>))) (ob1\<lparr>ob_noMoreBuffers := True\<rparr>) =
       Inr (promises, ob')" "ob_inv (ob'\<lparr>ob_dataToBroadcast := []\<rparr>) lg" by (auto simp: Let_def)
  then show ?thesis using k o by (simp add: updateOutputBuffers_def Let_def)
qed

lemma updateOutputBuffers_inv:
  assumes "ob_inv ob lg" "updateOutputBuffers n noMore ob = Inr (evs, ob')"
  shows "ob_inv ob' lg"
proof -
  have "if ob_kind ob = kPartitioned then n = length (ob_buffers ob) \<and> noMore else n \<le> length (ob_buffers ob) \<or> \<not> ob_noMoreBuffers ob"
    using assms(2) by (auto simp: updateOutputBuffers_def addOutputBuffersLocked_def checkR_def bindR_Inr_iff split: if_splits)
  from updateOutputBuffers_ok [OF assms(1) this] assms(2) show ?thesis by auto
qed

lemma terminate_inv:
  assumes "ob_inv ob lg" "OutputBuffer_terminate run ob = Inr (evs, ob')"
  shows "ob_inv ob' lg"
proof -
  let ?ob = "ob\<lparr>ob_promises := []\<rparr>"
  have ds: "dest_stream ?ob = dest_stream ob" by (rule dest_stream_cong) simp_all
  have "counted ?ob lg"
    by (rule counted_cong [OF ob_invD(7) [OF assms(1)]]) (simp_all add: held_pages_def finished_broadcast_def isFinishedLocked_def)
  then have "ob_inv ?ob lg" unfolding ob_inv_def ds using ob_invD [OF assms(1)] by (simp add: promises_ok_def)
  with assms(2) show ?thesis by (auto simp: OutputBuffer_terminate_def checkR_def split: if_splits)
qed

lemma OutputBuffer_deleteResults_inv:
  assumes "ob_inv ob lg" "OutputBuffer_deleteResults i ob = Inr (finished, evs, ob')"
  shows "ob_inv ob' lg"
proof (cases "\<exists>d. live ob i d")
  case True
  with OutputBuffer_deleteResults_ok [OF assms(1)] assms(2) show ?thesis by fastforce
next
  case False
  then have "ob' = ob" using assms(2) by (auto simp: OutputBuffer_deleteResults_def checkR_def split: option.splits if_splits)
  then show ?thesis using assms(1) by simp
qed

section \<open>Runs\<close>

text \<open>
  One call on the buffer, for every operation that changes it; the log is what was enqueued. The conditions are the protocol
  of the callers: that of the producers, and that the drivers and their number do not change any more after the end. Without
  morsels the buffer itself rejects a driver that finishes after the end.
\<close>

inductive ob_step :: "output_buffer \<Rightarrow> log \<Rightarrow> output_buffer \<Rightarrow> log \<Rightarrow> bool" where
  enqueue: "may_enqueue ob lg p \<Longrightarrow> OutputBuffer_enqueue isRunning alive i p future ob = Inr (blocked, evs, ob') \<Longrightarrow>
    ob_step ob lg ob' (lg @ [(i, p)])"
| noMoreData: "ob_isMorselDriven ob \<longrightarrow> \<not> ob_atEnd ob \<Longrightarrow> OutputBuffer_noMoreData alive ob = Inr (evs, ob') \<Longrightarrow> ob_step ob lg ob' lg"
| noMoreDrivers: "\<not> ob_atEnd ob \<Longrightarrow> noMoreDrivers alive ob = Inr (evs, ob') \<Longrightarrow> ob_step ob lg ob' lg"
| numDrivers: "\<not> ob_atEnd ob \<Longrightarrow> updateNumDrivers alive n ob = Inr (evs, ob') \<Longrightarrow> ob_step ob lg ob' lg"
| outputBuffers: "updateOutputBuffers n noMore ob = Inr (evs, ob') \<Longrightarrow> ob_step ob lg ob' lg"
| acknowledge: "OutputBuffer_acknowledge i q ob = Inr (evs, ob') \<Longrightarrow> ob_step ob lg ob' lg"
| deleteResults: "OutputBuffer_deleteResults i ob = Inr (finished, evs, ob') \<Longrightarrow> ob_step ob lg ob' lg"
| getData: "OutputBuffer_getData i maxBytes q notify check ob = Inr (evs, ob') \<Longrightarrow> ob_step ob lg ob' lg"
| terminate: "OutputBuffer_terminate isRunning ob = Inr (evs, ob') \<Longrightarrow> ob_step ob lg ob' lg"
| morselDriven: "ob_step ob lg (setMorselDriven ob) lg"
| finishedSchedulers: "addFinishedPushBasedDriverSchedulers ob = Inr ob' \<Longrightarrow> ob_step ob lg ob' lg"

text \<open>Any sequence of calls on a new buffer.\<close>

inductive ob_run :: "output_kind \<Rightarrow> nat \<Rightarrow> nat \<Rightarrow> nat \<Rightarrow> output_buffer \<Rightarrow> log \<Rightarrow> bool" for kind maxSize dests drivers where
  start: "ob_run kind maxSize dests drivers (OutputBuffer_new kind maxSize dests drivers) []"
| step: "ob_run kind maxSize dests drivers ob lg \<Longrightarrow> ob_step ob lg ob' lg' \<Longrightarrow> ob_run kind maxSize dests drivers ob' lg'"

text \<open>The contract of an invariant for one kind of output.\<close>

locale run_invariant =
  fixes kind :: output_kind and inv :: "output_buffer \<Rightarrow> log \<Rightarrow> bool"
  assumes starts: "inv (OutputBuffer_new kind maxSize dests drivers) []"
    and keeps: "inv ob lg \<Longrightarrow> ob_step ob lg ob' lg' \<Longrightarrow> inv ob' lg'"
begin

lemma reachable: "ob_run kind maxSize dests drivers ob lg \<Longrightarrow> inv ob lg"
  by (induction rule: ob_run.induct) (auto intro: starts keeps)

end

lemma start_inv:
  assumes "kind \<noteq> kArbitrary"
  shows "ob_inv (OutputBuffer_new kind maxSize dests drivers) []" (is "ob_inv ?ob []")
proof -
  have "counts_ok ?ob" using assms by (simp add: counts_ok_def held_pages_def buffers_pages_conv OutputBuffer_new_def DestinationBuffer_new_def)
  then have "counted ?ob []" by (rule counts_counted) (use assms in \<open>simp_all add: OutputBuffer_new_def\<close>)
  then show ?thesis using assms dest_new_ok
    by (auto simp: ob_inv_def OutputBuffer_new_def log_ok_def dests_ok_def dest_stream_def stream_def pages_for_def promises_ok_def kContinuePct_def)
qed

lemma step_inv: "ob_step ob lg ob' lg' \<Longrightarrow> ob_inv ob lg \<Longrightarrow> ob_inv ob' lg'"
proof (induction rule: ob_step.induct)
  case (noMoreData ob alive evs ob' lg)
  then show ?case using checkIfDone_inv [of ob lg True] by (auto simp: OutputBuffer_noMoreData_def)
next
  case (noMoreDrivers ob alive evs ob' lg)
  then show ?case using checkIfDone_inv [of ob lg False] by (auto simp: noMoreDrivers_def)
qed (blast intro: OutputBuffer_enqueue_inv updateNumDrivers_inv updateOutputBuffers_inv OutputBuffer_acknowledge_inv
    OutputBuffer_deleteResults_inv OutputBuffer_getData_inv terminate_inv setMorselDriven_inv finishedSchedulers_inv)+

interpretation partitioned: run_invariant kPartitioned ob_inv
  by unfold_locales (blast intro: start_inv step_inv)+

interpretation broadcast: run_invariant kBroadcast ob_inv
  by unfold_locales (blast intro: start_inv step_inv)+

lemma ob_run_inv:
  assumes "ob_run kind maxSize dests drivers ob lg" "kind \<noteq> kArbitrary"
  shows "ob_inv ob lg"
proof (cases kind)
  case kPartitioned
  with assms(1) show ?thesis using partitioned.reachable by blast
next
  case kBroadcast
  with assms(1) show ?thesis using broadcast.reachable by blast
qed (use assms(2) in simp)

end
