(* ===== verification/Output_Props.thy ===== *)
theory Output_Props
  imports Output_Run
begin

text \<open>
  What producers and consumers can rely on, in every state that a run of the output buffer reaches.
\<close>

section \<open>Reading a destination to its end\<close>

text \<open>The data that an operation hands to a consumer.\<close>

fun event_data :: "event \<Rightarrow> pages" where
  "event_data (Notify callback data sequence) = data"
| "event_data (Resume promises) = []"
| "event_data AllOutputConsumed = []"

definition received :: "event list \<Rightarrow> pages" where
  "received evs = concat (map event_data evs)"

text \<open>A consumer that asks for the next sequence number until it sees the end marker.\<close>

fun consume :: "nat \<Rightarrow> nat \<Rightarrow> nat \<Rightarrow> int \<Rightarrow> nat \<Rightarrow> output_buffer \<Rightarrow> pages result" where
  "consume 0 destination maxBytes sequence notify ob = Inl OutOfFuel"
| "consume (Suc fuel) destination maxBytes sequence notify ob =
     bindR (OutputBuffer_getData destination maxBytes sequence notify None ob) (\<lambda>(evs, ob).
       let data = received evs in
       if None \<in> set data then Inr data
       else bindR (consume fuel destination maxBytes (sequence + int (length data)) notify ob) (\<lambda>rest. Inr (data @ rest)))"

lemma received_release [simp]: "received (releaseAfterAcknowledge promises @ evs) = received evs"
  by (simp add: received_def releaseAfterAcknowledge_def)

lemma received_Notify [simp]: "received (if data = [] then [] else [Notify callback data q]) = data"
  by (simp add: received_def)

lemma ended_stream:
  assumes "q < int (length (stream ps True))" "0 \<le> q" "drop (nat q) (stream ps True) = data @ rest"
  shows "None \<in> set data \<longleftrightarrow> rest = []"
proof -
  have d: "drop (nat q) (stream ps True) = drop (nat q) (map Some ps) @ [None]" using assms(1,2) by (simp add: stream_def)
  show ?thesis
  proof (cases rest rule: rev_cases)
    case Nil
    then have "data = drop (nat q) (map Some ps) @ [None]" using assms(3) d by simp
    then show ?thesis using Nil by simp
  next
    case (snoc ys y)
    then have "drop (nat q) (map Some ps) = data @ ys" using assms(3) d by simp
    then have "set data \<subseteq> set (map Some ps)" by (metis in_set_dropD set_append subsetI Un_iff)
    then show ?thesis using snoc by auto
  qed
qed

lemma consume_ok:
  "ob_inv ob lg \<Longrightarrow> ob_atEnd ob \<Longrightarrow> live ob i d \<Longrightarrow> db_sequence d \<le> q \<Longrightarrow> q < int (length (dest_stream ob lg i)) \<Longrightarrow> 0 < maxBytes \<Longrightarrow>
   length (dest_stream ob lg i) - nat q \<le> fuel \<Longrightarrow>
   consume fuel i maxBytes q notify ob = Inr (drop (nat q) (dest_stream ob lg i))"
proof (induction fuel arbitrary: ob d q)
  case 0
  have "0 \<le> q" using dest_okD(2) [OF dests_okD [OF ob_invD(5) [OF 0(1)]]] 0(3,4) by fastforce
  then show ?case using 0(5,7) by linarith
next
  case (Suc fuel)
  let ?s = "dest_stream ob lg i"
  have q0: "0 \<le> q" using dest_okD(2) [OF dests_okD [OF ob_invD(5) [OF Suc(2)]]] Suc(4,5) by fastforce
  have mb: "max 1 maxBytes = maxBytes" using Suc(7) by simp
  from getData_live [OF Suc(2,4,5), of maxBytes notify None] Suc(6) obtain promises data ob' d' where
    g: "OutputBuffer_getData i maxBytes q notify None ob =
      Inr (releaseAfterAcknowledge promises @ (if data = [] then [] else [Notify notify data q]), ob')"
    "ob_inv ob' lg" "fetched maxBytes (drop (nat q) ?s) data" "live ob' i d'" "db_sequence d' = q"
    and k: "ob_kind ob' = ob_kind ob" "ob_atEnd ob' = ob_atEnd ob" unfolding mb by auto
  have "drop (nat q) ?s \<noteq> []" using Suc(6) q0 by simp
  then have data: "data \<noteq> []" "take (length data) (drop (nat q) ?s) = data" using g(3) by (auto simp: fetched_def)
  define rest where "rest = drop (length data) (drop (nat q) ?s)"
  have s: "drop (nat q) ?s = data @ rest" unfolding rest_def using data(2) append_take_drop_id [of "length data" "drop (nat q) ?s"] by simp
  have ds: "dest_stream ob' = dest_stream ob" using k by (rule dest_stream_cong)
  have e: "?s = stream (pages_for (ob_kind ob) lg i) True" using Suc(3) by (simp add: dest_stream_def)
  have n: "None \<in> set data \<longleftrightarrow> rest = []" using ended_stream [OF _ q0, of _ data rest] Suc(6) s unfolding e by blast
  show ?case
  proof (cases "rest = []")
    case True
    then show ?thesis using g(1) n s by simp
  next
    case False
    let ?q = "q + int (length data)"
    have nq: "nat ?q = nat q + length data" using q0 by simp
    have rest: "rest = drop (nat ?q) ?s" unfolding rest_def nq by (simp add: add.commute)
    have "?q < int (length ?s)" using False unfolding rest by simp
    moreover have "length ?s - nat ?q \<le> fuel" using Suc(8) nq data(1) by (cases data) auto
    ultimately have "consume fuel i maxBytes ?q notify ob' = Inr (drop (nat ?q) (dest_stream ob' lg i))"
      using Suc(1) [OF g(2) _ g(4), of ?q] Suc(3,7) k g(5) ds by simp
    then show ?thesis using g(1) n False s rest ds by simp
  qed
qed

section \<open>What can fail\<close>

lemma live_ok: "ob_inv ob lg \<Longrightarrow> live ob i d \<Longrightarrow> dest_ok d (dest_stream ob lg i)"
  using ob_invD(5) by (blast intro: dests_okD)

lemma acknowledge_iff:
  assumes "ob_inv ob lg"
  shows "(\<exists>r. OutputBuffer_acknowledge i q ob = Inr r) \<longleftrightarrow>
    i < length (ob_buffers ob) \<and> (ob_buffers ob ! i = None \<or> q \<le> int (length (dest_stream ob lg i)))"
proof (cases "\<exists>d. live ob i d")
  case True
  then obtain d where l: "live ob i d" by blast
  show ?thesis
  proof (cases "q \<le> int (length (dest_stream ob lg i))")
    case True
    with OutputBuffer_acknowledge_ok [OF assms l] l show ?thesis by blast
  next
    case False
    then show ?thesis using acknowledge_beyond [OF assms l] l by (simp add: OutputBuffer_acknowledge_def)
  qed
next
  case False
  then show ?thesis by (cases "ob_buffers ob ! i") (auto simp: OutputBuffer_acknowledge_def checkR_def)
qed

lemma deleteResults_iff:
  assumes "ob_inv ob lg"
  shows "(\<exists>r. OutputBuffer_deleteResults i ob = Inr r) \<longleftrightarrow> i < length (ob_buffers ob)"
proof (cases "\<exists>d. live ob i d")
  case True
  then show ?thesis using OutputBuffer_deleteResults_ok [OF assms] by blast
next
  case False
  then show ?thesis by (cases "ob_buffers ob ! i") (auto simp: OutputBuffer_deleteResults_def checkR_def)
qed

lemma getData_live_iff:
  assumes "ob_inv ob lg" "live ob i d"
  shows "(\<exists>r. OutputBuffer_getData i maxBytes q notify check ob = Inr r) \<longleftrightarrow> db_sequence d \<le> q \<and> q \<le> int (length (dest_stream ob lg i))"
proof
  assume "\<exists>r. OutputBuffer_getData i maxBytes q notify check ob = Inr r"
  then obtain r where r: "OutputBuffer_getData i maxBytes q notify check ob = Inr r" by blast
  have "q \<le> int (length (dest_stream ob lg i))"
    using acknowledge_beyond [OF assms(1,2)] r assms(2) by (fastforce simp: OutputBuffer_getData_def)
  moreover have "db_sequence d \<le> q"
  proof (rule ccontr)
    assume n: "\<not> db_sequence d \<le> q"
    then have "DestinationBuffer_acknowledge q d = Inr ([], d)" using acknowledge_ok [OF live_ok [OF assms(1,2)], of q] by simp
    then show False using r assms(2) n
      by (auto simp: OutputBuffer_getData_def updateAfterAcknowledgeLocked_def DestinationBuffer_getData_def)
  qed
  ultimately show "db_sequence d \<le> q \<and> q \<le> int (length (dest_stream ob lg i))" by simp
next
  assume "db_sequence d \<le> q \<and> q \<le> int (length (dest_stream ob lg i))"
  then show "\<exists>r. OutputBuffer_getData i maxBytes q notify check ob = Inr r" using getData_live [OF assms(1,2)] by blast
qed

text \<open>The position of a consumer; one that is not there yet starts at 0.\<close>

definition can_fetch :: "output_buffer \<Rightarrow> log \<Rightarrow> nat \<Rightarrow> int \<Rightarrow> bool" where
  "can_fetch ob lg i q \<longleftrightarrow> q \<le> int (length (dest_stream ob lg i)) \<and>
     (if i < length (ob_buffers ob) then (case ob_buffers ob ! i of None \<Rightarrow> False | Some d \<Rightarrow> db_sequence d \<le> q)
      else ob_kind ob = kBroadcast \<and> \<not> ob_noMoreBuffers ob \<and> 0 \<le> q)"

lemma getData_iff:
  assumes "ob_inv ob lg"
  shows "(\<exists>r. OutputBuffer_getData i maxBytes q notify check ob = Inr r) \<longleftrightarrow> can_fetch ob lg i q"
proof (cases "i < length (ob_buffers ob)")
  case True
  then show ?thesis
  proof (cases "ob_buffers ob ! i")
    case None
    then show ?thesis using True by (simp add: OutputBuffer_getData_def can_fetch_def)
  next
    case (Some d)
    then show ?thesis using getData_live_iff [OF assms] True by (auto simp: can_fetch_def)
  qed
next
  case False
  show ?thesis
  proof (cases "ob_kind ob = kBroadcast \<and> \<not> ob_noMoreBuffers ob")
    case True
    with getData_grows [OF assms(1), of i maxBytes q notify check] False obtain ob1 d where
      "ob_inv ob1 lg" "dest_stream ob1 = dest_stream ob" "live ob1 i d" "db_sequence d = 0"
      "OutputBuffer_getData i maxBytes q notify check ob = OutputBuffer_getData i maxBytes q notify check ob1" by auto
    with getData_live_iff [of ob1 lg i d maxBytes q notify check] True False show ?thesis by (auto simp: can_fetch_def)
  next
    case no: False
    then show ?thesis using False ob_invD(1) [OF assms]
      by (cases "ob_kind ob") (auto simp: OutputBuffer_getData_def addOutputBuffersLocked_def can_fetch_def checkR_def)
  qed
qed

lemma live_enqueue_total:
  assumes "ob_inv ob lg" "\<forall>p. x = Some p \<longrightarrow> pg_numRows p \<noteq> None" "Some d \<in> set (ob_buffers ob)"
  shows "\<exists>r. enqueueAndNotify x d = Inr r"
proof -
  obtain i where "i < length (ob_buffers ob)" "ob_buffers ob ! i = Some d" using assms(3) by (auto simp: in_set_conv_nth)
  then show ?thesis using enqueueAndNotify_total [OF live_ok [OF assms(1)] assms(2)] by blast
qed

lemma forBuffers_enqueue_total:
  assumes "ob_inv ob lg" "\<forall>p. x = Some p \<longrightarrow> pg_numRows p \<noteq> None"
  shows "\<exists>evs bs. forBuffers (enqueue_each x) () (ob_buffers ob) = Inr ((), evs, bs)"
proof -
  obtain r where "forBuffers (enqueue_each x) () (ob_buffers ob) = Inr r" using forBuffers_total live_enqueue_total [OF assms] by blast
  then show ?thesis by (cases r) auto
qed

lemma enqueue_iff:
  assumes "ob_inv ob lg"
  shows "(\<exists>r. OutputBuffer_enqueue isRunning alive i p future ob = Inr r) \<longleftrightarrow>
    isRunning \<and> i < length (ob_buffers ob) \<and> pg_numRows p \<noteq> None \<and> (ob_kind ob = kBroadcast \<longrightarrow> i = 0)" (is "_ \<longleftrightarrow> ?ok")
proof
  assume "\<exists>r. OutputBuffer_enqueue isRunning alive i p future ob = Inr r"
  then show ?ok
    by (auto simp: OutputBuffer_enqueue_def updateStatsWithEnqueuedPageLocked_def bindR_Inr_iff checkR_def
        split: option.splits if_splits)
next
  assume g: ?ok
  note inv = ob_invD [OF assms]
  let ?ob = "updateStatsWithEnqueuedPageLocked (pg_size p) (the (pg_numRows p)) ob"
  have rows: "\<forall>p'. Some p = Some p' \<longrightarrow> pg_numRows p' \<noteq> None" using g by simp
  have "\<exists>r. (if ob_kind ob = kBroadcast then enqueueBroadcastOutputLocked p ?ob else enqueuePartitionedOutputLocked i p ?ob) = Inr r"
  proof (cases "ob_kind ob = kBroadcast")
    case True
    then show ?thesis using forBuffers_enqueue_total [OF assms rows] inv(2) unfolding enqueueBroadcastOutputLocked_def each_conv
      by (auto simp: updateStatsWithEnqueuedPageLocked_def)
  next
    case False
    have "\<exists>r. enqueueAndNotify (Some p) d = Inr r" if "ob_buffers ob ! i = Some d" for d
      using live_enqueue_total [OF assms rows] that g by (metis nth_mem)
    then show ?thesis using False g inv(2) counted_nonneg [OF inv(7)]
      by (cases "ob_buffers ob ! i") (force simp: enqueuePartitionedOutputLocked_def updateStatsWithEnqueuedPageLocked_def
          updateStatsWithFreedPagesLocked_def)+
  qed
  then show "\<exists>r. OutputBuffer_enqueue isRunning alive i p future ob = Inr r" using g inv(1)
    by (cases "ob_kind ob") (auto simp: OutputBuffer_enqueue_def updateStatsWithEnqueuedPageLocked_def split: option.splits)
qed

lemma checkIfDone_iff:
  assumes "ob_inv ob lg" "n = ob_numFinished ob + (if one then 1 else 0)"
  shows "(\<exists>r. checkIfDone alive one ob = Inr r) \<longleftrightarrow> count_valid ob n"
proof (cases "all_finished ob n")
  case True
  note inv = ob_invD [OF assms(1)]
  show ?thesis using forBuffers_enqueue_total [OF assms(1), of None] checkIfDone_all [OF assms(2) True inv(1)] all_finished_valid [OF True] by auto
next
  case False
  then show ?thesis using checkIfDone_not [OF assms(2)] by (simp add: checkR_def)
qed

lemma updateNumDrivers_total:
  assumes "ob_inv ob lg"
  shows "\<exists>r. updateNumDrivers alive n ob = Inr r"
proof (cases "all_finished (ob\<lparr>ob_numDrivers := n\<rparr>) (ob_numFinished ob)")
  case True
  then show ?thesis using forBuffers_enqueue_total [OF assms, of None] checkIfDone_all [OF _ True, of False alive] ob_invD(1) [OF assms]
    by (auto simp: updateNumDrivers_conv)
qed (simp add: updateNumDrivers_conv)

lemma updateOutputBuffers_iff:
  assumes "ob_inv ob lg"
  shows "(\<exists>r. updateOutputBuffers n noMore ob = Inr r) \<longleftrightarrow>
    (if ob_kind ob = kPartitioned then n = length (ob_buffers ob) \<and> noMore else n \<le> length (ob_buffers ob) \<or> \<not> ob_noMoreBuffers ob)"
    (is "_ \<longleftrightarrow> ?ok")
proof
  assume "\<exists>r. updateOutputBuffers n noMore ob = Inr r"
  then show ?ok by (auto simp: updateOutputBuffers_def addOutputBuffersLocked_def checkR_def bindR_Inr_iff split: if_splits)
next
  assume ?ok
  from updateOutputBuffers_ok [OF assms this] show "\<exists>r. updateOutputBuffers n noMore ob = Inr r" by blast
qed

section \<open>Wake-ups\<close>

lemma in_wakeups: "Some d \<in> set bs \<Longrightarrow> db_notify d = Some callback \<Longrightarrow> Notify callback [x] (db_sequence d) \<in> set (wakeups bs x)"
  by (induction bs) (auto simp: wakeups_def wakeup_def)

lemma waiting_read_all:
  assumes "dest_ok d s" "db_notify d \<noteq> None"
  shows "db_sequence d = int (length s)"
proof -
  have "db_data d = []" using assms by (auto simp: dest_ok_def split: if_splits)
  then have "length s \<le> nat (db_sequence d)" using dest_okD(4) [OF assms(1)] by simp
  then show ?thesis using dest_okD(2,3) [OF assms(1)] by linarith
qed

lemma last_driver:
  assumes "ob_inv ob lg" "\<not> ob_atEnd ob" "all_finished ob (ob_numFinished ob + (if one then 1 else 0))"
  shows "\<exists>ob'. checkIfDone alive one ob = Inr (wakeups (ob_buffers ob) None, ob') \<and> ob_atEnd ob'"
  using checkIfDone_ok [OF assms(1,2) refl all_finished_valid [OF assms(3)], of alive] assms(3) by auto

text \<open>The blocked producers: an operation keeps their promises or fulfils all of them.\<close>

definition resumed :: "output_buffer \<Rightarrow> event list \<Rightarrow> output_buffer \<Rightarrow> bool" where
  "resumed ob evs ob' \<longleftrightarrow> ob_promises ob' = ob_promises ob \<or> ob_promises ob' = [] \<and> Resume (ob_promises ob) \<in> set evs"

lemma update_promises:
  assumes "updateAfterAcknowledgeLocked freed use_count ob = Inr (promises, ob')"
  shows "ob_promises ob' = ob_promises ob \<or> ob_promises ob' = [] \<and> promises = ob_promises ob"
  using assms by (auto simp: updateAfterAcknowledgeLocked_def updateStatsWithFreedPagesLocked_def Let_def bindR_Inr_iff checkR_def split: if_splits)

lemma release_resumes:
  assumes "updateAfterAcknowledgeLocked freed use_count ob1 = Inr (promises, ob2)" "ob_promises ob1 = ob_promises ob"
    "ob_promises ob' = ob_promises ob2" "set (releaseAfterAcknowledge promises) \<subseteq> set evs"
  shows "resumed ob evs ob'"
  using update_promises [OF assms(1)] assms(2-4) by (auto simp: resumed_def releaseAfterAcknowledge_def split: if_splits)

lemma resumed_refl [simp]: "resumed ob evs ob"
  by (simp add: resumed_def)

lemma addOutputBuffers_promises: "addOutputBuffersLocked n ob = Inr ob' \<Longrightarrow> ob_promises ob' = ob_promises ob"
  by (auto simp: addOutputBuffersLocked_def checkR_def bindR_Inr_iff split: if_splits)

lemma acknowledge_resumes: "OutputBuffer_acknowledge i q ob = Inr (evs, ob') \<Longrightarrow> resumed ob evs ob'"
  by (auto simp: OutputBuffer_acknowledge_def checkR_def bindR_Inr_iff Let_def split: if_splits option.splits elim!: release_resumes)

lemma deleteResults_resumes: "OutputBuffer_deleteResults i ob = Inr (finished, evs, ob') \<Longrightarrow> resumed ob evs ob'"
  by (auto simp: OutputBuffer_deleteResults_def checkR_def bindR_Inr_iff Let_def split: if_splits option.splits elim!: release_resumes)

lemma getData_resumes_there:
  "i < length (ob_buffers ob) \<Longrightarrow> OutputBuffer_getData i maxBytes q notify check ob = Inr (evs, ob') \<Longrightarrow> resumed ob evs ob'"
  by (auto simp: OutputBuffer_getData_def checkR_def bindR_Inr_iff Let_def split: option.splits elim!: release_resumes)

lemma getData_resumes:
  assumes "OutputBuffer_getData i maxBytes q notify check ob = Inr (evs, ob')"
  shows "resumed ob evs ob'"
proof (cases "i < length (ob_buffers ob)")
  case True
  then show ?thesis using assms by (rule getData_resumes_there)
next
  case False
  then obtain ob1 where o: "addOutputBuffersLocked (i + 1) ob = Inr ob1" "ob_kind ob \<noteq> kPartitioned" using assms
    by (cases "addOutputBuffersLocked (i + 1) ob") (auto simp: OutputBuffer_getData_def split: if_splits)
  have l: "i < length (ob_buffers ob1)" using assms False o by (auto simp: OutputBuffer_getData_def checkR_def split: if_splits)
  have "OutputBuffer_getData i maxBytes q notify check ob1 = Inr (evs, ob')" using assms False o l by (simp add: OutputBuffer_getData_def)
  from getData_resumes_there [OF l this] addOutputBuffers_promises [OF o(1)] show ?thesis by (simp add: resumed_def)
qed

lemma updateOutputBuffers_resumes:
  assumes "updateOutputBuffers n noMore ob = Inr (evs, ob')"
  shows "resumed ob evs ob'"
proof (cases "ob_kind ob = kPartitioned")
  case True
  then show ?thesis using assms by (auto simp: updateOutputBuffers_def checkR_def resumed_def split: if_splits)
next
  case False
  then obtain ob1 where o: "(if n > length (ob_buffers ob) then addOutputBuffersLocked n ob else Inr ob) = Inr ob1"
    using assms by (auto simp: updateOutputBuffers_def bindR_Inr_iff split: if_splits)
  then have p: "ob_promises ob1 = ob_promises ob" using addOutputBuffers_promises [of n ob] by (auto split: if_splits)
  show ?thesis
  proof (cases noMore)
    case True
    then show ?thesis using assms False p unfolding updateOutputBuffers_def o by (auto simp: Let_def bindR_Inr_iff elim!: release_resumes)
  next
    case no: False
    then show ?thesis using assms False p unfolding updateOutputBuffers_def o by (simp add: resumed_def)
  qed
qed

lemma terminate_resumes: "OutputBuffer_terminate False ob = Inr (evs, ob') \<Longrightarrow> resumed ob evs ob' \<and> ob_promises ob' = []"
  by (auto simp: OutputBuffer_terminate_def resumed_def releaseAfterAcknowledge_def)

text \<open>The calls that wake up a waiting consumer.\<close>

definition woken :: "output_buffer \<Rightarrow> log \<Rightarrow> nat \<Rightarrow> dest \<Rightarrow> nat \<Rightarrow> bool" where
  "woken ob lg i d callback \<longleftrightarrow> db_sequence d = int (length (dest_stream ob lg i)) \<and>
      (\<forall>p alive future. may_enqueue ob lg p \<longrightarrow> (\<exists>blocked evs ob'.
         OutputBuffer_enqueue True alive (if ob_kind ob = kBroadcast then 0 else i) p future ob = Inr (blocked, evs, ob') \<and>
         Notify callback [Some p] (db_sequence d) \<in> set evs)) \<and>
      (\<forall>alive. all_finished ob (Suc (ob_numFinished ob)) \<longrightarrow> (\<exists>evs ob'.
         OutputBuffer_noMoreData alive ob = Inr (evs, ob') \<and> Notify callback [None] (db_sequence d) \<in> set evs)) \<and>
      (\<exists>finished evs ob'. OutputBuffer_deleteResults i ob = Inr (finished, evs, ob') \<and> Notify callback [] (db_sequence d) \<in> set evs)"

lemma waiting_woken:
  assumes "ob_inv ob lg" "live ob i d" "db_notify d = Some callback"
  shows "woken ob lg i d callback"
  unfolding woken_def
proof (intro conjI allI impI)
  show "db_sequence d = int (length (dest_stream ob lg i))" using waiting_read_all [OF live_ok [OF assms(1,2)]] assms(3) by simp
  let ?i = "if ob_kind ob = kBroadcast then 0 else i"
  show "\<exists>blocked evs ob'. OutputBuffer_enqueue True alive ?i p future ob = Inr (blocked, evs, ob') \<and>
      Notify callback [Some p] (db_sequence d) \<in> set evs" if "may_enqueue ob lg p" for p alive future
  proof -
    have "Some d \<in> set (targets ob ?i)" using assms(2) by (auto simp: targets_def in_set_conv_nth)
    then have "Notify callback [Some p] (db_sequence d) \<in> set (wakeups (targets ob ?i) (Some p))" using assms(3) by (rule in_wakeups)
    moreover have "?i < length (ob_buffers ob)" using assms(2) by auto
    ultimately show ?thesis using OutputBuffer_enqueue_ok [OF assms(1) that, of ?i alive future] by auto
  qed
  show "\<exists>evs ob'. OutputBuffer_noMoreData alive ob = Inr (evs, ob') \<and> Notify callback [None] (db_sequence d) \<in> set evs"
    if "all_finished ob (Suc (ob_numFinished ob))" for alive
  proof -
    have "Some d \<in> set (ob_buffers ob)" using assms(2) by (metis nth_mem)
    moreover have "\<not> ob_atEnd ob" using ob_invD(11) [OF assms(1)] that by (auto simp: all_finished_def)
    ultimately show ?thesis using last_driver [OF assms(1), of True alive] that in_wakeups [OF _ assms(3)]
      by (fastforce simp: OutputBuffer_noMoreData_def)
  qed
  show "\<exists>finished evs ob'. OutputBuffer_deleteResults i ob = Inr (finished, evs, ob') \<and> Notify callback [] (db_sequence d) \<in> set evs"
    using OutputBuffer_deleteResults_ok [OF assms(1,2)] assms(3) by blast
qed

lemma tail_ok_marker: "tail_ok xs \<Longrightarrow> None \<notin> set (butlast xs)"
  by (auto simp: tail_ok_def stream_def butlast_append split: if_splits dest: in_set_butlastD)

lemma enqueue_blocks:
  assumes "ob_kind ob \<noteq> kArbitrary" "OutputBuffer_enqueue isRunning alive i p future ob = Inr (blocked, evs, ob')"
  shows "(blocked \<longleftrightarrow> future \<noteq> None \<and> int (ob_maxSize ob) < ob_bufferedBytes ob') \<and>
    ob_promises ob' = ob_promises ob @ (if blocked then [the future] else [])"
proof -
  have p: "ob_promises ob2 = ob_promises ob1 \<and> ob_maxSize ob2 = ob_maxSize ob1"
    if "enqueueBroadcastOutputLocked p ob1 = Inr (evs, ob2) \<or> enqueuePartitionedOutputLocked i p ob1 = Inr (evs, ob2)" for evs ob1 ob2
    using that by (auto simp: enqueueBroadcastOutputLocked_def enqueuePartitionedOutputLocked_def updateStatsWithFreedPagesLocked_def Let_def
        checkR_def bindR_Inr_iff split: if_splits option.splits)
  show ?thesis
    using assms p by (cases "ob_kind ob")
      (fastforce simp: OutputBuffer_enqueue_def updateStatsWithEnqueuedPageLocked_def Let_def checkR_def bindR_Inr_iff split: if_splits option.splits)+
qed

section \<open>An example\<close>

text \<open>Two partitions and one driver. The page for the first one exceeds the limit of the buffer, the consumer of the second
  one waits.\<close>

definition example_page :: page where
  "example_page = \<lparr>pg_id = 0, pg_size = 12, pg_numRows = Some 3\<rparr>"

definition example1 :: output_buffer where
  "example1 = (case OutputBuffer_enqueue True (\<lambda>_. True) 0 example_page (Some 7) (OutputBuffer_new kPartitioned 10 2 1) of
     Inr (_, _, ob) \<Rightarrow> ob | Inl _ \<Rightarrow> OutputBuffer_new kPartitioned 10 2 1)"

definition example2 :: output_buffer where
  "example2 = (case OutputBuffer_getData 1 100 0 5 None example1 of Inr (_, ob) \<Rightarrow> ob | Inl _ \<Rightarrow> example1)"

definition example3 :: output_buffer where
  "example3 = (case OutputBuffer_noMoreData (\<lambda>_. True) example2 of Inr (_, ob) \<Rightarrow> ob | Inl _ \<Rightarrow> example2)"

lemmas example_defs = example_page_def OutputBuffer_new_def DestinationBuffer_new_def dest_stats0_def OutputBuffer_enqueue_def
  enqueuePartitionedOutputLocked_def enqueueAndNotify_def DestinationBuffer_enqueue_def recordEnqueue_def getAndClearNotify_def
  updateStatsWithEnqueuedPageLocked_def OutputBuffer_getData_def DestinationBuffer_acknowledge_def updateAfterAcknowledgeLocked_def
  DestinationBuffer_getData_def OutputBuffer_noMoreData_def checkIfDone_def releaseAfterAcknowledge_def clearNotify_def kContinuePct_def
  Let_def numeral_2_eq_2

lemma example1_eq: "OutputBuffer_enqueue True (\<lambda>_. True) 0 example_page (Some 7) (OutputBuffer_new kPartitioned 10 2 1) = Inr (True, [], example1)"
  by (simp add: example1_def example_defs)

lemma example2_eq: "OutputBuffer_getData 1 100 0 5 None example1 = Inr ([], example2)"
  by (simp add: example2_def example1_def example_defs)

lemma example3_eq: "OutputBuffer_noMoreData (\<lambda>_. True) example2 = Inr ([Notify 5 [None] 0], example3)"
  by (simp add: example3_def example2_def example1_def example_defs)

lemma example_sel:
  "ob_atEnd example3" "\<not> ob_atEnd example2" "ob_kind example2 = kPartitioned" "ob_kind example3 = kPartitioned" "ob_promises example3 = [7]" "ob_promises example2 = [7]"
  "length (ob_buffers example2) = 2" "length (ob_buffers example3) = 2"
  "\<exists>d. ob_buffers example3 ! 0 = Some d \<and> db_sequence d = 0 \<and> db_data d = [Some example_page, None]"
  "\<exists>d. ob_buffers example2 ! 1 = Some d \<and> db_notify d = Some 5 \<and> db_sequence d = 0"
  "ob_numFinished example2 = 0" "ob_numDrivers example2 = 1"
  by (simp_all add: example3_def example2_def example1_def example_defs)

lemma example2_run: "ob_run kPartitioned 10 2 1 example2 [(0, example_page)]"
proof -
  have "may_enqueue (OutputBuffer_new kPartitioned 10 2 1) [] example_page"
    by (simp add: may_enqueue_def OutputBuffer_new_def page_ok_def example_page_def)
  then have "ob_run kPartitioned 10 2 1 example1 ([] @ [(0, example_page)])"
    using ob_run.step [OF ob_run.start ob_step.enqueue [OF _ example1_eq]] by blast
  then show ?thesis using ob_run.step [OF _ ob_step.getData [OF example2_eq]] by simp
qed

lemma example3_run: "ob_run kPartitioned 10 2 1 example3 [(0, example_page)]"
  using ob_run.step [OF example2_run ob_step.noMoreData [OF _ example3_eq]] example_sel by blast

lemma example_stream: "dest_stream example3 [(0, example_page)] 0 = [Some example_page, None]" "dest_stream example2 [(0, example_page)] 1 = []"
  using example_sel by (simp_all add: dest_stream_def stream_def pages_for_def)

text \<open>A broadcast that is finished when the page arrives.\<close>

definition late1 :: output_buffer where
  "late1 = (case updateOutputBuffers 1 True (OutputBuffer_new kBroadcast 10 1 1) of Inr (_, ob) \<Rightarrow> ob | Inl _ \<Rightarrow> OutputBuffer_new kBroadcast 10 1 1)"

definition late2 :: output_buffer where
  "late2 = (case OutputBuffer_deleteResults 0 late1 of Inr (_, _, ob) \<Rightarrow> ob | Inl _ \<Rightarrow> late1)"

definition late3 :: output_buffer where
  "late3 = (case OutputBuffer_enqueue True (\<lambda>_. True) 0 example_page (Some 7) late2 of Inr (_, _, ob) \<Rightarrow> ob | Inl _ \<Rightarrow> late2)"

lemmas late_defs = late3_def late2_def late1_def updateOutputBuffers_def isFinishedLocked_def OutputBuffer_deleteResults_def
  DestinationBuffer_deleteResults_def DestinationBuffer_finish_def enqueueBroadcastOutputLocked_def held_pages_def buffers_pages_def example_defs

lemma late_eqs:
  "updateOutputBuffers 1 True (OutputBuffer_new kBroadcast 10 1 1) = Inr ([], late1)"
  "OutputBuffer_deleteResults 0 late1 = Inr (True, [AllOutputConsumed], late2)"
  "OutputBuffer_enqueue True (\<lambda>_. True) 0 example_page (Some 7) late2 = Inr (True, [], late3)"
  by (simp_all add: late_defs)

lemma late_sel: "ob_kind late3 = kBroadcast" "isFinishedLocked late3" "ob_bufferedBytes late3 = 12"
  by (simp_all add: late_defs)

lemma late_run: "ob_run kBroadcast 10 1 1 late3 [(0, example_page)]"
proof -
  have "may_enqueue late2 [] example_page" by (simp add: may_enqueue_def page_ok_def late_defs)
  then have "ob_step late2 [] late3 ([] @ [(0, example_page)])" using late_eqs(3) by (rule ob_step.enqueue)
  moreover have "ob_run kBroadcast 10 1 1 late2 []"
    using ob_run.step [OF ob_run.step [OF ob_run.start ob_step.outputBuffers [OF late_eqs(1)]] ob_step.deleteResults [OF late_eqs(2)]] .
  ultimately show ?thesis using ob_run.step by fastforce
qed

section \<open>The properties\<close>

text \<open>C34. A fetch at a sequence number that is not yet acknowledged and not beyond what was produced succeeds, and what it
  hands out is the piece of the destination's stream from that number on: at least one page when there is one, no more
  pages than it takes to reach the byte limit, and all that is left unless the limit is reached. When nothing is left the
  consumer is registered for the next page. The stream of a destination is the pages enqueued for it, or all pages of a
  broadcast, in order, followed by the end marker once all drivers have finished.\<close>

theorem getData_reads_stream:
  assumes "ob_run kind maxSize dests drivers ob lg" "i < length (ob_buffers ob)" "ob_buffers ob ! i = Some d"
    "db_sequence d \<le> q" "q \<le> int (length (dest_stream ob lg i))" "0 < maxBytes" and k: "kind \<noteq> kArbitrary"
  shows "\<exists>evs ob' d'. OutputBuffer_getData i maxBytes q notify check ob = Inr (evs, ob') \<and>
    fetched maxBytes (drop (nat q) (dest_stream ob lg i)) (received evs) \<and> ob_buffers ob' ! i = Some d' \<and> db_sequence d' = q \<and>
    (if received evs = [] then db_notify d' = Some notify else Notify notify (received evs) q \<in> set evs)"
proof -
  have l: "live ob i d" using assms(2,3) by simp
  have mb: "max 1 maxBytes = maxBytes" using assms(6) by simp
  from getData_live [OF ob_run_inv [OF assms(1) k] l assms(4,5), of maxBytes notify check] obtain promises data ob' d' where
    g: "OutputBuffer_getData i maxBytes q notify check ob =
      Inr (releaseAfterAcknowledge promises @ (if data = [] then [] else [Notify notify data q]), ob')"
    "fetched maxBytes (drop (nat q) (dest_stream ob lg i)) data" "live ob' i d'" "db_sequence d' = q" "data = [] \<longrightarrow> db_notify d' = Some notify"
    unfolding mb by blast
  define evs where "evs = releaseAfterAcknowledge promises @ (if data = [] then [] else [Notify notify data q])"
  have evs: "received evs = data" "data \<noteq> [] \<Longrightarrow> Notify notify data q \<in> set evs" by (simp_all add: evs_def)
  show ?thesis
    by (intro exI [of _ evs] exI [of _ ob'] exI [of _ d']) (use g evs in \<open>simp add: evs_def [symmetric]\<close>)
qed

theorem getData_reads_stream_witness:
  "\<exists>evs ob' d'. OutputBuffer_getData 0 100 0 9 None example3 = Inr (evs, ob') \<and>
    fetched 100 [Some example_page, None] (received evs) \<and> ob_buffers ob' ! 0 = Some d' \<and> db_sequence d' = 0 \<and>
    (if received evs = [] then db_notify d' = Some 9 else Notify 9 (received evs) 0 \<in> set evs)"
proof -
  obtain d where d: "ob_buffers example3 ! 0 = Some d" "db_sequence d = 0" using example_sel by blast
  show ?thesis using getData_reads_stream [OF example3_run _ d(1), of 0 100 9 None] d(2) example_sel example_stream by simp
qed

text \<open>C35. For partitioned and broadcast output whose pages are not empty, the byte and page counts that decide when producers
  are blocked count every page that is held for some destination, or for destinations still to come, once, however many
  destinations hold it. The one exception is a broadcast whose destinations are all deleted and to which none can be added: it
  holds nothing, but counts the pages at the end of the log that it accepted nevertheless. The output totals are those of the
  log.\<close>

theorem buffered_counts_exact:
  assumes "ob_run kind maxSize dests drivers ob lg" "kind \<noteq> kArbitrary"
  shows "(if ob_kind ob = kBroadcast \<and> isFinishedLocked ob
      then held_pages ob = [] \<and> (\<exists>n. n \<le> length lg \<and> ob_bufferedBytes ob = int (sum_list (map (pg_size \<circ> snd) (drop n lg))) \<and>
        ob_bufferedPages ob = int (length lg - n))
      else ob_bufferedBytes ob = int (sum pg_size (set (held_pages ob))) \<and> ob_bufferedPages ob = int (card (set (held_pages ob)))) \<and>
    set (held_pages ob) \<subseteq> snd ` set lg \<and> ob_numOutputPages ob = length lg \<and> ob_numOutputBytes ob = sum_list (map (pg_size \<circ> snd) lg)"
proof -
  note inv = ob_run_inv [OF assms]
  have "set (held_pages ob) \<subseteq> snd ` set lg" using held_in_log [OF inv] by blast
  moreover have "held_pages ob = []" if "finished_broadcast ob" using finished_holds_nothing ob_invD(2,3) [OF inv] that by blast
  ultimately show ?thesis
    using ob_invD(7,12,13) [OF inv] by (auto simp: counted_def finished_broadcast_def counts_ok_def total_bytes_def)
qed

theorem buffered_counts_exact_witness:
  "ob_bufferedBytes example3 = int (sum pg_size (set (held_pages example3))) \<and> ob_numOutputBytes example3 = 12 \<and>
   held_pages late3 = [] \<and> ob_numOutputBytes late3 = 12 \<and> ob_bufferedBytes late3 = 12"
  using buffered_counts_exact [OF example3_run] buffered_counts_exact [OF late_run] example_sel late_sel by (simp add: example_page_def)

text \<open>C36. Once the drivers have finished, a consumer that asks for the next sequence number again and again receives the
  rest of its stream, every page once and in order, and the end marker, within as many fetches as there are entries left.\<close>

theorem consumer_reads_to_the_end:
  assumes "ob_run kind maxSize dests drivers ob lg" "ob_atEnd ob" "i < length (ob_buffers ob)" "ob_buffers ob ! i = Some d"
    "db_sequence d \<le> q" "q < int (length (dest_stream ob lg i))" "0 < maxBytes" "length (dest_stream ob lg i) - nat q \<le> fuel" and k: "kind \<noteq> kArbitrary"
  shows "consume fuel i maxBytes q notify ob = Inr (drop (nat q) (map Some (pages_for (ob_kind ob) lg i) @ [None]))"
  using consume_ok [OF ob_run_inv [OF assms(1) k] assms(2) _ assms(5-8)] assms(2-4) by (simp add: dest_stream_def stream_def)

theorem consumer_reads_to_the_end_witness: "consume 2 0 1 0 9 example3 = Inr [Some example_page, None]"
proof -
  obtain d where d: "ob_buffers example3 ! 0 = Some d" "db_sequence d = 0" using example_sel by blast
  show ?thesis using consumer_reads_to_the_end [OF example3_run _ _ d(1), of 0 1 2 9] d(2) example_sel example_stream
    by (simp add: pages_for_def)
qed

text \<open>C37. Wake-ups of partitioned and broadcast output whose pages are not empty. A consumer waits only when it has acknowledged
  all of its stream; then the next page for it, the end marker, or the deletion of its buffer calls it back with exactly that,
  at its sequence number. A producer is blocked exactly when its page leaves the buffer above its limit; whether or not a
  consumer waits, producers are blocked only while the count of buffered bytes is at least the limit for continuing, and every
  operation that can free pages, like the termination of the task, keeps all promises or fulfils all of them.\<close>

theorem no_lost_wakeups:
  assumes run: "ob_run kind maxSize dests drivers ob lg" and k: "kind \<noteq> kArbitrary"
  shows "(\<forall>i d callback. i < length (ob_buffers ob) \<and> ob_buffers ob ! i = Some d \<and> db_notify d = Some callback \<longrightarrow>
      db_sequence d = int (length (dest_stream ob lg i)) \<and>
      (\<forall>p alive future. may_enqueue ob lg p \<longrightarrow> (\<exists>blocked evs ob'.
         OutputBuffer_enqueue True alive (if ob_kind ob = kBroadcast then 0 else i) p future ob = Inr (blocked, evs, ob') \<and>
         Notify callback [Some p] (db_sequence d) \<in> set evs)) \<and>
      (\<forall>alive. all_finished ob (Suc (ob_numFinished ob)) \<longrightarrow> (\<exists>evs ob'.
         OutputBuffer_noMoreData alive ob = Inr (evs, ob') \<and> Notify callback [None] (db_sequence d) \<in> set evs)) \<and>
      (\<exists>finished evs ob'. OutputBuffer_deleteResults i ob = Inr (finished, evs, ob') \<and> Notify callback [] (db_sequence d) \<in> set evs)) \<and>
    (ob_promises ob \<noteq> [] \<longrightarrow> int (ob_continueSize ob) \<le> ob_bufferedBytes ob) \<and>
    (\<forall>isRunning alive i p future blocked evs ob'. OutputBuffer_enqueue isRunning alive i p future ob = Inr (blocked, evs, ob') \<longrightarrow>
      (blocked \<longleftrightarrow> future \<noteq> None \<and> int (ob_maxSize ob) < ob_bufferedBytes ob') \<and>
      ob_promises ob' = ob_promises ob @ (if blocked then [the future] else [])) \<and>
    (\<forall>i q evs ob'. OutputBuffer_acknowledge i q ob = Inr (evs, ob') \<longrightarrow> resumed ob evs ob') \<and>
    (\<forall>i finished evs ob'. OutputBuffer_deleteResults i ob = Inr (finished, evs, ob') \<longrightarrow> resumed ob evs ob') \<and>
    (\<forall>i maxBytes q notify check evs ob'. OutputBuffer_getData i maxBytes q notify check ob = Inr (evs, ob') \<longrightarrow> resumed ob evs ob') \<and>
    (\<forall>n noMore evs ob'. updateOutputBuffers n noMore ob = Inr (evs, ob') \<longrightarrow> resumed ob evs ob') \<and>
    (\<forall>evs ob'. OutputBuffer_terminate False ob = Inr (evs, ob') \<longrightarrow> resumed ob evs ob' \<and> ob_promises ob' = [])"
proof -
  note inv = ob_run_inv [OF run k]
  have w: "\<forall>i d callback. i < length (ob_buffers ob) \<and> ob_buffers ob ! i = Some d \<and> db_notify d = Some callback \<longrightarrow> woken ob lg i d callback"
    using waiting_woken [OF inv] by blast
  have p: "ob_promises ob \<noteq> [] \<longrightarrow> int (ob_continueSize ob) \<le> ob_bufferedBytes ob" using ob_invD(8) [OF inv] by (simp add: promises_ok_def)
  show ?thesis
    by (rule conjI [OF w [unfolded woken_def]], rule conjI [OF p], intro conjI allI impI)
      (rule enqueue_blocks [OF ob_invD(1) [OF inv], THEN conjunct1] enqueue_blocks [OF ob_invD(1) [OF inv], THEN conjunct2]
        acknowledge_resumes deleteResults_resumes getData_resumes updateOutputBuffers_resumes
        terminate_resumes [THEN conjunct1] terminate_resumes [THEN conjunct2], assumption)+
qed

theorem no_lost_wakeups_witness:
  "(\<exists>finished evs ob'. OutputBuffer_deleteResults 1 example2 = Inr (finished, evs, ob') \<and> Notify 5 [] 0 \<in> set evs) \<and>
   int (ob_continueSize example2) \<le> ob_bufferedBytes example2"
proof -
  obtain d where d: "ob_buffers example2 ! 1 = Some d" "db_notify d = Some 5" "db_sequence d = 0" using example_sel by blast
  have "1 < length (ob_buffers example2)" "ob_promises example2 \<noteq> []" using example_sel by simp_all
  then show ?thesis using no_lost_wakeups [OF example2_run] d by fastforce
qed

text \<open>C38. In every state that partitioned or broadcast output with non-empty pages reaches, an operation fails only for a
  mistake of its caller, and exactly then: an acknowledgement of something not yet produced; a fetch of something acknowledged,
  not yet produced or deleted, or for a destination that cannot be added; a destination that does not exist; a page without
  a row count, or while the task does not run; more finished drivers or schedulers than there are; an update of the
  destinations that contradicts an earlier one; the termination of a running task; and a scheduler without morsels.
  The number of drivers can always be set.\<close>

theorem operations_fail_exactly:
  assumes "ob_run kind maxSize dests drivers ob lg" "kind \<noteq> kArbitrary"
  shows "((\<exists>r. OutputBuffer_acknowledge i q ob = Inr r) \<longleftrightarrow>
      i < length (ob_buffers ob) \<and> (ob_buffers ob ! i = None \<or> q \<le> int (length (dest_stream ob lg i)))) \<and>
    ((\<exists>r. OutputBuffer_deleteResults i ob = Inr r) \<longleftrightarrow> i < length (ob_buffers ob)) \<and>
    ((\<exists>r. OutputBuffer_getData i maxBytes q notify check ob = Inr r) \<longleftrightarrow> can_fetch ob lg i q) \<and>
    ((\<exists>r. OutputBuffer_enqueue isRunning alive i p future ob = Inr r) \<longleftrightarrow>
      isRunning \<and> i < length (ob_buffers ob) \<and> pg_numRows p \<noteq> None \<and> (ob_kind ob = kBroadcast \<longrightarrow> i = 0)) \<and>
    ((\<exists>r. OutputBuffer_noMoreData alive ob = Inr r) \<longleftrightarrow> count_valid ob (ob_numFinished ob + 1)) \<and>
    ((\<exists>r. noMoreDrivers alive ob = Inr r) \<longleftrightarrow> count_valid ob (ob_numFinished ob)) \<and>
    (\<exists>r. updateNumDrivers alive n ob = Inr r) \<and>
    ((\<exists>r. updateOutputBuffers n noMore ob = Inr r) \<longleftrightarrow>
      (if ob_kind ob = kPartitioned then n = length (ob_buffers ob) \<and> noMore else n \<le> length (ob_buffers ob) \<or> \<not> ob_noMoreBuffers ob)) \<and>
    ((\<exists>r. OutputBuffer_terminate isRunning ob = Inr r) \<longleftrightarrow> \<not> isRunning) \<and>
    ((\<exists>r. addFinishedPushBasedDriverSchedulers ob = Inr r) \<longleftrightarrow> ob_isMorselDriven ob)"
proof -
  note inv = ob_run_inv [OF assms]
  have "(\<exists>r. OutputBuffer_noMoreData alive ob = Inr r) \<longleftrightarrow> count_valid ob (ob_numFinished ob + 1)"
    "(\<exists>r. noMoreDrivers alive ob = Inr r) \<longleftrightarrow> count_valid ob (ob_numFinished ob)"
    using checkIfDone_iff [OF inv, of _ True] checkIfDone_iff [OF inv, of _ False] by (simp_all add: OutputBuffer_noMoreData_def noMoreDrivers_def)
  then show ?thesis
    by (intro conjI acknowledge_iff [OF inv] deleteResults_iff [OF inv] getData_iff [OF inv] enqueue_iff [OF inv]
        updateNumDrivers_total [OF inv] updateOutputBuffers_iff [OF inv])
      (auto simp: OutputBuffer_terminate_def addFinishedPushBasedDriverSchedulers_def checkR_def)
qed

theorem operations_fail_exactly_witness:
  "(\<exists>r. OutputBuffer_deleteResults 1 example3 = Inr r) \<and> \<not> (\<exists>r. OutputBuffer_deleteResults 2 example3 = Inr r) \<and>
   (\<exists>r. OutputBuffer_acknowledge 0 2 example3 = Inr r) \<and> \<not> (\<exists>r. OutputBuffer_acknowledge 0 3 example3 = Inr r)"
proof -
  have l: "length (ob_buffers example3) = 2" using example_sel by simp
  have n: "ob_buffers example3 ! 0 \<noteq> None" using example_sel by force
  show ?thesis
    using operations_fail_exactly [OF example3_run, of 0 2] operations_fail_exactly [OF example3_run, of 0 3]
      operations_fail_exactly [OF example3_run, of 1 0] operations_fail_exactly [OF example3_run, of 2 0] l n
    unfolding example_stream by simp
qed

text \<open>C39. The queues stay well-formed: the queue of a destination is what is left of its stream from its sequence number on,
  so the end marker is only at its end; its statistics count exactly the pages in it; a consumer waits only on an empty
  queue; and the numbers of destinations and of their statistics agree.\<close>

theorem destinations_well_formed:
  assumes "ob_run kind maxSize dests drivers ob lg" "kind \<noteq> kArbitrary"
  shows "length (ob_finishedBufferStats ob) = length (ob_buffers ob) \<and>
    (\<forall>i d. i < length (ob_buffers ob) \<and> ob_buffers ob ! i = Some d \<longrightarrow>
      0 \<le> db_sequence d \<and> db_data d = drop (nat (db_sequence d)) (dest_stream ob lg i) \<and> None \<notin> set (butlast (db_data d)) \<and>
      st_bytesBuffered (db_stats d) = int (total_bytes (pages_of (db_data d))) \<and> st_pagesBuffered (db_stats d) = int (length (pages_of (db_data d))) \<and>
      \<not> st_finished (db_stats d) \<and> (db_notify d \<noteq> None \<longrightarrow> db_data d = [] \<and> db_notifySequence d = db_sequence d) \<and>
      (db_notify d = None \<longrightarrow> db_aliveCheck d = None))"
proof (intro conjI allI impI)
  note inv = ob_run_inv [OF assms]
  show "length (ob_finishedBufferStats ob) = length (ob_buffers ob)" using inv by (rule ob_invD)
  fix i d assume l: "live ob i d"
  note d = live_ok [OF inv l]
  show "0 \<le> db_sequence d" "db_data d = drop (nat (db_sequence d)) (dest_stream ob lg i)" using dest_okD [OF d] by blast+
  show "None \<notin> set (butlast (db_data d))" using dest_okD(6) [OF d] tail_ok_marker by blast
  show "st_bytesBuffered (db_stats d) = int (total_bytes (pages_of (db_data d)))" "st_pagesBuffered (db_stats d) = int (length (pages_of (db_data d)))"
    using dest_okD(5) [OF d] by (simp_all add: stats_ok_def)
  show "\<not> st_finished (db_stats d)" "db_notify d \<noteq> None \<Longrightarrow> db_data d = []" "db_notify d \<noteq> None \<Longrightarrow> db_notifySequence d = db_sequence d"
    "db_notify d = None \<Longrightarrow> db_aliveCheck d = None" using d by (auto simp: dest_ok_def)
qed

theorem destinations_well_formed_witness: "\<exists>d. ob_buffers example3 ! 0 = Some d \<and> None \<notin> set (butlast (db_data d)) \<and> \<not> st_finished (db_stats d)"
proof -
  obtain d where d: "ob_buffers example3 ! 0 = Some d" using example_sel by blast
  have l: "0 < length (ob_buffers example3)" using example_sel by simp
  show ?thesis using destinations_well_formed [OF example3_run output_kind.distinct(3)] d l by blast
qed

end
