(* ===== verification/Output_Race.thy ===== *)
theory Output_Race
  imports Output_Props
begin

text \<open>
  Two acknowledgements at the same time. \<^verbatim>\<open>acknowledge\<close> holds the mutex while it takes the pages out of the queue and
  updates the counts, and destroys the list of freed pages after it has released the mutex. Another call may run in
  between, and then the pointers in that list still count as uses.
\<close>

text \<open>The part of \<^verbatim>\<open>acknowledge\<close> under the mutex: \<open>inFlight\<close> are the pages in the lists that other calls have not destroyed
  yet. It returns the list of freed pages, the producers to resume and the state.\<close>

definition acknowledgeLocked :: "page list \<Rightarrow> nat \<Rightarrow> int \<Rightarrow> output_buffer \<Rightarrow> (page list \<times> nat list \<times> output_buffer) result" where
  "acknowledgeLocked inFlight destination sequence ob =
     checkR (destination < length (ob_buffers ob))
       (case ob_buffers ob ! destination of
          None \<Rightarrow> Inr ([], [], ob)
        | Some d \<Rightarrow>
            bindR (DestinationBuffer_acknowledge sequence d) (\<lambda>(freed, d).
              let ob = ob\<lparr>ob_buffers := (ob_buffers ob)[destination := Some d]\<rparr> in
              bindR (updateAfterAcknowledgeLocked freed (count_list (freed @ inFlight @ held_pages ob)) ob) (\<lambda>(promises, ob).
                Inr (freed, promises, ob))))"

lemma acknowledge_alone:
  "OutputBuffer_acknowledge i q ob =
     bindR (acknowledgeLocked [] i q ob) (\<lambda>(freed, promises, ob). Inr (releaseAfterAcknowledge promises, ob))"
proof (cases "i < length (ob_buffers ob)")
  case True
  show ?thesis
  proof (cases "ob_buffers ob ! i")
    case None
    then show ?thesis using True by (simp add: OutputBuffer_acknowledge_def acknowledgeLocked_def releaseAfterAcknowledge_def)
  next
    case (Some d)
    then show ?thesis using True
      by (cases "DestinationBuffer_acknowledge q d") (auto simp: OutputBuffer_acknowledge_def acknowledgeLocked_def Let_def bindR_def split: sum.splits)
  qed
qed (simp add: OutputBuffer_acknowledge_def acknowledgeLocked_def)

text \<open>A broadcast to two destinations whose only page exceeds the limit, so that its producer is blocked.\<close>

definition race0 :: "nat \<Rightarrow> output_buffer" where
  "race0 maxSize = (case updateOutputBuffers 2 True (OutputBuffer_new kBroadcast maxSize 2 1) of Inr (_, ob) \<Rightarrow> ob | Inl _ \<Rightarrow> OutputBuffer_new kBroadcast maxSize 2 1)"

definition race1 :: "nat \<Rightarrow> page \<Rightarrow> output_buffer" where
  "race1 maxSize p = (case OutputBuffer_enqueue True (\<lambda>_. True) 0 p (Some 7) (race0 maxSize) of Inr (_, _, ob) \<Rightarrow> ob | Inl _ \<Rightarrow> race0 maxSize)"

lemma race0_eq: "updateOutputBuffers 2 True (OutputBuffer_new kBroadcast maxSize 2 1) = Inr ([], race0 maxSize)"
  by (simp add: race0_def updateOutputBuffers_def isFinishedLocked_def DestinationBuffer_new_def example_defs)

lemma race1_eq:
  "page_ok p \<Longrightarrow> maxSize < pg_size p \<Longrightarrow> OutputBuffer_enqueue True (\<lambda>_. True) 0 p (Some 7) (race0 maxSize) = Inr (True, [], race1 maxSize p)"
  by (auto simp: page_ok_def race1_def race0_def updateOutputBuffers_def isFinishedLocked_def enqueueBroadcastOutputLocked_def example_defs)

lemma race1_run: "page_ok p \<Longrightarrow> maxSize < pg_size p \<Longrightarrow> ob_run kBroadcast maxSize 2 1 (race1 maxSize p) [(0, p)]"
proof -
  assume p: "page_ok p" "maxSize < pg_size p"
  have "ob_run kBroadcast maxSize 2 1 (race0 maxSize) []" using ob_run.step [OF ob_run.start ob_step.outputBuffers [OF race0_eq]] .
  moreover have "may_enqueue (race0 maxSize) [] p"
    using p by (simp add: may_enqueue_def race0_def updateOutputBuffers_def isFinishedLocked_def example_defs)
  ultimately show ?thesis using ob_run.step [OF _ ob_step.enqueue [OF _ race1_eq [OF p]]] by fastforce
qed

lemmas race_defs = race1_def race0_def updateOutputBuffers_def isFinishedLocked_def enqueueBroadcastOutputLocked_def acknowledgeLocked_def
  updateStatsWithFreedPagesLocked_def held_pages_def buffers_pages_def recordAcknowledge_def page_ok_def List.map_filter_simps example_defs

lemma race_interleaved:
  assumes "page_ok p" "maxSize < pg_size p"
  shows "\<exists>ob1 ob2. acknowledgeLocked [] 0 1 (race1 maxSize p) = Inr ([p], [], ob1) \<and> acknowledgeLocked [p] 1 1 ob1 = Inr ([p], [], ob2) \<and>
    held_pages ob2 = [] \<and> ob_bufferedBytes ob2 = int (pg_size p) \<and> ob_promises ob2 = [7]"
  using assms by (auto simp: race_defs)

lemma race_sequential:
  assumes "page_ok p" "maxSize < pg_size p" "2 \<le> maxSize"
  shows "\<exists>ob1 ob2. OutputBuffer_acknowledge 0 1 (race1 maxSize p) = Inr ([], ob1) \<and>
    OutputBuffer_acknowledge 1 1 ob1 = Inr ([Resume [7]], ob2) \<and> held_pages ob2 = [] \<and> ob_bufferedBytes ob2 = 0 \<and> ob_promises ob2 = []"
proof -
  have "0 < maxSize * 90 div 100" using assms(3) by simp
  then show ?thesis using assms(1,2) unfolding acknowledge_alone by (auto simp: race_defs)
qed

text \<open>C40. When two consumers of a broadcast acknowledge the same page one after the other, its bytes are released and the
  blocked producer resumes. When the second one runs before the first has destroyed its list of freed pages, neither sees
  the last use of the page: nothing is held any more, but its bytes stay counted and the producer stays blocked.\<close>

theorem concurrent_acknowledge_leaks:
  assumes "page_ok p" "2 \<le> maxSize" "maxSize < pg_size p"
  shows "ob_run kBroadcast maxSize 2 1 (race1 maxSize p) [(0, p)] \<and>
    (\<exists>ob1 ob2. OutputBuffer_acknowledge 0 1 (race1 maxSize p) = Inr ([], ob1) \<and>
       OutputBuffer_acknowledge 1 1 ob1 = Inr ([Resume [7]], ob2) \<and> held_pages ob2 = [] \<and> ob_bufferedBytes ob2 = 0 \<and> ob_promises ob2 = []) \<and>
    (\<exists>ob1 ob2. acknowledgeLocked [] 0 1 (race1 maxSize p) = Inr ([p], [], ob1) \<and> acknowledgeLocked [p] 1 1 ob1 = Inr ([p], [], ob2) \<and>
       held_pages ob2 = [] \<and> ob_bufferedBytes ob2 = int (pg_size p) \<and> ob_promises ob2 = [7])"
  using race1_run race_sequential race_interleaved assms by blast

theorem concurrent_acknowledge_leaks_witness:
  "\<exists>ob1 ob2. acknowledgeLocked [] 0 1 (race1 10 example_page) = Inr ([example_page], [], ob1) \<and>
     acknowledgeLocked [example_page] 1 1 ob1 = Inr ([example_page], [], ob2) \<and> held_pages ob2 = [] \<and> ob_bufferedBytes ob2 = 12"
proof -
  have p: "page_ok example_page" "10 < pg_size example_page" "pg_size example_page = 12" by (simp_all add: page_ok_def example_page_def)
  show ?thesis using concurrent_acknowledge_leaks [OF p(1) _ p(2)] p(3) by auto
qed

end
