(* ===== verification/Output_Arb.thy ===== *)
theory Output_Arb
  imports Output_Props "HOL-Library.Multiset"
begin

text \<open>
  Arbitrary output: the pages wait in one queue that the destinations share, and each goes to whichever destination
  asks for it first. The lemmas follow the pages from the shared queue to the destinations.
\<close>

section \<open>Taking pages from the shared queue\<close>

text \<open>What is taken and what is left; the end marker is copied and stays.\<close>

definition taken_from :: "pages \<Rightarrow> pages \<Rightarrow> pages \<Rightarrow> bool" where
  "taken_from buf taken rest \<longleftrightarrow> tail_ok taken \<and> tail_ok rest \<and>
     (if None \<in> set taken then buf = taken \<and> rest = [None] else buf = taken @ rest)"

lemma getPagesLoop_ok: "tail_ok buf \<Longrightarrow> \<exists>taken rest. getPagesLoop n maxBytes buf = Inr (taken, rest) \<and> taken_from buf taken rest \<and>
    (n < maxBytes \<longrightarrow> buf \<noteq> [] \<longrightarrow> taken \<noteq> [])"
proof (induction n maxBytes buf rule: getPagesLoop.induct)
  case (1 n maxBytes)
  then show ?case by (simp add: taken_from_def)
next
  case (2 n maxBytes front rest)
  show ?case
  proof (cases "n < maxBytes")
    case False
    then show ?thesis using 2 by (simp add: taken_from_def)
  next
    case True
    show ?thesis
    proof (cases front)
      case None
      then show ?thesis using 2 True by (auto simp: taken_from_def tail_ok_Cons_None)
    next
      case (Some p)
      then have t: "page_ok p" "tail_ok rest" using 2(2) by (simp_all add: tail_ok_Cons_Some)
      from 2(1) [OF True Some t(2)] obtain taken left where
        "getPagesLoop (n + pg_size p) maxBytes rest = Inr (taken, left)" "taken_from rest taken left" by blast
      then show ?thesis using True Some t by (auto simp: taken_from_def tail_ok_Cons_Some split: if_splits)
    qed
  qed
qed

lemma getPages_ok:
  assumes "tail_ok buf" "0 < maxBytes"
  shows "\<exists>taken rest. getPages maxBytes buf = Inr (taken, rest) \<and> taken_from buf taken rest \<and> (buf \<noteq> [] \<longrightarrow> taken \<noteq> [])"
  using getPagesLoop_ok [OF assms(1), of 0 maxBytes] assms(2) by (simp add: getPages_def)

lemma tail_ok_last: "tail_ok xs \<Longrightarrow> None \<in> set xs \<longleftrightarrow> hasNoMoreData xs"
proof (induction xs)
  case (Cons x xs)
  then show ?case by (cases x) (auto simp: tail_ok_Cons_Some tail_ok_Cons_None hasNoMoreData_def)
qed (simp add: hasNoMoreData_def)

lemma tail_ok_join: "tail_ok xs \<Longrightarrow> None \<notin> set xs \<Longrightarrow> tail_ok ys \<Longrightarrow> tail_ok (xs @ ys)"
proof (induction xs)
  case (Cons x xs)
  then show ?case by (cases x) (auto simp: tail_ok_Cons_Some)
qed simp

lemma taken_from_facts:
  assumes "taken_from buf taken rest" "tail_ok buf"
  shows "pages_of buf = pages_of taken @ pages_of rest" "None \<in> set rest \<longleftrightarrow> None \<in> set buf" "None \<in> set taken \<Longrightarrow> rest = [None]"
    "buf = [None] \<Longrightarrow> rest = [None]" "tail_ok taken" "tail_ok rest"
  using assms by (auto simp: taken_from_def append_eq_Cons_conv Cons_eq_append_conv split: if_splits)

section \<open>Queues\<close>

text \<open>A destination by itself: what its queue holds, without the stream it came from.\<close>

definition queue_ok :: "dest \<Rightarrow> bool" where
  "queue_ok d \<longleftrightarrow> tail_ok (db_data d) \<and> 0 \<le> db_sequence d \<and> stats_ok (db_stats d) (pages_of (db_data d)) \<and> \<not> st_finished (db_stats d) \<and>
     (if db_notify d = None then db_aliveCheck d = None
      else db_data d = [] \<and> db_notifySequence d = db_sequence d \<and> 0 < db_notifyMaxBytes d)"

lemma dest_queue: "dest_ok d s \<Longrightarrow> db_notify d = None \<Longrightarrow> queue_ok d"
  using dest_okD(6) [of d s] unfolding queue_ok_def dest_ok_def by auto

definition some_page :: page where "some_page = \<lparr>pg_id = 0, pg_size = 1, pg_numRows = Some 0\<rparr>"

definition history :: "dest \<Rightarrow> pages" where
  "history d = replicate (nat (db_sequence d)) (Some some_page) @ db_data d"

lemma queue_dest: "queue_ok d \<Longrightarrow> dest_ok d (history d)"
proof -
  assume "queue_ok d"
  moreover have "tail_ok (replicate n (Some some_page) @ xs) \<longleftrightarrow> tail_ok xs" for n xs
    by (induction n) (simp_all add: tail_ok_Cons_Some page_ok_def some_page_def)
  ultimately show ?thesis by (simp add: dest_ok_def queue_ok_def history_def)
qed

lemma enqueue_raw:
  assumes "tail_ok (db_data d @ [x])" "stats_ok (db_stats d) (pages_of (db_data d))"
  shows "\<exists>st. DestinationBuffer_enqueue x d = Inr (d\<lparr>db_stats := st, db_data := db_data d @ [x]\<rparr>) \<and>
    stats_ok st (pages_of (db_data d @ [x])) \<and> st_finished st = st_finished (db_stats d)"
proof (cases x)
  case None
  then have "\<not> (db_data d \<noteq> [] \<and> last (db_data d) = None)" using open_last [OF assms(1)] by blast
  then show ?thesis using None assms(2) by (intro exI [of _ "db_stats d"]) (auto simp: DestinationBuffer_enqueue_def)
next
  case (Some p)
  have "page_ok p" using assms(1) Some tail_ok_drop [of "db_data d @ [x]" "length (db_data d)"] by (simp add: tail_ok_Cons_Some)
  then obtain rows where "pg_numRows p = Some rows" by (auto simp: page_ok_def)
  then show ?thesis using Some assms(2) by (auto simp: DestinationBuffer_enqueue_def recordEnqueue_def stats_ok_def)
qed

lemma enqueueAll_raw:
  "tail_ok (db_data d @ xs) \<Longrightarrow> stats_ok (db_stats d) (pages_of (db_data d)) \<Longrightarrow>
   \<exists>st. enqueueAll xs d = Inr (d\<lparr>db_stats := st, db_data := db_data d @ xs\<rparr>) \<and> stats_ok st (pages_of (db_data d @ xs)) \<and>
     st_finished st = st_finished (db_stats d)"
proof (induction xs arbitrary: d)
  case Nil
  then show ?case by (intro exI [of _ "db_stats d"]) simp
next
  case (Cons x xs)
  have "tail_ok (db_data d @ [x])" using tail_ok_append [of "db_data d @ [x]" xs] Cons(2) by simp
  from enqueue_raw [OF this Cons(3)] obtain st where st: "DestinationBuffer_enqueue x d = Inr (d\<lparr>db_stats := st, db_data := db_data d @ [x]\<rparr>)"
    "stats_ok st (pages_of (db_data d @ [x]))" "st_finished st = st_finished (db_stats d)" by blast
  from Cons(1) [of "d\<lparr>db_stats := st, db_data := db_data d @ [x]\<rparr>"] Cons(2) st show ?case by auto
qed

text \<open>Loading: an end marker that is there already is not added again.\<close>

lemma loadData_ok:
  assumes "tail_ok (db_data d)" "stats_ok (db_stats d) (pages_of (db_data d))" "tail_ok buf" "0 < maxBytes"
    "None \<in> set (db_data d) \<Longrightarrow> buf = [None]"
  shows "\<exists>taken rest st. loadData buf maxBytes d = Inr (rest, d\<lparr>db_stats := st, db_data := db_data d @ taken\<rparr>) \<and>
    stats_ok st (pages_of (db_data d @ taken)) \<and> st_finished st = st_finished (db_stats d) \<and> tail_ok (db_data d @ taken) \<and>
    pages_of buf = pages_of taken @ pages_of rest \<and> tail_ok rest \<and> (None \<in> set rest \<longleftrightarrow> None \<in> set buf) \<and>
    (None \<in> set (db_data d @ taken) \<longrightarrow> rest = [None]) \<and> (buf \<noteq> [] \<longrightarrow> db_data d @ taken \<noteq> [])"
proof (cases "None \<in> set (db_data d)")
  case True
  then have b: "buf = [None]" using assms(5) by blast
  have "hasNoMoreData (db_data d)" using True tail_ok_last [OF assms(1)] by blast
  then have "DestinationBuffer_enqueue None d = Inr d" by (simp add: DestinationBuffer_enqueue_def hasNoMoreData_def)
  then have "loadData buf maxBytes d = Inr ([None], d)" using b assms(4) by (simp add: loadData_def getPages_def)
  then show ?thesis using True b assms(1-3) by (intro exI [of _ "[]"] exI [of _ "[None]"] exI [of _ "db_stats d"]) auto
next
  case False
  obtain taken rest where g: "getPages maxBytes buf = Inr (taken, rest)" "taken_from buf taken rest" "buf \<noteq> [] \<longrightarrow> taken \<noteq> []"
    using getPages_ok [OF assms(3,4)] by blast
  note f = taken_from_facts [OF g(2) assms(3)]
  have t: "tail_ok (db_data d @ taken)" using tail_ok_join [OF assms(1) False f(5)] .
  from enqueueAll_raw [OF t assms(2)] obtain st where "enqueueAll taken d = Inr (d\<lparr>db_stats := st, db_data := db_data d @ taken\<rparr>)"
    "stats_ok st (pages_of (db_data d @ taken))" "st_finished st = st_finished (db_stats d)" by blast
  with g f t False show ?thesis by (intro exI [of _ taken] exI [of _ rest] exI [of _ st]) (auto simp: loadData_def)
qed

text \<open>A destination beside the shared queue: it has seen the end only when nothing but the end is left.\<close>

definition arb_dest :: "pages \<Rightarrow> dest \<Rightarrow> bool" where
  "arb_dest buf d \<longleftrightarrow> queue_ok d \<and> (None \<in> set (db_data d) \<longrightarrow> buf = [None])"

text \<open>The shared queue after some of it was taken.\<close>

definition arb_next :: "pages \<Rightarrow> pages \<Rightarrow> bool" where
  "arb_next buf buf' \<longleftrightarrow> tail_ok buf' \<and> (None \<in> set buf' \<longleftrightarrow> None \<in> set buf) \<and> (buf = [None] \<longrightarrow> buf' = [None]) \<and> (buf = [] \<longrightarrow> buf' = [])"

lemma arb_next_refl: "tail_ok buf \<Longrightarrow> arb_next buf buf" and arb_next_trans: "arb_next a b \<Longrightarrow> arb_next b c \<Longrightarrow> arb_next a c"
  by (auto simp: arb_next_def)

lemma arb_nextI:
  assumes "tail_ok rest" "None \<in> set rest \<longleftrightarrow> None \<in> set buf" "pages_of buf = pages_of taken @ pages_of rest"
  shows "arb_next buf rest"
proof -
  have "xs = (if None \<in> set xs then [None] else [])" if "tail_ok xs" "pages_of xs = []" for xs
    using that by (cases xs; cases "hd xs") (auto simp: tail_ok_Cons_None)
  from this [OF assms(1)] assms show ?thesis by (auto simp: arb_next_def)
qed

lemma arb_dest_next: "arb_dest buf d \<Longrightarrow> arb_next buf buf' \<Longrightarrow> arb_dest buf' d"
  by (auto simp: arb_dest_def arb_next_def)

lemma queue_loaded:
  assumes "queue_ok d" "tail_ok data" "stats_ok st (pages_of data)" "st_finished st = st_finished (db_stats d)"
  shows "queue_ok (clearNotify (d\<lparr>db_stats := st, db_data := data\<rparr>))"
  using assms by (simp add: queue_ok_def)

lemma notify_loaded:
  assumes "queue_ok d" "db_notify d = Some callback" "tail_ok data" "data \<noteq> []"
  shows "\<exists>result. getAndClearNotify (d\<lparr>db_stats := st, db_data := data\<rparr>) =
    Inr ([Notify callback result (db_sequence d)], clearNotify (d\<lparr>db_stats := st, db_data := data\<rparr>))"
proof -
  have q: "db_notifySequence d = db_sequence d" "0 < db_notifyMaxBytes d" using assms(1,2) by (auto simp: queue_ok_def)
  obtain result where "resultLoop (db_notifyMaxBytes d) 0 data = Inr result" using resultLoop_ok [OF assms(3,4) q(2), of 0] by blast
  then show ?thesis using q assms(2,4) by (simp add: getAndClearNotify_def DestinationBuffer_getData_def)
qed

lemma loadAndNotify_ok:
  assumes "arb_dest buf d" "tail_ok buf" "buf \<noteq> []"
  shows "\<exists>buf' evs d'. loadAndNotify alive buf d = Inr (buf', evs, d') \<and> arb_dest buf' d' \<and> arb_next buf buf' \<and> db_notify d' = None \<and>
    pages_of (db_data d') @ pages_of buf' = pages_of (db_data d) @ pages_of buf"
proof -
  have q: "queue_ok d" using assms(1) by (simp add: arb_dest_def)
  have e: "\<not> ArbitraryBuffer_empty buf \<or> hasNoMoreData buf" using assms(3) by (auto simp: ArbitraryBuffer_empty_def hasNoMoreData_def)
  show ?thesis
  proof (cases "db_notify d")
    case None
    then have "loadAndNotify alive buf d = Inr (buf, [], d)"
      using e q by (simp add: loadAndNotify_def maybeLoadData_def getAndClearNotify_def queue_ok_def)
    with None assms(1,2) show ?thesis using arb_next_refl by blast
  next
    case (Some callback)
    then have w: "db_data d = []" "0 < db_notifyMaxBytes d" using q by (auto simp: queue_ok_def)
    show ?thesis
    proof (cases "case db_aliveCheck d of None \<Rightarrow> False | Some c \<Rightarrow> \<not> alive c")
      case True
      then have "loadAndNotify alive buf d = Inr (buf, [], clearNotify d)"
        using e Some by (simp add: loadAndNotify_def maybeLoadData_def getAndClearNotify_def)
      moreover have "arb_dest buf (clearNotify d)" using assms(1) Some w by (simp add: arb_dest_def queue_ok_def)
      ultimately show ?thesis using arb_next_refl [OF assms(2)] by (intro exI [of _ buf] exI [of _ "[]"] exI [of _ "clearNotify d"]) simp
    next
      case False
      have "tail_ok (db_data d)" "stats_ok (db_stats d) (pages_of (db_data d))" "None \<in> set (db_data d) \<Longrightarrow> buf = [None]"
        using assms(1) by (auto simp: arb_dest_def queue_ok_def)
      from loadData_ok [OF this(1,2) assms(2) w(2) this(3)] w(1) obtain taken rest st where
        l: "loadData buf (db_notifyMaxBytes d) d = Inr (rest, d\<lparr>db_stats := st, db_data := taken\<rparr>)" "stats_ok st (pages_of taken)"
        "st_finished st = st_finished (db_stats d)" "tail_ok taken" "pages_of buf = pages_of taken @ pages_of rest" "tail_ok rest"
        "None \<in> set rest \<longleftrightarrow> None \<in> set buf" "None \<in> set taken \<longrightarrow> rest = [None]" "taken \<noteq> []" using assms(3) by auto
      let ?d = "d\<lparr>db_stats := st, db_data := taken\<rparr>"
      obtain result where "getAndClearNotify ?d = Inr ([Notify callback result (db_sequence d)], clearNotify ?d)"
        using notify_loaded [OF q Some l(4,9)] by blast
      then have "loadAndNotify alive buf d = Inr (rest, [Notify callback result (db_sequence d)], clearNotify ?d)"
        using e Some False w(2) l(1) by (simp add: loadAndNotify_def maybeLoadData_def)
      moreover have "arb_dest rest (clearNotify ?d)" using queue_loaded [OF q l(4,2,3)] l(8) by (simp add: arb_dest_def)
      moreover have "arb_next buf rest" using l(6,7,5) by (rule arb_nextI)
      ultimately show ?thesis using l(5) w(1)
        by (intro exI [of _ rest] exI [of _ "[Notify callback result (db_sequence d)]"] exI [of _ "clearNotify ?d"]) simp
    qed
  qed
qed

section \<open>All destinations\<close>

definition arb_dests :: "pages \<Rightarrow> dest option list \<Rightarrow> bool" where
  "arb_dests buf bs \<longleftrightarrow> (\<forall>i<length bs. \<forall>d. bs ! i = Some d \<longrightarrow> arb_dest buf d)"

definition waiting :: "dest option \<Rightarrow> bool" where
  "waiting b \<longleftrightarrow> (case b of None \<Rightarrow> False | Some d \<Rightarrow> db_notify d \<noteq> None)"

definition all_pages :: "dest option list \<Rightarrow> pages \<Rightarrow> page multiset" where
  "all_pages bs buf = mset (buffers_pages bs) + mset (pages_of buf)"

lemma waiting_simps [simp]: "\<not> waiting None" "waiting (Some d) \<longleftrightarrow> db_notify d \<noteq> None"
  by (simp_all add: waiting_def)

lemma arb_dests_next: "arb_dests buf bs \<Longrightarrow> arb_next buf buf' \<Longrightarrow> arb_dests buf' bs"
  unfolding arb_dests_def using arb_dest_next by blast

lemma arb_dests_update: "arb_dests buf bs \<Longrightarrow> (\<And>d. b = Some d \<Longrightarrow> arb_dest buf d) \<Longrightarrow> arb_dests buf (bs[i := b])"
  by (cases "i < length bs") (auto simp: arb_dests_def nth_list_update split: if_splits)

lemma buffers_pages_mset:
  assumes "i < length bs"
  shows "mset (buffers_pages (bs[i := b])) + mset (dest_pages (bs ! i)) = mset (buffers_pages bs) + mset (dest_pages b)"
proof -
  have "mset (buffers_pages bs) = mset (buffers_pages (take i bs @ bs ! i # drop (Suc i) bs))" using id_take_nth_drop [OF assms] by simp
  then show ?thesis using assms by (simp add: buffers_pages_conv upd_conv_take_nth_drop)
qed

lemma mset_exchange:
  fixes A B C A' B' C' :: "'a multiset"
  assumes "A' + C' = A + C" "B' + A = B + A'"
  shows "B' + C' = B + C"
proof -
  have "B' + A + (A' + C') = B + A' + (A + C)" by (simp only: assms)
  then have "(B' + C') + (A + A') = (B + C) + (A + A')" by (simp only: ac_simps)
  then show ?thesis by simp
qed

lemma all_pages_moved:
  assumes "i < length bs" "bs ! i = Some d" "pages_of (db_data d') @ pages_of buf' = pages_of (db_data d) @ pages_of buf"
  shows "all_pages (bs[i := Some d']) buf' = all_pages bs buf"
proof -
  have "mset (pages_of (db_data d')) + mset (pages_of buf') = mset (pages_of (db_data d)) + mset (pages_of buf)"
    using assms(3) by (metis mset_append)
  moreover have "mset (buffers_pages (bs[i := Some d'])) + mset (pages_of (db_data d)) = mset (buffers_pages bs) + mset (pages_of (db_data d'))"
    using buffers_pages_mset [OF assms(1), of "Some d'"] assms(2) by simp
  ultimately show ?thesis unfolding all_pages_def by (rule mset_exchange)
qed

text \<open>The round of an enqueue: no page is lost or doubled, and a consumer is left waiting only when the queue is empty.\<close>

lemma arbitraryLoop_ok:
  "arb_dests buf (ob_buffers ob) \<Longrightarrow> tail_ok buf \<Longrightarrow> None \<notin> set buf \<Longrightarrow> b < length (ob_buffers ob) \<Longrightarrow>
   \<exists>evs bs buf' next. arbitraryLoop alive n b buf ob = Inr (evs, ob\<lparr>ob_buffers := bs, ob_arbitraryBuffer := Some buf', ob_nextArbitraryLoadBufferIndex := next\<rparr>) \<and>
     length bs = length (ob_buffers ob) \<and> (next = ob_nextArbitraryLoadBufferIndex ob \<or> next < length bs) \<and> arb_dests buf' bs \<and> arb_next buf buf' \<and>
     all_pages bs buf' = all_pages (ob_buffers ob) buf \<and> (\<forall>i<length bs. waiting (bs ! i) \<longrightarrow> waiting (ob_buffers ob ! i)) \<and>
     (buf' = [] \<or> (\<forall>k<n. \<not> waiting (bs ! ((b + k) mod length bs))))"
proof (induction n arbitrary: b buf ob)
  case 0
  have "arbitraryLoop alive 0 b buf ob = Inr ([], ob\<lparr>ob_buffers := ob_buffers ob, ob_arbitraryBuffer := Some buf,
      ob_nextArbitraryLoadBufferIndex := ob_nextArbitraryLoadBufferIndex ob\<rparr>)" by simp
  with 0 arb_next_refl show ?case by blast
next
  case (Suc n)
  let ?bs = "ob_buffers ob" and ?next = "(b + 1) mod length (ob_buffers ob)"
  have e: "ArbitraryBuffer_empty buf \<longleftrightarrow> buf = []" using Suc(4) by (auto simp: ArbitraryBuffer_empty_def)
  have L: "0 < length ?bs" using Suc(5) by auto
  have n: "?next < length ?bs" using L by simp
  have shift: "(\<forall>k<Suc n. \<not> waiting (xs ! ((b + k) mod length xs))) \<longleftrightarrow> \<not> waiting (xs ! b) \<and> (\<forall>k<n. \<not> waiting (xs ! ((?next + k) mod length xs)))"
    if "length xs = length ?bs" for xs
    unfolding All_less_Suc2 using Suc(5) that by (simp add: mod_add_left_eq)
  show ?case
  proof (cases "buf = []")
    case True
    then have "arbitraryLoop alive (Suc n) b buf ob = Inr ([], ob\<lparr>ob_buffers := ?bs, ob_arbitraryBuffer := Some buf, ob_nextArbitraryLoadBufferIndex := b\<rparr>)"
      using e by simp
    with Suc(2,3,5) True arb_next_refl show ?thesis by blast
  next
    case False
    show ?thesis
    proof (cases "?bs ! b")
      case None
      then have step: "arbitraryLoop alive (Suc n) b buf ob = arbitraryLoop alive n ?next buf ob" using e False by (simp add: Let_def)
      from Suc(1) [OF Suc(2-4) n] obtain evs bs buf' nxt where IH:
        "arbitraryLoop alive n ?next buf ob = Inr (evs, ob\<lparr>ob_buffers := bs, ob_arbitraryBuffer := Some buf', ob_nextArbitraryLoadBufferIndex := nxt\<rparr>)"
        "length bs = length ?bs" "nxt = ob_nextArbitraryLoadBufferIndex ob \<or> nxt < length bs" "arb_dests buf' bs" "arb_next buf buf'"
        "all_pages bs buf' = all_pages ?bs buf" "\<forall>i<length bs. waiting (bs ! i) \<longrightarrow> waiting (?bs ! i)"
        "buf' = [] \<or> (\<forall>k<n. \<not> waiting (bs ! ((?next + k) mod length bs)))" by blast
      have "\<not> waiting (bs ! b)" using IH(2,7) None Suc(5) by (metis waiting_simps(1))
      then have "buf' = [] \<or> (\<forall>k<Suc n. \<not> waiting (bs ! ((b + k) mod length bs)))" using IH(8) shift [OF IH(2)] by blast
      then show ?thesis unfolding step using IH(1-7) by blast
    next
      case (Some d)
      have "arb_dest buf d" using Suc(2,5) Some by (auto simp: arb_dests_def)
      from loadAndNotify_ok [OF this Suc(3) False, of alive] obtain buf1 ev d1 where
        l: "loadAndNotify alive buf d = Inr (buf1, ev, d1)" "arb_dest buf1 d1" "arb_next buf buf1" "db_notify d1 = None"
        "pages_of (db_data d1) @ pages_of buf1 = pages_of (db_data d) @ pages_of buf" by blast
      let ?ob = "ob\<lparr>ob_buffers := ?bs[b := Some d1]\<rparr>"
      have o: "arb_dests buf1 (ob_buffers ?ob)" using arb_dests_update [OF arb_dests_next [OF Suc(2) l(3)], of "Some d1" b] l(2) by simp
      have t: "tail_ok buf1" "None \<notin> set buf1" using l(3) Suc(4) by (simp_all add: arb_next_def)
      have "?next < length (ob_buffers ?ob)" using n by simp
      from Suc(1) [OF o t this] obtain evs bs buf' nxt where IH0:
        "arbitraryLoop alive n ?next buf1 ?ob = Inr (evs, ?ob\<lparr>ob_buffers := bs, ob_arbitraryBuffer := Some buf', ob_nextArbitraryLoadBufferIndex := nxt\<rparr>)"
        "length bs = length (ob_buffers ?ob)" "nxt = ob_nextArbitraryLoadBufferIndex ?ob \<or> nxt < length bs" "arb_dests buf' bs" "arb_next buf1 buf'"
        "all_pages bs buf' = all_pages (ob_buffers ?ob) buf1" "\<forall>i<length bs. waiting (bs ! i) \<longrightarrow> waiting (ob_buffers ?ob ! i)"
        "buf' = [] \<or> (\<forall>k<n. \<not> waiting (bs ! ((?next + k) mod length bs)))" by blast
      have IH: "length bs = length ?bs" "nxt = ob_nextArbitraryLoadBufferIndex ob \<or> nxt < length bs"
        "all_pages bs buf' = all_pages (?bs[b := Some d1]) buf1" "\<forall>i<length bs. waiting (bs ! i) \<longrightarrow> waiting (?bs[b := Some d1] ! i)"
        using IH0(2,3,6,7) by simp_all
      have step: "arbitraryLoop alive (Suc n) b buf ob =
          Inr (ev @ evs, ob\<lparr>ob_buffers := bs, ob_arbitraryBuffer := Some buf', ob_nextArbitraryLoadBufferIndex := nxt\<rparr>)"
        using e False Some l(1) IH0(1) by (simp add: Let_def)
      have w: "\<forall>i<length bs. waiting (bs ! i) \<longrightarrow> waiting (?bs ! i)" "\<not> waiting (bs ! b)"
        using IH(1,4) l(4) Suc(5) Some by (force simp: nth_list_update split: if_splits)+
      have "all_pages bs buf' = all_pages ?bs buf" using IH(3) all_pages_moved [OF Suc(5) Some l(5)] by simp
      moreover have "buf' = [] \<or> (\<forall>k<Suc n. \<not> waiting (bs ! ((b + k) mod length bs)))" using IH0(8) w(2) shift [OF IH(1)] by blast
      ultimately show ?thesis unfolding step using IH(1,2) IH0(4) arb_next_trans [OF l(3) IH0(5)] w(1) by blast
    qed
  qed
qed

lemma arb_dests_Cons: "arb_dests buf (b # bs) \<longleftrightarrow> (\<forall>d. b = Some d \<longrightarrow> arb_dest buf d) \<and> arb_dests buf bs"
  by (auto simp: arb_dests_def nth_Cons split: nat.splits)

lemma all_pages_Cons: "all_pages (b # bs) buf = mset (dest_pages b) + all_pages bs buf"
  by (simp add: all_pages_def buffers_pages_conv)

lemma forLoad_ok:
  "arb_dests buf bs \<Longrightarrow> tail_ok buf \<Longrightarrow> None \<in> set buf \<Longrightarrow>
   \<exists>buf' evs bs'. forBuffers (loadAndNotify alive) buf bs = Inr (buf', evs, bs') \<and> length bs' = length bs \<and> arb_dests buf' bs' \<and>
     arb_next buf buf' \<and> all_pages bs' buf' = all_pages bs buf \<and> (\<forall>b\<in>set bs'. \<not> waiting b)"
proof (induction bs arbitrary: buf)
  case Nil
  then show ?case using arb_next_refl by (simp add: arb_dests_def)
next
  case (Cons b bs)
  show ?case
  proof (cases b)
    case None
    from Cons(1) [OF _ Cons(3,4)] Cons(2) obtain buf' evs bs' where "forBuffers (loadAndNotify alive) buf bs = Inr (buf', evs, bs')"
      "length bs' = length bs" "arb_dests buf' bs'" "arb_next buf buf'" "all_pages bs' buf' = all_pages bs buf" "\<forall>b\<in>set bs'. \<not> waiting b"
      unfolding arb_dests_Cons by blast
    with None show ?thesis by (intro exI [of _ buf'] exI [of _ evs] exI [of _ "None # bs'"]) (simp add: arb_dests_Cons all_pages_Cons)
  next
    case (Some d)
    have d: "arb_dest buf d" and bs: "arb_dests buf bs" using Cons(2) Some by (simp_all add: arb_dests_Cons)
    have "buf \<noteq> []" using Cons(4) by auto
    from loadAndNotify_ok [OF d Cons(3) this, of alive] obtain buf1 ev d1 where
      l: "loadAndNotify alive buf d = Inr (buf1, ev, d1)" "arb_dest buf1 d1" "arb_next buf buf1" "db_notify d1 = None"
      "pages_of (db_data d1) @ pages_of buf1 = pages_of (db_data d) @ pages_of buf" by blast
    have t: "tail_ok buf1" "None \<in> set buf1" using l(3) Cons(4) by (simp_all add: arb_next_def)
    from Cons(1) [OF arb_dests_next [OF bs l(3)] t] obtain buf' evs bs' where IH: "forBuffers (loadAndNotify alive) buf1 bs = Inr (buf', evs, bs')"
      "length bs' = length bs" "arb_dests buf' bs'" "arb_next buf1 buf'" "all_pages bs' buf' = all_pages bs buf1" "\<forall>b\<in>set bs'. \<not> waiting b" by blast
    have "mset (pages_of (db_data d1)) + mset (pages_of buf1) = mset (pages_of (db_data d)) + mset (pages_of buf)" using l(5) by (metis mset_append)
    then have "mset (pages_of (db_data d1)) + all_pages bs buf1 = mset (pages_of (db_data d)) + all_pages bs buf"
      unfolding all_pages_def by (metis add.left_commute)
    moreover have "arb_dest buf' d1" using arb_dest_next [OF l(2) IH(4)] .
    ultimately show ?thesis using Some l(1,4) IH arb_next_trans [OF l(3) IH(4)]
      by (intro exI [of _ buf'] exI [of _ "ev @ evs"] exI [of _ "Some d1 # bs'"]) (simp add: arb_dests_Cons all_pages_Cons)
  qed
qed

section \<open>The invariant\<close>

definition arb_inv :: "output_buffer \<Rightarrow> log \<Rightarrow> pages \<Rightarrow> bool" where
  "arb_inv ob lg buf \<longleftrightarrow> ob_kind ob = kArbitrary \<and> ob_arbitraryBuffer ob = Some buf \<and> ob_dataToBroadcast ob = [] \<and>
     tail_ok buf \<and> (None \<in> set buf \<longleftrightarrow> ob_atEnd ob) \<and> arb_dests buf (ob_buffers ob) \<and>
     (\<forall>b\<in>set (ob_buffers ob). waiting b \<longrightarrow> buf = []) \<and>
     distinct (held_pages ob) \<and> set (held_pages ob) \<subseteq> snd ` set lg \<and> log_ok lg \<and> counts_ok ob \<and> promises_ok ob \<and>
     length (ob_finishedBufferStats ob) = length (ob_buffers ob) \<and> ob_continueSize ob \<le> ob_maxSize ob \<and>
     (ob_atEnd ob \<longrightarrow> ob_numFinished ob = ob_numDrivers ob) \<and>
     (ob_nextArbitraryLoadBufferIndex ob = 0 \<or> ob_nextArbitraryLoadBufferIndex ob < length (ob_buffers ob))"

lemma held_pages_arb:
  "ob_arbitraryBuffer ob = Some buf \<Longrightarrow> ob_dataToBroadcast ob = [] \<Longrightarrow> held_pages ob = buffers_pages (ob_buffers ob) @ pages_of buf"
  by (simp add: held_pages_def pages_of_def)

lemma arb_invD:
  assumes "arb_inv ob lg buf"
  shows "ob_kind ob = kArbitrary" "ob_arbitraryBuffer ob = Some buf" "held_pages ob = buffers_pages (ob_buffers ob) @ pages_of buf" "ob_dataToBroadcast ob = []"
    "tail_ok buf" "None \<in> set buf \<longleftrightarrow> ob_atEnd ob" "arb_dests buf (ob_buffers ob)" "\<forall>b\<in>set (ob_buffers ob). waiting b \<longrightarrow> buf = []"
    "distinct (held_pages ob)" "set (held_pages ob) \<subseteq> snd ` set lg" "log_ok lg" "counts_ok ob" "promises_ok ob"
    "length (ob_finishedBufferStats ob) = length (ob_buffers ob)" "ob_continueSize ob \<le> ob_maxSize ob"
    "ob_atEnd ob \<longrightarrow> ob_numFinished ob = ob_numDrivers ob"
    "ob_nextArbitraryLoadBufferIndex ob = 0 \<or> ob_nextArbitraryLoadBufferIndex ob < length (ob_buffers ob)"
  using assms held_pages_arb by (auto simp: arb_inv_def)

text \<open>What the invariant says of the pages depends on their multiset only.\<close>

lemma same_pages:
  assumes "all_pages bs' buf' = add_mset p (all_pages bs buf)" "distinct (buffers_pages bs @ pages_of buf)" "p \<notin> set (buffers_pages bs @ pages_of buf)"
  shows "distinct (buffers_pages bs' @ pages_of buf') \<and> set (buffers_pages bs' @ pages_of buf') = insert p (set (buffers_pages bs @ pages_of buf))"
proof -
  have m: "mset (buffers_pages bs' @ pages_of buf') = mset (p # buffers_pages bs @ pages_of buf)" using assms(1) by (simp add: all_pages_def)
  moreover have "distinct (p # buffers_pages bs @ pages_of buf)" using assms(2,3) by simp
  ultimately show ?thesis using mset_eq_imp_distinct_iff [OF m] mset_eq_setD [OF m] by simp
qed

end
