(* ===== verification/Output_Arb_Run.thy ===== *)
theory Output_Arb_Run
  imports Output_Arb
begin

text \<open>
  The operations of the output buffer and its runs for arbitrary output: every page is in one queue at a time.
\<close>

section \<open>Producers\<close>

lemma rotation_covers:
  assumes "(b :: nat) < n" "\<forall>k<n. P ((b + k) mod n)" "i < n"
  shows "P i"
proof -
  let ?k = "(i + (n - b)) mod n"
  have "(b + ?k) mod n = (b + (i + (n - b))) mod n" by (simp add: mod_add_right_eq)
  also have "b + (i + (n - b)) = i + n" using assms(1) by simp
  also have "(i + n) mod n = i" using assms(3) by simp
  finally show ?thesis using assms by (metis mod_less_divisor gr_implies_not0 neq0_conv)
qed

lemma arb_enqueue_ok:
  assumes "arb_inv ob lg buf" "\<not> ob_atEnd ob" "page_ok p" "p \<notin> snd ` set lg" "0 < length (ob_buffers ob)"
  shows "\<exists>evs ob1 buf'. OutputBuffer_enqueue True alive 0 p future ob =
      Inr (fst (blockProducer future ob1), evs, snd (blockProducer future ob1)) \<and>
    arb_inv ob1 (lg @ [(0, p)]) buf' \<and> mset (held_pages ob1) = add_mset p (mset (held_pages ob)) \<and> ob_maxSize ob1 = ob_maxSize ob"
proof -
  note inv = arb_invD [OF assms(1)]
  obtain rows where r: "pg_numRows p = Some rows" using assms(3) by (auto simp: page_ok_def)
  have none: "None \<notin> set buf" using inv(6) assms(2) by simp
  let ?buf = "buf @ [Some p]" and ?ob = "updateStatsWithEnqueuedPageLocked (pg_size p) rows ob"
  let ?next = "ob_nextArbitraryLoadBufferIndex ob" and ?n = "length (ob_buffers ob)"
  note u = updateStatsWithEnqueuedPageLocked_def
  have t: "tail_ok ?buf" using tail_ok_join [OF inv(5) none] assms(3) by (simp add: tail_ok_Cons_Some)
  have d: "arb_dests ?buf (ob_buffers ?ob)" using inv(7) none by (auto simp: arb_dests_def arb_dest_def u)
  have n: "?next < length (ob_buffers ?ob)" using inv(17) assms(5) by (auto simp: u)
  have none': "None \<notin> set ?buf" using none by simp
  have sel: "ob_buffers ?ob = ob_buffers ob" "ob_nextArbitraryLoadBufferIndex ?ob = ?next" by (simp_all add: u)
  from arbitraryLoop_ok [OF d t none' n, of alive ?n, unfolded sel] obtain evs bs buf' nxt where l:
    "arbitraryLoop alive ?n ?next ?buf ?ob = Inr (evs, ?ob\<lparr>ob_buffers := bs, ob_arbitraryBuffer := Some buf', ob_nextArbitraryLoadBufferIndex := nxt\<rparr>)"
    "length bs = ?n" "nxt = ?next \<or> nxt < length bs" "arb_dests buf' bs" "arb_next ?buf buf'" "all_pages bs buf' = all_pages (ob_buffers ob) ?buf"
    "buf' = [] \<or> (\<forall>k<?n. \<not> waiting (bs ! ((?next + k) mod length bs)))" by blast
  define ob1 where "ob1 = ?ob\<lparr>ob_buffers := bs, ob_arbitraryBuffer := Some buf', ob_nextArbitraryLoadBufferIndex := nxt\<rparr>"
  have held: "held_pages ob = buffers_pages (ob_buffers ob) @ pages_of buf" "held_pages ob1 = buffers_pages bs @ pages_of buf'"
    using inv(2,4) by (simp_all add: held_pages_arb ob1_def u)
  have all: "all_pages bs buf' = add_mset p (all_pages (ob_buffers ob) buf)" using l(6) by (simp add: all_pages_def)
  have new: "p \<notin> set (held_pages ob)" using inv(10) assms(4) by blast
  have pages: "distinct (held_pages ob1)" "set (held_pages ob1) = insert p (set (held_pages ob))"
    unfolding held using same_pages [OF all] inv(9) new unfolding held by blast+
  have "counts_ok ob1" using inv(12) new unfolding counts_ok_def pages(2) by (simp add: ob1_def u)
  moreover have "promises_ok ob1" using inv(13) by (auto simp: promises_ok_def ob1_def u)
  moreover have "\<forall>b\<in>set bs. waiting b \<longrightarrow> buf' = []"
  proof (intro ballI impI)
    fix b assume b: "b \<in> set bs" "waiting b"
    then obtain i where i: "i < ?n" "bs ! i = b" using l(2) by (auto simp: in_set_conv_nth)
    show "buf' = []"
    proof (rule ccontr)
      assume "buf' \<noteq> []"
      then have "\<forall>k<?n. \<not> waiting (bs ! ((?next + k) mod ?n))" using l(2,7) by simp
      then have "\<not> waiting (bs ! i)" using n i(1) by (intro rotation_covers [where P = "\<lambda>i. \<not> waiting (bs ! i)"]) (simp_all add: u)
      then show False using b i by simp
    qed
  qed
  ultimately have "arb_inv ob1 (lg @ [(0, p)]) buf'" unfolding arb_inv_def
    using inv l(2-5) none' assms(2) pages log_ok_snoc [OF inv(11) assms(3,4)] n by (auto simp: ob1_def u arb_next_def)
  moreover have "OutputBuffer_enqueue True alive 0 p future ob = Inr (fst (blockProducer future ob1), evs, snd (blockProducer future ob1))"
  proof -
    have "enqueueArbitraryOutputLocked alive p ?ob = Inr (evs, ob1)"
      using inv(2) l(1) n tail_ok_last [OF inv(5)] none
      by (simp add: enqueueArbitraryOutputLocked_def ArbitraryBuffer_enqueue_def ob1_def u)
    then show ?thesis using assms(5) r inv(1) by (auto simp: OutputBuffer_enqueue_def Let_def u blockProducer_def split: option.splits)
  qed
  moreover have "mset (held_pages ob1) = add_mset p (mset (held_pages ob))" using all unfolding held by (simp add: all_pages_def)
  ultimately show ?thesis by (auto simp: ob1_def u)
qed

lemma arb_blockProducer: "arb_inv ob lg buf \<Longrightarrow> arb_inv (snd (blockProducer future ob)) lg buf"
proof -
  assume a: "arb_inv ob lg buf"
  note inv = arb_invD [OF a]
  have "arb_inv (ob\<lparr>ob_promises := qs\<rparr>) lg buf" (is "arb_inv ?ob lg buf") if "ob_bufferedBytes ob > int (ob_maxSize ob)" for qs
  proof -
    have "held_pages ?ob = held_pages ob" by (simp add: held_pages_def)
    then show ?thesis unfolding arb_inv_def using inv that by (simp add: counts_ok_def promises_ok_def)
  qed
  with a show ?thesis by (auto simp: blockProducer_def split: option.splits)
qed

lemma arb_checkIfDone_ok:
  assumes "arb_inv ob lg buf" "\<not> ob_atEnd ob" "n = ob_numFinished ob + (if one then 1 else 0)" "count_valid ob n"
  shows "\<exists>evs ob' buf'. checkIfDone alive one ob = Inr (evs, ob') \<and> arb_inv ob' lg buf' \<and> mset (held_pages ob') = mset (held_pages ob)"
proof -
  note inv = arb_invD [OF assms(1)]
  have none: "None \<notin> set buf" using inv(6) assms(2) by simp
  show ?thesis
  proof (cases "all_finished ob n")
    case False
    let ?ob = "ob\<lparr>ob_numFinished := n, ob_atEnd := False\<rparr>"
    have c: "checkIfDone alive one ob = Inr ([], ?ob)" using checkIfDone_not [OF assms(3) False] assms(4) by simp
    have h: "held_pages ?ob = held_pages ob" by (simp add: held_pages_def)
    then have "arb_inv ?ob lg buf" unfolding arb_inv_def using inv none by (simp add: promises_ok_def counts_ok_def)
    with c h show ?thesis by auto
  next
    case True
    have b: "ArbitraryBuffer_noMoreData buf = buf @ [None]" using none tail_ok_last [OF inv(5)]
      by (auto simp: ArbitraryBuffer_noMoreData_def hasNoMoreData_def)
    have t: "tail_ok (buf @ [None])" using tail_ok_join [OF inv(5) none] by (simp add: tail_ok_Cons_None)
    have "arb_dests (buf @ [None]) (ob_buffers ob)" using inv(7) none by (auto simp: arb_dests_def arb_dest_def)
    from forLoad_ok [OF this t, of alive] obtain buf' evs bs where f:
      "forBuffers (loadAndNotify alive) (buf @ [None]) (ob_buffers ob) = Inr (buf', evs, bs)" "length bs = length (ob_buffers ob)"
      "arb_dests buf' bs" "arb_next (buf @ [None]) buf'" "all_pages bs buf' = all_pages (ob_buffers ob) (buf @ [None])" "\<forall>b\<in>set bs. \<not> waiting b" by auto
    let ?ob = "ob\<lparr>ob_numFinished := n, ob_atEnd := True, ob_arbitraryBuffer := Some buf', ob_buffers := bs\<rparr>"
    have "(if one then ob\<lparr>ob_numFinished := ob_numFinished ob + 1\<rparr> else ob) = ob\<lparr>ob_numFinished := n\<rparr>" using assms(3) by simp
    then have c: "checkIfDone alive one ob = Inr (evs, ?ob)"
      using True inv(1,2) f(1) b unfolding checkIfDone_def by (simp add: Let_def all_finished_def)
    have h: "held_pages ob = buffers_pages (ob_buffers ob) @ pages_of buf" "held_pages ?ob = buffers_pages bs @ pages_of buf'"
      using inv(2-4) by (simp_all add: held_pages_arb)
    have m: "mset (held_pages ?ob) = mset (held_pages ob)" using f(5) unfolding h by (simp add: all_pages_def)
    have s: "set (held_pages ?ob) = set (held_pages ob)" "distinct (held_pages ?ob)"
      using mset_eq_setD [OF m] mset_eq_imp_distinct_iff [OF m] inv(9) by simp_all
    have "counts_ok ?ob" using inv(12) unfolding counts_ok_def s by simp
    then have "arb_inv ?ob lg buf'" unfolding arb_inv_def s using inv s(2) f(2-4,6) True by (simp add: promises_ok_def arb_next_def all_finished_def)
    with c m show ?thesis by blast
  qed
qed

section \<open>Consumers\<close>

lemma arb_live: "arb_inv ob lg buf \<Longrightarrow> live ob i d \<Longrightarrow> arb_dest buf d"
  using arb_invD(7) by (auto simp: arb_dests_def)

lemma arb_free_ok:
  assumes "arb_inv ob lg buf" "live ob i d" "pages_of (db_data d) = freed @ dest_pages b"
    "\<And>d'. b = Some d' \<Longrightarrow> arb_dest buf d'" "waiting b \<longrightarrow> buf = []" "length stats = length (ob_finishedBufferStats ob)"
    "ob1 = ob\<lparr>ob_buffers := (ob_buffers ob)[i := b], ob_finishedBufferStats := stats, ob_numFinalAcknowledges := n\<rparr>"
  shows "\<exists>promises ob2. updateAfterAcknowledgeLocked freed (count_list (freed @ held_pages ob1)) ob1 = Inr (promises, ob2) \<and> arb_inv ob2 lg buf \<and>
    ob_buffers ob2 = (ob_buffers ob)[i := b] \<and> mset (held_pages ob) = mset freed + mset (held_pages ob2)"
proof -
  note inv = arb_invD [OF assms(1)]
  note sel = assms(7)
  let ?h = "held_pages ob1"
  have hb: "held_pages ob = buffers_pages (ob_buffers ob) @ pages_of buf" "?h = buffers_pages ((ob_buffers ob)[i := b]) @ pages_of buf"
    using inv(2,4) by (simp_all add: held_pages_arb sel)
  have m: "mset (held_pages ob) = mset (freed @ ?h)"
    using buffers_pages_mset [of i "ob_buffers ob" b] assms(2,3) unfolding hb by (simp add: add.commute add.left_commute)
  have dist: "distinct (freed @ ?h)" using mset_eq_imp_distinct_iff [OF m] inv(9) by simp
  have set: "set (held_pages ob) = set freed \<union> set ?h" using mset_eq_setD [OF m] by simp
  have ok: "list_all page_ok freed"
    using inv(10,11) set by (auto simp: log_ok_def list_all_iff)
  have c: "ob_bufferedBytes ob1 = int (sum pg_size (set freed \<union> set ?h))" "ob_bufferedPages ob1 = int (card (set freed \<union> set ?h))"
    using inv(12) unfolding counts_ok_def set by (simp_all add: sel)
  have "distinct freed" using dist by simp
  from update_after_ok [OF this ok refl c] obtain promises where u: "updateAfterAcknowledgeLocked freed (count_list (freed @ ?h)) ob1 =
      Inr (promises, ob1\<lparr>ob_bufferedBytes := int (sum pg_size (set ?h)), ob_bufferedPages := int (card (set ?h)),
             ob_promises := if promises = [] then ob_promises ob1 else []\<rparr>)"
    "set freed \<subseteq> set ?h \<or> int (sum pg_size (set ?h)) \<ge> int (ob_continueSize ob1) \<or> promises = ob_promises ob1" by blast
  define ob2 where "ob2 = ob1\<lparr>ob_bufferedBytes := int (sum pg_size (set ?h)), ob_bufferedPages := int (card (set ?h)),
             ob_promises := if promises = [] then ob_promises ob1 else []\<rparr>"
  have h2: "held_pages ob2 = ?h" using inv(2,4) by (simp add: held_pages_arb sel ob2_def)
  have "counts_ok ob2" unfolding counts_ok_def h2 by (simp add: ob2_def)
  moreover have "promises_ok ob2"
  proof (cases "set freed \<subseteq> set ?h")
    case True
    then have "freed = []" using dist by (cases freed) auto
    then have "set (held_pages ob) = set ?h" using set by simp
    then show ?thesis using inv(12,13) by (simp add: promises_ok_def counts_ok_def sel ob2_def)
  next
    case False
    then show ?thesis using u(2) by (auto simp: promises_ok_def ob2_def)
  qed
  moreover have "arb_dests buf ((ob_buffers ob)[i := b])" using arb_dests_update [OF inv(7) assms(4)] .
  moreover have "\<forall>b\<in>set ((ob_buffers ob)[i := b]). waiting b \<longrightarrow> buf = []" using inv(8) assms(5) by (auto dest!: set_update_subset_insert [THEN subsetD])
  ultimately have "arb_inv ob2 lg buf" unfolding arb_inv_def h2 using inv dist set assms(6) by (auto simp: ob2_def sel)
  moreover have "mset (held_pages ob) = mset freed + mset (held_pages ob2)" unfolding h2 using m by simp
  ultimately show ?thesis using u(1) unfolding ob2_def [symmetric] by (intro exI [of _ promises] exI [of _ ob2]) (simp add: ob2_def sel)
qed

lemma arb_acknowledged:
  assumes "arb_dest buf d" "waiting (Some d) \<longrightarrow> buf = []" "DestinationBuffer_acknowledge q d = Inr (freed, d')"
  shows "arb_dest buf d' \<and> pages_of (db_data d) = freed @ pages_of (db_data d') \<and> (waiting (Some d') \<longrightarrow> buf = []) \<and>
    db_sequence d' = max q (db_sequence d)"
proof -
  have q: "queue_ok d" using assms(1) by (simp add: arb_dest_def)
  note d = queue_dest [OF q]
  show ?thesis
  proof (cases "q \<le> db_sequence d")
    case True
    then show ?thesis using acknowledge_ok [OF d, of q] assms by auto
  next
    case False
    let ?n = "nat (q - db_sequence d)"
    have q_le: "q \<le> int (length (history d))" using acknowledge_ok [OF d, of q] False assms(3) by (auto split: if_splits)
    with False acknowledge_ok [OF d, of q] assms(3) have a: "freed = pages_of (take ?n (db_data d))" "dest_ok d' (history d)" "db_sequence d' = q" "db_notify d' = None"
      by auto
    have "nat q = ?n + nat (db_sequence d)" using False dest_okD(2) [OF d] by linarith
    then have data: "db_data d' = drop ?n (db_data d)" using dest_okD(4) [OF a(2)] a(3) by (simp add: history_def)
    then have "pages_of (db_data d) = freed @ pages_of (db_data d')" unfolding a(1) by (metis append_take_drop_id pages_of_simps(4))
    moreover have "arb_dest buf d'" using dest_queue [OF a(2,4)] data assms(1) by (auto simp: arb_dest_def dest: in_set_dropD)
    ultimately show ?thesis using a(3,4) False by simp
  qed
qed

lemma arb_acknowledge_step:
  assumes "arb_inv ob lg buf" "live ob i d" "DestinationBuffer_acknowledge q d = Inr (freed, d')" "ob1 = ob\<lparr>ob_buffers := (ob_buffers ob)[i := Some d']\<rparr>"
  shows "\<exists>promises ob2. updateAfterAcknowledgeLocked freed (count_list (freed @ held_pages ob1)) ob1 = Inr (promises, ob2) \<and> arb_inv ob2 lg buf \<and>
    live ob2 i d' \<and> mset (held_pages ob) = mset freed + mset (held_pages ob2)"
proof -
  have "waiting (Some d) \<longrightarrow> buf = []" using arb_invD(8) [OF assms(1)] assms(2) by (metis nth_mem)
  note a = arb_acknowledged [OF arb_live [OF assms(1,2)] this assms(3)]
  have "\<exists>promises ob2. updateAfterAcknowledgeLocked freed (count_list (freed @ held_pages ob1)) ob1 = Inr (promises, ob2) \<and> arb_inv ob2 lg buf \<and>
    ob_buffers ob2 = (ob_buffers ob)[i := Some d'] \<and> mset (held_pages ob) = mset freed + mset (held_pages ob2)"
    by (rule arb_free_ok [where stats = "ob_finishedBufferStats ob" and n = "ob_numFinalAcknowledges ob", OF assms(1,2)])
      (use a assms(4) in auto)
  then show ?thesis using assms(2) by auto
qed

lemma arb_acknowledge_inv:
  assumes "arb_inv ob lg buf" "OutputBuffer_acknowledge i q ob = Inr (evs, ob')"
  shows "arb_inv ob' lg buf"
proof (cases "\<exists>d. live ob i d")
  case True
  then obtain d where l: "live ob i d" by blast
  then obtain freed d' where a: "DestinationBuffer_acknowledge q d = Inr (freed, d')"
    using assms(2) by (auto simp: OutputBuffer_acknowledge_def bindR_Inr_iff)
  from arb_acknowledge_step [OF assms(1) l a refl] assms(2) l a show ?thesis
    by (auto simp: OutputBuffer_acknowledge_def Let_def simp del: count_list_append)
next
  case False
  then have "ob' = ob" using assms(2) by (auto simp: OutputBuffer_acknowledge_def checkR_def split: option.splits if_splits)
  then show ?thesis using assms(1) by simp
qed

lemma arb_deleteResults_inv:
  assumes "arb_inv ob lg buf" "OutputBuffer_deleteResults i ob = Inr (finished, evs, ob')"
  shows "arb_inv ob' lg buf"
proof (cases "\<exists>d. live ob i d")
  case True
  then obtain d where l: "live ob i d" by blast
  have q: "queue_ok d" using arb_live [OF assms(1) l] by (simp add: arb_dest_def)
  obtain d1 ev d2 d3 where del: "DestinationBuffer_deleteResults d = Inr (pages_of (db_data d), d1)" "getAndClearNotify d1 = Inr (ev, d2)"
    "DestinationBuffer_finish d2 = Inr d3" using delete_ok [OF queue_dest [OF q]] by blast
  let ?freed = "pages_of (db_data d)" and ?stats = "(ob_finishedBufferStats ob)[i := db_stats d3]"
  let ?ob1 = "ob\<lparr>ob_finishedBufferStats := ?stats, ob_buffers := (ob_buffers ob)[i := None], ob_numFinalAcknowledges := ob_numFinalAcknowledges ob + 1\<rparr>"
  have "\<exists>promises ob2. updateAfterAcknowledgeLocked ?freed (count_list (?freed @ held_pages ?ob1)) ?ob1 = Inr (promises, ob2) \<and> arb_inv ob2 lg buf \<and>
    ob_buffers ob2 = (ob_buffers ob)[i := None] \<and> mset (held_pages ob) = mset ?freed + mset (held_pages ob2)"
    by (rule arb_free_ok [where stats = ?stats and n = "ob_numFinalAcknowledges ob + 1", OF assms(1) l]) auto
  then obtain promises ob2 where u: "updateAfterAcknowledgeLocked ?freed (count_list (?freed @ held_pages ?ob1)) ?ob1 = Inr (promises, ob2)" "arb_inv ob2 lg buf" by blast
  have "i < length (ob_finishedBufferStats ob)" using l arb_invD(14) [OF assms(1)] by simp
  then have "ob' = ob2" using assms(2) l del u(1) unfolding OutputBuffer_deleteResults_def Let_def by (simp del: count_list_append)
  with u(2) show ?thesis by simp
next
  case False
  then have "ob' = ob" using assms(2) by (auto simp: OutputBuffer_deleteResults_def checkR_def split: option.splits if_splits)
  then show ?thesis using assms(1) by simp
qed

lemma arb_dest_getData:
  assumes "arb_dest buf d" "waiting (Some d) \<longrightarrow> buf = []" "tail_ok buf" "0 < maxBytes" "db_sequence d = q"
  shows "\<exists>data buf' d'. DestinationBuffer_getData maxBytes q (Some notify) check (Some buf) d = Inr (data, Some buf', d') \<and> arb_dest buf' d' \<and>
    arb_next buf buf' \<and> (waiting (Some d') \<longrightarrow> buf' = []) \<and> pages_of (db_data d') @ pages_of buf' = pages_of (db_data d) @ pages_of buf"
proof -
  have q: "queue_ok d" "tail_ok (db_data d)" "stats_ok (db_stats d) (pages_of (db_data d))" "None \<in> set (db_data d) \<Longrightarrow> buf = [None]"
    using assms(1) by (auto simp: arb_dest_def queue_ok_def)
  from loadData_ok [OF q(2,3) assms(3,4) q(4)] obtain taken rest st where
    l: "loadData buf maxBytes d = Inr (rest, d\<lparr>db_stats := st, db_data := db_data d @ taken\<rparr>)" "stats_ok st (pages_of (db_data d @ taken))"
    "st_finished st = st_finished (db_stats d)" "tail_ok (db_data d @ taken)" "pages_of buf = pages_of taken @ pages_of rest" "tail_ok rest"
    "None \<in> set rest \<longleftrightarrow> None \<in> set buf" "None \<in> set (db_data d @ taken) \<longrightarrow> rest = [None]" "buf \<noteq> [] \<longrightarrow> db_data d @ taken \<noteq> []" by blast
  have nx: "arb_next buf rest" using l(6,7,5) by (rule arb_nextI)
  let ?d = "d\<lparr>db_stats := st, db_data := db_data d @ taken\<rparr>"
  show ?thesis
  proof (cases "db_data d @ taken = []")
    case True
    let ?d' = "?d\<lparr>db_notify := Some notify, db_aliveCheck := check, db_notifySequence := q, db_notifyMaxBytes := maxBytes\<rparr>"
    have "DestinationBuffer_getData maxBytes q (Some notify) check (Some buf) d = Inr ([], Some rest, ?d')"
      using True l(1) assms(5) by (simp add: DestinationBuffer_getData_def)
    moreover have "arb_dest rest ?d'" using q(1) l(2,3) True assms(4,5) by (simp add: arb_dest_def queue_ok_def)
    moreover have "rest = []" using True l(9) nx by (auto simp: arb_next_def)
    ultimately show ?thesis using nx l(5) True by (intro exI [of _ "[]"] exI [of _ rest] exI [of _ ?d']) simp
  next
    case False
    obtain data where "resultLoop maxBytes 0 (db_data d @ taken) = Inr data" using resultLoop_ok [OF l(4) False assms(4), of 0] by blast
    moreover have "int (length (db_data d @ taken)) \<noteq> 0" using False unfolding of_nat_eq_0_iff length_0_conv .
    ultimately have "DestinationBuffer_getData maxBytes q (Some notify) check (Some buf) d = Inr (data, Some rest, ?d)"
      using l(1) assms(5) by (simp add: DestinationBuffer_getData_def)
    moreover have notify: "db_notify d = None"
    proof (rule ccontr)
      assume w: "db_notify d \<noteq> None"
      then have e: "db_data d = []" "buf = []" using q(1) assms(2) by (auto simp: queue_ok_def)
      have "taken = []" using l(1) e(2) assms(4) by (auto simp: loadData_def getPages_def e(1) dest: arg_cong [where f = db_data])
      then show False using False e(1) by simp
    qed
    moreover have "arb_dest rest ?d" using q(1) l(2-4,8) notify by (simp add: arb_dest_def queue_ok_def)
    ultimately show ?thesis using nx l(5) by (intro exI [of _ data] exI [of _ rest] exI [of _ ?d]) simp
  qed
qed

lemma arb_getData_live:
  assumes "arb_inv ob lg buf" "live ob i d" "OutputBuffer_getData i maxBytes q notify check ob = Inr (evs, ob')"
  shows "\<exists>buf'. arb_inv ob' lg buf'"
proof -
  obtain freed d1 where a: "DestinationBuffer_acknowledge q d = Inr (freed, d1)"
    using assms(2,3) by (auto simp: OutputBuffer_getData_def bindR_Inr_iff)
  from arb_acknowledge_step [OF assms(1,2) a refl] obtain promises ob1 where
    u: "updateAfterAcknowledgeLocked freed (count_list (freed @ held_pages (ob\<lparr>ob_buffers := (ob_buffers ob)[i := Some d1]\<rparr>)))
          (ob\<lparr>ob_buffers := (ob_buffers ob)[i := Some d1]\<rparr>) = Inr (promises, ob1)" "arb_inv ob1 lg buf" "live ob1 i d1" by blast
  note inv = arb_invD [OF u(2)]
  have w: "waiting (Some d1) \<longrightarrow> buf = []" using inv(8) u(3) by (metis nth_mem)
  have g0: "OutputBuffer_getData i maxBytes q notify check ob =
      bindR (DestinationBuffer_getData maxBytes q (Some notify) check (Some buf) d1) (\<lambda>(data, arb, d).
        Inr (releaseAfterAcknowledge promises @ (if data = [] then [] else [Notify notify data q]),
          ob1\<lparr>ob_buffers := (ob_buffers ob1)[i := Some d], ob_arbitraryBuffer := arb\<rparr>))"
    using assms(2) a u(1) inv(2) by (simp add: OutputBuffer_getData_def Let_def del: count_list_append)
  have "db_sequence d1 \<le> q"
  proof (rule ccontr)
    assume "\<not> db_sequence d1 \<le> q"
    then have "DestinationBuffer_getData maxBytes q (Some notify) check (Some buf) d1 = Inl CheckFailed" by (simp add: DestinationBuffer_getData_def)
    then show False using assms(3) g0 by simp
  qed
  moreover have "db_sequence d1 = max q (db_sequence d)"
    using arb_acknowledged [OF arb_live [OF assms(1,2)] _ a] arb_invD(8) [OF assms(1)] assms(2) by (metis nth_mem)
  ultimately have s: "db_sequence d1 = q" by simp
  have "0 < maxBytes"
  proof (rule ccontr)
    assume "\<not> 0 < maxBytes"
    then have "DestinationBuffer_getData maxBytes q (Some notify) check (Some buf) d1 = Inl CheckFailed"
      using s by (simp add: DestinationBuffer_getData_def loadData_def getPages_def)
    then show False using assms(3) g0 by simp
  qed
  from arb_dest_getData [OF arb_live [OF u(2,3)] w inv(5) this s, of notify check] obtain data buf' d2 where
    g: "DestinationBuffer_getData maxBytes q (Some notify) check (Some buf) d1 = Inr (data, Some buf', d2)" "arb_dest buf' d2"
    "arb_next buf buf'" "waiting (Some d2) \<longrightarrow> buf' = []" "pages_of (db_data d2) @ pages_of buf' = pages_of (db_data d1) @ pages_of buf" by blast
  have o: "ob' = ob1\<lparr>ob_buffers := (ob_buffers ob1)[i := Some d2], ob_arbitraryBuffer := Some buf'\<rparr>" using assms(3) g(1) unfolding g0 by simp
  have h: "held_pages ob1 = buffers_pages (ob_buffers ob1) @ pages_of buf" "held_pages ob' = buffers_pages ((ob_buffers ob1)[i := Some d2]) @ pages_of buf'"
    using inv(2,4) by (simp_all add: held_pages_arb o)
  have m: "mset (held_pages ob') = mset (held_pages ob1)"
    using all_pages_moved [OF _ _ g(5), of i "ob_buffers ob1"] u(3) unfolding h by (simp add: all_pages_def)
  have hs: "set (held_pages ob') = set (held_pages ob1)" "distinct (held_pages ob')"
    using mset_eq_setD [OF m] mset_eq_imp_distinct_iff [OF m] inv(9) by simp_all
  have "counts_ok ob'" using inv(12) unfolding counts_ok_def hs by (simp add: o)
  moreover have "arb_dests buf' ((ob_buffers ob1)[i := Some d2])" using arb_dests_update [OF arb_dests_next [OF inv(7) g(3)], of "Some d2" i] g(2) by simp
  moreover have "\<forall>b\<in>set ((ob_buffers ob1)[i := Some d2]). waiting b \<longrightarrow> buf' = []"
    using inv(8) g(3,4) by (auto simp: arb_next_def dest!: set_update_subset_insert [THEN subsetD])
  ultimately have "arb_inv ob' lg buf'" unfolding arb_inv_def hs using inv hs(2) g(3) by (simp add: o promises_ok_def arb_next_def)
  then show ?thesis by blast
qed

section \<open>The task\<close>

lemma new_idle: "db_notify DestinationBuffer_new = None"
  by (simp add: DestinationBuffer_new_def)

lemma arb_addOutputBuffers:
  assumes "arb_inv ob lg buf" "addOutputBuffersLocked n ob = Inr ob'" "length (ob_buffers ob) < n"
  shows "arb_inv ob' lg buf \<and> length (ob_buffers ob') = n"
proof -
  note inv = arb_invD [OF assms(1)]
  have m: "mapR (\<lambda>_. Inr DestinationBuffer_new :: dest result) xs = Inr (map (\<lambda>_. DestinationBuffer_new) xs)" for xs :: "nat list"
    by (induction xs) simp_all
  let ?new = "replicate (n - length (ob_buffers ob)) (Some DestinationBuffer_new)"
  have o: "ob' = ob\<lparr>ob_buffers := ob_buffers ob @ ?new, ob_finishedBufferStats := take n (ob_finishedBufferStats ob) @
      replicate (n - length (ob_finishedBufferStats ob)) dest_stats0\<rparr>"
    using assms(2) inv(1) by (auto simp: addOutputBuffersLocked_def newDestination_def m map_replicate_const checkR_def split: if_splits)
  have new: "arb_dest buf DestinationBuffer_new" "db_data DestinationBuffer_new = []" "db_notify DestinationBuffer_new = None"
    using dest_queue [OF dest_new_ok new_idle] by (simp_all add: arb_dest_def DestinationBuffer_new_def)
  have "buffers_pages (ob_buffers ob @ ?new) = buffers_pages (ob_buffers ob)" using new(2) by (simp add: buffers_pages_conv)
  then have h: "held_pages ob' = held_pages ob" using inv(2,4) by (simp add: held_pages_arb o)
  have "arb_dests buf (ob_buffers ob @ ?new)" using inv(7) new(1) by (auto simp: arb_dests_def nth_append)
  moreover have "counts_ok ob'" using inv(12) unfolding counts_ok_def h by (simp add: o)
  moreover have "\<forall>b\<in>set (ob_buffers ob @ ?new). waiting b \<longrightarrow> buf = []" using inv(8) new(3) by auto
  moreover have "ob_nextArbitraryLoadBufferIndex ob = 0 \<or> ob_nextArbitraryLoadBufferIndex ob < n" using inv(17) assms(3) by auto
  ultimately have "arb_inv ob' lg buf" unfolding arb_inv_def h using inv assms(3) by (simp add: o promises_ok_def)
  then show ?thesis using assms(3) by (simp add: o)
qed

lemma arb_getData_inv:
  assumes "arb_inv ob lg buf" "OutputBuffer_getData i maxBytes q notify check ob = Inr (evs, ob')"
  shows "\<exists>buf'. arb_inv ob' lg buf'"
proof -
  have key: "\<exists>buf'. arb_inv ob' lg buf'" if o: "arb_inv ob1 lg buf" "i < length (ob_buffers ob1)"
    "OutputBuffer_getData i maxBytes q notify check ob1 = Inr (evs, ob')" for ob1
  proof -
    obtain d where "live ob1 i d" using o(2,3) by (auto simp: OutputBuffer_getData_def split: option.splits)
    from arb_getData_live [OF o(1) this o(3)] show ?thesis .
  qed
  show ?thesis
  proof (cases "i < length (ob_buffers ob)")
    case True
    with key assms show ?thesis by blast
  next
    case False
    then obtain ob1 where a: "addOutputBuffersLocked (i + 1) ob = Inr ob1"
      using assms(2) arb_invD(1) [OF assms(1)] by (auto simp: OutputBuffer_getData_def bindR_Inr_iff)
    have o: "arb_inv ob1 lg buf" "i < length (ob_buffers ob1)" using arb_addOutputBuffers [OF assms(1) a] False by simp_all
    moreover have "OutputBuffer_getData i maxBytes q notify check ob1 = Inr (evs, ob')"
      using assms(2) a o(2) False arb_invD(1) [OF assms(1)] by (simp add: OutputBuffer_getData_def)
    ultimately show ?thesis using key by blast
  qed
qed

lemma arb_updateOutputBuffers_inv:
  assumes "arb_inv ob lg buf" "updateOutputBuffers n noMore ob = Inr (evs, ob')"
  shows "arb_inv ob' lg buf"
proof -
  note k = arb_invD(1) [OF assms(1)]
  obtain ob1 where a: "(if n > length (ob_buffers ob) then addOutputBuffersLocked n ob else Inr ob) = Inr ob1"
    using assms(2) k unfolding updateOutputBuffers_def by (auto simp: bindR_Inr_iff simp del: if_split split del: if_split)
  have o: "arb_inv ob1 lg buf" using a arb_addOutputBuffers [OF assms(1)] assms(1) by (auto split: if_splits)
  note inv = arb_invD [OF o]
  show ?thesis
  proof (cases noMore)
    case False
    then show ?thesis using assms(2) a k o by (simp add: updateOutputBuffers_def split del: if_split)
  next
    case True
    let ?ob = "ob1\<lparr>ob_noMoreBuffers := True\<rparr>"
    have "updateAfterAcknowledgeLocked (ob_dataToBroadcast ?ob) (count_list (held_pages ?ob)) ?ob = Inr ([], ?ob)"
      using inv(4) by (simp add: updateAfterAcknowledgeLocked_def)
    then have e: "ob' = ?ob\<lparr>ob_dataToBroadcast := []\<rparr>"
      using assms(2) a k True by (simp add: updateOutputBuffers_def Let_def split del: if_split)
    have "held_pages ob' = held_pages ob1" using inv(4) by (simp add: held_pages_def e)
    then show ?thesis unfolding arb_inv_def using inv by (simp add: e counts_ok_def promises_ok_def)
  qed
qed

lemma arb_done_inv:
  assumes "arb_inv ob lg buf" "one \<and> \<not> ob_isMorselDriven ob \<or> \<not> ob_atEnd ob" "checkIfDone alive one ob = Inr (evs, ob')"
  shows "\<exists>buf'. arb_inv ob' lg buf'"
proof -
  define n where "n = ob_numFinished ob + (if one then 1 else 0)"
  have n: "count_valid ob n"
  proof (rule ccontr)
    assume "\<not> count_valid ob n"
    then show False using checkIfDone_not [OF n_def, of alive] all_finished_valid [of ob n] assms(3) by auto
  qed
  moreover have "\<not> ob_atEnd ob" using assms(2) n arb_invD(16) [OF assms(1)] by (auto simp: n_def count_valid_def split: if_splits)
  ultimately show ?thesis using arb_checkIfDone_ok [OF assms(1) _ n_def, of alive] assms(3) by auto
qed

lemma arb_config_inv:
  assumes "arb_inv ob lg buf" "ob_atEnd ob \<Longrightarrow> n = ob_numDrivers ob"
  shows "arb_inv (ob\<lparr>ob_numDrivers := n, ob_isMorselDriven := morsel, ob_numFinishedPushBasedDriverSchedulers := k\<rparr>) lg buf" (is "arb_inv ?ob lg buf")
proof -
  have "held_pages ?ob = held_pages ob" by (simp add: held_pages_def)
  then show ?thesis using arb_invD [OF assms(1)] assms(2) by (simp add: arb_inv_def counts_ok_def promises_ok_def)
qed

lemma arb_setMorselDriven_inv: "arb_inv ob lg buf \<Longrightarrow> arb_inv (setMorselDriven ob) lg buf"
  using arb_config_inv [of ob lg buf "ob_numDrivers ob" "ob_numFinishedPushBasedDriverSchedulers ob" True] by (simp add: setMorselDriven_def)

lemma arb_finishedSchedulers_inv:
  "arb_inv ob lg buf \<Longrightarrow> addFinishedPushBasedDriverSchedulers ob = Inr ob' \<Longrightarrow> arb_inv ob' lg buf"
  using arb_config_inv [of ob lg buf "ob_numDrivers ob" _ "ob_isMorselDriven ob"]
  by (auto simp: addFinishedPushBasedDriverSchedulers_def checkR_def split: if_splits)

lemma arb_updateNumDrivers_inv:
  assumes "arb_inv ob lg buf" "\<not> ob_atEnd ob" "updateNumDrivers alive n ob = Inr (evs, ob')"
  shows "\<exists>buf'. arb_inv ob' lg buf'"
proof -
  let ?ob = "ob\<lparr>ob_numDrivers := n\<rparr>"
  have "held_pages ?ob = held_pages ob" by (simp add: held_pages_def)
  then have o: "arb_inv ?ob lg buf" "\<not> ob_atEnd ?ob" using arb_invD [OF assms(1)] assms(2) by (simp_all add: arb_inv_def counts_ok_def promises_ok_def)
  then show ?thesis using assms(3) arb_done_inv [OF o(1), of False] by (auto simp: updateNumDrivers_conv split: if_splits)
qed

lemma arb_terminate_inv:
  assumes "arb_inv ob lg buf" "OutputBuffer_terminate run ob = Inr (evs, ob')"
  shows "arb_inv ob' lg buf"
proof -
  let ?ob = "ob\<lparr>ob_promises := []\<rparr>"
  have "held_pages ?ob = held_pages ob" by (simp add: held_pages_def)
  then have "arb_inv ?ob lg buf" using arb_invD [OF assms(1)] by (simp add: arb_inv_def counts_ok_def promises_ok_def)
  with assms(2) show ?thesis by (auto simp: OutputBuffer_terminate_def checkR_def split: if_splits)
qed

lemma arb_enqueue_inv:
  assumes "arb_inv ob lg buf" "may_enqueue ob lg p" "OutputBuffer_enqueue run alive i p future ob = Inr (blocked, evs, ob')"
  shows "\<exists>buf'. arb_inv ob' (lg @ [(i, p)]) buf'"
proof -
  have g: "run" "i < length (ob_buffers ob)" using assms(3) by (auto simp: OutputBuffer_enqueue_def checkR_def split: if_splits)
  moreover have "i = 0"
    using assms(3) g arb_invD(1) [OF assms(1)]
    by (auto simp: OutputBuffer_enqueue_def updateStatsWithEnqueuedPageLocked_def bindR_Inr_iff checkR_def split: option.splits if_splits)
  ultimately obtain evs1 ob1 buf' where e: "OutputBuffer_enqueue True alive 0 p future ob =
      Inr (fst (blockProducer future ob1), evs1, snd (blockProducer future ob1))" "arb_inv ob1 (lg @ [(0, p)]) buf'"
    using arb_enqueue_ok [OF assms(1), of p alive future] assms(2) unfolding may_enqueue_def by blast
  then have "ob' = snd (blockProducer future ob1)" using assms(3) g(1) \<open>i = 0\<close> by simp
  then show ?thesis using arb_blockProducer [OF e(2)] \<open>i = 0\<close> by blast
qed

section \<open>Runs\<close>

lemma arb_start_inv: "arb_inv (OutputBuffer_new kArbitrary maxSize dests drivers) [] []"
  using dest_queue [OF dest_new_ok new_idle]
  by (auto simp: arb_inv_def OutputBuffer_new_def log_ok_def arb_dests_def arb_dest_def counts_ok_def promises_ok_def held_pages_def
      buffers_pages_conv DestinationBuffer_new_def kContinuePct_def map_filter_simps)

lemma arb_step_inv: "ob_step ob lg ob' lg' \<Longrightarrow> \<exists>buf. arb_inv ob lg buf \<Longrightarrow> \<exists>buf. arb_inv ob' lg' buf"
proof (induction rule: ob_step.induct)
  case (noMoreData ob alive evs ob' lg)
  then show ?case using arb_done_inv [of ob lg _ True] by (auto simp: OutputBuffer_noMoreData_def)
next
  case (noMoreDrivers ob alive evs ob' lg)
  then show ?case using arb_done_inv [of ob lg _ False] by (auto simp: noMoreDrivers_def)
qed (blast intro: arb_enqueue_inv arb_updateNumDrivers_inv arb_updateOutputBuffers_inv arb_acknowledge_inv arb_deleteResults_inv
    arb_getData_inv arb_terminate_inv arb_setMorselDriven_inv arb_finishedSchedulers_inv)+

interpretation arbitrary: run_invariant kArbitrary "\<lambda>ob lg. \<exists>buf. arb_inv ob lg buf"
  by unfold_locales (blast intro: arb_start_inv arb_step_inv)+

section \<open>The property\<close>

lemma held_blockProducer: "held_pages (snd (blockProducer future ob)) = held_pages ob"
  by (simp add: blockProducer_def held_pages_def split: option.splits)

text \<open>One destination whose consumer waits.\<close>

definition arb_example :: output_buffer where
  "arb_example = (case OutputBuffer_getData 0 100 0 5 None (OutputBuffer_new kArbitrary 10 1 1) of Inr (_, ob) \<Rightarrow> ob
     | Inl _ \<Rightarrow> OutputBuffer_new kArbitrary 10 1 1)"

lemma arb_example_eq: "OutputBuffer_getData 0 100 0 5 None (OutputBuffer_new kArbitrary 10 1 1) = Inr ([], arb_example)"
  by (simp add: arb_example_def loadData_def getPages_def example_defs)

lemma arb_example_sel: "\<not> ob_atEnd arb_example" "ob_kind arb_example = kArbitrary" "length (ob_buffers arb_example) = 1" "held_pages arb_example = []"
  by (simp_all add: arb_example_def loadData_def getPages_def held_pages_def buffers_pages_def map_filter_simps example_defs)

lemma arb_example_run: "ob_run kArbitrary 10 1 1 arb_example []"
  by (rule ob_run.step [OF ob_run.start ob_step.getData [OF arb_example_eq]])

text \<open>C22. With arbitrary output every page is in exactly one queue, the shared one or that of one destination, and counted
  once. A page is enqueued without any other being lost or doubled, and a consumer waits only while the shared
  queue is empty.\<close>

theorem arbitrary_pages_exclusive:
  assumes "ob_run kArbitrary maxSize dests drivers ob lg"
  shows "distinct (held_pages ob) \<and> set (held_pages ob) \<subseteq> snd ` set lg \<and>
    ob_bufferedBytes ob = int (sum_list (map pg_size (held_pages ob))) \<and> ob_bufferedPages ob = int (length (held_pages ob)) \<and>
    (\<forall>i d. i < length (ob_buffers ob) \<and> ob_buffers ob ! i = Some d \<and> db_notify d \<noteq> None \<longrightarrow> ob_arbitraryBuffer ob = Some []) \<and>
    (may_enqueue ob lg p \<and> 0 < length (ob_buffers ob) \<longrightarrow> (\<exists>blocked evs ob'.
       OutputBuffer_enqueue True alive 0 p future ob = Inr (blocked, evs, ob') \<and> mset (held_pages ob') = add_mset p (mset (held_pages ob))))"
proof (intro conjI allI impI)
  obtain buf where inv: "arb_inv ob lg buf" using arbitrary.reachable [OF assms] by blast
  note i = arb_invD [OF inv]
  show "distinct (held_pages ob)" "set (held_pages ob) \<subseteq> snd ` set lg" using i(9,10) .
  then show "ob_bufferedBytes ob = int (sum_list (map pg_size (held_pages ob)))" "ob_bufferedPages ob = int (length (held_pages ob))"
    using i(12) by (simp_all add: counts_ok_def sum_list_distinct_conv_sum_set distinct_card)
  show "ob_arbitraryBuffer ob = Some []" if "j < length (ob_buffers ob) \<and> ob_buffers ob ! j = Some d \<and> db_notify d \<noteq> None" for j d
  proof -
    have "Some d \<in> set (ob_buffers ob)" "waiting (Some d)" using that nth_mem by (fastforce, simp)
    then have "buf = []" using i(8) by blast
    then show ?thesis using i(2) by simp
  qed
  show "\<exists>blocked evs ob'. OutputBuffer_enqueue True alive 0 p future ob = Inr (blocked, evs, ob') \<and> mset (held_pages ob') = add_mset p (mset (held_pages ob))"
    if "may_enqueue ob lg p \<and> 0 < length (ob_buffers ob)"
  proof -
    have "\<not> ob_atEnd ob" "page_ok p" "p \<notin> snd ` set lg" "0 < length (ob_buffers ob)" using that by (simp_all add: may_enqueue_def)
    from arb_enqueue_ok [OF inv this, of alive future] show ?thesis using held_blockProducer by metis
  qed
qed

theorem arbitrary_pages_exclusive_witness:
  "\<exists>blocked evs ob'. OutputBuffer_enqueue True (\<lambda>_. True) 0 example_page None arb_example = Inr (blocked, evs, ob') \<and>
     mset (held_pages ob') = {#example_page#}"
proof -
  have "may_enqueue arb_example [] example_page \<and> 0 < length (ob_buffers arb_example)"
    using arb_example_sel by (simp add: may_enqueue_def page_ok_def example_page_def)
  with arbitrary_pages_exclusive [OF arb_example_run, of example_page "\<lambda>_. True" None] arb_example_sel(4) show ?thesis by simp
qed

end
