(* ===== verification/Bit_Words.thy ===== *)
theory Bit_Words
  imports Bolt_Prelude "HOL-Library.Word"
begin

unbundle bit_operations_syntax

text \<open>
  Bitmaps of \<^verbatim>\<open>bolt/common/base/BitUtil.h\<close>: arrays of 64-bit words whose bits are numbered from the lowest bit of
  the first word on. The functions work on a range of bits, from \<open>lo\<close> (inclusive) to \<open>hi\<close> (exclusive), in whole
  words where they can. Indices are the non-negative values of \<^verbatim>\<open>int32_t\<close>; an access outside an array and an
  overflow of an index are \<open>UndefinedBehaviour\<close>. Of the functions with variants for vector instructions, the portable
  loop is modelled.
\<close>

section \<open>Words and arrays\<close>

type_synonym word64 = "64 word"
type_synonym words = "word64 list"

definition readWord :: "words \<Rightarrow> nat \<Rightarrow> word64 result" where
  "readWord bits idx = (if idx < length bits then Inr (bits ! idx) else Inl UndefinedBehaviour)"

definition writeWord :: "words \<Rightarrow> nat \<Rightarrow> word64 \<Rightarrow> words result" where
  "writeWord bits idx w = (if idx < length bits then Inr (bits[idx := w]) else Inl UndefinedBehaviour)"

definition isBitSet :: "words \<Rightarrow> nat \<Rightarrow> bool result" where
  "isBitSet bits idx = bindR (readWord bits (idx div 64)) (\<lambda>w. Inr (w AND push_bit (idx mod 64) 1 \<noteq> 0))"

definition roundUp :: "nat \<Rightarrow> nat \<Rightarrow> nat result" where
  "roundUp v factor = (if v + (factor - 1) < 2 ^ 31 then Inr ((v + (factor - 1)) div factor * factor) else Inl UndefinedBehaviour)"

definition addIndex :: "nat \<Rightarrow> nat \<Rightarrow> nat result" where
  "addIndex a b = (if a + b < 2 ^ 31 then Inr (a + b) else Inl UndefinedBehaviour)"

text \<open>The distances of these shifts are below 64 wherever the functions are called.\<close>

definition lowMask :: "nat \<Rightarrow> word64" where
  "lowMask n = push_bit n 1 - 1"

definition highMask :: "nat \<Rightarrow> word64" where
  "highMask n = push_bit (64 - n) (lowMask n)"

text \<open>The compiler's built-in functions, for a word that is not 0.\<close>

definition popcount :: "word64 \<Rightarrow> nat" where
  "popcount w = length (filter (\<lambda>i. bit w i) [0..<64])"

definition ctz :: "word64 \<Rightarrow> nat" where
  "ctz w = length (takeWhile (\<lambda>i. \<not> bit w i) [0..<64])"

definition clz :: "word64 \<Rightarrow> nat" where
  "clz w = length (takeWhile (\<lambda>i. \<not> bit w (63 - i)) [0..<64])"

section \<open>Loops over the words of a range\<close>

text \<open>The callbacks of the source change variables they capture: here a state. \<open>True\<close> continues the loop.\<close>

function testFull :: "(nat \<Rightarrow> 's \<Rightarrow> (bool \<times> 's) result) \<Rightarrow> nat \<Rightarrow> nat \<Rightarrow> 's \<Rightarrow> (bool \<times> 's) result" where
  "testFull fullWordFunc i lastWord s =
     (if i + 64 \<ge> 2 ^ 31 then Inl UndefinedBehaviour
      else if i + 64 \<le> lastWord then
        bindR (fullWordFunc (i div 64) s) (\<lambda>(go, s). if go then testFull fullWordFunc (i + 64) lastWord s else Inr (False, s))
      else Inr (True, s))"
  by auto
termination by (relation "measure (\<lambda>(f, i, lastWord, s). lastWord - i)") auto

definition testWords ::
    "nat \<Rightarrow> nat \<Rightarrow> (nat \<Rightarrow> word64 \<Rightarrow> 's \<Rightarrow> (bool \<times> 's) result) \<Rightarrow> (nat \<Rightarrow> 's \<Rightarrow> (bool \<times> 's) result) \<Rightarrow> 's \<Rightarrow> (bool \<times> 's) result" where
  "testWords lo hi partialWordFunc fullWordFunc s =
     (if lo \<ge> hi then Inr (True, s)
      else bindR (roundUp lo 64) (\<lambda>firstWord.
        let lastWord = hi - hi mod 64 in
        if lastWord < firstWord
        then partialWordFunc (lastWord div 64) (lowMask (hi - lastWord) AND highMask (firstWord - lo)) s
        else bindR (if lo \<noteq> firstWord then partialWordFunc (lo div 64) (highMask (firstWord - lo)) s else Inr (True, s)) (\<lambda>(go, s).
          if \<not> go then Inr (False, s)
          else bindR (testFull fullWordFunc firstWord lastWord s) (\<lambda>(go, s).
            if \<not> go then Inr (False, s)
            else if hi \<noteq> lastWord then partialWordFunc (lastWord div 64) (lowMask (hi - lastWord)) s
            else Inr (True, s)))))"

function fullLoop :: "(nat \<Rightarrow> 's \<Rightarrow> 's result) \<Rightarrow> nat \<Rightarrow> nat \<Rightarrow> 's \<Rightarrow> 's result" where
  "fullLoop fullWordFunc i lastWord s =
     (if i + 64 \<ge> 2 ^ 31 then Inl UndefinedBehaviour
      else if i + 64 \<le> lastWord then bindR (fullWordFunc (i div 64) s) (\<lambda>s. fullLoop fullWordFunc (i + 64) lastWord s)
      else Inr s)"
  by auto
termination by (relation "measure (\<lambda>(f, i, lastWord, s). lastWord - i)") auto

definition forEachWord ::
    "nat \<Rightarrow> nat \<Rightarrow> (nat \<Rightarrow> word64 \<Rightarrow> 's \<Rightarrow> 's result) \<Rightarrow> (nat \<Rightarrow> 's \<Rightarrow> 's result) \<Rightarrow> 's \<Rightarrow> 's result" where
  "forEachWord lo hi partialWordFunc fullWordFunc s =
     (if lo \<ge> hi then Inr s
      else bindR (roundUp lo 64) (\<lambda>firstWord.
        let lastWord = hi - hi mod 64 in
        if lastWord < firstWord
        then partialWordFunc (lastWord div 64) (lowMask (hi - lastWord) AND highMask (firstWord - lo)) s
        else bindR (if lo \<noteq> firstWord then partialWordFunc (lo div 64) (highMask (firstWord - lo)) s else Inr s) (\<lambda>s.
          bindR (fullLoop fullWordFunc firstWord lastWord s) (\<lambda>s.
            if hi \<noteq> lastWord then partialWordFunc (lastWord div 64) (lowMask (hi - lastWord)) s else Inr s))))"

declare testFull.simps [simp del] fullLoop.simps [simp del]

section \<open>Writing and counting\<close>

definition fillBits :: "words \<Rightarrow> nat \<Rightarrow> nat \<Rightarrow> bool \<Rightarrow> words result" where
  "fillBits bits lo hi val =
     forEachWord lo hi
       (\<lambda>idx mask bits. bindR (readWord bits idx) (\<lambda>w. writeWord bits idx (if val then w OR (- 1 AND mask) else w AND NOT mask)))
       (\<lambda>idx bits. writeWord bits idx (if val then - 1 else 0)) bits"

definition countBits :: "words \<Rightarrow> nat \<Rightarrow> nat \<Rightarrow> nat result" where
  "countBits bits lo hi =
     forEachWord lo hi
       (\<lambda>idx mask count. bindR (readWord bits idx) (\<lambda>w. Inr (count + popcount (w AND mask))))
       (\<lambda>idx count. bindR (readWord bits idx) (\<lambda>w. Inr (count + popcount w))) 0"

text \<open>An operand of a bulk operation is another array, or the target itself.\<close>

datatype operand = Target | Array words

definition readOperand :: "operand \<Rightarrow> words \<Rightarrow> nat \<Rightarrow> word64 result" where
  "readOperand a target idx = (case a of Target \<Rightarrow> readWord target idx | Array bits \<Rightarrow> readWord bits idx)"

definition andRange :: "bool \<Rightarrow> words \<Rightarrow> operand \<Rightarrow> operand \<Rightarrow> nat \<Rightarrow> nat \<Rightarrow> words result" where
  "andRange negate target left right lo hi =
     forEachWord lo hi
       (\<lambda>idx mask target.
          bindR (readWord target idx) (\<lambda>t. bindR (readOperand left target idx) (\<lambda>l. bindR (readOperand right target idx) (\<lambda>r.
            writeWord target idx ((t AND NOT mask) OR (mask AND l AND (if negate then NOT r else r)))))))
       (\<lambda>idx target.
          bindR (readOperand left target idx) (\<lambda>l. bindR (readOperand right target idx) (\<lambda>r.
            writeWord target idx (l AND (if negate then NOT r else r))))) target"

definition orRange :: "bool \<Rightarrow> words \<Rightarrow> operand \<Rightarrow> operand \<Rightarrow> nat \<Rightarrow> nat \<Rightarrow> words result" where
  "orRange negate target left right lo hi =
     forEachWord lo hi
       (\<lambda>idx mask target.
          bindR (readWord target idx) (\<lambda>t. bindR (readOperand left target idx) (\<lambda>l. bindR (readOperand right target idx) (\<lambda>r.
            writeWord target idx ((t AND NOT mask) OR (mask AND (l OR (if negate then NOT r else r))))))))
       (\<lambda>idx target.
          bindR (readOperand left target idx) (\<lambda>l. bindR (readOperand right target idx) (\<lambda>r.
            writeWord target idx (l OR (if negate then NOT r else r))))) target"

definition andBits :: "words \<Rightarrow> words \<Rightarrow> words \<Rightarrow> nat \<Rightarrow> nat \<Rightarrow> words result" where
  "andBits target left right lo hi = andRange False target (Array left) (Array right) lo hi"

definition andBits_inplace :: "words \<Rightarrow> words \<Rightarrow> nat \<Rightarrow> nat \<Rightarrow> words result" where
  "andBits_inplace target right lo hi = andRange False target Target (Array right) lo hi"

definition andWithNegatedBits :: "words \<Rightarrow> words \<Rightarrow> words \<Rightarrow> nat \<Rightarrow> nat \<Rightarrow> words result" where
  "andWithNegatedBits target left right lo hi = andRange True target (Array left) (Array right) lo hi"

definition andWithNegatedBits_inplace :: "words \<Rightarrow> words \<Rightarrow> nat \<Rightarrow> nat \<Rightarrow> words result" where
  "andWithNegatedBits_inplace target right lo hi = andRange True target Target (Array right) lo hi"

definition orBits :: "words \<Rightarrow> words \<Rightarrow> words \<Rightarrow> nat \<Rightarrow> nat \<Rightarrow> words result" where
  "orBits target left right lo hi = orRange False target (Array left) (Array right) lo hi"

definition orBits_inplace :: "words \<Rightarrow> words \<Rightarrow> nat \<Rightarrow> nat \<Rightarrow> words result" where
  "orBits_inplace target right lo hi = orRange False target Target (Array right) lo hi"

definition orWithNegatedBits :: "words \<Rightarrow> words \<Rightarrow> words \<Rightarrow> nat \<Rightarrow> nat \<Rightarrow> words result" where
  "orWithNegatedBits target left right lo hi = orRange True target (Array left) (Array right) lo hi"

definition orWithNegatedBits_inplace :: "words \<Rightarrow> words \<Rightarrow> nat \<Rightarrow> nat \<Rightarrow> words result" where
  "orWithNegatedBits_inplace target right lo hi = orRange True target Target (Array right) lo hi"

section \<open>Searching and testing\<close>

fun allLoop :: "words \<Rightarrow> word64 \<Rightarrow> nat \<Rightarrow> nat \<Rightarrow> bool result" where
  "allLoop bits expected wordIndex 0 = Inr True"
| "allLoop bits expected wordIndex (Suc n) =
     bindR (readWord bits wordIndex) (\<lambda>w. if w \<noteq> expected then Inr False else allLoop bits expected (wordIndex + 1) n)"

text \<open>The words from \<open>wordIndex\<close> on, which is at most the number of whole words before \<open>hi\<close>, and the last partial word.\<close>

definition isAllSet_tail :: "words \<Rightarrow> word64 \<Rightarrow> nat \<Rightarrow> nat \<Rightarrow> bool result" where
  "isAllSet_tail bits expected wordIndex hi =
     (let fullWordEnd = hi div 64 in
      bindR (allLoop bits expected wordIndex (fullWordEnd - wordIndex)) (\<lambda>ok.
        if \<not> ok then Inr False
        else if hi mod 64 \<noteq> 0 then
          let mask = lowMask (hi mod 64) in
          bindR (readWord bits (max wordIndex fullWordEnd)) (\<lambda>w. Inr (w AND mask = expected AND mask))
        else Inr True))"

definition isAllSet :: "words \<Rightarrow> nat \<Rightarrow> nat \<Rightarrow> bool \<Rightarrow> bool result" where
  "isAllSet bits lo hi val =
     (if lo \<ge> hi then Inr True
      else
        let expected = (if val then NOT 0 else 0); wordIndex = lo div 64; beginOffset = lo mod 64 in
        if beginOffset \<noteq> 0 then
          bindR (addIndex (wordIndex * 64) 64) (\<lambda>nextWord.
            let isLastWord = nextWord > hi;
                mask = push_bit beginOffset (NOT 0) AND (if isLastWord then lowMask (hi - wordIndex * 64) else NOT 0) in
            bindR (readWord bits wordIndex) (\<lambda>w.
              if w AND mask \<noteq> expected AND mask then Inr False
              else if isLastWord then Inr True
              else isAllSet_tail bits expected (wordIndex + 1) hi))
        else isAllSet_tail bits expected wordIndex hi)"

text \<open>The index of a bit, or \<open>None\<close> for \<^verbatim>\<open>-1\<close>.\<close>

fun firstLoop :: "words \<Rightarrow> nat \<Rightarrow> nat \<Rightarrow> nat option result" where
  "firstLoop bits wordIndex 0 = Inr None"
| "firstLoop bits wordIndex (Suc n) =
     bindR (readWord bits wordIndex) (\<lambda>w. if w \<noteq> 0 then Inr (Some (wordIndex * 64 + ctz w)) else firstLoop bits (wordIndex + 1) n)"

definition findFirst_tail :: "words \<Rightarrow> nat \<Rightarrow> nat \<Rightarrow> nat option result" where
  "findFirst_tail bits wordIndex hi =
     (let fullWordEnd = hi div 64 in
      bindR (firstLoop bits wordIndex (fullWordEnd - wordIndex)) (\<lambda>found.
        if found \<noteq> None then Inr found
        else if hi mod 64 \<noteq> 0 then
          let lst = max wordIndex fullWordEnd in
          bindR (readWord bits lst) (\<lambda>w.
            let word = w AND lowMask (hi mod 64) in Inr (if word \<noteq> 0 then Some (lst * 64 + ctz word) else None))
        else Inr None))"

definition findFirstBit :: "words \<Rightarrow> nat \<Rightarrow> nat \<Rightarrow> nat option result" where
  "findFirstBit bits lo hi =
     (if lo \<ge> hi then Inr None
      else
        let wordIndex = lo div 64; beginOffset = lo mod 64 in
        if beginOffset \<noteq> 0 then
          bindR (readWord bits wordIndex) (\<lambda>w. bindR (addIndex (wordIndex * 64) 64) (\<lambda>nextWord.
            let isLastWord = nextWord > hi;
                word = w AND push_bit beginOffset (NOT 0) AND (if isLastWord then lowMask (hi - wordIndex * 64) else NOT 0) in
            if word \<noteq> 0 then Inr (Some (wordIndex * 64 + ctz word))
            else if isLastWord then Inr None
            else findFirst_tail bits (wordIndex + 1) hi))
        else findFirst_tail bits wordIndex hi)"

fun lastLoop :: "bool \<Rightarrow> words \<Rightarrow> nat \<Rightarrow> nat \<Rightarrow> nat option result" where
  "lastLoop val bits fullWordBegin 0 = Inr None"
| "lastLoop val bits fullWordBegin (Suc n) =
     bindR (readWord bits (fullWordBegin + n)) (\<lambda>w.
       let word = (if val then w else NOT w) in
       if word \<noteq> 0 then Inr (Some ((fullWordBegin + n) * 64 + 63 - clz word)) else lastLoop val bits fullWordBegin n)"

text \<open>The portable part of \<^verbatim>\<open>findLastBit\<close> after the word that holds the end: the full words, then the first one.\<close>

definition findLast_tail :: "bool \<Rightarrow> words \<Rightarrow> nat \<Rightarrow> nat \<Rightarrow> nat \<Rightarrow> nat \<Rightarrow> nat option result" where
  "findLast_tail val bits fullWordBegin wordIndex beginWord beginOffset =
     bindR (lastLoop val bits fullWordBegin (wordIndex - fullWordBegin)) (\<lambda>found.
       if found \<noteq> None then Inr found
       else if beginOffset \<noteq> 0 then
         bindR (readWord bits beginWord) (\<lambda>w.
           let word = (if val then w else NOT w) AND push_bit beginOffset (NOT 0) in
           Inr (if word \<noteq> 0 then Some (beginWord * 64 + 63 - clz word) else None))
       else Inr None)"

definition findLastBit :: "words \<Rightarrow> nat \<Rightarrow> nat \<Rightarrow> bool \<Rightarrow> nat option result" where
  "findLastBit bits lo hi val =
     (if lo \<ge> hi then Inr None
      else
        let select = (\<lambda>w. if val then w else NOT w); wordIndex = hi div 64; endOffset = hi mod 64;
            beginWord = lo div 64; beginOffset = lo mod 64 in
        bindR (if endOffset \<noteq> 0 then
                 let mask = lowMask endOffset AND (if wordIndex = beginWord then push_bit beginOffset (NOT 0) else NOT 0) in
                 bindR (readWord bits wordIndex) (\<lambda>w.
                   let word = select w AND mask in
                   Inr (if word \<noteq> 0 then Some (Some (wordIndex * 64 + 63 - clz word))
                        else if wordIndex = beginWord then Some None else None))
               else Inr None) (\<lambda>done.
          case done of Some found \<Rightarrow> Inr found
          | None \<Rightarrow>
              bindR (addIndex lo 63) (\<lambda>roundedUp.
                findLast_tail val bits (roundedUp div 64) wordIndex beginWord beginOffset)))"

definition findLastUnsetBit :: "words \<Rightarrow> nat \<Rightarrow> nat \<Rightarrow> nat option result" where
  "findLastUnsetBit bits lo hi = findLastBit bits lo hi False"

text \<open>The loop over the set bits of a word, \<^verbatim>\<open>word &= word - 1\<close>, with a callback that may end it.\<close>

lemma clear_lowest_less: "w \<noteq> 0 \<Longrightarrow> unat (w AND (w - 1)) < unat (w :: word64)"
proof -
  assume w: "w \<noteq> 0"
  have "w AND (w - 1) \<le> w - 1" by (rule word_and_le1)
  then have "unat (w AND (w - 1)) \<le> unat (w - 1)" by (simp add: word_le_nat_alt)
  also have "unat (w - 1) = unat w - 1" using w by (rule unat_minus_one)
  finally show ?thesis using w by (simp add: unat_gt_0 [symmetric] flip: word_neq_0_conv)
qed

function testSet :: "(nat \<Rightarrow> 's \<Rightarrow> (bool \<times> 's) result) \<Rightarrow> nat \<Rightarrow> word64 \<Rightarrow> 's \<Rightarrow> (bool \<times> 's) result" where
  "testSet func idx word s =
     (if word \<noteq> 0 then
        bindR (func (idx * 64 + ctz word) s) (\<lambda>(go, s). if go then testSet func idx (word AND (word - 1)) s else Inr (False, s))
      else Inr (True, s))"
  by auto
termination by (relation "measure (\<lambda>(f, idx, word, s). unat word)") (auto simp: clear_lowest_less)

function forSet :: "(nat \<Rightarrow> 's \<Rightarrow> 's result) \<Rightarrow> nat \<Rightarrow> word64 \<Rightarrow> 's \<Rightarrow> 's result" where
  "forSet func idx word s =
     (if word \<noteq> 0 then bindR (func (idx * 64 + ctz word) s) (\<lambda>s. forSet func idx (word AND (word - 1)) s) else Inr s)"
  by auto
termination by (relation "measure (\<lambda>(f, idx, word, s). unat word)") (auto simp: clear_lowest_less)

declare testSet.simps [simp del] forSet.simps [simp del]

fun rowLoop :: "(nat \<Rightarrow> 's \<Rightarrow> 's result) \<Rightarrow> nat list \<Rightarrow> 's \<Rightarrow> 's result" where
  "rowLoop func [] s = Inr s"
| "rowLoop func (row # rows) s = bindR (func row s) (\<lambda>s. rowLoop func rows s)"

text \<open>The bits to visit of one word; \<open>nulls\<close> may further restrict them.\<close>

definition selectedWord :: "words \<Rightarrow> bool \<Rightarrow> words option \<Rightarrow> nat \<Rightarrow> word64 \<Rightarrow> word64 result" where
  "selectedWord bits isSet nulls idx m =
     bindR (readWord bits idx) (\<lambda>w.
       let word = (if isSet then w else NOT w) AND m in
       case nulls of None \<Rightarrow> Inr word | Some ns \<Rightarrow> bindR (readWord ns idx) (\<lambda>n. Inr (word AND n)))"

definition forEachBit :: "words \<Rightarrow> nat \<Rightarrow> nat \<Rightarrow> bool \<Rightarrow> (nat \<Rightarrow> 's \<Rightarrow> 's result) \<Rightarrow> words option \<Rightarrow> 's \<Rightarrow> 's result" where
  "forEachBit bits lo hi isSet func nulls s =
     forEachWord lo hi
       (\<lambda>idx mask s. bindR (selectedWord bits isSet nulls idx mask) (\<lambda>word. forSet func idx word s))
       (\<lambda>idx s. bindR (selectedWord bits isSet nulls idx (- 1)) (\<lambda>word.
          if word = - 1 then rowLoop func [idx * 64..<idx * 64 + 64] s else forSet func idx word s)) s"

definition forEachSetBit :: "words \<Rightarrow> nat \<Rightarrow> nat \<Rightarrow> (nat \<Rightarrow> 's \<Rightarrow> 's result) \<Rightarrow> words option \<Rightarrow> 's \<Rightarrow> 's result" where
  "forEachSetBit bits lo hi func nulls s = forEachBit bits lo hi True func nulls s"

definition forEachUnsetBit :: "words \<Rightarrow> nat \<Rightarrow> nat \<Rightarrow> (nat \<Rightarrow> 's \<Rightarrow> 's result) \<Rightarrow> 's \<Rightarrow> 's result" where
  "forEachUnsetBit bits lo hi func s = forEachBit bits lo hi False func None s"

definition testBits :: "words \<Rightarrow> nat \<Rightarrow> nat \<Rightarrow> bool \<Rightarrow> (nat \<Rightarrow> 's \<Rightarrow> (bool \<times> 's) result) \<Rightarrow> 's \<Rightarrow> (bool \<times> 's) result" where
  "testBits bits lo hi isSet func s =
     testWords lo hi
       (\<lambda>idx mask s. bindR (selectedWord bits isSet None idx mask) (\<lambda>word. testSet func idx word s))
       (\<lambda>idx s. bindR (selectedWord bits isSet None idx (- 1)) (\<lambda>word. testSet func idx word s)) s"

definition testSetBits :: "words \<Rightarrow> nat \<Rightarrow> nat \<Rightarrow> (nat \<Rightarrow> 's \<Rightarrow> (bool \<times> 's) result) \<Rightarrow> 's \<Rightarrow> (bool \<times> 's) result" where
  "testSetBits bits lo hi func s = testBits bits lo hi True func s"

definition testUnsetBits :: "words \<Rightarrow> nat \<Rightarrow> nat \<Rightarrow> (nat \<Rightarrow> 's \<Rightarrow> (bool \<times> 's) result) \<Rightarrow> 's \<Rightarrow> (bool \<times> 's) result" where
  "testUnsetBits bits lo hi func s = testBits bits lo hi False func s"

definition isSubset :: "words \<Rightarrow> words \<Rightarrow> nat \<Rightarrow> nat \<Rightarrow> bool result" where
  "isSubset sub super lo hi =
     bindR (testWords lo hi
       (\<lambda>idx mask s. bindR (readWord sub idx) (\<lambda>w. let subWord = w AND mask in
          bindR (readWord super idx) (\<lambda>u. Inr (u AND subWord = subWord, s))))
       (\<lambda>idx s. bindR (readWord sub idx) (\<lambda>subWord. bindR (readWord super idx) (\<lambda>u. Inr (u AND subWord = subWord, s)))) ())
       (\<lambda>(ok, _). Inr ok)"

definition hasIntersection :: "words \<Rightarrow> words \<Rightarrow> nat \<Rightarrow> nat \<Rightarrow> bool result" where
  "hasIntersection left right lo hi =
     (if lo \<ge> hi then Inr False
      else bindR (testWords lo hi
        (\<lambda>idx mask s. bindR (readWord left idx) (\<lambda>w. let leftWord = w AND mask in
           bindR (readWord right idx) (\<lambda>u. Inr (u AND leftWord = 0, s))))
        (\<lambda>idx s. bindR (readWord left idx) (\<lambda>leftWord. bindR (readWord right idx) (\<lambda>u. Inr (u AND leftWord = 0, s)))) ())
        (\<lambda>(ok, _). Inr (\<not> ok)))"

end
