(* ===== verification/Bit_Ranges.thy ===== *)
theory Bit_Ranges
  imports Bit_Words
begin

text \<open>
  The loops over the words of a range visit every word that meets the range once, in order, with the mask of the bits
  that are in the range. The locale \<open>word_op\<close> is what the loops expect of their two callbacks.
\<close>

section \<open>Masks\<close>

lemma bit_word64: "bit (w :: word64) i \<Longrightarrow> i < 64"
  using bit_imp_le_length [of w i] by simp

lemma lowMask_mask: "lowMask n = mask n"
  by (simp add: lowMask_def mask_eq_exp_minus_1 push_bit_of_1)

lemma bit_lowMask: "bit (lowMask n) i \<longleftrightarrow> i < n \<and> i < 64"
  by (auto simp: lowMask_mask bit_mask_iff)

lemma bit_highMask: "n \<le> 64 \<Longrightarrow> bit (highMask n) i \<longleftrightarrow> 64 - n \<le> i \<and> i < 64"
  by (auto simp: highMask_def bit_push_bit_iff bit_lowMask)

lemma bit_minus_1 [simp]: "bit (- 1 :: word64) i \<longleftrightarrow> i < 64"
  by simp

definition range_mask :: "nat \<Rightarrow> nat \<Rightarrow> nat \<Rightarrow> word64" where
  "range_mask lo hi idx = mask (hi - idx * 64) AND NOT (mask (lo - idx * 64))"

lemma bit_range_mask: "bit (range_mask lo hi idx) i \<longleftrightarrow> i < 64 \<and> lo \<le> idx * 64 + i \<and> idx * 64 + i < hi"
  by (auto simp: range_mask_def bit_and_iff bit_not_iff bit_mask_iff)

lemma word64_eqI: "(\<And>i. i < 64 \<Longrightarrow> bit v i \<longleftrightarrow> bit w i) \<Longrightarrow> v = (w :: word64)"
  by (rule bit_eqI) (auto dest: bit_word64)

section \<open>The words of a range\<close>

lemma rowLoop_Nil [simp]: "rowLoop f [] = Inr" and bindR_Inr [simp]: "bindR x Inr = x"
  by (auto simp: bindR_def split: sum.splits)

lemma rowLoop_append: "rowLoop f (xs @ ys) s = bindR (rowLoop f xs s) (rowLoop f ys)"
proof (induction xs arbitrary: s)
  case (Cons x xs)
  then show ?case by (cases "f x s") simp_all
qed simp

lemma rowLoop_cong: "(\<And>x s. x \<in> set xs \<Longrightarrow> f x s = g x s) \<Longrightarrow> rowLoop f xs s = rowLoop g xs s"
proof (induction xs arbitrary: s)
  case (Cons x xs)
  then show ?case by (cases "g x s") simp_all
qed simp

lemma fullLoop_rows: "a \<le> b \<Longrightarrow> b * 64 + 64 < 2 ^ 31 \<Longrightarrow> fullLoop f (a * 64) (b * 64) s = rowLoop f [a..<b] s"
proof (induction "b - a" arbitrary: a s)
  case 0
  then show ?case by (simp add: fullLoop.simps)
next
  case (Suc n)
  then have ab: "a < b" by simp
  have IH: "fullLoop f (a * 64 + 64) (b * 64) = rowLoop f [Suc a..<b]"
    using Suc(1) [of "Suc a"] Suc(2-4) by (intro ext) (simp add: add.commute)
  have "fullLoop f (a * 64) (b * 64) s = bindR (f a s) (fullLoop f (a * 64 + 64) (b * 64))"
    using ab Suc(4) by (subst fullLoop.simps) simp
  also have "\<dots> = rowLoop f [a..<b] s" using ab by (simp add: IH upt_conv_Cons)
  finally show ?case .
qed

text \<open>The two callbacks do the same, the second on all bits of a word.\<close>

locale word_op =
  fixes onPart :: "nat \<Rightarrow> word64 \<Rightarrow> 's \<Rightarrow> 's result" and onFull :: "nat \<Rightarrow> 's \<Rightarrow> 's result"
  assumes full: "onFull idx s = onPart idx (- 1) s"
begin

lemma forEachWord_rows:
  assumes "hi + 64 < 2 ^ 31"
  shows "forEachWord lo hi onPart onFull s = (if lo < hi then rowLoop (\<lambda>idx. onPart idx (range_mask lo hi idx)) [lo div 64..<(hi + 63) div 64] s else Inr s)"
proof (cases "lo < hi")
  case True
  let ?f = "\<lambda>idx. onPart idx (range_mask lo hi idx)"
  define a r b t where "a = lo div 64" and "r = lo mod 64" and "b = hi div 64" and "t = hi mod 64"
  have lo: "lo = a * 64 + r" "r < 64" and hi: "hi = b * 64 + t" "t < 64" by (simp_all add: a_def r_def b_def t_def)
  have up: "roundUp lo 64 = Inr ((if r = 0 then a else a + 1) * 64)"
  proof -
    have "(a * 64 + r + 63) div 64 = (if r = 0 then a else a + 1)" using lo(2) by auto
    then show ?thesis using True assms lo(1) by (simp add: roundUp_def)
  qed
  have bound: "b * 64 + 64 < 2 ^ 31" using assms hi(1) by simp
  have rows: "(hi + 63) div 64 = (if t = 0 then b else b + 1)" using hi by auto
  have lw: "hi - hi mod 64 = b * 64" "(b * 64) div 64 = b" using hi by (simp_all add: t_def)
  have full_row: "rowLoop onFull [a'..<b] s = rowLoop ?f [a'..<b] s" if "lo \<le> a' * 64" for a' s
  proof (rule rowLoop_cong)
    fix idx s assume "idx \<in> set [a'..<b]"
    then have "a' * 64 \<le> idx * 64" "idx * 64 + 64 \<le> hi" using hi(1) by auto
    then have "range_mask lo hi idx = - 1" using that by (intro word64_eqI) (auto simp: bit_range_mask)
    then show "onFull idx s = ?f idx s" by (simp add: full)
  qed
  have low: "lowMask t = range_mask lo hi b" if "lo \<le> b * 64"
    using that hi by (intro word64_eqI) (auto simp: bit_range_mask bit_lowMask)
  have high: "highMask (64 - r) = range_mask lo hi a" if "0 < r" "a * 64 + 64 \<le> hi"
    using that lo by (intro word64_eqI) (auto simp: bit_range_mask bit_highMask)
  show ?thesis
  proof (cases "b < (if r = 0 then a else a + 1)")
    case one: True
    have ab: "a = b" "0 < r" "0 < t" "r < t" using True one lo hi by (auto split: if_splits)
    have "lowMask t AND highMask (64 - r) = range_mask lo hi a"
      using ab lo hi by (intro word64_eqI) (auto simp: bit_range_mask bit_lowMask bit_highMask bit_and_iff)
    then show ?thesis using True one ab up rows lw lo hi by (simp add: forEachWord_def Let_def a_def [symmetric])
  next
    case many: False
    show ?thesis
    proof (cases "r = 0")
      case r: True
      have l0: "lo \<le> a * 64" using r lo(1) by simp
      have "forEachWord lo hi onPart onFull s = bindR (rowLoop ?f [a..<b] s) (\<lambda>s. if t \<noteq> 0 then onPart b (lowMask t) s else Inr s)"
        using True r many up lw lo hi fullLoop_rows [OF _ bound, of a onFull] full_row [OF l0]
        by (cases "t = 0") (simp_all add: forEachWord_def Let_def)
      moreover have "lo \<le> b * 64" using r many lo(1) by simp
      ultimately show ?thesis using True r many rows low
        by (cases "t = 0") (simp_all add: a_def [symmetric] rowLoop_append bindR_def split: sum.splits)
    next
      case r: False
      have l1: "lo \<le> (a + 1) * 64" and ab: "a + 1 \<le> b" using r many lo by simp_all
      have ha: "a * 64 + 64 \<le> hi" and nb: "\<not> b * 64 < 64 + a * 64" using ab hi(1) by simp_all
      have "forEachWord lo hi onPart onFull s =
          bindR (?f a s) (\<lambda>s. bindR (rowLoop ?f [a + 1..<b] s) (\<lambda>s. if t \<noteq> 0 then onPart b (lowMask t) s else Inr s))"
        using True r many up lw lo hi fullLoop_rows [OF _ bound, of "a + 1" onFull] full_row [OF l1] high [OF _ ha] nb
        by (cases "t = 0") (simp_all add: forEachWord_def Let_def a_def [symmetric])
      moreover have "lo \<le> b * 64" using l1 ab by (metis le_trans mult_le_mono1)
      moreover have "[a..<b] = a # [a + 1..<b]" using ab by (simp add: upt_conv_Cons)
      ultimately show ?thesis using True r many rows low ab
        by (cases "t = 0") (simp_all add: a_def [symmetric] rowLoop_append bindR_def split: sum.splits)
    qed
  qed
qed (simp add: forEachWord_def)

end

section \<open>Writing\<close>

definition bit_at :: "words \<Rightarrow> nat \<Rightarrow> bool" where
  "bit_at bits j \<longleftrightarrow> bit (bits ! (j div 64)) (j mod 64)"

lemma bit_at_word: "i < 64 \<Longrightarrow> bit_at bits (idx * 64 + i) = bit (bits ! idx) i"
  by (simp add: bit_at_def)

text \<open>Callbacks that compute each bit of the mask from its position and its old value.\<close>

locale word_write = word_op onPart onFull
  for onPart :: "nat \<Rightarrow> word64 \<Rightarrow> words \<Rightarrow> words result" and onFull :: "nat \<Rightarrow> words \<Rightarrow> words result" +
  fixes new :: "nat \<Rightarrow> bool \<Rightarrow> bool" and limit :: nat
  assumes part: "idx < length bits \<Longrightarrow> idx < limit \<Longrightarrow> \<exists>w. onPart idx m bits = Inr (bits[idx := w]) \<and>
    (\<forall>i<64. bit w i \<longleftrightarrow> (if bit m i then new (idx * 64 + i) (bit (bits ! idx) i) else bit (bits ! idx) i))"
begin

lemma rows_pointwise:
  "distinct xs \<Longrightarrow> \<forall>idx\<in>set xs. idx < length bits \<and> idx < limit \<Longrightarrow>
   \<exists>bits'. rowLoop (\<lambda>idx. onPart idx (M idx)) xs bits = Inr bits' \<and> length bits' = length bits \<and>
     (\<forall>idx<length bits. \<forall>i<64. bit (bits' ! idx) i \<longleftrightarrow>
        (if idx \<in> set xs \<and> bit (M idx) i then new (idx * 64 + i) (bit (bits ! idx) i) else bit (bits ! idx) i))"
proof (induction xs arbitrary: bits)
  case Nil
  then show ?case by simp
next
  case (Cons x xs)
  from part [of x bits "M x"] Cons(3) obtain w where w: "onPart x (M x) bits = Inr (bits[x := w])"
    "\<forall>i<64. bit w i \<longleftrightarrow> (if bit (M x) i then new (x * 64 + i) (bit (bits ! x) i) else bit (bits ! x) i)" by auto
  have "\<forall>idx\<in>set xs. idx < length (bits[x := w]) \<and> idx < limit" using Cons(3) by simp
  with Cons(1) [of "bits[x := w]"] Cons(2) obtain bits' where IH:
    "rowLoop (\<lambda>idx. onPart idx (M idx)) xs (bits[x := w]) = Inr bits'" "length bits' = length bits"
    "\<forall>idx<length bits. \<forall>i<64. bit (bits' ! idx) i \<longleftrightarrow>
        (if idx \<in> set xs \<and> bit (M idx) i then new (idx * 64 + i) (bit (bits[x := w] ! idx) i) else bit (bits[x := w] ! idx) i)"
    by auto
  have "\<forall>idx<length bits. \<forall>i<64. bit (bits' ! idx) i \<longleftrightarrow>
        (if idx \<in> set (x # xs) \<and> bit (M idx) i then new (idx * 64 + i) (bit (bits ! idx) i) else bit (bits ! idx) i)"
  proof (intro allI impI)
    fix idx i :: nat
    assume "idx < length bits" "i < 64"
    then show "bit (bits' ! idx) i \<longleftrightarrow>
        (if idx \<in> set (x # xs) \<and> bit (M idx) i then new (idx * 64 + i) (bit (bits ! idx) i) else bit (bits ! idx) i)"
      using IH(3) w(2) Cons(2) by (cases "idx = x") simp_all
  qed
  with IH(1,2) w(1) show ?case by auto
qed

lemma forEachWord_pointwise:
  assumes "hi + 64 < 2 ^ 31" "hi \<le> 64 * length bits" "hi \<le> 64 * limit"
  shows "\<exists>bits'. forEachWord lo hi onPart onFull bits = Inr bits' \<and> length bits' = length bits \<and>
    (\<forall>j<64 * length bits. bit_at bits' j \<longleftrightarrow> (if lo \<le> j \<and> j < hi then new j (bit_at bits j) else bit_at bits j))"
proof (cases "lo < hi")
  case True
  let ?xs = "[lo div 64..<(hi + 63) div 64]"
  have "(hi + 63) div 64 \<le> length bits" "(hi + 63) div 64 \<le> limit" using assms(2,3) by auto
  then have "\<forall>idx\<in>set ?xs. idx < length bits \<and> idx < limit" by auto
  from rows_pointwise [OF _ this, of "range_mask lo hi"] obtain bits' where r:
    "rowLoop (\<lambda>idx. onPart idx (range_mask lo hi idx)) ?xs bits = Inr bits'" "length bits' = length bits"
    "\<forall>idx<length bits. \<forall>i<64. bit (bits' ! idx) i \<longleftrightarrow> (if idx \<in> set ?xs \<and> bit (range_mask lo hi idx) i
       then new (idx * 64 + i) (bit (bits ! idx) i) else bit (bits ! idx) i)" by auto
  have "bit_at bits' j \<longleftrightarrow> (if lo \<le> j \<and> j < hi then new j (bit_at bits j) else bit_at bits j)" if "j < 64 * length bits" for j
  proof -
    have "j div 64 < length bits" using that by auto
    moreover have "j mod 64 < 64" by simp
    moreover have "j div 64 * 64 + j mod 64 = j" by simp
    moreover have "j div 64 \<in> set ?xs" if "lo \<le> j" "j < hi"
    proof -
      have "(j + 64) div 64 \<le> (hi + 63) div 64" using that(2) by (intro div_le_mono) simp
      then have "j div 64 < (hi + 63) div 64" by simp
      then show ?thesis using that(1) by (simp add: div_le_mono)
    qed
    ultimately show ?thesis using r(3) unfolding bit_at_def by (auto simp: bit_range_mask)
  qed
  with r True show ?thesis using forEachWord_rows [OF assms(1), of lo bits] by auto
qed (use forEachWord_rows [OF assms(1), of lo bits] in auto)

end

end
