(* ===== verification/Bit_Queries.thy ===== *)
theory Bit_Queries
  imports Bit_Ranges
begin

unbundle bit_operations_syntax

text \<open>
  Reading a range of a bitmap: the bits of the words that the loops visit are the bits of the range, in order.
\<close>

section \<open>The bits of a word\<close>

lemma ctz_least:
  assumes "w \<noteq> 0"
  shows "ctz w < 64" "bit w (ctz w)" "\<And>i. i < ctz w \<Longrightarrow> \<not> bit w i"
proof -
  let ?t = "takeWhile (\<lambda>i. \<not> bit w i) [0..<64]"
  from assms obtain i where i: "i < 64" "bit w i" using word64_eqI [of w 0] by auto
  have "length ?t \<noteq> 64"
  proof
    assume "length ?t = 64"
    then have "?t = [0..<64]" by (metis length_upt minus_nat.diff_0 takeWhile_eq_take take_all order_refl)
    then have "\<forall>i\<in>set [0..<64]. \<not> bit w i" by (metis set_takeWhileD)
    with i show False by auto
  qed
  moreover have "length ?t \<le> 64" using length_takeWhile_le [of _ "[0..<64]"] by (metis diff_zero length_upt)
  ultimately show l: "ctz w < 64" by (simp add: ctz_def)
  show "bit w (ctz w)" using nth_length_takeWhile [of "\<lambda>i. \<not> bit w i" "[0..<64]"] l by (simp add: ctz_def)
  show "\<not> bit w i" if "i < ctz w" for i
    using nth_mem [of i ?t] takeWhile_nth [of i "\<lambda>i. \<not> bit w i" "[0..<64]"] that l set_takeWhileD [of i "\<lambda>i. \<not> bit w i" "[0..<64]"]
    by (simp add: ctz_def)
qed

lemma clz_least:
  assumes "w \<noteq> 0"
  shows "clz w < 64" "bit w (63 - clz w)" "\<And>i. i < 64 \<Longrightarrow> 63 - clz w < i \<Longrightarrow> \<not> bit w i"
proof -
  let ?P = "\<lambda>i. \<not> bit w (63 - i)"
  let ?t = "takeWhile ?P [0..<64]"
  from assms obtain i where i: "i < 64" "bit w i" using word64_eqI [of w 0] by auto
  have "length ?t \<noteq> 64"
  proof
    assume "length ?t = 64"
    then have "?t = [0..<64]" by (metis length_upt minus_nat.diff_0 takeWhile_eq_take take_all order_refl)
    then have "\<forall>i\<in>set [0..<64]. ?P i" by (metis set_takeWhileD)
    moreover have "63 - i \<in> set [0..<64]" "63 - (63 - i) = i" using i(1) by auto
    ultimately show False using i(2) by metis
  qed
  moreover have "length ?t \<le> 64" using length_takeWhile_le [of _ "[0..<64]"] by (metis diff_zero length_upt)
  ultimately show l: "clz w < 64" by (simp add: clz_def)
  show "bit w (63 - clz w)" using nth_length_takeWhile [of ?P "[0..<64]"] l by (simp add: clz_def)
  have below: "\<not> bit w (63 - i)" if "i < clz w" for i
    using nth_mem [of i ?t] takeWhile_nth [of i ?P "[0..<64]"] that l set_takeWhileD [of i ?P "[0..<64]"] by (simp add: clz_def)
  show "\<not> bit w i" if "i < 64" "63 - clz w < i" for i
    using below [of "63 - i"] that l by auto
qed

lemma clear_lowest:
  assumes "w \<noteq> 0"
  shows "bit (w AND (w - 1)) i \<longleftrightarrow> bit w i \<and> i \<noteq> ctz w"
proof -
  define k x where "k = ctz w" and "x = push_bit (Suc k) (drop_bit (Suc k) w)"
  note k = ctz_least [OF assms, folded k_def]
  have "take_bit (Suc k) w = push_bit k 1"
    using k by (intro word64_eqI) (auto simp: bit_take_bit_iff bit_exp_iff less_Suc_eq)
  then have w: "w = x + push_bit k 1" using bits_ident [of "Suc k" w] by (simp add: x_def)
  then have less: "w - 1 = x + mask k" by (simp add: mask_eq_exp_minus_1 push_bit_of_1)
  have x: "bit x i \<longleftrightarrow> Suc k \<le> i \<and> bit w i" for i
    using bit_word64 [of w i] by (auto simp: x_def bit_push_bit_iff bit_drop_bit_eq simp del: push_bit_Suc)
  have "x AND mask k = 0" by (rule word64_eqI) (auto simp: x bit_and_iff bit_mask_iff)
  then have "x + mask k = x OR mask k" by (rule disjunctive_add_eq_or)
  with less have "bit (w - 1) i \<longleftrightarrow> Suc k \<le> i \<and> bit w i \<or> i < k \<and> i < 64" for i
    by (auto simp: x bit_or_iff bit_mask_iff)
  then show ?thesis using k bit_word64 [of w i] by (auto simp: bit_and_iff k_def [symmetric])
qed

definition ones :: "word64 \<Rightarrow> nat list" where
  "ones w = filter (bit w) [0..<64]"

lemma ones_step: "w \<noteq> 0 \<Longrightarrow> ones w = ctz w # ones (w AND (w - 1))"
proof -
  assume w: "w \<noteq> 0"
  note k = ctz_least [OF w]
  have split: "[0..<64] = [0..<ctz w] @ ctz w # [Suc (ctz w)..<64]"
    using k(1) by (metis le_add1 less_imp_le_nat plus_nat.add_0 upt_add_eq_append upt_conv_Cons le_add_diff_inverse)
  have "filter (bit v) [0..<ctz w] = []" if "\<And>i. i < ctz w \<Longrightarrow> \<not> bit v i" for v :: word64
    using that by (simp add: filter_empty_conv)
  moreover have "filter (bit w) [Suc (ctz w)..<64] = filter (bit (w AND (w - 1))) [Suc (ctz w)..<64]"
    by (rule filter_cong) (auto simp: clear_lowest [OF w])
  ultimately show ?thesis using k by (simp add: ones_def split clear_lowest [OF w])
qed

lemma ones_0: "ones 0 = []"
  by (simp add: ones_def)

lemma forSet_rows: "forSet func idx w s = rowLoop func (map (\<lambda>i. idx * 64 + i) (ones w)) s"
proof (induction func idx w s rule: forSet.induct)
  case (1 func idx w s)
  show ?case
  proof (cases "w = 0")
    case False
    then show ?thesis using 1 by (subst forSet.simps) (cases "func (idx * 64 + ctz w) s", simp_all add: ones_step)
  qed (simp add: forSet.simps ones_0)
qed

section \<open>The bits of a range\<close>

lemma word_bits:
  assumes "\<And>i. i < 64 \<Longrightarrow> bit w i \<longleftrightarrow> P (idx * 64 + i)"
  shows "map (\<lambda>i. idx * 64 + i) (ones w) = filter P [idx * 64..<idx * 64 + 64]"
proof -
  have "[idx * 64..<idx * 64 + 64] = map (\<lambda>i. idx * 64 + i) [0..<64]"
    using map_add_upt [of "idx * 64" 64] by (simp add: add.commute)
  moreover have "filter (P \<circ> (\<lambda>i. idx * 64 + i)) [0..<64] = ones w"
    unfolding ones_def using assms by (intro filter_cong) auto
  ultimately show ?thesis by (simp add: filter_map)
qed

lemma rows_bits: "a \<le> b \<Longrightarrow> concat (map (\<lambda>idx. filter P [idx * 64..<idx * 64 + 64]) [a..<b]) = filter P [a * 64..<b * 64]"
proof (induction b rule: dec_induct)
  case (step b)
  have "[a * 64..<Suc b * 64] = [a * 64..<b * 64] @ [b * 64..<b * 64 + 64]"
    using step(1) upt_add_eq_append [of "a * 64" "b * 64" 64] by (simp add: add.commute)
  with step show ?case by simp
qed simp

lemma filter_interval:
  assumes "a \<le> lo" "lo \<le> hi" "hi \<le> b"
  shows "filter (\<lambda>j. lo \<le> j \<and> j < hi \<and> Q j) [a..<b] = filter Q [lo..<hi]"
proof -
  have "[a..<b] = [a..<lo] @ [lo..<hi] @ [hi..<b]"
    using assms by (metis le_trans upt_add_eq_append le_add_diff_inverse)
  moreover have "filter (\<lambda>j. lo \<le> j \<and> j < hi \<and> Q j) [a..<lo] = []" "filter (\<lambda>j. lo \<le> j \<and> j < hi \<and> Q j) [hi..<b] = []"
    by (auto simp: filter_empty_conv)
  moreover have "filter (\<lambda>j. lo \<le> j \<and> j < hi \<and> Q j) [lo..<hi] = filter Q [lo..<hi]" by (rule filter_cong) auto
  ultimately show ?thesis by simp
qed

lemma range_rows:
  assumes "lo < hi" "\<And>idx i. idx \<in> set [lo div 64..<(hi + 63) div 64] \<Longrightarrow> i < 64 \<Longrightarrow>
    bit (v idx) i \<longleftrightarrow> bit (range_mask lo hi idx) i \<and> Q (idx * 64 + i)"
  shows "concat (map (\<lambda>idx. map (\<lambda>i. idx * 64 + i) (ones (v idx))) [lo div 64..<(hi + 63) div 64]) = filter Q [lo..<hi]"
proof -
  let ?P = "\<lambda>j. lo \<le> j \<and> j < hi \<and> Q j"
  have "map (\<lambda>i. idx * 64 + i) (ones (v idx)) = filter ?P [idx * 64..<idx * 64 + 64]"
    if "idx \<in> set [lo div 64..<(hi + 63) div 64]" for idx
    using assms(2) [OF that] by (intro word_bits) (auto simp: bit_range_mask)
  then have "concat (map (\<lambda>idx. map (\<lambda>i. idx * 64 + i) (ones (v idx))) [lo div 64..<(hi + 63) div 64]) =
      concat (map (\<lambda>idx. filter ?P [idx * 64..<idx * 64 + 64]) [lo div 64..<(hi + 63) div 64])"
    by (intro arg_cong [where f = concat] map_cong) auto
  also have "\<dots> = filter ?P [lo div 64 * 64..<(hi + 63) div 64 * 64]"
    using assms(1) by (intro rows_bits div_le_mono) simp
  also have "\<dots> = filter Q [lo..<hi]"
  proof (rule filter_interval)
    have "hi + 63 < (hi + 63) div 64 * 64 + 64" using div_mult_mod_eq [of "hi + 63" 64] mod_less_divisor [of 64 "hi + 63"] by linarith
    then show "hi \<le> (hi + 63) div 64 * 64" by simp
  qed (use assms(1) in simp_all)
  finally show ?thesis .
qed

lemma rowLoop_concat: "rowLoop (\<lambda>x. rowLoop f (g x)) xs s = rowLoop f (concat (map g xs)) s"
proof (induction xs arbitrary: s)
  case (Cons x xs)
  then show ?case by (cases "rowLoop f (g x) s") (simp_all add: rowLoop_append)
qed simp

section \<open>Visiting bits\<close>

definition selected :: "words \<Rightarrow> bool \<Rightarrow> words option \<Rightarrow> nat \<Rightarrow> bool" where
  "selected bits isSet nulls j \<longleftrightarrow> bit_at bits j = isSet \<and> (case nulls of None \<Rightarrow> True | Some ns \<Rightarrow> bit_at ns j)"

lemma selectedWord_ok:
  assumes "idx < length bits" "\<And>ns. nulls = Some ns \<Longrightarrow> idx < length ns"
  obtains w where "selectedWord bits isSet nulls idx m = Inr w"
    "\<And>i. i < 64 \<Longrightarrow> bit w i \<longleftrightarrow> bit m i \<and> selected bits isSet nulls (idx * 64 + i)"
  using assms by (cases nulls; cases isSet) (auto simp: selectedWord_def readWord_def selected_def bit_at_word bit_and_iff bit_not_iff)

lemma row_bound: "hi \<le> 64 * n \<Longrightarrow> idx \<in> set [lo div 64..<(hi + 63) div 64] \<Longrightarrow> idx < n"
  by auto

lemma forSet_full: "forSet func idx (- 1) s = rowLoop func [idx * 64..<idx * 64 + 64] s"
  using word_bits [of "- 1" "\<lambda>_. True" idx] by (simp add: forSet_rows)

interpretation visit: word_op
  "\<lambda>idx m s. bindR (selectedWord bits isSet nulls idx m) (\<lambda>word. forSet func idx word s)"
  "\<lambda>idx s. bindR (selectedWord bits isSet nulls idx (- 1)) (\<lambda>word.
     if word = - 1 then rowLoop func [idx * 64..<idx * 64 + 64] s else forSet func idx word s)"
  for bits isSet nulls func
proof
  show "bindR (selectedWord bits isSet nulls idx (- 1)) (\<lambda>word.
     if word = - 1 then rowLoop func [idx * 64..<idx * 64 + 64] s else forSet func idx word s) =
     bindR (selectedWord bits isSet nulls idx (- 1)) (\<lambda>word. forSet func idx word s)" for idx s
    by (intro arg_cong [where f = "bindR _"] ext) (simp add: forSet_full)
qed

lemma forEachBit_rows:
  assumes "hi + 64 < 2 ^ 31" "hi \<le> 64 * length bits" "\<And>ns. nulls = Some ns \<Longrightarrow> hi \<le> 64 * length ns"
  shows "forEachBit bits lo hi isSet func nulls s = rowLoop func (filter (selected bits isSet nulls) [lo..<hi]) s"
proof (cases "lo < hi")
  case True
  have "\<exists>w. selectedWord bits isSet nulls idx (range_mask lo hi idx) = Inr w \<and>
      (\<forall>i<64. bit w i \<longleftrightarrow> bit (range_mask lo hi idx) i \<and> selected bits isSet nulls (idx * 64 + i))"
    if "idx \<in> set [lo div 64..<(hi + 63) div 64]" for idx
    using selectedWord_ok [of idx bits nulls isSet "range_mask lo hi idx"] row_bound [OF _ that] assms(2,3) by metis
  then obtain v where v: "\<And>idx. idx \<in> set [lo div 64..<(hi + 63) div 64] \<Longrightarrow> selectedWord bits isSet nulls idx (range_mask lo hi idx) = Inr (v idx)"
    "\<And>idx i. idx \<in> set [lo div 64..<(hi + 63) div 64] \<Longrightarrow> i < 64 \<Longrightarrow>
       bit (v idx) i \<longleftrightarrow> bit (range_mask lo hi idx) i \<and> selected bits isSet nulls (idx * 64 + i)" by metis
  have "forEachBit bits lo hi isSet func nulls s =
      rowLoop (\<lambda>idx. rowLoop func (map (\<lambda>i. idx * 64 + i) (ones (v idx)))) [lo div 64..<(hi + 63) div 64] s"
    unfolding forEachBit_def visit.forEachWord_rows [OF assms(1)] using True
    by (simp del: upt_Suc) (rule rowLoop_cong, simp add: v(1) forSet_rows)
  then show ?thesis using range_rows [OF True v(2)] by (simp add: rowLoop_concat)
next
  case False
  then show ?thesis unfolding forEachBit_def visit.forEachWord_rows [OF assms(1)] by simp
qed

section \<open>Counting\<close>

interpretation total: word_op
  "\<lambda>idx m count. bindR (readWord bits idx) (\<lambda>w. Inr (count + popcount (w AND m)))"
  "\<lambda>idx count. bindR (readWord bits idx) (\<lambda>w. Inr (count + popcount w))"
  for bits
  by unfold_locales simp

lemma popcount_ones: "popcount w = length (ones w)"
  by (simp add: popcount_def ones_def)

lemma rowLoop_sum: "rowLoop (\<lambda>x n. Inr (n + length (g x))) xs n = Inr (n + length (concat (map g xs)))"
  by (induction xs arbitrary: n) simp_all

lemma countBits_eq:
  assumes "hi + 64 < 2 ^ 31" "hi \<le> 64 * length bits"
  shows "countBits bits lo hi = Inr (length (filter (bit_at bits) [lo..<hi]))"
proof (cases "lo < hi")
  case True
  let ?v = "\<lambda>idx. bits ! idx AND range_mask lo hi idx"
  have "countBits bits lo hi =
      rowLoop (\<lambda>idx n. Inr (n + length (map (\<lambda>i. idx * 64 + i) (ones (?v idx))))) [lo div 64..<(hi + 63) div 64] 0"
    unfolding countBits_def total.forEachWord_rows [OF assms(1)] using True row_bound [OF assms(2)]
    by (simp del: upt_Suc) (rule rowLoop_cong, simp add: readWord_def popcount_ones)
  moreover have "concat (map (\<lambda>idx. map (\<lambda>i. idx * 64 + i) (ones (?v idx))) [lo div 64..<(hi + 63) div 64]) = filter (bit_at bits) [lo..<hi]"
    using True by (rule range_rows) (auto simp: bit_and_iff bit_at_word)
  ultimately show ?thesis unfolding rowLoop_sum by simp
next
  case False
  then show ?thesis unfolding countBits_def total.forEachWord_rows [OF assms(1)] by simp
qed

section \<open>Tests that may end early\<close>

fun testRows :: "(nat \<Rightarrow> 's \<Rightarrow> (bool \<times> 's) result) \<Rightarrow> nat list \<Rightarrow> 's \<Rightarrow> (bool \<times> 's) result" where
  "testRows func [] s = Inr (True, s)"
| "testRows func (row # rows) s = bindR (func row s) (\<lambda>(go, s). if go then testRows func rows s else Inr (False, s))"

text \<open>A test is a loop whose state remembers that it was ended.\<close>

definition guarded :: "('s \<Rightarrow> (bool \<times> 's) result) \<Rightarrow> bool \<times> 's \<Rightarrow> (bool \<times> 's) result" where
  "guarded f = (\<lambda>(go, s). if go then f s else Inr (False, s))"

lemma guarded_simps [simp]: "guarded f (True, s) = f s" "guarded f (False, s) = Inr (False, s)"
  by (simp_all add: guarded_def)

lemma rowLoop_stopped: "rowLoop (\<lambda>x. guarded (f x)) xs (False, s) = Inr (False, s)"
  by (induction xs) simp_all

lemma testRows_guarded: "testRows f xs s = rowLoop (\<lambda>x. guarded (f x)) xs (True, s)"
proof (induction xs arbitrary: s)
  case (Cons x xs)
  then show ?case by (cases "f x s") (auto simp: rowLoop_stopped)
qed simp

lemma testRows_append: "testRows f (xs @ ys) s = bindR (testRows f xs s) (guarded (testRows f ys))"
proof (induction xs arbitrary: s)
  case (Cons x xs)
  then show ?case by (cases "f x s") auto
qed simp

lemma testRows_concat: "testRows (\<lambda>x. testRows f (g x)) xs s = testRows f (concat (map g xs)) s"
proof (induction xs arbitrary: s)
  case (Cons x xs)
  then show ?case by (cases "testRows f (g x) s") (auto simp: testRows_append)
qed simp

lemma testRows_cong: "(\<And>x s. x \<in> set xs \<Longrightarrow> f x s = g x s) \<Longrightarrow> testRows f xs s = testRows g xs s"
proof (induction xs arbitrary: s)
  case (Cons x xs)
  then show ?case by (cases "g x s") auto
qed simp

lemma testSet_rows: "testSet func idx w s = testRows func (map (\<lambda>i. idx * 64 + i) (ones w)) s"
proof (induction func idx w s rule: testSet.induct)
  case (1 func idx w s)
  show ?case
  proof (cases "w = 0")
    case False
    then show ?thesis using 1 by (subst testSet.simps) (cases "func (idx * 64 + ctz w) s", auto simp: ones_step)
  qed (simp add: testSet.simps ones_0)
qed

lemma fullLoop_stopped:
  "i + 64 < 2 ^ 31 \<Longrightarrow> l + 64 < 2 ^ 31 \<Longrightarrow> fullLoop (\<lambda>idx. guarded (f idx)) i l (False, s) = Inr (False, s)"
proof (induction "l - i" arbitrary: i rule: less_induct)
  case less
  show ?case
  proof (cases "i + 64 \<le> l")
    case True
    then have "fullLoop (\<lambda>idx. guarded (f idx)) (i + 64) l (False, s) = Inr (False, s)" using less(3) by (intro less(1)) auto
    then show ?thesis using True less(2) by (subst fullLoop.simps) simp
  qed (use less(2) in \<open>simp add: fullLoop.simps\<close>)
qed

lemma testFull_guarded:
  "i + 64 < 2 ^ 31 \<Longrightarrow> l + 64 < 2 ^ 31 \<Longrightarrow> testFull f i l s = fullLoop (\<lambda>idx. guarded (f idx)) i l (True, s)"
proof (induction "l - i" arbitrary: i s rule: less_induct)
  case less
  show ?case
  proof (cases "i + 64 \<le> l")
    case True
    have "testFull f (i + 64) l s = fullLoop (\<lambda>idx. guarded (f idx)) (i + 64) l (True, s)" for s
      using less(3) True by (intro less(1)) auto
    moreover have "fullLoop (\<lambda>idx. guarded (f idx)) (i + 64) l (False, s) = Inr (False, s)" for s
      using less(3) True by (intro fullLoop_stopped) auto
    ultimately show ?thesis using True less(2)
      by (subst testFull.simps, subst fullLoop.simps) (cases "f (i div 64) s", auto)
  qed (use less(2) in \<open>simp add: fullLoop.simps testFull.simps\<close>)
qed

lemma testWords_guarded:
  assumes "hi + 64 < 2 ^ 31"
  shows "testWords lo hi onPart onFull s = forEachWord lo hi (\<lambda>idx m. guarded (onPart idx m)) (\<lambda>idx. guarded (onFull idx)) (True, s)"
proof (cases "lo < hi")
  case True
  define l where "l = hi - hi mod 64"
  have l: "l + 64 < 2 ^ 31" using assms by (simp add: l_def)
  from True assms obtain f where f: "roundUp lo 64 = Inr f" by (simp add: roundUp_def)
  show ?thesis
  proof (cases "l < f")
    case False
    then have f64: "f + 64 < 2 ^ 31" using l by simp
    have full: "bindR (testFull onFull f l s) (\<lambda>(go, s). if \<not> go then Inr (False, s)
        else if hi \<noteq> l then onPart (l div 64) (lowMask (hi - l)) s else Inr (True, s)) =
      bindR (fullLoop (\<lambda>idx. guarded (onFull idx)) f l (True, s)) (\<lambda>s.
        if hi \<noteq> l then guarded (onPart (l div 64) (lowMask (hi - l))) s else Inr s)" for s
      unfolding testFull_guarded [OF f64 l] by (intro arg_cong [where f = "bindR _"] ext) (auto simp: guarded_def)
    have stop: "bindR (fullLoop (\<lambda>idx. guarded (onFull idx)) f l (False, s)) (\<lambda>s.
        if hi \<noteq> l then guarded (onPart (l div 64) (lowMask (hi - l))) s else Inr s) = Inr (False, s)" for s
      unfolding fullLoop_stopped [OF f64 l] by simp
    show ?thesis unfolding testWords_def forEachWord_def f using True False full stop
      by (cases "lo = f"; cases "onPart (lo div 64) (highMask (f - lo)) s") (auto simp: l_def [symmetric])
  qed (use True in \<open>simp add: testWords_def forEachWord_def f l_def [symmetric]\<close>)
qed (simp add: testWords_def forEachWord_def)

locale word_test =
  fixes testPart :: "nat \<Rightarrow> word64 \<Rightarrow> 's \<Rightarrow> (bool \<times> 's) result" and testAll :: "nat \<Rightarrow> 's \<Rightarrow> (bool \<times> 's) result"
  assumes whole: "testAll idx s = testPart idx (- 1) s"

sublocale word_test \<subseteq> guard: word_op "\<lambda>idx m. guarded (testPart idx m)" "\<lambda>idx. guarded (testAll idx)"
  by unfold_locales (simp add: guarded_def whole split: prod.splits)

context word_test
begin

lemma testWords_rows:
  assumes "hi + 64 < 2 ^ 31"
  shows "testWords lo hi testPart testAll s =
    (if lo < hi then testRows (\<lambda>idx. testPart idx (range_mask lo hi idx)) [lo div 64..<(hi + 63) div 64] s else Inr (True, s))"
  unfolding testWords_guarded [OF assms] guard.forEachWord_rows [OF assms] by (simp add: testRows_guarded)

end

interpretation some_bits: word_test
  "\<lambda>idx m s. bindR (selectedWord bits isSet None idx m) (\<lambda>word. testSet func idx word s)"
  "\<lambda>idx s. bindR (selectedWord bits isSet None idx (- 1)) (\<lambda>word. testSet func idx word s)"
  for bits isSet func
  by unfold_locales simp

lemma testBits_rows:
  assumes "hi + 64 < 2 ^ 31" "hi \<le> 64 * length bits"
  shows "testBits bits lo hi isSet func s = testRows func (filter (\<lambda>j. bit_at bits j = isSet) [lo..<hi]) s"
proof (cases "lo < hi")
  case True
  have "\<exists>w. selectedWord bits isSet None idx (range_mask lo hi idx) = Inr w \<and>
      (\<forall>i<64. bit w i \<longleftrightarrow> bit (range_mask lo hi idx) i \<and> bit_at bits (idx * 64 + i) = isSet)"
    if "idx \<in> set [lo div 64..<(hi + 63) div 64]" for idx
    using selectedWord_ok [of idx bits None isSet "range_mask lo hi idx"] row_bound [OF assms(2) that]
    by (metis selected_def option.distinct(1) option.simps(4))
  then obtain v where v: "\<And>idx. idx \<in> set [lo div 64..<(hi + 63) div 64] \<Longrightarrow> selectedWord bits isSet None idx (range_mask lo hi idx) = Inr (v idx)"
    "\<And>idx i. idx \<in> set [lo div 64..<(hi + 63) div 64] \<Longrightarrow> i < 64 \<Longrightarrow>
       bit (v idx) i \<longleftrightarrow> bit (range_mask lo hi idx) i \<and> bit_at bits (idx * 64 + i) = isSet" by metis
  have "testBits bits lo hi isSet func s =
      testRows (\<lambda>idx. testRows func (map (\<lambda>i. idx * 64 + i) (ones (v idx)))) [lo div 64..<(hi + 63) div 64] s"
    unfolding testBits_def some_bits.testWords_rows [OF assms(1)] using True
    by (simp del: upt_Suc) (rule testRows_cong, simp add: v(1) testSet_rows)
  then show ?thesis using range_rows [OF True, of v "\<lambda>j. bit_at bits j = isSet"] v(2) by (simp add: testRows_concat)
next
  case False
  then show ?thesis unfolding testBits_def some_bits.testWords_rows [OF assms(1)] by simp
qed

text \<open>A test that only answers.\<close>

lemma testRows_pure: "testRows (\<lambda>x s. Inr (p x, s)) xs s = Inr (\<forall>x\<in>set xs. p x, s)"
  by (induction xs) simp_all

lemma range_all:
  assumes "lo < hi"
  shows "(\<forall>idx\<in>set [lo div 64..<(hi + 63) div 64]. \<forall>i<64. bit (range_mask lo hi idx) i \<longrightarrow> Q (idx * 64 + i)) \<longleftrightarrow> (\<forall>j\<in>{lo..<hi}. Q j)"
    (is "?L \<longleftrightarrow> _")
proof
  assume L: ?L
  show "\<forall>j\<in>{lo..<hi}. Q j"
  proof
    fix j assume j: "j \<in> {lo..<hi}"
    have "(j + 64) div 64 \<le> (hi + 63) div 64" using j by (intro div_le_mono) simp
    then have "j div 64 \<in> set [lo div 64..<(hi + 63) div 64]" using j by (auto simp: div_le_mono)
    moreover have "bit (range_mask lo hi (j div 64)) (j mod 64)" using j by (simp add: bit_range_mask)
    moreover have "j mod 64 < 64" by simp
    ultimately have "Q (j div 64 * 64 + j mod 64)" using L by blast
    then show "Q j" by simp
  qed
qed (auto simp: bit_range_mask)

interpretation subset_test: word_test
  "\<lambda>idx m s. bindR (readWord sub idx) (\<lambda>w. let subWord = w AND m in bindR (readWord super idx) (\<lambda>u. Inr (u AND subWord = subWord, s)))"
  "\<lambda>idx s. bindR (readWord sub idx) (\<lambda>subWord. bindR (readWord super idx) (\<lambda>u. Inr (u AND subWord = subWord, s)))"
  for sub super
  by unfold_locales simp

interpretation disjoint_test: word_test
  "\<lambda>idx m s. bindR (readWord left idx) (\<lambda>w. let leftWord = w AND m in bindR (readWord right idx) (\<lambda>u. Inr (u AND leftWord = 0, s)))"
  "\<lambda>idx s. bindR (readWord left idx) (\<lambda>leftWord. bindR (readWord right idx) (\<lambda>u. Inr (u AND leftWord = 0, s)))"
  for left right
  by unfold_locales simp

lemma word_subset: "u AND (w AND m) = w AND m \<longleftrightarrow> (\<forall>i<64. bit m i \<longrightarrow> bit w i \<longrightarrow> bit u (i :: nat))" for u :: word64
  by (auto simp: bit_eq_iff bit_and_iff dest: bit_word64)

lemma word_disjoint: "u AND (w AND m) = 0 \<longleftrightarrow> (\<forall>i<64. bit m i \<longrightarrow> \<not> (bit w i \<and> bit u (i :: nat)))" for u :: word64
  by (auto simp: bit_eq_iff bit_and_iff dest: bit_word64)

lemma isSubset_eq:
  assumes "hi + 64 < 2 ^ 31" "hi \<le> 64 * length sub" "hi \<le> 64 * length super"
  shows "isSubset sub super lo hi = Inr (\<forall>j\<in>{lo..<hi}. bit_at sub j \<longrightarrow> bit_at super j)"
proof (cases "lo < hi")
  case True
  have "testWords lo hi
       (\<lambda>idx m s. bindR (readWord sub idx) (\<lambda>w. let subWord = w AND m in bindR (readWord super idx) (\<lambda>u. Inr (u AND subWord = subWord, s))))
       (\<lambda>idx s. bindR (readWord sub idx) (\<lambda>subWord. bindR (readWord super idx) (\<lambda>u. Inr (u AND subWord = subWord, s)))) () =
     testRows (\<lambda>idx s. Inr (\<forall>i<64. bit (range_mask lo hi idx) i \<longrightarrow> bit_at sub (idx * 64 + i) \<longrightarrow> bit_at super (idx * 64 + i), s))
       [lo div 64..<(hi + 63) div 64] ()"
    unfolding subset_test.testWords_rows [OF assms(1)] using True row_bound [OF assms(2), of _ lo] row_bound [OF assms(3), of _ lo]
    by (simp del: upt_Suc) (rule testRows_cong, simp add: readWord_def word_subset bit_at_word)
  then show ?thesis
    unfolding isSubset_def testRows_pure range_all [OF True, of "\<lambda>j. bit_at sub j \<longrightarrow> bit_at super j"] by (simp only: bindR_simps prod.case)
next
  case False
  then show ?thesis unfolding isSubset_def subset_test.testWords_rows [OF assms(1)] by simp
qed

lemma hasIntersection_eq:
  assumes "hi + 64 < 2 ^ 31" "hi \<le> 64 * length left" "hi \<le> 64 * length right"
  shows "hasIntersection left right lo hi = Inr (\<exists>j\<in>{lo..<hi}. bit_at left j \<and> bit_at right j)"
proof (cases "lo < hi")
  case True
  have "testWords lo hi
        (\<lambda>idx m s. bindR (readWord left idx) (\<lambda>w. let leftWord = w AND m in bindR (readWord right idx) (\<lambda>u. Inr (u AND leftWord = 0, s))))
        (\<lambda>idx s. bindR (readWord left idx) (\<lambda>leftWord. bindR (readWord right idx) (\<lambda>u. Inr (u AND leftWord = 0, s)))) () =
     testRows (\<lambda>idx s. Inr (\<forall>i<64. bit (range_mask lo hi idx) i \<longrightarrow> \<not> (bit_at left (idx * 64 + i) \<and> bit_at right (idx * 64 + i)), s))
       [lo div 64..<(hi + 63) div 64] ()"
    unfolding disjoint_test.testWords_rows [OF assms(1)] using True row_bound [OF assms(2), of _ lo] row_bound [OF assms(3), of _ lo]
    by (simp del: upt_Suc) (rule testRows_cong, simp add: readWord_def word_disjoint bit_at_word)
  then show ?thesis using True
    unfolding hasIntersection_def testRows_pure range_all [OF True, of "\<lambda>j. \<not> (bit_at left j \<and> bit_at right j)"]
    by (simp only: bindR_simps prod.case) auto
next
  case False
  then show ?thesis by (auto simp: hasIntersection_def)
qed

section \<open>One bit\<close>

lemma isBitSet_eq: "j < 64 * length bits \<Longrightarrow> isBitSet bits j = Inr (bit_at bits j)"
proof -
  assume "j < 64 * length bits"
  then have "readWord bits (j div 64) = Inr (bits ! (j div 64))" by (auto simp: readWord_def)
  moreover have "w AND push_bit (j mod 64) 1 \<noteq> 0 \<longleftrightarrow> bit w (j mod 64)" for w :: word64
    by (auto simp: bit_iff_and_push_bit_not_eq_0)
  ultimately show ?thesis by (simp add: isBitSet_def bit_at_def)
qed

end
