(* ===== verification/Bit_Search.thy ===== *)
theory Bit_Search
  imports Bit_Queries
begin

unbundle bit_operations_syntax

text \<open>
  Searching a range of a bitmap: the whole words and the partial words at the ends are, one after the other, the bits of
  the range.
\<close>

section \<open>All bits of a range\<close>

lemma word_interval:
  assumes "idx * 64 \<le> lo" "hi \<le> idx * 64 + 64"
  shows "(\<forall>i<64. lo \<le> idx * 64 + i \<longrightarrow> idx * 64 + i < hi \<longrightarrow> Q (idx * 64 + i)) \<longleftrightarrow> (\<forall>j\<in>{lo..<hi}. Q (j :: nat))"
    (is "?L \<longleftrightarrow> _")
proof
  assume L: ?L
  show "\<forall>j\<in>{lo..<hi}. Q j"
  proof
    fix j assume "j \<in> {lo..<hi}"
    then have "j - idx * 64 < 64" "idx * 64 + (j - idx * 64) = j" "lo \<le> j" "j < hi" using assms by auto
    with L show "Q j" by metis
  qed
qed auto

definition expected :: "bool \<Rightarrow> word64" where
  "expected val = (if val then NOT 0 else 0)"

lemma bit_expected: "bit (expected val) i \<longleftrightarrow> val \<and> i < 64"
  by (simp add: expected_def)

lemma word_matches: "w AND m = expected val AND m \<longleftrightarrow> (\<forall>i<64. bit m i \<longrightarrow> bit w i = val)"
  by (auto simp: bit_eq_iff bit_and_iff bit_expected dest: bit_word64)

lemma word_expected: "w = expected val \<longleftrightarrow> (\<forall>i<64. bit w i = val)"
  by (auto simp: bit_eq_iff bit_expected dest: bit_word64)

lemma allLoop_eq: "a + n \<le> length bits \<Longrightarrow> allLoop bits (expected val) a n = Inr (\<forall>j\<in>{a * 64..<(a + n) * 64}. bit_at bits j = val)"
proof (induction n arbitrary: a)
  case (Suc n)
  let ?Q = "\<lambda>j. bit_at bits j = val"
  have word: "bits ! a = expected val \<longleftrightarrow> (\<forall>j\<in>{a * 64..<a * 64 + 64}. ?Q j)"
    using word_interval [of a "a * 64" "a * 64 + 64" ?Q] by (simp add: word_expected bit_at_word)
  have "{a * 64..<(a + Suc n) * 64} = {a * 64..<a * 64 + 64} \<union> {(a + 1) * 64..<(a + 1 + n) * 64}" by auto
  then have split: "(\<forall>j\<in>{a * 64..<(a + Suc n) * 64}. ?Q j) \<longleftrightarrow>
      (\<forall>j\<in>{a * 64..<a * 64 + 64}. ?Q j) \<and> (\<forall>j\<in>{(a + 1) * 64..<(a + 1 + n) * 64}. ?Q j)" by (simp add: ball_Un)
  have "allLoop bits (expected val) (a + 1) n = Inr (\<forall>j\<in>{(a + 1) * 64..<(a + 1 + n) * 64}. ?Q j)"
    using Suc(2) by (intro Suc(1)) simp
  then show ?case unfolding split word [symmetric] using Suc(2) by (simp add: readWord_def)
qed simp

lemma isAllSet_tail_eq:
  assumes "a * 64 \<le> hi" "hi \<le> 64 * length bits"
  shows "isAllSet_tail bits (expected val) a hi = Inr (\<forall>j\<in>{a * 64..<hi}. bit_at bits j = val)"
proof -
  let ?Q = "\<lambda>j. bit_at bits j = val"
  define b t where "b = hi div 64" and "t = hi mod 64"
  have hi: "hi = b * 64 + t" "t < 64" by (simp_all add: b_def t_def)
  have ab: "a \<le> b" "b \<le> length bits" using assms hi by auto
  have loop: "allLoop bits (expected val) a (b - a) = Inr (\<forall>j\<in>{a * 64..<b * 64}. ?Q j)"
    using allLoop_eq [of a "b - a" bits val] ab by simp
  have tail: "bits ! b AND lowMask t = expected val AND lowMask t \<longleftrightarrow> (\<forall>j\<in>{b * 64..<hi}. ?Q j)"
    using word_interval [of b "b * 64" hi ?Q] hi by (auto simp: word_matches bit_lowMask bit_at_word)
  have "{a * 64..<hi} = {a * 64..<b * 64} \<union> {b * 64..<hi}" using ab hi(1) by auto
  then have split: "(\<forall>j\<in>{a * 64..<hi}. ?Q j) \<longleftrightarrow> (\<forall>j\<in>{a * 64..<b * 64}. ?Q j) \<and> (\<forall>j\<in>{b * 64..<hi}. ?Q j)" by (simp add: ball_Un)
  show ?thesis
  proof (cases "t = 0")
    case True
    then have "{b * 64..<hi} = {}" using hi(1) by simp
    then show ?thesis unfolding isAllSet_tail_def b_def [symmetric] t_def [symmetric] split using True loop by simp
  next
    case False
    then have "readWord bits (max a b) = Inr (bits ! b)" using ab assms(2) hi by (simp add: readWord_def max_def)
    then show ?thesis unfolding isAllSet_tail_def b_def [symmetric] t_def [symmetric] split tail [symmetric] using False loop by (simp add: Let_def)
  qed
qed

lemma bit_from: "bit (push_bit r (NOT 0) :: word64) i \<longleftrightarrow> r \<le> i \<and> i < 64"
  by (auto simp: bit_not_iff bit_mask_iff)

lemma bit_begin_mask:
  "i < 64 \<Longrightarrow> bit (push_bit r (NOT 0) AND (if a * 64 + 64 > hi then lowMask (hi - a * 64) else NOT 0)) i \<longleftrightarrow> r \<le> i \<and> a * 64 + i < hi"
  unfolding bit_and_iff bit_from by (auto simp: bit_lowMask)

lemma isAllSet_eq:
  assumes "hi + 64 < 2 ^ 31" "hi \<le> 64 * length bits"
  shows "isAllSet bits lo hi val = Inr (\<forall>j\<in>{lo..<hi}. bit_at bits j = val)"
proof (cases "lo < hi")
  case True
  let ?Q = "\<lambda>j. bit_at bits j = val"
  define a r where "a = lo div 64" and "r = lo mod 64"
  have lo: "lo = a * 64 + r" "r < 64" by (simp_all add: a_def r_def)
  have a: "a < length bits" "addIndex (a * 64) 64 = Inr (a * 64 + 64)" using True assms lo by (simp_all add: addIndex_def)
  let ?m = "min hi (a * 64 + 64)"
  define m where "m = push_bit r (NOT 0) AND (if a * 64 + 64 > hi then lowMask (hi - a * 64) else NOT 0)"
  have "i < 64 \<Longrightarrow> bit m i \<longleftrightarrow> r \<le> i \<and> a * 64 + i < hi" for i unfolding m_def by (rule bit_begin_mask)
  then have part: "bits ! a AND m = expected val AND m \<longleftrightarrow> (\<forall>j\<in>{lo..<?m}. ?Q j)"
    using word_interval [of a lo ?m ?Q] lo by (simp add: word_matches bit_at_word imp_conjL)
  show ?thesis
  proof (cases "r = 0")
    case r: True
    then show ?thesis using True isAllSet_tail_eq [of a hi bits val] lo assms(2)
      by (simp add: isAllSet_def a_def [symmetric] expected_def [symmetric])
  next
    case r: False
    have w: "readWord bits a = Inr (bits ! a)" using a(1) by (simp add: readWord_def)
    have "isAllSet bits lo hi val = (if (\<forall>j\<in>{lo..<?m}. ?Q j) then if a * 64 + 64 > hi then Inr True
        else isAllSet_tail bits (expected val) (a + 1) hi else Inr False)"
      unfolding part [symmetric] m_def isAllSet_def using True r a(2) w
      by (simp add: a_def [symmetric] r_def [symmetric] expected_def [symmetric] Let_def)
    moreover have "(\<forall>j\<in>{lo..<hi}. ?Q j) \<longleftrightarrow> (\<forall>j\<in>{lo..<?m}. ?Q j) \<and> (\<forall>j\<in>{(a + 1) * 64..<hi}. ?Q j)" if "a * 64 + 64 \<le> hi"
    proof -
      have "{lo..<hi} = {lo..<?m} \<union> {(a + 1) * 64..<hi}" using that lo by auto
      then show ?thesis by (simp only: ball_Un)
    qed
    ultimately show ?thesis using isAllSet_tail_eq [of "a + 1" hi bits val] assms(2) by auto
  qed
qed (simp add: isAllSet_def)

section \<open>The first and the last bit\<close>

lemma find_filter: "find P xs = (case filter P xs of [] \<Rightarrow> None | x # _ \<Rightarrow> Some x)"
  by (induction xs) simp_all

lemma find_append: "find P (xs @ ys) = (case find P xs of None \<Rightarrow> find P ys | Some x \<Rightarrow> Some x)"
  by (induction xs) simp_all

lemma find_rev: "find P (rev xs) = (if filter P xs = [] then None else Some (last (filter P xs)))"
  by (simp add: find_filter rev_filter [symmetric] last_rev [symmetric] hd_rev split: list.splits)

lemma part_bits:
  assumes "idx * 64 \<le> lo" "lo \<le> hi" "hi \<le> idx * 64 + 64"
    "\<And>i. i < 64 \<Longrightarrow> bit w i \<longleftrightarrow> lo \<le> idx * 64 + i \<and> idx * 64 + i < hi \<and> Q (idx * 64 + i)"
  shows "filter Q [lo..<hi] = map (\<lambda>i. idx * 64 + i) (ones w)"
  using word_bits [of w "\<lambda>j. lo \<le> j \<and> j < hi \<and> Q j" idx] assms(4) filter_interval [OF assms(1-3), of Q] by simp

lemma last_ones: "w \<noteq> 0 \<Longrightarrow> ones w \<noteq> [] \<and> last (ones w) = 63 - clz w"
proof -
  assume w: "w \<noteq> 0"
  define k where "k = 63 - clz w"
  have k: "k < 64" "bit w k" "\<And>i. i < 64 \<Longrightarrow> k < i \<Longrightarrow> \<not> bit w i" using clz_least [OF w] by (auto simp: k_def)
  have "[0..<64] = [0..<k] @ k # [Suc k..<64]"
    using k(1) by (metis le_add1 less_imp_le_nat plus_nat.add_0 upt_add_eq_append upt_conv_Cons le_add_diff_inverse)
  moreover have "filter (bit w) [Suc k..<64] = []" using k(3) by (simp add: filter_empty_conv)
  ultimately have "ones w = filter (bit w) [0..<k] @ [k]" using k(2) by (simp add: ones_def)
  then show ?thesis by (simp add: k_def)
qed

lemma find_part:
  assumes "idx * 64 \<le> lo" "lo \<le> hi" "hi \<le> idx * 64 + 64"
    "\<And>i. i < 64 \<Longrightarrow> bit w i \<longleftrightarrow> lo \<le> idx * 64 + i \<and> idx * 64 + i < hi \<and> Q (idx * 64 + i)"
  shows "find Q [lo..<hi] = (if w \<noteq> 0 then Some (idx * 64 + ctz w) else None)"
    "find Q (rev [lo..<hi]) = (if w \<noteq> 0 then Some (idx * 64 + 63 - clz w) else None)"
proof -
  have bits: "filter Q [lo..<hi] = map (\<lambda>i. idx * 64 + i) (ones w)" by (rule part_bits [OF assms])
  show "find Q [lo..<hi] = (if w \<noteq> 0 then Some (idx * 64 + ctz w) else None)"
    unfolding find_filter bits by (simp add: ones_step ones_0)
  show "find Q (rev [lo..<hi]) = (if w \<noteq> 0 then Some (idx * 64 + 63 - clz w) else None)"
    unfolding find_rev bits using last_ones [of w] clz_least(1) [of w] by (auto simp: last_map ones_0)
qed

lemma upt_split: "lo \<le> m \<Longrightarrow> m \<le> hi \<Longrightarrow> [lo..<hi] = [lo..<m] @ [m..<hi]"
  by (metis upt_add_eq_append le_add_diff_inverse)

lemma firstLoop_eq: "a + n \<le> length bits \<Longrightarrow> firstLoop bits a n = Inr (find (bit_at bits) [a * 64..<(a + n) * 64])"
proof (induction n arbitrary: a)
  case (Suc n)
  have "find (bit_at bits) [a * 64..<(a + 1) * 64] = (if bits ! a \<noteq> 0 then Some (a * 64 + ctz (bits ! a)) else None)"
    by (rule find_part(1)) (auto simp: bit_at_word)
  moreover have "firstLoop bits (a + 1) n = Inr (find (bit_at bits) [(a + 1) * 64..<(a + 1 + n) * 64])"
    using Suc(2) by (intro Suc(1)) simp
  moreover have "[a * 64..<(a + Suc n) * 64] = [a * 64..<(a + 1) * 64] @ [(a + 1) * 64..<(a + 1 + n) * 64]"
    using upt_split [of "a * 64" "(a + 1) * 64" "(a + Suc n) * 64"] by simp
  ultimately show ?case using Suc(2) by (simp add: readWord_def find_append del: upt_Suc)
qed simp

lemma findFirst_tail_eq:
  assumes "a * 64 \<le> hi" "hi \<le> 64 * length bits"
  shows "findFirst_tail bits a hi = Inr (find (bit_at bits) [a * 64..<hi])"
proof -
  define b t where "b = hi div 64" and "t = hi mod 64"
  have hi: "hi = b * 64 + t" "t < 64" by (simp_all add: b_def t_def)
  have ab: "a \<le> b" "b \<le> length bits" using assms hi by auto
  have loop: "firstLoop bits a (b - a) = Inr (find (bit_at bits) [a * 64..<b * 64])"
    using firstLoop_eq [of a "b - a" bits] ab by simp
  have tail: "find (bit_at bits) [b * 64..<hi] = (let w = bits ! b AND lowMask t in if w \<noteq> 0 then Some (b * 64 + ctz w) else None)"
    unfolding Let_def using hi by (intro find_part(1)) (auto simp: bit_and_iff bit_lowMask bit_at_word)
  have split: "[a * 64..<hi] = [a * 64..<b * 64] @ [b * 64..<hi]" using ab hi(1) by (intro upt_split) auto
  show ?thesis
  proof (cases "t = 0")
    case True
    then have "b * 64 = hi" using hi(1) by simp
    then show ?thesis unfolding findFirst_tail_def b_def [symmetric] t_def [symmetric] using True loop by simp
  next
    case False
    then have "readWord bits (max a b) = Inr (bits ! b)" "max a b = b" using ab assms(2) hi by (simp_all add: readWord_def max_def)
    then show ?thesis unfolding findFirst_tail_def b_def [symmetric] t_def [symmetric] split find_append tail
      using False loop by (auto simp: Let_def split: option.splits)
  qed
qed

lemma findFirstBit_eq:
  assumes "hi + 64 < 2 ^ 31" "hi \<le> 64 * length bits"
  shows "findFirstBit bits lo hi = Inr (find (bit_at bits) [lo..<hi])"
proof (cases "lo < hi")
  case True
  define a r where "a = lo div 64" and "r = lo mod 64"
  have lo: "lo = a * 64 + r" "r < 64" by (simp_all add: a_def r_def)
  have a: "a < length bits" "addIndex (a * 64) 64 = Inr (a * 64 + 64)" using True assms lo by (simp_all add: addIndex_def)
  let ?m = "min hi (a * 64 + 64)"
  define m where "m = push_bit r (NOT 0) AND (if a * 64 + 64 > hi then lowMask (hi - a * 64) else NOT 0)"
  have "i < 64 \<Longrightarrow> bit m i \<longleftrightarrow> r \<le> i \<and> a * 64 + i < hi" for i unfolding m_def by (rule bit_begin_mask)
  then have part: "find (bit_at bits) [lo..<?m] = (if bits ! a AND m \<noteq> 0 then Some (a * 64 + ctz (bits ! a AND m)) else None)"
    using True lo by (intro find_part(1)) (auto simp: bit_and_iff bit_at_word)
  show ?thesis
  proof (cases "r = 0")
    case r: True
    then show ?thesis using True findFirst_tail_eq [of a hi bits] lo assms(2) by (simp add: findFirstBit_def a_def [symmetric])
  next
    case r: False
    have w: "readWord bits a = Inr (bits ! a)" using a(1) by (simp add: readWord_def)
    have step: "findFirstBit bits lo hi = (case find (bit_at bits) [lo..<?m] of Some j \<Rightarrow> Inr (Some j)
        | None \<Rightarrow> if a * 64 + 64 > hi then Inr None else findFirst_tail bits (a + 1) hi)"
      unfolding part m_def findFirstBit_def using True r a(2) w
      by (simp add: a_def [symmetric] r_def [symmetric] Let_def)
    show ?thesis
    proof (cases "a * 64 + 64 > hi")
      case one: True
      then show ?thesis unfolding step by (simp split: option.splits)
    next
      case many: False
      then have "[lo..<hi] = [lo..<?m] @ [(a + 1) * 64..<hi]" using upt_split [of lo ?m hi] lo by (simp add: add.commute)
      then show ?thesis unfolding step
        using many findFirst_tail_eq [of "a + 1" hi bits] assms(2) by (simp add: find_append split: option.splits)
    qed
  qed
qed (simp add: findFirstBit_def)

text \<open>The last bit with a value: the loops run downwards.\<close>

definition select :: "bool \<Rightarrow> word64 \<Rightarrow> word64" where
  "select val w = (if val then w else NOT w)"

lemma bit_select: "i < 64 \<Longrightarrow> bit (select val w) i \<longleftrightarrow> bit w i = val"
  by (simp add: select_def bit_not_iff)

lemma last_whole:
  "find (\<lambda>j. bit_at bits j = val) (rev [idx * 64..<idx * 64 + 64]) =
     (if select val (bits ! idx) \<noteq> 0 then Some (idx * 64 + 63 - clz (select val (bits ! idx))) else None)"
  by (rule find_part(2)) (auto simp: bit_at_word bit_select)

lemma lastLoop_eq:
  "b + n \<le> length bits \<Longrightarrow> lastLoop val bits b n = Inr (find (\<lambda>j. bit_at bits j = val) (rev [b * 64..<(b + n) * 64]))"
proof (induction n)
  case (Suc n)
  let ?Q = "\<lambda>j. bit_at bits j = val" and ?w = "select val (bits ! (b + n))"
  have "find ?Q (rev [(b + n) * 64..<(b + n) * 64 + 64]) = (if ?w \<noteq> 0 then Some ((b + n) * 64 + 63 - clz ?w) else None)"
    by (rule last_whole)
  moreover have "lastLoop val bits b n = Inr (find ?Q (rev [b * 64..<(b + n) * 64]))" using Suc by simp
  moreover have "[b * 64..<(b + Suc n) * 64] = [b * 64..<(b + n) * 64] @ [(b + n) * 64..<(b + n) * 64 + 64]"
    using upt_split [of "b * 64" "(b + n) * 64" "(b + n) * 64 + 64"] by (simp add: add.commute)
  ultimately show ?case using Suc(2) by (simp add: readWord_def find_append Let_def select_def [symmetric] del: upt_Suc)
qed simp

text \<open>The words before the one that holds the end of the range.\<close>

lemma findLast_rest:
  assumes "lo div 64 < b" "b \<le> length bits" "lo + 63 < 2 ^ 31"
  shows "bindR (addIndex lo 63) (\<lambda>roundedUp. findLast_tail val bits (roundedUp div 64) b (lo div 64) (lo mod 64)) =
    Inr (find (\<lambda>j. bit_at bits j = val) (rev [lo..<b * 64]))"
proof -
  let ?Q = "\<lambda>j. bit_at bits j = val"
  define a r where "a = lo div 64" and "r = lo mod 64"
  have lo: "lo = a * 64 + r" "r < 64" by (simp_all add: a_def r_def)
  define c where "c = (if r = 0 then a else a + 1)"
  have up: "addIndex lo 63 = Inr (lo + 63)" "(lo + 63) div 64 = c" using assms(3) lo(2) by (auto simp: addIndex_def lo(1) c_def)
  have c: "c \<le> b" "lo \<le> c * 64" using assms(1) lo by (auto simp: c_def a_def [symmetric])
  have loop: "lastLoop val bits c (b - c) = Inr (find ?Q (rev [c * 64..<b * 64]))"
    using lastLoop_eq [of c "b - c" bits val] c(1) assms(2) by simp
  have split: "[lo..<b * 64] = [lo..<c * 64] @ [c * 64..<b * 64]" using c by (intro upt_split) auto
  show ?thesis
  proof (cases "r = 0")
    case True
    then have "c * 64 = lo" using lo(1) by (simp add: c_def)
    then show ?thesis unfolding up bindR_simps a_def [symmetric] r_def [symmetric] using True up(2) loop by (simp add: findLast_tail_def)
  next
    case False
    define w where "w = select val (bits ! a) AND push_bit r (NOT 0)"
    have w: "i < 64 \<Longrightarrow> bit w i \<longleftrightarrow> bit (bits ! a) i = val \<and> r \<le> i" for i
      unfolding w_def bit_and_iff bit_from by (auto simp: bit_select)
    have "find ?Q (rev [lo..<c * 64]) = (if w \<noteq> 0 then Some (a * 64 + 63 - clz w) else None)"
      using False lo w by (intro find_part(2)) (auto simp: bit_at_word c_def)
    moreover have "readWord bits a = Inr (bits ! a)" using assms(1,2) by (simp add: readWord_def a_def)
    ultimately show ?thesis unfolding up bindR_simps a_def [symmetric] r_def [symmetric] split
      using False up(2) loop by (simp add: findLast_tail_def select_def [symmetric] find_append Let_def w_def split: option.splits)
  qed
qed

lemma findLastBit_eq:
  assumes "hi + 64 < 2 ^ 31" "hi \<le> 64 * length bits"
  shows "findLastBit bits lo hi val = Inr (find (\<lambda>j. bit_at bits j = val) (rev [lo..<hi]))"
proof (cases "lo < hi")
  case True
  let ?Q = "\<lambda>j. bit_at bits j = val"
  define a r b t where "a = lo div 64" and "r = lo mod 64" and "b = hi div 64" and "t = hi mod 64"
  have lo: "lo = a * 64 + r" "r < 64" and hi: "hi = b * 64 + t" "t < 64" by (simp_all add: a_def r_def b_def t_def)
  have ab: "a \<le> b" using True by (auto simp: a_def b_def div_le_mono)
  have b: "b \<le> length bits" "t \<noteq> 0 \<Longrightarrow> b < length bits" using assms(2) hi by auto
  let ?e = "max lo (b * 64)"
  define m where "m = lowMask t AND (if b = a then push_bit r (NOT 0) else NOT 0)"
  have m: "i < 64 \<Longrightarrow> bit m i \<longleftrightarrow> i < t \<and> (b = a \<longrightarrow> r \<le> i)" for i
    unfolding m_def bit_and_iff using bit_from [of r i] by (cases "b = a") (simp_all only: if_True if_False bit_lowMask, auto)
  have e: "b * 64 \<le> ?e" "?e \<le> hi" "hi \<le> b * 64 + 64" using True hi by auto
  have from_e: "lo \<le> b * 64 + i \<longleftrightarrow> (b = a \<longrightarrow> r \<le> i)" for i using ab lo by auto
  have last_word: "find ?Q (rev [?e..<hi]) = (let w = select val (bits ! b) AND m in if w \<noteq> 0 then Some (b * 64 + 63 - clz w) else None)"
    unfolding Let_def using hi(1) by (intro find_part(2) [OF e]) (auto simp: bit_and_iff bit_at_word bit_select m from_e)
  have read: "t \<noteq> 0 \<Longrightarrow> readWord bits b = Inr (bits ! b)" using b(2) by (simp add: readWord_def)
  note unfolded = findLastBit_def Let_def a_def [symmetric] r_def [symmetric] b_def [symmetric] t_def [symmetric] select_def [symmetric]
  show ?thesis
  proof (cases "a = b")
    case one: True
    then have t: "t \<noteq> 0" and e1: "?e = lo" using True lo hi by auto
    show ?thesis using True t one read last_word [unfolded e1 Let_def m_def] by (simp add: unfolded)
  next
    case False
    then have many: "a < b" and e2: "?e = b * 64" using ab lo by auto
    have "lo + 63 < 2 ^ 31" using True assms(1) by simp
    note rest = findLast_rest [OF many [unfolded a_def] b(1) this, of val, unfolded Let_def, folded a_def r_def]
    show ?thesis
    proof (cases "t = 0")
      case t: True
      then show ?thesis unfolding unfolded rest using True hi(1) by simp
    next
      case t: False
      have "rev [lo..<hi] = rev [b * 64..<hi] @ rev [lo..<b * 64]"
        using upt_split [of lo "b * 64" hi] e2 hi(1) by simp
      then show ?thesis unfolding unfolded rest using True t False read last_word [unfolded e2 Let_def m_def]
        by (simp add: find_append)
    qed
  qed
qed (simp add: findLastBit_def)

end
