(* ===== verification/Bit_Props.thy ===== *)
theory Bit_Props
  imports Bit_Search
begin

unbundle bit_operations_syntax

text \<open>
  The properties of bitmaps: the functions that work on words are what they are bit by bit.
\<close>

section \<open>Writing\<close>

interpretation fill: word_write
  "\<lambda>idx m bits. bindR (readWord bits idx) (\<lambda>w. writeWord bits idx (if val then w OR (- 1 AND m) else w AND NOT m))"
  "\<lambda>idx bits. writeWord bits idx (if val then - 1 else 0)" "\<lambda>j old. val" limit
  for val limit
  by unfold_locales (auto simp: readWord_def writeWord_def bit_or_iff bit_and_iff bit_not_iff)

definition operand_bit :: "operand \<Rightarrow> nat \<Rightarrow> bool \<Rightarrow> bool" where
  "operand_bit a j old = (case a of Target \<Rightarrow> old | Array bits \<Rightarrow> bit_at bits j)"

text \<open>How many words of an operand there are, when the target has \<open>n\<close>.\<close>

definition operand_length :: "operand \<Rightarrow> nat \<Rightarrow> nat" where
  "operand_length a n = (case a of Target \<Rightarrow> n | Array bits \<Rightarrow> length bits)"

lemma readOperand_bit:
  assumes "idx < operand_length a n" "idx < length target"
  obtains w where "readOperand a target idx = Inr w"
    "\<And>i. i < 64 \<Longrightarrow> bit w i \<longleftrightarrow> operand_bit a (idx * 64 + i) (bit (target ! idx) i)"
  using assms by (cases a) (auto simp: readOperand_def readWord_def operand_length_def operand_bit_def bit_at_def)

text \<open>The words that both bulk operations write.\<close>

lemma combine_part:
  assumes "idx < operand_length left n" "idx < operand_length right n" "idx < length target"
    and f: "\<And>l r i. i < 64 \<Longrightarrow> bit (f l r) i \<longleftrightarrow> g (bit l i) (bit r i)"
  shows "\<exists>w. bindR (readWord target idx) (\<lambda>t. bindR (readOperand left target idx) (\<lambda>l. bindR (readOperand right target idx) (\<lambda>r.
            writeWord target idx ((t AND NOT m) OR (m AND f l r))))) = Inr (target[idx := w]) \<and>
     (\<forall>i<64. bit w i \<longleftrightarrow> (if bit m i then g (operand_bit left (idx * 64 + i) (bit (target ! idx) i))
        (operand_bit right (idx * 64 + i) (bit (target ! idx) i)) else bit (target ! idx) i))"
proof -
  from readOperand_bit [OF assms(1,3)] obtain l where l: "readOperand left target idx = Inr l"
    "\<And>i. i < 64 \<Longrightarrow> bit l i \<longleftrightarrow> operand_bit left (idx * 64 + i) (bit (target ! idx) i)" by blast
  from readOperand_bit [OF assms(2,3)] obtain r where r: "readOperand right target idx = Inr r"
    "\<And>i. i < 64 \<Longrightarrow> bit r i \<longleftrightarrow> operand_bit right (idx * 64 + i) (bit (target ! idx) i)" by blast
  show ?thesis using l r f assms(3)
    by (auto simp: readWord_def writeWord_def bit_or_iff bit_and_iff bit_not_iff)
qed

text \<open>The whole word is the partial word with all bits in the mask. An array that ends early makes both fail alike.\<close>

lemma combine_full:
  "bindR (readOperand left target idx) (\<lambda>l. bindR (readOperand right target idx) (\<lambda>r. writeWord target idx (f l r))) =
   bindR (readWord target idx) (\<lambda>t. bindR (readOperand left target idx) (\<lambda>l. bindR (readOperand right target idx) (\<lambda>r.
            writeWord target idx ((t AND NOT (- 1)) OR (- 1 AND f l r)))))"
  by (auto simp: readOperand_def readWord_def writeWord_def split: operand.splits)

interpretation conj_bits: word_write
  "\<lambda>idx m target. bindR (readWord target idx) (\<lambda>t. bindR (readOperand left target idx) (\<lambda>l. bindR (readOperand right target idx) (\<lambda>r.
     writeWord target idx ((t AND NOT m) OR (m AND l AND (if negate then NOT r else r))))))"
  "\<lambda>idx target. bindR (readOperand left target idx) (\<lambda>l. bindR (readOperand right target idx) (\<lambda>r.
     writeWord target idx (l AND (if negate then NOT r else r))))"
  "\<lambda>j old. operand_bit left j old \<and> operand_bit right j old \<noteq> negate" "min (operand_length left n) (operand_length right n)"
  for negate left right n
proof unfold_locales
  fix idx m and target :: words
  assume "idx < length target" "idx < min (operand_length left n) (operand_length right n)"
  then show "\<exists>w. bindR (readWord target idx) (\<lambda>t. bindR (readOperand left target idx) (\<lambda>l. bindR (readOperand right target idx) (\<lambda>r.
     writeWord target idx ((t AND NOT m) OR (m AND l AND (if negate then NOT r else r)))))) = Inr (target[idx := w]) \<and>
     (\<forall>i<64. bit w i \<longleftrightarrow> (if bit m i then operand_bit left (idx * 64 + i) (bit (target ! idx) i) \<and>
        operand_bit right (idx * 64 + i) (bit (target ! idx) i) \<noteq> negate else bit (target ! idx) i))"
    using combine_part [of idx left n right target "\<lambda>l r. l AND (if negate then NOT r else r)" "\<lambda>a b. a \<and> b \<noteq> negate" m]
    by (simp add: bit_and_iff bit_not_iff)
qed (use combine_full [where f = "\<lambda>l r. l AND (if negate then NOT r else r)"] in simp)

interpretation disj_bits: word_write
  "\<lambda>idx m target. bindR (readWord target idx) (\<lambda>t. bindR (readOperand left target idx) (\<lambda>l. bindR (readOperand right target idx) (\<lambda>r.
     writeWord target idx ((t AND NOT m) OR (m AND (l OR (if negate then NOT r else r)))))))"
  "\<lambda>idx target. bindR (readOperand left target idx) (\<lambda>l. bindR (readOperand right target idx) (\<lambda>r.
     writeWord target idx (l OR (if negate then NOT r else r))))"
  "\<lambda>j old. operand_bit left j old \<or> operand_bit right j old \<noteq> negate" "min (operand_length left n) (operand_length right n)"
  for negate left right n
proof unfold_locales
  fix idx m and target :: words
  assume "idx < length target" "idx < min (operand_length left n) (operand_length right n)"
  then show "\<exists>w. bindR (readWord target idx) (\<lambda>t. bindR (readOperand left target idx) (\<lambda>l. bindR (readOperand right target idx) (\<lambda>r.
     writeWord target idx ((t AND NOT m) OR (m AND (l OR (if negate then NOT r else r))))))) = Inr (target[idx := w]) \<and>
     (\<forall>i<64. bit w i \<longleftrightarrow> (if bit m i then operand_bit left (idx * 64 + i) (bit (target ! idx) i) \<or>
        operand_bit right (idx * 64 + i) (bit (target ! idx) i) \<noteq> negate else bit (target ! idx) i))"
    using combine_part [of idx left n right target "\<lambda>l r. l OR (if negate then NOT r else r)" "\<lambda>a b. a \<or> b \<noteq> negate" m]
    by (simp add: bit_or_iff bit_not_iff)
qed (use combine_full [where f = "\<lambda>l r. l OR (if negate then NOT r else r)"] in simp)

section \<open>Properties\<close>

text \<open>The result of writing a range: the bits of the range are computed from their position and old value, the others are kept.\<close>

definition bitwise :: "words \<Rightarrow> nat \<Rightarrow> nat \<Rightarrow> (nat \<Rightarrow> bool \<Rightarrow> bool) \<Rightarrow> words result \<Rightarrow> bool" where
  "bitwise bits lo hi new r = (case r of Inl _ \<Rightarrow> False | Inr bits' \<Rightarrow> length bits' = length bits \<and>
     (\<forall>j<64 * length bits. bit_at bits' j \<longleftrightarrow> (if lo \<le> j \<and> j < hi then new j (bit_at bits j) else bit_at bits j)))"

lemma bitwiseI:
  "\<exists>bits'. r = Inr bits' \<and> length bits' = length bits \<and>
     (\<forall>j<64 * length bits. bit_at bits' j \<longleftrightarrow> (if lo \<le> j \<and> j < hi then new j (bit_at bits j) else bit_at bits j)) \<Longrightarrow>
   bitwise bits lo hi new r"
  by (auto simp: bitwise_def)

lemma fillBits_bitwise:
  "hi + 64 < 2 ^ 31 \<Longrightarrow> hi \<le> 64 * length bits \<Longrightarrow> bitwise bits lo hi (\<lambda>j old. val) (fillBits bits lo hi val)"
  unfolding fillBits_def by (intro bitwiseI fill.forEachWord_pointwise [of hi bits "length bits" lo val]) simp_all

lemma andRange_bitwise:
  assumes "hi + 64 < 2 ^ 31" "hi \<le> 64 * length target"
    "hi \<le> 64 * operand_length left (length target)" "hi \<le> 64 * operand_length right (length target)"
  shows "bitwise target lo hi (\<lambda>j old. operand_bit left j old \<and> operand_bit right j old \<noteq> negate) (andRange negate target left right lo hi)"
  unfolding andRange_def using assms
  by (intro bitwiseI conj_bits.forEachWord_pointwise [of hi target left "length target" right lo negate]) (simp_all add: min_def)

lemma orRange_bitwise:
  assumes "hi + 64 < 2 ^ 31" "hi \<le> 64 * length target"
    "hi \<le> 64 * operand_length left (length target)" "hi \<le> 64 * operand_length right (length target)"
  shows "bitwise target lo hi (\<lambda>j old. operand_bit left j old \<or> operand_bit right j old \<noteq> negate) (orRange negate target left right lo hi)"
  unfolding orRange_def using assms
  by (intro bitwiseI disj_bits.forEachWord_pointwise [of hi target left "length target" right lo negate]) (simp_all add: min_def)

lemmas operand_simps = operand_length_def operand_bit_def

text \<open>
  C6. Writing a range of bits, word by word, is writing its bits one by one. For arrays that hold the range and a range that
  ends 64 bits before the limit of the index type, \<^verbatim>\<open>fillBits\<close> sets the bits of the range to the value, and the eight
  bitwise operations, with two operands or in place, with the right operand negated or not, set each bit of the range to
  the operation on the bits at the same position. They access nothing out of bounds and leave all other bits
  as they were, also those in the same words.
\<close>

theorem bulk_writes_are_bitwise:
  assumes "hi + 64 < 2 ^ 31" "hi \<le> 64 * length target" "hi \<le> 64 * length left" "hi \<le> 64 * length right"
  shows "bitwise target lo hi (\<lambda>j old. val) (fillBits target lo hi val)
    \<and> bitwise target lo hi (\<lambda>j old. bit_at left j \<and> bit_at right j) (andBits target left right lo hi)
    \<and> bitwise target lo hi (\<lambda>j old. old \<and> bit_at right j) (andBits_inplace target right lo hi)
    \<and> bitwise target lo hi (\<lambda>j old. bit_at left j \<and> \<not> bit_at right j) (andWithNegatedBits target left right lo hi)
    \<and> bitwise target lo hi (\<lambda>j old. old \<and> \<not> bit_at right j) (andWithNegatedBits_inplace target right lo hi)
    \<and> bitwise target lo hi (\<lambda>j old. bit_at left j \<or> bit_at right j) (orBits target left right lo hi)
    \<and> bitwise target lo hi (\<lambda>j old. old \<or> bit_at right j) (orBits_inplace target right lo hi)
    \<and> bitwise target lo hi (\<lambda>j old. bit_at left j \<or> \<not> bit_at right j) (orWithNegatedBits target left right lo hi)
    \<and> bitwise target lo hi (\<lambda>j old. old \<or> \<not> bit_at right j) (orWithNegatedBits_inplace target right lo hi)"
proof -
  note two = andRange_bitwise [OF assms(1,2), of "Array left" "Array right" lo] orRange_bitwise [OF assms(1,2), of "Array left" "Array right" lo]
  note one = andRange_bitwise [OF assms(1,2), of Target "Array right" lo] orRange_bitwise [OF assms(1,2), of Target "Array right" lo]
  show ?thesis
    using fillBits_bitwise [OF assms(1,2)] two [of False] two [of True] one [of False] one [of True] assms
    by (simp add: operand_simps andBits_def andBits_inplace_def andWithNegatedBits_def andWithNegatedBits_inplace_def
        orBits_def orBits_inplace_def orWithNegatedBits_def orWithNegatedBits_inplace_def)
qed

lemma visited:
  "hi + 64 < 2 ^ 31 \<Longrightarrow> hi \<le> 64 * length bits \<Longrightarrow>
     forEachBit bits lo hi val visitor None s = rowLoop visitor (filter (\<lambda>j. bit_at bits j = val) [lo..<hi]) s"
  "hi + 64 < 2 ^ 31 \<Longrightarrow> hi \<le> 64 * length bits \<Longrightarrow> hi \<le> 64 * length other \<Longrightarrow>
     forEachBit bits lo hi val visitor (Some other) s = rowLoop visitor (filter (\<lambda>j. bit_at bits j = val \<and> bit_at other j) [lo..<hi]) s"
proof -
  have sel: "selected bits val None = (\<lambda>j. bit_at bits j = val)"
    "selected bits val (Some other) = (\<lambda>j. bit_at bits j = val \<and> bit_at other j)"
    by (simp_all add: selected_def fun_eq_iff)
  show "hi + 64 < 2 ^ 31 \<Longrightarrow> hi \<le> 64 * length bits \<Longrightarrow>
     forEachBit bits lo hi val visitor None s = rowLoop visitor (filter (\<lambda>j. bit_at bits j = val) [lo..<hi]) s"
    unfolding sel(1) [symmetric] by (rule forEachBit_rows) simp_all
  show "hi + 64 < 2 ^ 31 \<Longrightarrow> hi \<le> 64 * length bits \<Longrightarrow> hi \<le> 64 * length other \<Longrightarrow>
     forEachBit bits lo hi val visitor (Some other) s = rowLoop visitor (filter (\<lambda>j. bit_at bits j = val \<and> bit_at other j) [lo..<hi]) s"
    unfolding sel(2) [symmetric] by (rule forEachBit_rows) simp_all
qed

text \<open>
  C9. The questions about a range of bits, which the code answers word by word, are those about its bits. For arrays that
  hold the range and a range that ends 64 bits before the limit of the index type: \<^verbatim>\<open>countBits\<close> counts the set bits;
  \<^verbatim>\<open>isAllSet\<close>, \<^verbatim>\<open>isSubset\<close> and \<^verbatim>\<open>hasIntersection\<close> tell whether all bits have the value, imply those of the other array or
  meet one; \<^verbatim>\<open>findFirstBit\<close> and \<^verbatim>\<open>findLastBit\<close> find the first set bit and the last with the value; \<^verbatim>\<open>forEachBit\<close> calls
  its function exactly on the selected bits, in order, and \<^verbatim>\<open>testBits\<close> on those up to the first that it refuses.
\<close>

theorem range_queries_are_bitwise:
  assumes "hi + 64 < 2 ^ 31" "hi \<le> 64 * length bits" "hi \<le> 64 * length other"
  shows "countBits bits lo hi = Inr (length (filter (bit_at bits) [lo..<hi]))
    \<and> isAllSet bits lo hi val = Inr (\<forall>j\<in>{lo..<hi}. bit_at bits j = val)
    \<and> isSubset bits other lo hi = Inr (\<forall>j\<in>{lo..<hi}. bit_at bits j \<longrightarrow> bit_at other j)
    \<and> hasIntersection bits other lo hi = Inr (\<exists>j\<in>{lo..<hi}. bit_at bits j \<and> bit_at other j)
    \<and> findFirstBit bits lo hi = Inr (find (bit_at bits) [lo..<hi])
    \<and> findLastBit bits lo hi val = Inr (find (\<lambda>j. bit_at bits j = val) (rev [lo..<hi]))
    \<and> forEachBit bits lo hi val visitor None s = rowLoop visitor (filter (\<lambda>j. bit_at bits j = val) [lo..<hi]) s
    \<and> forEachBit bits lo hi val visitor (Some other) s = rowLoop visitor (filter (\<lambda>j. bit_at bits j = val \<and> bit_at other j) [lo..<hi]) s
    \<and> testBits bits lo hi val check t = testRows check (filter (\<lambda>j. bit_at bits j = val) [lo..<hi]) t"
  using assms by (simp only: countBits_eq isAllSet_eq isSubset_eq hasIntersection_eq findFirstBit_eq findLastBit_eq testBits_rows
      visited simp_thms)

section \<open>Witnesses\<close>

lemmas evaluate = forEachWord_def roundUp_def fullLoop.simps readWord_def writeWord_def readOperand_def lowMask_def highMask_def
  andWithNegatedBits_def andRange_def

theorem bulk_writes_are_bitwise_witness:
  "bitwise [0xF0, 0xF0] 60 70 (\<lambda>j old. bit_at [- 1, 0xFF] j \<and> \<not> bit_at [0, 0x0F] j) (andWithNegatedBits [0xF0, 0xF0] [- 1, 0xFF] [0, 0x0F] 60 70)
   \<and> andWithNegatedBits [0xF0, 0xF0] [- 1, 0xFF] [0, 0x0F] 60 70 = Inr [0xF0000000000000F0, 0xF0]"
proof
  show "bitwise [0xF0, 0xF0] 60 70 (\<lambda>j old. bit_at [- 1, 0xFF] j \<and> \<not> bit_at [0, 0x0F] j) (andWithNegatedBits [0xF0, 0xF0] [- 1, 0xFF] [0, 0x0F] 60 70)"
    using bulk_writes_are_bitwise [of 70 "[0xF0, 0xF0]" "[- 1, 0xFF]" "[0, 0x0F]" 60 True] by simp
qed (simp add: evaluate)

theorem range_queries_are_bitwise_witness:
  "countBits [- 1, 0xF0] 60 70 = Inr (length (filter (bit_at [- 1, 0xF0]) [60..<70])) \<and> length (filter (bit_at [- 1, 0xF0]) [60..<70]) = 6"
proof
  show "countBits [- 1, 0xF0] 60 70 = Inr (length (filter (bit_at [- 1, 0xF0]) [60..<70]))"
    using range_queries_are_bitwise [of 70 "[- 1, 0xF0]" "[0, 0]" 60 True "\<lambda>j s. Inr (j # s)" "[]" "\<lambda>j s. Inr (True, s)" "()"]
    by (simp del: upt_rec_numeral)
qed (simp add: bit_at_def)

end
