(* ===== verification/Spec2Isabelle.thy ===== *)
theory Spec2Isabelle
  imports Filter_Int_Props Filter_Bytes_Props Filter_Wide_Props Merge_Props Arena_Managed Coding_Props Base64_Props Output_Race Output_Arb_Run Bit_Props
begin

text \<open>
  \<^bold>\<open>Verification of components of the Bolt query engine.\<close> Bolt is a vectorised execution engine: a task runs a plan
  fragment with drivers that push batches of columns through operators, and exchanges pages of serialised rows with
  other tasks. The development models eight of its parts, each self-contained in the sources and each relied on by
  many others. Paths below are relative to \<^verbatim>\<open>src/bolt\<close>.

  \<^item> \<^bold>\<open>Filters\<close> (\<^verbatim>\<open>type/filter\<close>) are the pushed-down conditions that file readers test on values and on the
    statistics of stripes and row groups. The optimiser combines them with \<^verbatim>\<open>mergeWith\<close>.
  \<^item> \<^bold>\<open>Sorting with spilling\<close> (\<^verbatim>\<open>exec/TreeOfLosers.h\<close>, \<^verbatim>\<open>exec/Spill.cpp\<close>, \<^verbatim>\<open>exec/SortBuffer.cpp\<close>): a sort that runs out of
    memory writes sorted files and merges them with a tree of losers.
  \<^item> \<^bold>\<open>The arena allocator\<close> (\<^verbatim>\<open>common/memory/MmapArena.cpp\<close>) cuts mapped regions into blocks for the memory allocator.
  \<^item> \<^bold>\<open>Integer coding\<close> (\<^verbatim>\<open>common/encode/Coding.h\<close>, \<^verbatim>\<open>UInt128.h\<close>) and \<^bold>\<open>Base64\<close> (\<^verbatim>\<open>common/encode/Base64.cpp\<close>) serve the file
    formats, the serialisers and the SQL functions.
  \<^item> \<^bold>\<open>Bitmaps\<close> (\<^verbatim>\<open>common/base/BitUtil.h\<close>) hold the null flags of vectors and the selected rows of every expression.
  \<^item> \<^bold>\<open>The output buffer\<close> (\<^verbatim>\<open>exec/OutputBuffer.cpp\<close>) is where a task leaves its result pages for the tasks that fetch
    them, and where its producers are blocked when the consumers are slow.

  \<^bold>\<open>Conventions.\<close> \<open>Bolt_Prelude\<close> holds the errors as values: an operation returns \<open>bolt_error + 'a\<close>, with one error
  per kind of failure of the code (a failed \<^verbatim>\<open>BOLT_CHECK\<close>, \<^verbatim>\<open>BOLT_UNSUPPORTED\<close>, \<^verbatim>\<open>BOLT_UNREACHABLE\<close>, a user error, an
  exception of the library) and \<open>UndefinedBehaviour\<close> for signed overflow and accesses out of bounds. Integers
  are \<open>int\<close> or \<open>nat\<close> with the range checked or the wrap-around written out where the code computes with values of its
  callers, and words where it works on bits. Three kinds of counters have no width: the indices of
  \<^verbatim>\<open>binarySearch\<close>, exact for less than \<open>2 ^ 31\<close> ranges (\<open>binarySearch_narrow\<close>), the lengths of lists and queues, and the counters
  of the output buffer, whose theory states when they are exact. A class hierarchy is a datatype with a constructor per class; a call of a virtual method is a call of a
  dispatching function; an interface that the caller implements is a record of functions. A long-lived object is a
  record, its methods are functions on the record, and an inductive predicate describes the sequences of calls
  (\<open>tree_run\<close>, \<open>arena_run\<close>, \<open>managed_run\<close>, \<open>ob_run\<close>), so that invariants hold over all histories.

  \<^bold>\<open>Filters.\<close> \<open>Filter_Base\<close> has the classes of \<^verbatim>\<open>FilterBase.h\<close> and their constructors; \<open>Filter_Tests\<close> the tests
  of values, ranges and lengths and the copies; \<open>Filter_Merge_Int\<close> and \<open>Filter_Merge\<close> have \<^verbatim>\<open>mergeWith\<close> of every class
  with the helpers of \<^verbatim>\<open>Filter.cpp\<close> and \<^verbatim>\<open>FilterUtil.cpp\<close>. The classes call each other through the virtual
  \<^verbatim>\<open>mergeWith\<close>, so each is defined with that function as an argument, and the knot is tied with fuel:
  \<open>mergeWith\<close> supplies \<open>8 + 4 * (multi_depth this + multi_depth other)\<close> calls. C2 and C7 show that this is enough, as the merges
  return. The locales \<open>int_merge_sound\<close>, \<open>bytes_merge_sound\<close> and \<open>wide_merge_sound\<close> state what a class may assume of
  the virtual function; the classes are proved inside them and \<open>mergeWith\<close> itself interprets each.
  \<^item> \<open>Filter_Int\<close> to \<open>Filter_Int_Props\<close>: merging filters on 64-bit integers is conjunction (C1) and returns (C2);
    skipping by statistics is safe, but for one signed overflow that is characterised exactly (C3); value lists without
    duplicates are membership whichever representation is chosen, and what lists with duplicates accept (C4); disjunctions of
    ranges are unions (C5); the vectorised tests agree with the scalar one (\<open>BigintRange_testValues_agree\<close>).
  \<^item> \<open>Filter_Bytes\<close> to \<open>Filter_Bytes_Props\<close>: merging filters on byte strings returns and is conjunction (C7); skipping by
    statistics is safe (C8), and so is skipping by length except for a negated value (C10).
  \<^item> \<open>Filter_Wide\<close> and \<open>Filter_Wide_Props\<close>: which merges of filters on 128-bit integers and timestamps return, and that they
    lose no value but for a copied list (C11); what the merges of ranges pass, which is not conjunction (C12); a copied
    list of 128-bit integers rejects everything (C13).

  \<^bold>\<open>Sorting with spilling.\<close> \<open>Losers\<close> models \<^verbatim>\<open>TreeOfLosers\<close> and \<^verbatim>\<open>MergeArray\<close> over any implementation of \<^verbatim>\<open>MergeStream\<close>;
  \<open>Spill_Merge\<close> the streams over spill files, the comparison of rows, and the output loop of the sort buffer; \<open>Bolt_Bits\<close>
  the rounding up to powers of two. \<open>Losers_Tour\<close> is the abstract tournament: each node keeps the loser of its
  subtrees' winners. \<open>Losers_Run\<close> and \<open>Losers_Equals\<close> show that the operations play it, in the locales
  \<open>merge_streams\<close> and \<open>merge_streams_eq\<close> (the second extends the first), which ask for a strict weak order; \<open>Spill_Sorted\<close>
  interprets both for the streams over spill files. \<open>Merge_Props\<close>: the least stream at every call (C14), the flags for
  duplicates (C15), the output of a spilled sort is the sorted multiset of the rows (C16), \<^verbatim>\<open>MergeArray\<close> (C18,
  from \<open>Losers_Array\<close>). The recursion of \<^verbatim>\<open>first\<close> has fuel; it is enough for up to 32768 streams, and beyond that the
  code recurses forever: no fuel is enough (C17).

  \<^bold>\<open>The arena allocator.\<close> \<open>Ordered_Map\<close> is \<^verbatim>\<open>std::map\<close> with iterators to neighbours; \<open>Arena\<close> has \<^verbatim>\<open>MmapArena\<close> and
  \<open>Arena_Managed\<close> has \<^verbatim>\<open>ManagedMmapArenas\<close>. The element that an unordered set yields first and the addresses that
  \<^verbatim>\<open>mmap\<close> returns are parameters. \<open>Arena_Blocks\<close>, \<open>Arena_Inv\<close> and \<open>Arena_Free\<close> keep the invariant that free and allocated
  blocks tile the region with no two free blocks touching. \<open>Arena_Props\<close> and \<open>Arena_Managed\<close>: blocks never overlap and the
  code's own consistency check succeeds in every reachable state (C19); allocation fails only without room (C20); freeing
  everything restores the region (C21); over several arenas, every block can be given back (C23) and when no block is
  returned and an arena is added (C24). Requests have at most \<open>2 ^ 63\<close> bytes, beyond which rounding wraps around.

  \<^bold>\<open>Integer coding and Base64.\<close> \<open>Coding\<close> and \<open>Base64\<close> are the models. \<open>Coding_Props\<close> relates all encoders and
  decoders to one code on naturals: round trips (C25, C28, C29; C28 for chunks of less than 2 GiB, as the decoders count
  their bytes in 32 bits, and \<open>large_chunk_fails\<close> beyond), when decoding succeeds (C26), sizes (C27), \<^verbatim>\<open>UInt128\<close>
  refines 128-bit words (C30). The locale \<open>byte_source_laws\<close> is what a decoder expects of a source of chunks; the
  string source interprets it. \<open>Base64_Props\<close>: round trips (C31, C33) and the accepted strings (C32), proved once in the
  locale \<open>alphabet\<close>, which both alphabets interpret.

  \<^bold>\<open>The output buffer.\<close> \<open>Output_Buffer\<close> has the shared queue, the buffer of one destination and the output buffer with
  all its operations. \<open>Output_Dest\<close> relates a destination to its stream, the sequence of pages sent to it followed by the
  end marker; \<open>Output_Inv\<close> and \<open>Output_Run\<close> show that every operation keeps the invariant for partitioned and broadcast
  output, \<open>Output_Arb\<close> and \<open>Output_Arb_Run\<close> for arbitrary output; the locale \<open>run_invariant\<close> carries an invariant along
  runs and is interpreted for the three kinds. A run is any sequence of the operations that change the buffer, under the
  protocol of its callers: a page is enqueued once, before the end, is not empty and has a row count, and drivers do not change
  after the end. \<open>Output_Props\<close>, for partitioned and broadcast output: what a fetch returns refines reading the stream (C34);
  the counted bytes are exact unless a broadcast is finished (C35); a consumer reads to the end (C36); which calls wake up
  waiting consumers and blocked producers (C37), while a producer may stay blocked for good when the limit is at most one byte
  or in the race below; when operations fail (C38); the destinations are well-formed (C39). Arbitrary output gives each page to
  one destination (C22). \<open>Output_Race\<close>: two
  acknowledgements that overlap lose track of a page (C40); the other theorems take each call as atomic. The fuel of the
  consumer in C36 is the number of fetches, which the theorem bounds by the length of the stream.

  \<^bold>\<open>Bitmaps.\<close> \<open>Bit_Words\<close> has the functions on ranges of bits, which work on whole words with masks for the ends; their
  callbacks are functions on the state they capture. \<open>Bit_Ranges\<close> shows that the loop \<^verbatim>\<open>forEachWord\<close> visits the words of the
  range once, each with the mask of the bits in the range, for callbacks that meet the locale \<open>word_op\<close>; the locale
  \<open>word_write\<close> extends it for callbacks that compute bits, and \<open>word_test\<close> of \<open>Bit_Queries\<close>, a sublocale of \<open>word_op\<close>, is for
  tests that may end the loop. The callbacks of the functions interpret them. \<open>Bit_Search\<close> is about the searches that do not use
  the loop. \<open>Bit_Props\<close>: writing a range is writing its bits (C6), the questions about a range are those about its bits (C9).
  Indices are bounded by \<open>hi + 64 < 2 ^ 31\<close>, since the loops add 64 to an \<^verbatim>\<open>int32_t\<close>.

  \<^bold>\<open>Not modelled.\<close>
  \<^item> Within the parts above: filters on floating-point numbers, and Like, cast and subscript filters, whose tests are
    those of other libraries; the serialisation of filters to JSON; row-based spill streams, writing and compressing spill
    files, which is file input and output; the group varints, which are folly's; the IOBuf variants of Base64, over chains of
    buffers of folly; the variants of the bit searches for vector instructions, bits of byte arrays, scatter and gather;
    timing and logging.
  \<^item> Other parts of the engine: the operators, the hash table and the task scheduler (\<^verbatim>\<open>exec\<close>), the expression evaluator and
    the functions, vectors and their encodings, the file formats (\<^verbatim>\<open>dwio\<close>), connectors, the memory pools and their
    arbitration, shuffles and serialisers, the just-in-time compiler, and the bindings to Arrow, DuckDB, Substrait, cuDF, Torch and Python.
    They are built on templates over vectors, third-party code, floating point, generated machine code, input and output,
    or threads that the models here have no counterpart of.
\<close>

end
